(* ===== verification/Itch_Prelude.thy ===== *)
theory Itch_Prelude
  imports Main "HOL-Library.Word"
begin

unbundle bit_operations_syntax

text \<open>
  Shared vocabulary of the development: the integer types and constants of
  \<^verbatim>\<open>include/common/types.hpp\<close> and \<^verbatim>\<open>include/common/constants.hpp\<close>, the C memory
  operations the order book and the packet code use (\<^verbatim>\<open>memmove\<close> inside an array), and
  generic lemmas on lists, maps and machine words.

  Conventions. An unsigned C++ integer whose wrap-around can matter is a machine word
  (\<^typ>\<open>32 word\<close> for \<^verbatim>\<open>uint32_t\<close>). An index or a count that the code only compares and
  uses to address an array is a \<^typ>\<open>nat\<close>; its bound is part of the component's invariant.
  A price is an \<^typ>\<open>int\<close>: the code copies and compares prices and never computes with
  them, so the width of \<^verbatim>\<open>int64_t\<close> cannot be exceeded.
\<close>

section \<open>Types and constants\<close>

type_synonym u8 = "8 word"
type_synonym u16 = "16 word"
type_synonym u32 = "32 word"
type_synonym u64 = "64 word"

type_synonym OrderId = u64
type_synonym Price = int
type_synonym Qty = u32
type_synonym LocateCode = u16
type_synonym Timestamp = u64

text \<open>A counter of \<^verbatim>\<open>FeedStats\<close>: \<^verbatim>\<open>std::atomic<uint64_t>\<close>, incremented with \<^verbatim>\<open>fetch_add\<close>.\<close>

type_synonym counter = u64

definition NUM_SHARDS :: nat where "NUM_SHARDS = 8"
definition MAX_ORDERS_PER_SHARD :: nat where "MAX_ORDERS_PER_SHARD = 2000000"
definition ORDER_MAP_CAPACITY :: nat where "ORDER_MAP_CAPACITY = 4194304"
definition SHARD_QUEUE_DEPTH :: nat where "SHARD_QUEUE_DEPTH = 262144"
definition PACKET_RING_DEPTH :: nat where "PACKET_RING_DEPTH = 65536"
definition RECOVERY_RING_DEPTH :: nat where "RECOVERY_RING_DEPTH = 1024"
definition MERGED_QUEUE_DEPTH :: nat where "MERGED_QUEUE_DEPTH = PACKET_RING_DEPTH"
definition DEDUP_WINDOW_SIZE :: nat where "DEDUP_WINDOW_SIZE = 128"
definition MAX_LOCATE :: nat where "MAX_LOCATE = 65536"
definition MAX_UDP_PAYLOAD :: nat where "MAX_UDP_PAYLOAD = 1500"
definition MAX_PRICE_LEVELS :: nat where "MAX_PRICE_LEVELS = 256"
definition MOLDUDP64_HEARTBEAT :: u16 where "MOLDUDP64_HEARTBEAT = 0xFFFF"

lemmas itch_constants =
  NUM_SHARDS_def MAX_ORDERS_PER_SHARD_def ORDER_MAP_CAPACITY_def SHARD_QUEUE_DEPTH_def
  PACKET_RING_DEPTH_def RECOVERY_RING_DEPTH_def MERGED_QUEUE_DEPTH_def DEDUP_WINDOW_SIZE_def
  MAX_LOCATE_def MAX_UDP_PAYLOAD_def MAX_PRICE_LEVELS_def MOLDUDP64_HEARTBEAT_def

text \<open>
  \<^verbatim>\<open>enum class Side : char\<close>. A value cast from a wire byte can be any character;
  the code compares it with \<open>Buy\<close> only.
\<close>

datatype Side = Buy | Sell | SideChar u8

definition side_of_char :: "u8 \<Rightarrow> Side" where
  "side_of_char c = (if c = 0x42 then Buy else if c = 0x53 then Sell else SideChar c)"

text \<open>
  \<^verbatim>\<open>enum class MessageType : char\<close>, with \<open>OtherType\<close> for a wire byte that names no
  enumerator.
\<close>

datatype MessageType =
    SystemEvent | StockDirectory | StockTradingAction | RegSHO | MarketParticipant
  | MWCBDecline | MWCBStatus | IPOQuotingPeriod | LULDAuctionCollar | OperationalHalt
  | AddOrder | AddOrderMPID | OrderExecuted | OrderExecutedPrice | OrderCancel
  | OrderDelete | OrderReplace | Trade | CrossTrade | BrokenTrade | NOII | RPIIndicator
  | Unknown | InternalSessionReset | OtherType u8

definition message_type_of_char :: "u8 \<Rightarrow> MessageType" where
  "message_type_of_char c =
    (if c = 0x53 then SystemEvent else if c = 0x52 then StockDirectory
     else if c = 0x48 then StockTradingAction else if c = 0x59 then RegSHO
     else if c = 0x4C then MarketParticipant else if c = 0x56 then MWCBDecline
     else if c = 0x57 then MWCBStatus else if c = 0x4B then IPOQuotingPeriod
     else if c = 0x4A then LULDAuctionCollar else if c = 0x68 then OperationalHalt
     else if c = 0x41 then AddOrder else if c = 0x46 then AddOrderMPID
     else if c = 0x45 then OrderExecuted else if c = 0x43 then OrderExecutedPrice
     else if c = 0x58 then OrderCancel else if c = 0x44 then OrderDelete
     else if c = 0x55 then OrderReplace else if c = 0x50 then Trade
     else if c = 0x51 then CrossTrade else if c = 0x42 then BrokenTrade
     else if c = 0x49 then NOII else if c = 0x4E then RPIIndicator
     else if c = 0x3F then Unknown else if c = 0x01 then InternalSessionReset
     else OtherType c)"

section \<open>Faults\<close>

text \<open>
  What a run can do besides returning: loop forever, or read or write outside an array.
  An operation that can do either returns a sum, with the fault on the left.
\<close>

datatype fault = Diverges | OutOfBounds

type_synonym 'a outcome = "fault + 'a"

fun andthen :: "'e + 'a \<Rightarrow> ('a \<Rightarrow> 'e + 'b) \<Rightarrow> 'e + 'b" where
  "andthen (Inl e) f = Inl e"
| "andthen (Inr x) f = f x"

definition of_loop :: "'a option \<Rightarrow> 'a outcome" where
  "of_loop r = (case r of None \<Rightarrow> Inl Diverges | Some x \<Rightarrow> Inr x)"

text \<open>\<open>elem_at xs i\<close> is a read of \<^verbatim>\<open>xs[i]\<close>.\<close>

definition elem_at :: "'a list \<Rightarrow> nat \<Rightarrow> 'a outcome" where
  "elem_at xs i = (if i < length xs then Inr (xs ! i) else Inl OutOfBounds)"

lemma andthen_eq_Inr [simp]: "andthen m f = Inr y \<longleftrightarrow> (\<exists>x. m = Inr x \<and> f x = Inr y)"
  by (cases m) auto

lemma of_loop_simps [simp]:
  "of_loop None = Inl Diverges" "of_loop (Some x) = Inr x" "of_loop r = Inr x \<longleftrightarrow> r = Some x"
  by (auto simp: of_loop_def split: option.splits)

lemma elem_at_eq_Inr [simp]: "elem_at xs i = Inr x \<longleftrightarrow> i < length xs \<and> x = xs ! i"
  by (auto simp: elem_at_def)

section \<open>Arrays\<close>

text \<open>
  \<^verbatim>\<open>memmove(&xs[dst], &xs[src], n)\<close> inside one array: the \<open>n\<close> elements from \<open>src\<close>
  on are copied, as they were, to the slots from \<open>dst\<close> on.
\<close>

definition memmove :: "'a list \<Rightarrow> nat \<Rightarrow> nat \<Rightarrow> nat \<Rightarrow> 'a list" where
  "memmove xs dst src n = take dst xs @ take n (drop src xs) @ drop (dst + n) xs"

lemma length_memmove [simp]:
  "dst + n \<le> length xs \<Longrightarrow> src + n \<le> length xs \<Longrightarrow> length (memmove xs dst src n) = length xs"
  by (simp add: memmove_def)

section \<open>Shared lemmas\<close>

named_theorems book_defs \<open>definitions of the order book operations\<close>
named_theorems wire_simps \<open>sizes and offsets of wire structures\<close>
named_theorems pipeline_defs \<open>definitions of the packet and message pipeline\<close>

lemma nth_list_update_if:
  "i < length xs \<Longrightarrow> xs[i := v] ! j = (if i = j then v else xs ! j)"
  by (simp add: nth_list_update)

lemma nth_list_update_upto:
  "j < length xs \<Longrightarrow> xs[i := v] ! j = (if i = j then v else xs ! j)"
  by (simp add: nth_list_update)

lemma distinct_take_last:
  "distinct (take (Suc n) xs) \<Longrightarrow> n < length xs \<Longrightarrow> xs ! n \<notin> set (take n xs)"
  by (simp add: take_Suc_conv_app_nth)

lemma take_update_beyond: "n \<le> i \<Longrightarrow> take n (xs[i := v]) = take n xs"
  by simp

lemma insert_split:
  "k < length xs \<Longrightarrow> xs = take k xs @ xs ! k # drop (Suc k) xs"
  by (simp add: id_take_nth_drop)

lemma sum_list_update_word:
  fixes xs :: "'a::ab_group_add list"
  shows "k < length xs \<Longrightarrow> sum_list (xs[k := x]) = sum_list xs + x - xs ! k"
  by (induction xs arbitrary: k) (auto simp: algebra_simps nth_Cons split: nat.splits)

lemma unat_bound: "unat (w :: 'a::len word) < 2 ^ LENGTH('a)"
  by (rule unsigned_less)

lemma unat_of_nat_small:
  "n < 2 ^ LENGTH('a::len) \<Longrightarrow> unat (of_nat n :: 'a word) = n"
  by (simp add: unat_of_nat)

lemma of_nat_word_eq_0_iff_small:
  "n < 2 ^ LENGTH('a::len) \<Longrightarrow> (of_nat n :: 'a word) = 0 \<longleftrightarrow> n = 0"
  by (cases "n = 0") (auto simp: word_of_nat_eq_0_iff dest: nat_dvd_not_less)

section \<open>Systems of steps\<close>

text \<open>
  A component, or the whole program, as states and steps: a predicate that holds at the start and
  that every step keeps holds in every state that can be reached.
\<close>

locale transition_system =
  fixes start :: "'s \<Rightarrow> bool"
    and step :: "'s \<Rightarrow> 's \<Rightarrow> bool"
    and inv :: "'s \<Rightarrow> bool"
  assumes start_inv: "start s \<Longrightarrow> inv s"
    and step_inv: "inv s \<Longrightarrow> step s s' \<Longrightarrow> inv s'"
begin

lemma steps_inv: "step\<^sup>*\<^sup>* s s' \<Longrightarrow> inv s \<Longrightarrow> inv s'"
  by (induction rule: rtranclp_induct) (auto intro: step_inv)

lemma reachable_inv: "start s \<Longrightarrow> step\<^sup>*\<^sup>* s s' \<Longrightarrow> inv s'"
  by (blast intro: steps_inv start_inv)

end

end
