(* ===== verification/Order_Pool.thy ===== *)
theory Order_Pool
  imports Itch_Prelude
begin

text \<open>
  The slab allocator of orders: \<^verbatim>\<open>include/orderbook/order_pool.hpp\<close> and
  \<^verbatim>\<open>src/orderbook/order_pool.cpp\<close>. A pool is the array of orders and the array
  \<^verbatim>\<open>freelist_\<close> used as a stack up to \<^verbatim>\<open>freelist_top_\<close>; a pointer to an order is its
  index. The interface the book relies on is the locale \<open>slot_allocator\<close>: what is live,
  that \<open>alloc\<close> hands out a slot that is not live and that \<open>free\<close> gives it back.
\<close>

section \<open>Model\<close>

record Order =
  o_id :: OrderId
  o_price :: Price
  o_qty :: Qty
  o_prev :: nat
  o_next :: nat
  o_level :: nat
  o_side :: Side

definition kInvalidIdx :: nat where "kInvalidIdx = 4294967295"

record OrderPool =
  op_pool :: "Order list"
  op_capacity :: nat
  op_freelist :: "nat list"
  op_top :: nat
  op_allocated :: u32

definition fresh_freelist :: "nat \<Rightarrow> nat list" where
  "fresh_freelist capacity = map (\<lambda>i. capacity - 1 - i) [0..<capacity]"

text \<open>The constructor takes the backing memory as it is: the orders are not initialised.\<close>

definition OrderPool_new :: "nat \<Rightarrow> Order list \<Rightarrow> OrderPool" where
  "OrderPool_new capacity backing_memory =
    \<lparr>op_pool = backing_memory, op_capacity = capacity,
     op_freelist = fresh_freelist capacity, op_top = capacity, op_allocated = 0\<rparr>"

definition alloc :: "OrderPool \<Rightarrow> nat option \<times> OrderPool" where
  "alloc p =
    (if op_top p = 0 then (None, p)
     else let top = op_top p - 1; idx = op_freelist p ! top
          in (Some idx,
              p\<lparr>op_top := top, op_allocated := op_allocated p + 1,
                op_pool := (op_pool p)[idx := (op_pool p ! idx)\<lparr>o_prev := kInvalidIdx,
                                                              o_next := kInvalidIdx\<rparr>]\<rparr>))"

definition pool_free :: "OrderPool \<Rightarrow> nat \<Rightarrow> OrderPool" where
  "pool_free p idx =
    p\<lparr>op_freelist := (op_freelist p)[op_top p := idx], op_top := op_top p + 1,
      op_allocated := op_allocated p - 1\<rparr>"

definition pool_reset :: "OrderPool \<Rightarrow> OrderPool" where
  "pool_reset p =
    p\<lparr>op_top := op_capacity p, op_freelist := fresh_freelist (op_capacity p), op_allocated := 0\<rparr>"

definition order_at :: "OrderPool \<Rightarrow> nat \<Rightarrow> Order" where
  "order_at p idx = op_pool p ! idx"

text \<open>A write through the pointer \<^verbatim>\<open>pool_.at(idx)\<close>.\<close>

definition set_order :: "OrderPool \<Rightarrow> nat \<Rightarrow> Order \<Rightarrow> OrderPool" where
  "set_order p idx o' = p\<lparr>op_pool := (op_pool p)[idx := o']\<rparr>"

section \<open>Invariant\<close>

definition pool_inv :: "OrderPool \<Rightarrow> bool" where
  "pool_inv p \<longleftrightarrow>
    length (op_pool p) = op_capacity p \<and> length (op_freelist p) = op_capacity p \<and>
    op_top p \<le> op_capacity p \<and> op_capacity p < kInvalidIdx \<and>
    distinct (take (op_top p) (op_freelist p)) \<and>
    set (take (op_top p) (op_freelist p)) \<subseteq> {..<op_capacity p} \<and>
    op_allocated p = of_nat (op_capacity p - op_top p)"

definition live_slots :: "OrderPool \<Rightarrow> nat set" where
  "live_slots p = {..<op_capacity p} - set (take (op_top p) (op_freelist p))"

section \<open>The allocator interface\<close>

text \<open>
  What a client of the pool relies on. \<open>slots\<close> is the fixed set of slots the pool owns,
  \<open>live\<close> the ones handed out.
\<close>

locale slot_allocator =
  fixes inv :: "'p \<Rightarrow> bool"
    and slots :: "'p \<Rightarrow> nat set"
    and live :: "'p \<Rightarrow> nat set"
    and al :: "'p \<Rightarrow> nat option \<times> 'p"
    and fr :: "'p \<Rightarrow> nat \<Rightarrow> 'p"
  assumes live_owned: "inv p \<Longrightarrow> live p \<subseteq> slots p"
    and al_none: "inv p \<Longrightarrow> fst (al p) = None \<longleftrightarrow> live p = slots p"
    and al_none_same: "inv p \<Longrightarrow> al p = (None, p') \<Longrightarrow> p' = p"
    and al_fresh: "inv p \<Longrightarrow> al p = (Some i, p') \<Longrightarrow> i \<in> slots p \<and> i \<notin> live p"
    and al_live: "inv p \<Longrightarrow> al p = (Some i, p') \<Longrightarrow> live p' = insert i (live p)"
    and al_inv: "inv p \<Longrightarrow> al p = (Some i, p') \<Longrightarrow> inv p' \<and> slots p' = slots p"
    and fr_live: "inv p \<Longrightarrow> i \<in> live p \<Longrightarrow> live (fr p i) = live p - {i}"
    and fr_inv: "inv p \<Longrightarrow> i \<in> live p \<Longrightarrow> inv (fr p i) \<and> slots (fr p i) = slots p"
    and fr_reuse: "inv p \<Longrightarrow> i \<in> live p \<Longrightarrow> fst (al (fr p i)) = Some i"
begin

lemma free_alloc_succeeds:
  assumes "inv p" "i \<in> live p"
  shows "\<exists>p'. al (fr p i) = (Some i, p') \<and> inv p' \<and> live p' = live p"
proof -
  obtain p' where p': "al (fr p i) = (Some i, p')"
    using fr_reuse[OF assms] by (metis prod.collapse)
  moreover have "inv (fr p i)" using fr_inv[OF assms] by simp
  ultimately show ?thesis
    using al_inv[of "fr p i" i p'] al_live[of "fr p i" i p'] fr_live[OF assms] assms(2) by auto
qed

lemma alloc_inv_cases:
  assumes "inv p" "al p = (r, p')"
  shows "inv p' \<and> slots p' = slots p \<and> live p \<subseteq> live p'"
  using assms by (cases r) (use al_none_same al_inv al_live in blast)+

text \<open>A run of allocations: the slots handed out are distinct and none was live before.\<close>

fun take_slots :: "nat \<Rightarrow> 'p \<Rightarrow> nat list \<times> 'p" where
  "take_slots 0 p = ([], p)"
| "take_slots (Suc n) p =
    (case al p of (None, p') \<Rightarrow> ([], p')
     | (Some i, p') \<Rightarrow> (case take_slots n p' of (is, p'') \<Rightarrow> (i # is, p'')))"

lemma take_slots_distinct:
  assumes "inv p" "take_slots n p = (is, p')"
  shows "distinct is \<and> set is \<inter> live p = {} \<and> live p' = live p \<union> set is \<and> inv p'"
  using assms
proof (induction n arbitrary: p "is" p')
  case 0
  then show ?case by simp
next
  case (Suc n)
  show ?case
  proof (cases "al p")
    case (Pair r q)
    show ?thesis
    proof (cases r)
      case None
      with Suc.prems Pair show ?thesis using al_none_same[of p q] by auto
    next
      case (Some i)
      obtain js q' where js: "take_slots n q = (js, q')" by force
      have q: "inv q" "live q = insert i (live p)" "i \<notin> live p"
        using Suc.prems(1) Pair Some al_inv al_live al_fresh by auto
      from Suc.IH[OF q(1) js] q Suc.prems(2) Pair Some js show ?thesis by auto
    qed
  qed
qed

end

section \<open>The pool implements the interface\<close>

lemma set_fresh_freelist: "set (fresh_freelist n) = {..<n}"
proof -
  have "x \<in> (\<lambda>i. n - 1 - i) ` {0..<n}" if "x < n" for x
    using that by (intro image_eqI[where x = "n - 1 - x"]) auto
  then show ?thesis by (auto simp: fresh_freelist_def)
qed

lemma distinct_fresh_freelist: "distinct (fresh_freelist n)"
  by (auto simp: fresh_freelist_def distinct_map inj_on_def)

lemma length_fresh_freelist [simp]: "length (fresh_freelist n) = n"
  by (simp add: fresh_freelist_def)

lemma pool_inv_new:
  assumes "length mem = capacity" "capacity < kInvalidIdx"
  shows "pool_inv (OrderPool_new capacity mem) \<and> live_slots (OrderPool_new capacity mem) = {}"
  using assms distinct_fresh_freelist[of capacity] set_fresh_freelist[of capacity]
  by (simp add: pool_inv_def OrderPool_new_def live_slots_def)

lemma pool_inv_reset:
  assumes "pool_inv p"
  shows "pool_inv (pool_reset p) \<and> live_slots (pool_reset p) = {}"
  using assms distinct_fresh_freelist[of "op_capacity p"] set_fresh_freelist[of "op_capacity p"]
  by (simp add: pool_inv_def pool_reset_def live_slots_def)

lemma alloc_Some_iff:
  "alloc p = (Some i, p') \<longleftrightarrow>
    0 < op_top p \<and> i = op_freelist p ! (op_top p - 1) \<and>
    p' = p\<lparr>op_top := op_top p - 1, op_allocated := op_allocated p + 1,
           op_pool := (op_pool p)[i := (op_pool p ! i)\<lparr>o_prev := kInvalidIdx,
                                                      o_next := kInvalidIdx\<rparr>]\<rparr>"
  by (auto simp: alloc_def Let_def)

lemma alloc_None_iff: "alloc p = (None, p') \<longleftrightarrow> op_top p = 0 \<and> p' = p"
  by (auto simp: alloc_def Let_def)

lemma pool_inv_free_card:
  assumes "pool_inv p"
  shows "card (set (take (op_top p) (op_freelist p))) = op_top p"
  using assms by (simp add: pool_inv_def distinct_card)

lemma live_slots_all_iff:
  assumes "pool_inv p"
  shows "live_slots p = {..<op_capacity p} \<longleftrightarrow> op_top p = 0"
proof -
  have "set (take (op_top p) (op_freelist p)) \<subseteq> {..<op_capacity p}"
    using assms by (simp add: pool_inv_def)
  then have "live_slots p = {..<op_capacity p} \<longleftrightarrow> set (take (op_top p) (op_freelist p)) = {}"
    unfolding live_slots_def by (metis Diff_disjoint Diff_empty inf.absorb_iff2 inf.commute)
  also have "\<dots> \<longleftrightarrow> card (set (take (op_top p) (op_freelist p))) = 0"
    by (simp only: card_0_eq List.finite_set)
  also have "\<dots> \<longleftrightarrow> op_top p = 0"
    by (simp only: pool_inv_free_card[OF assms])
  finally show ?thesis .
qed

lemma alloc_step:
  assumes inv: "pool_inv p" and al: "alloc p = (Some i, p')"
  shows "i < op_capacity p" "i \<notin> live_slots p" "live_slots p' = insert i (live_slots p)"
    "pool_inv p'" "op_capacity p' = op_capacity p"
proof -
  define n where "n = op_top p - 1"
  have top: "op_top p = Suc n" and n: "n < length (op_freelist p)"
    and i: "i = op_freelist p ! n"
    using al inv by (auto simp: alloc_Some_iff n_def pool_inv_def)
  have tk: "take (Suc n) (op_freelist p) = take n (op_freelist p) @ [i]"
    using n i by (simp add: take_Suc_conv_app_nth)
  have inv': "distinct (take n (op_freelist p) @ [i])"
    "set (take n (op_freelist p) @ [i]) \<subseteq> {..<op_capacity p}"
    using inv by (simp_all add: pool_inv_def top flip: tk)
  show "i < op_capacity p" using inv' by simp
  show "i \<notin> live_slots p" by (simp add: live_slots_def top tk)
  have p': "p' = p\<lparr>op_top := n, op_allocated := op_allocated p + 1,
           op_pool := (op_pool p)[i := (op_pool p ! i)\<lparr>o_prev := kInvalidIdx,
                                                      o_next := kInvalidIdx\<rparr>]\<rparr>"
    using al by (simp add: alloc_Some_iff top)
  show "live_slots p' = insert i (live_slots p)"
    using inv' by (auto simp: live_slots_def p' top tk)
  have "op_capacity p - n = Suc (op_capacity p - Suc n)"
    using inv by (auto simp: pool_inv_def top)
  then show "pool_inv p'"
    using inv inv' by (simp add: pool_inv_def p' top)
  show "op_capacity p' = op_capacity p" by (simp add: p')
qed

lemma pool_free_room:
  assumes inv: "pool_inv p" and i: "i \<in> live_slots p"
  shows "op_top p < length (op_freelist p)"
proof -
  have "op_top p \<noteq> op_capacity p"
  proof
    assume full: "op_top p = op_capacity p"
    have "card (set (take (op_top p) (op_freelist p))) = card {..<op_capacity p}"
      using pool_inv_free_card[OF inv] full by simp
    then have "set (take (op_top p) (op_freelist p)) = {..<op_capacity p}"
      using inv by (simp add: card_subset_eq pool_inv_def)
    with i show False by (simp add: live_slots_def)
  qed
  then show ?thesis using inv by (simp add: pool_inv_def)
qed

lemma pool_free_step:
  assumes inv: "pool_inv p" and i: "i \<in> live_slots p"
  shows "live_slots (pool_free p i) = live_slots p - {i}" "pool_inv (pool_free p i)"
    "op_capacity (pool_free p i) = op_capacity p" "fst (alloc (pool_free p i)) = Some i"
proof -
  note top = pool_free_room[OF inv i]
  then have tk: "take (Suc (op_top p)) ((op_freelist p)[op_top p := i]) =
      take (op_top p) (op_freelist p) @ [i]"
    by (simp add: take_Suc_conv_app_nth)
  show "live_slots (pool_free p i) = live_slots p - {i}"
    by (auto simp: live_slots_def pool_free_def tk)
  have "op_capacity p - op_top p = Suc (op_capacity p - Suc (op_top p))"
    using top inv by (auto simp: pool_inv_def)
  then show "pool_inv (pool_free p i)"
    using inv i top by (simp add: pool_inv_def pool_free_def tk live_slots_def)
  show "op_capacity (pool_free p i) = op_capacity p" by (simp add: pool_free_def)
  show "fst (alloc (pool_free p i)) = Some i"
    using top by (simp add: alloc_def pool_free_def)
qed

interpretation op: slot_allocator pool_inv "\<lambda>p. {..<op_capacity p}" live_slots alloc pool_free
proof
  fix p p' i
  assume inv: "pool_inv p"
  show "live_slots p \<subseteq> {..<op_capacity p}" by (auto simp: live_slots_def)
  show "fst (alloc p) = None \<longleftrightarrow> live_slots p = {..<op_capacity p}"
    unfolding live_slots_all_iff[OF inv] by (simp add: alloc_def Let_def)
  show "p' = p" if "alloc p = (None, p')" using that by (simp add: alloc_None_iff)
  show "i \<in> {..<op_capacity p} \<and> i \<notin> live_slots p" if "alloc p = (Some i, p')"
    using alloc_step(1,2)[OF inv that] by simp
  show "live_slots p' = insert i (live_slots p)" if "alloc p = (Some i, p')"
    by (rule alloc_step(3)[OF inv that])
  show "pool_inv p' \<and> {..<op_capacity p'} = {..<op_capacity p}" if "alloc p = (Some i, p')"
    using alloc_step(4,5)[OF inv that] by simp
  show "live_slots (pool_free p i) = live_slots p - {i}" if "i \<in> live_slots p"
    by (rule pool_free_step(1)[OF inv that])
  show "pool_inv (pool_free p i) \<and> {..<op_capacity (pool_free p i)} = {..<op_capacity p}"
    if "i \<in> live_slots p"
    using pool_free_step(2,3)[OF inv that] by simp
  show "fst (alloc (pool_free p i)) = Some i" if "i \<in> live_slots p"
    by (rule pool_free_step(4)[OF inv that])
qed

end
