(* ===== verification/Order_Map.thy ===== *)
theory Order_Map
  imports Itch_Prelude "HOL-Library.Multiset"
begin

text \<open>
  The Robin Hood hash table from order references to pool indices:
  \<^verbatim>\<open>include/orderbook/order_map.hpp\<close> and \<^verbatim>\<open>src/orderbook/order_map.cpp\<close>.

  The three probing loops run until they meet an empty slot and have no other bound, so
  they are partial functions: \<open>None\<close> is a loop that does not end. The probe distance is
  the \<^verbatim>\<open>uint16_t\<close> of the code. \<^verbatim>\<open>slot & mask_\<close> is \<open>slot mod capacity\<close>, the capacity
  being a power of two that divides \<^term>\<open>2 ^ 32 :: nat\<close>.
\<close>

section \<open>Model\<close>

definition kMapEmpty :: nat where "kMapEmpty = 4294967295"

record MapEntry =
  me_key :: OrderId
  me_value :: nat
  me_probe :: u16

definition empty_entry :: MapEntry where
  "empty_entry = \<lparr>me_key = 0, me_value = 0, me_probe = 0\<rparr>"

record OrderMap =
  om_table :: "MapEntry list"
  om_capacity :: nat
  om_size :: u32

definition OrderMap_new :: "nat \<Rightarrow> OrderMap" where
  "OrderMap_new capacity =
    \<lparr>om_table = replicate capacity empty_entry, om_capacity = capacity, om_size = 0\<rparr>"

definition map_reset :: "OrderMap \<Rightarrow> OrderMap" where
  "map_reset m = m\<lparr>om_table := replicate (om_capacity m) empty_entry, om_size := 0\<rparr>"

text \<open>\<^verbatim>\<open>__builtin_ctz\<close>.\<close>

fun ctz :: "nat \<Rightarrow> nat" where
  "ctz n = (if n = 0 \<or> odd n then 0 else Suc (ctz (n div 2)))"

declare ctz.simps [simp del]

definition hash_slot :: "nat \<Rightarrow> OrderId \<Rightarrow> nat" where
  "hash_slot capacity oid = unat (drop_bit (64 - ctz capacity) (oid * 11400714819323198485))"

text \<open>\<open>slot_at t slot\<close> is \<^verbatim>\<open>table_[slot & mask_]\<close>.\<close>

definition slot_at :: "MapEntry list \<Rightarrow> nat \<Rightarrow> MapEntry" where
  "slot_at t slot = t ! (slot mod length t)"

definition put_slot :: "MapEntry list \<Rightarrow> nat \<Rightarrow> MapEntry \<Rightarrow> MapEntry list" where
  "put_slot t slot e = t[slot mod length t := e]"

partial_function (option) insert_loop ::
  "OrderId \<Rightarrow> nat \<Rightarrow> MapEntry list \<Rightarrow> MapEntry \<Rightarrow> nat \<Rightarrow> (MapEntry list \<times> bool) option" where
  "insert_loop oid pool_idx t to_insert slot =
    (let e = slot_at t slot in
     if me_key e = 0 then Some (put_slot t slot to_insert, True)
     else if me_key e = oid then Some (put_slot t slot (e\<lparr>me_value := pool_idx\<rparr>), False)
     else if me_probe e < me_probe to_insert
     then insert_loop oid pool_idx (put_slot t slot to_insert) (e\<lparr>me_probe := me_probe e + 1\<rparr>)
            (slot + 1)
     else insert_loop oid pool_idx t (to_insert\<lparr>me_probe := me_probe to_insert + 1\<rparr>) (slot + 1))"

text \<open>\<open>insert\<close> always returns true when it returns; the model returns the table it leaves.\<close>

definition map_insert :: "OrderMap \<Rightarrow> OrderId \<Rightarrow> nat \<Rightarrow> OrderMap option" where
  "map_insert m oid pool_idx =
    (case insert_loop oid pool_idx (om_table m)
            \<lparr>me_key = oid, me_value = pool_idx, me_probe = 0\<rparr> (hash_slot (om_capacity m) oid) of
       None \<Rightarrow> None
     | Some (t, placed) \<Rightarrow>
         Some (m\<lparr>om_table := t, om_size := (if placed then om_size m + 1 else om_size m)\<rparr>))"

partial_function (option) find_loop :: "OrderId \<Rightarrow> MapEntry list \<Rightarrow> nat \<Rightarrow> u16 \<Rightarrow> nat option" where
  "find_loop oid t slot dist =
    (let e = slot_at t slot in
     if me_key e = 0 \<or> me_probe e < dist then Some kMapEmpty
     else if me_key e = oid then Some (me_value e)
     else find_loop oid t (slot + 1) (dist + 1))"

definition map_find :: "OrderMap \<Rightarrow> OrderId \<Rightarrow> nat option" where
  "map_find m oid = find_loop oid (om_table m) (hash_slot (om_capacity m) oid) 0"

text \<open>The first loop of \<^verbatim>\<open>erase\<close>: \<open>Some None\<close> is the early return of false.\<close>

partial_function (option) erase_scan ::
  "OrderId \<Rightarrow> MapEntry list \<Rightarrow> nat \<Rightarrow> u16 \<Rightarrow> nat option option" where
  "erase_scan oid t slot dist =
    (let e = slot_at t slot in
     if me_key e = 0 \<or> me_probe e < dist then Some None
     else if me_key e = oid then Some (Some slot)
     else erase_scan oid t (slot + 1) (dist + 1))"

text \<open>The backward shift.\<close>

partial_function (option) shift_back :: "MapEntry list \<Rightarrow> nat \<Rightarrow> MapEntry list option" where
  "shift_back t pos =
    (let next_e = slot_at t (pos + 1) in
     if me_key next_e = 0 \<or> me_probe next_e = 0 then Some (put_slot t pos empty_entry)
     else shift_back (put_slot t pos (next_e\<lparr>me_probe := me_probe next_e - 1\<rparr>)) (pos + 1))"

definition map_erase :: "OrderMap \<Rightarrow> OrderId \<Rightarrow> (bool \<times> OrderMap) option" where
  "map_erase m oid =
    (case erase_scan oid (om_table m) (hash_slot (om_capacity m) oid) 0 of
       None \<Rightarrow> None
     | Some None \<Rightarrow> Some (False, m)
     | Some (Some slot) \<Rightarrow>
         (case shift_back (om_table m) slot of
            None \<Rightarrow> None
          | Some t \<Rightarrow> Some (True, m\<lparr>om_table := t, om_size := om_size m - 1\<rparr>)))"

section \<open>Abstraction and invariant\<close>

abbreviation used :: "MapEntry \<Rightarrow> bool" where "used e \<equiv> me_key e \<noteq> 0"

definition entry_kv :: "MapEntry \<Rightarrow> OrderId \<times> nat" where
  "entry_kv e = (me_key e, me_value e)"

definition entries :: "MapEntry list \<Rightarrow> (OrderId \<times> nat) list" where
  "entries t = map entry_kv (filter used t)"

definition om_alpha :: "OrderMap \<Rightarrow> OrderId \<Rightarrow> nat option" where
  "om_alpha m = map_of (entries (om_table m))"

text \<open>
  The Robin Hood structure: a used slot lies at its probe distance from its home slot, and
  a slot at distance \<open>d + 1\<close> follows a used slot at distance \<open>d\<close> or more. Slots are
  numbered by all naturals, modulo the capacity.
\<close>

definition robin :: "MapEntry list \<Rightarrow> bool" where
  "robin t \<longleftrightarrow> 0 < length t \<and>
    (\<forall>n. used (slot_at t n) \<longrightarrow>
       unat (me_probe (slot_at t n)) < length t \<and>
       (hash_slot (length t) (me_key (slot_at t n)) + unat (me_probe (slot_at t n))) mod length t
         = n mod length t) \<and>
    (\<forall>n. used (slot_at t (Suc n)) \<and> 0 < unat (me_probe (slot_at t (Suc n))) \<longrightarrow>
       used (slot_at t n) \<and>
       unat (me_probe (slot_at t (Suc n))) \<le> Suc (unat (me_probe (slot_at t n))))"

definition om_inv :: "OrderMap \<Rightarrow> bool" where
  "om_inv m \<longleftrightarrow> length (om_table m) = om_capacity m \<and> robin (om_table m) \<and>
    distinct (map fst (entries (om_table m))) \<and>
    om_size m = of_nat (length (entries (om_table m)))"

text \<open>
  Room for probing: within 65535 slots of every slot there is an empty one. It makes every
  loop end and keeps every probe distance inside \<^verbatim>\<open>uint16_t\<close>.
\<close>

definition probe_room :: "MapEntry list \<Rightarrow> bool" where
  "probe_room t \<longleftrightarrow> (\<forall>m. \<exists>n < 65535. \<not> used (slot_at t (m + n)))"

text \<open>What the loop carries: an entry whose home and distance fit the slot it is tried at.\<close>

definition carried :: "MapEntry list \<Rightarrow> MapEntry \<Rightarrow> nat \<Rightarrow> bool" where
  "carried t x s \<longleftrightarrow> used x \<and>
    (hash_slot (length t) (me_key x) + unat (me_probe x)) mod length t = s mod length t \<and>
    (\<forall>m. Suc m mod length t = s mod length t \<longrightarrow> 0 < unat (me_probe x) \<longrightarrow>
      used (slot_at t m) \<and> unat (me_probe x) \<le> Suc (unat (me_probe (slot_at t m))))"

section \<open>Sequences of operations and their specification\<close>

datatype map_op = MapIns OrderId nat | MapDel OrderId

fun map_op_key :: "map_op \<Rightarrow> OrderId" where
  "map_op_key (MapIns k v) = k"
| "map_op_key (MapDel k) = k"

fun run_map_ops :: "map_op list \<Rightarrow> OrderMap \<Rightarrow> OrderMap option" where
  "run_map_ops [] m = Some m"
| "run_map_ops (MapIns k v # ops) m =
    (case map_insert m k v of None \<Rightarrow> None | Some m' \<Rightarrow> run_map_ops ops m')"
| "run_map_ops (MapDel k # ops) m =
    (case map_erase m k of None \<Rightarrow> None | Some (_, m') \<Rightarrow> run_map_ops ops m')"

fun spec_map_op :: "map_op \<Rightarrow> (OrderId \<Rightarrow> nat option) \<Rightarrow> (OrderId \<Rightarrow> nat option)" where
  "spec_map_op (MapIns k v) f = f(k \<mapsto> v)"
| "spec_map_op (MapDel k) f = f(k := None)"

text \<open>The number of keys held when an operation starts stays below \<open>n\<close>.\<close>

fun keys_below :: "nat \<Rightarrow> map_op list \<Rightarrow> (OrderId \<Rightarrow> nat option) \<Rightarrow> bool" where
  "keys_below n [] f \<longleftrightarrow> card (dom f) < n"
| "keys_below n (x # ops) f \<longleftrightarrow> card (dom f) < n \<and> keys_below n ops (spec_map_op x f)"


section \<open>Slots and entries\<close>

lemma slot_at_cong: "m mod length t = n mod length t \<Longrightarrow> slot_at t m = slot_at t n"
  by (simp add: slot_at_def)

lemma length_put_slot [simp]: "length (put_slot t s e) = length t"
  by (simp add: put_slot_def)

lemma slot_at_put:
  "0 < length t \<Longrightarrow>
   slot_at (put_slot t s e) n = (if n mod length t = s mod length t then e else slot_at t n)"
  by (auto simp: slot_at_def put_slot_def nth_list_update)

lemma Suc_mod_inj: "Suc a mod L = Suc b mod L \<Longrightarrow> a mod L = b mod (L::nat)"
  by (cases "L = 0") (auto simp: mod_Suc split: if_splits)

lemma Suc_mod_cong: "a mod L = b mod (L::nat) \<Longrightarrow> Suc a mod L = Suc b mod L"
  by (metis mod_Suc_eq)

lemma mod_add_neq:
  "0 < k \<Longrightarrow> k < L \<Longrightarrow> (s + k) mod L \<noteq> s mod (L::nat)"
  by (metis add_diff_cancel_left' le_add1 mod_eq_dvd_iff_nat nat_dvd_not_less)

lemma mod_add_neq_le:
  "i < j \<Longrightarrow> j < L \<Longrightarrow> (s + i) mod L \<noteq> (s + j) mod (L::nat)"
  using mod_add_neq[of "j - i" L "s + i"] less_imp_diff_less[of j L i] by simp

lemma entries_put:
  assumes "0 < length t"
  shows "mset (entries (put_slot t s x)) +
      (if used (slot_at t s) then {#entry_kv (slot_at t s)#} else {#}) =
    mset (entries t) + (if used x then {#entry_kv x#} else {#})"
proof -
  let ?i = "s mod length t"
  have i: "?i < length t" using assms by simp
  define R where "R = mset t - {#t ! ?i#}"
  have "mset t = add_mset (t ! ?i) R" using i by (simp add: R_def)
  moreover have "mset (put_slot t s x) = add_mset x R"
    using i by (simp add: put_slot_def mset_update R_def)
  ultimately show ?thesis
    by (simp add: entries_def slot_at_def del: mset_map mset_filter)
      (simp add: mset_map mset_filter)
qed

lemma distinct_map_filter_nth:
  "distinct (map f (filter P xs)) \<Longrightarrow> i < length xs \<Longrightarrow> j < length xs \<Longrightarrow>
   P (xs ! i) \<Longrightarrow> P (xs ! j) \<Longrightarrow> f (xs ! i) = f (xs ! j) \<Longrightarrow> i = j"
proof (induction xs arbitrary: i j)
  case Nil
  then show ?case by simp
next
  case (Cons x xs)
  have hd_case: "False" if "P x" "k < length xs" "P (xs ! k)" "f x = f (xs ! k)" for k
    using Cons.prems(1) that by (auto simp: image_iff)
  from Cons show ?case
    by (cases i; cases j) (auto split: if_splits dest: hd_case dest!: hd_case[OF _ _ _ sym])
qed

lemma key_unique:
  assumes "distinct (map fst (entries t))" "0 < length t"
    and "used (slot_at t m)" "me_key (slot_at t n) = me_key (slot_at t m)"
  shows "slot_at t n = slot_at t m"
proof -
  have "distinct (map me_key (filter used t))"
    using assms(1) by (simp add: entries_def entry_kv_def comp_def)
  from distinct_map_filter_nth[OF this, of "n mod length t" "m mod length t"] assms(2-)
  have "n mod length t = m mod length t" by (simp add: slot_at_def)
  then show ?thesis by (rule slot_at_cong)
qed

lemma entries_mem:
  assumes "0 < length t"
  shows "(k, v) \<in> set (entries t) \<longleftrightarrow>
    (\<exists>n. used (slot_at t n) \<and> me_key (slot_at t n) = k \<and> me_value (slot_at t n) = v)"
proof -
  have "(\<exists>e \<in> set t. P e) \<longleftrightarrow> (\<exists>n. P (slot_at t n))" for P
  proof
    assume "\<exists>e \<in> set t. P e"
    then obtain n where "n < length t" "P (t ! n)" by (auto simp: in_set_conv_nth)
    then show "\<exists>n. P (slot_at t n)" by (intro exI[of _ n]) (simp add: slot_at_def)
  next
    assume "\<exists>n. P (slot_at t n)"
    then show "\<exists>e \<in> set t. P e" using assms by (auto simp: slot_at_def)
  qed
  from this[of "\<lambda>e. used e \<and> me_key e = k \<and> me_value e = v"]
  show ?thesis by (auto simp: entries_def entry_kv_def)
qed

lemma map_of_entries_Some:
  assumes "distinct (map fst (entries t))" "0 < length t"
  shows "map_of (entries t) k = Some v \<longleftrightarrow>
    (\<exists>n. used (slot_at t n) \<and> me_key (slot_at t n) = k \<and> me_value (slot_at t n) = v)"
  using assms by (simp add: map_of_eq_Some_iff entries_mem)

section \<open>The Robin Hood structure\<close>

lemma robinD:
  assumes "robin t" "used (slot_at t n)"
  shows "unat (me_probe (slot_at t n)) < length t"
    "(hash_slot (length t) (me_key (slot_at t n)) + unat (me_probe (slot_at t n))) mod length t
         = n mod length t"
  using assms by (auto simp: robin_def)

lemma robin_prev:
  assumes "robin t" "used (slot_at t (Suc n))" "0 < unat (me_probe (slot_at t (Suc n)))"
  shows "used (slot_at t n)"
    "unat (me_probe (slot_at t (Suc n))) \<le> Suc (unat (me_probe (slot_at t n)))"
  using assms by (auto simp: robin_def)

lemma robin_pos: "robin t \<Longrightarrow> 0 < length t"
  by (simp add: robin_def)

text \<open>Before a slot at distance \<open>P\<close> there are \<open>P\<close> used slots, none closer to home.\<close>

lemma robin_chain:
  assumes "robin t" "used (slot_at t m)"
  shows "i \<le> unat (me_probe (slot_at t m)) \<Longrightarrow> i \<le> m \<Longrightarrow>
    used (slot_at t (m - i)) \<and>
    unat (me_probe (slot_at t m)) \<le> i + unat (me_probe (slot_at t (m - i)))"
proof (induction i)
  case 0
  then show ?case using assms by simp
next
  case (Suc i)
  have *: "m - i = Suc (m - Suc i)" using Suc.prems by simp
  from Suc have "used (slot_at t (m - i))"
    "unat (me_probe (slot_at t m)) \<le> i + unat (me_probe (slot_at t (m - i)))" by auto
  with Suc.prems robin_prev[OF assms(1), of "m - Suc i"] show ?case
    unfolding * by linarith
qed

lemma robin_run:
  assumes "robin t" "used (slot_at t n)"
  defines "h \<equiv> hash_slot (length t) (me_key (slot_at t n))"
    and "P \<equiv> unat (me_probe (slot_at t n))"
  shows "slot_at t (h + P) = slot_at t n"
    and "i \<le> P \<Longrightarrow> used (slot_at t (h + i)) \<and> i \<le> unat (me_probe (slot_at t (h + i)))"
proof -
  show eq: "slot_at t (h + P) = slot_at t n"
    unfolding h_def P_def by (rule slot_at_cong) (rule robinD(2)[OF assms(1,2)])
  show "used (slot_at t (h + i)) \<and> i \<le> unat (me_probe (slot_at t (h + i)))" if "i \<le> P"
  proof -
    have "h + P - (P - i) = h + i" using that by simp
    then have "used (slot_at t (h + i)) \<and> P \<le> P - i + unat (me_probe (slot_at t (h + i)))"
      using robin_chain[OF assms(1), of "h + P" "P - i"] assms(2) by (simp add: eq flip: P_def)
    then show ?thesis using that by linarith
  qed
qed

lemma robin_probe_bound:
  assumes "robin t" "probe_room t" "used (slot_at t n)"
  shows "Suc (unat (me_probe (slot_at t n))) < length t"
    "Suc (unat (me_probe (slot_at t n))) < 65535"
proof -
  let ?h = "hash_slot (length t) (me_key (slot_at t n))"
  obtain k where k: "k < 65535" "\<not> used (slot_at t (?h + k))"
    using assms(2) by (auto simp: probe_room_def)
  have "slot_at t (?h + k mod length t) = slot_at t (?h + k)"
    by (rule slot_at_cong) (simp add: mod_add_right_eq)
  with k(2) have "\<not> used (slot_at t (?h + k mod length t))" by simp
  then have "\<not> k mod length t \<le> unat (me_probe (slot_at t n))"
    using robin_run(2)[OF assms(1,3)] by blast
  moreover have "\<not> k \<le> unat (me_probe (slot_at t n))"
    using k(2) robin_run(2)[OF assms(1,3)] by blast
  moreover have "k mod length t < length t" using robin_pos[OF assms(1)] by simp
  ultimately show "Suc (unat (me_probe (slot_at t n))) < length t"
    "Suc (unat (me_probe (slot_at t n))) < 65535"
    using k(1) by linarith+
qed

lemma robin_put:
  assumes "robin t" "used x" "unat (me_probe x) < length t"
    and "(hash_slot (length t) (me_key x) + unat (me_probe x)) mod length t = s mod length t"
    and "\<And>m. Suc m mod length t = s mod length t \<Longrightarrow> 0 < unat (me_probe x) \<Longrightarrow>
      used (slot_at t m) \<and> unat (me_probe x) \<le> Suc (unat (me_probe (slot_at t m)))"
    and "\<And>m. m mod length t = s mod length t \<Longrightarrow> used (slot_at t (Suc m)) \<Longrightarrow>
      0 < unat (me_probe (slot_at t (Suc m))) \<Longrightarrow>
      unat (me_probe (slot_at t (Suc m))) \<le> Suc (unat (me_probe x))"
  shows "robin (put_slot t s x)"
  unfolding robin_def
proof (intro conjI allI impI)
  have L: "0 < length t" by (rule robin_pos[OF assms(1)])
  note at = slot_at_put[OF L, of s x]
  show "0 < length (put_slot t s x)" using L by simp
  fix n
  {
    assume u: "used (slot_at (put_slot t s x) n)"
    show "unat (me_probe (slot_at (put_slot t s x) n)) < length (put_slot t s x)"
      using u assms(3) robinD(1)[OF assms(1), of n]
      by (cases "n mod length t = s mod length t") (simp_all add: at)
    show "(hash_slot (length (put_slot t s x)) (me_key (slot_at (put_slot t s x) n)) +
        unat (me_probe (slot_at (put_slot t s x) n))) mod length (put_slot t s x)
      = n mod length (put_slot t s x)"
      using u assms(4) robinD(2)[OF assms(1), of n]
      by (cases "n mod length t = s mod length t") (simp_all add: at)
  }
  assume u: "used (slot_at (put_slot t s x) (Suc n)) \<and>
    0 < unat (me_probe (slot_at (put_slot t s x) (Suc n)))"
  have goal: "used (slot_at (put_slot t s x) n) \<and>
      unat (me_probe (slot_at (put_slot t s x) (Suc n)))
        \<le> Suc (unat (me_probe (slot_at (put_slot t s x) n)))"
  proof (cases "Suc n mod length t = s mod length t")
    case True
    then have "used (slot_at t n) \<and> unat (me_probe x) \<le> Suc (unat (me_probe (slot_at t n)))"
      using assms(5)[OF True] u by (simp add: at)
    then show ?thesis using True assms(2) by (auto simp: at)
  next
    case False
    then show ?thesis
      using assms(2) assms(6)[of n] robin_prev[OF assms(1), of n] u
      by (cases "n mod length t = s mod length t") (simp_all add: at)
  qed
  show "used (slot_at (put_slot t s x) n)" using goal by simp
  show "unat (me_probe (slot_at (put_slot t s x) (Suc n)))
    \<le> Suc (unat (me_probe (slot_at (put_slot t s x) n)))" using goal by simp
qed

lemma robin_put_value:
  assumes "robin t" "me_key x = me_key (slot_at t s)" "me_probe x = me_probe (slot_at t s)"
  shows "robin (put_slot t s x)"
proof -
  have "me_key (slot_at (put_slot t s x) n) = me_key (slot_at t n)"
    "me_probe (slot_at (put_slot t s x) n) = me_probe (slot_at t n)" for n
    using assms(2,3) slot_at_put[OF robin_pos[OF assms(1)], of s x n] slot_at_cong[of n t s]
    by (cases "n mod length t = s mod length t"; simp)+
  with assms(1) show ?thesis by (simp add: robin_def)
qed

lemma robin_put_empty:
  assumes "robin t" "\<not> used (slot_at t (Suc s)) \<or> me_probe (slot_at t (Suc s)) = 0"
  shows "robin (put_slot t s empty_entry)"
  unfolding robin_def
proof (intro conjI allI impI)
  have L: "0 < length t" by (rule robin_pos[OF assms(1)])
  note at = slot_at_put[OF L, of s empty_entry]
  have [simp]: "\<not> used empty_entry" by (simp add: empty_entry_def)
  show "0 < length (put_slot t s empty_entry)" using L by simp
  fix n
  {
    assume "used (slot_at (put_slot t s empty_entry) n)"
    then have n: "n mod length t \<noteq> s mod length t" "used (slot_at t n)"
      by (auto simp: at split: if_splits)
    show "unat (me_probe (slot_at (put_slot t s empty_entry) n))
      < length (put_slot t s empty_entry)"
      using n robinD(1)[OF assms(1) n(2)] by (simp add: at)
    show "(hash_slot (length (put_slot t s empty_entry))
          (me_key (slot_at (put_slot t s empty_entry) n)) +
        unat (me_probe (slot_at (put_slot t s empty_entry) n))) mod
          length (put_slot t s empty_entry)
      = n mod length (put_slot t s empty_entry)"
      using n robinD(2)[OF assms(1) n(2)] by (simp add: at)
  }
  assume u: "used (slot_at (put_slot t s empty_entry) (Suc n)) \<and>
    0 < unat (me_probe (slot_at (put_slot t s empty_entry) (Suc n)))"
  then have n: "Suc n mod length t \<noteq> s mod length t" "used (slot_at t (Suc n))"
    "0 < unat (me_probe (slot_at t (Suc n)))" by (auto simp: at split: if_splits)
  have "n mod length t \<noteq> s mod length t"
  proof
    assume "n mod length t = s mod length t"
    then have "slot_at t (Suc n) = slot_at t (Suc s)"
      by (intro slot_at_cong Suc_mod_cong)
    with n assms(2) show False by auto
  qed
  with n robin_prev[OF assms(1) n(2,3)]
  show "used (slot_at (put_slot t s empty_entry) n)"
    "unat (me_probe (slot_at (put_slot t s empty_entry) (Suc n)))
      \<le> Suc (unat (me_probe (slot_at (put_slot t s empty_entry) n)))"
    by (simp_all add: at)
qed

lemma robin_replicate_empty: "0 < n \<Longrightarrow> robin (replicate n empty_entry)"
  by (simp add: robin_def slot_at_def empty_entry_def)

lemma probe_room_mono:
  assumes "probe_room t" "\<And>m. used (slot_at t' m) \<Longrightarrow> used (slot_at t m)"
  shows "probe_room t'"
  using assms unfolding probe_room_def by meson

text \<open>Counting the entries gives room.\<close>

lemma probe_roomI:
  assumes "0 < length t" "length (entries t) < min (length t) 65535"
  shows "probe_room t"
  unfolding probe_room_def
proof (rule allI, rule ccontr)
  fix m
  assume "\<nexists>n. n < 65535 \<and> \<not> used (slot_at t (m + n))"
  then have all: "used (slot_at t (m + n))" if "n < 65535" for n using that by blast
  let ?w = "min (length t) 65535"
  let ?f = "\<lambda>n. (m + n) mod length t"
  have inj: "inj_on ?f {..<?w}"
  proof (rule inj_onI)
    fix a b assume ab: "a \<in> {..<?w}" "b \<in> {..<?w}" "?f a = ?f b"
    have False if "x < y" "y < ?w" "?f x = ?f y" for x y
      using mod_add_neq_le[of x y "length t" m] that by simp
    from this[of a b] this[of b a] ab show "a = b"
      by (metis lessThan_iff linorder_neqE_nat)
  qed
  have "?f ` {..<?w} \<subseteq> {i. i < length t \<and> used (t ! i)}"
    using assms(1) all by (auto simp: slot_at_def)
  from card_mono[OF _ this] inj have "?w \<le> card {i. i < length t \<and> used (t ! i)}"
    by (simp add: card_image)
  also have "\<dots> = length (entries t)"
    by (simp add: entries_def length_filter_conv_card)
  finally show False using assms(2) by simp
qed

section \<open>Lookup\<close>

text \<open>The slot the probe for a present key stops at, and what it meets before.\<close>

lemma probe_before_key:
  assumes "robin t" "distinct (map fst (entries t))" "used (slot_at t n)"
    and "i < unat (me_probe (slot_at t n))"
  defines "e \<equiv> slot_at t (hash_slot (length t) (me_key (slot_at t n)) + i)"
  shows "used e" "\<not> me_probe e < of_nat i" "me_key e \<noteq> me_key (slot_at t n)"
proof -
  let ?h = "hash_slot (length t) (me_key (slot_at t n))"
  have run: "used e \<and> i \<le> unat (me_probe e)"
    using robin_run(2)[OF assms(1,3), of i] assms(4) by (simp add: e_def)
  then show "used e" by simp
  have "i < 2 ^ 16" using assms(4) unat_bound[of "me_probe (slot_at t n)"] by simp
  then show "\<not> me_probe e < of_nat i"
    using run by (simp add: word_less_nat_alt unat_of_nat_small)
  show "me_key e \<noteq> me_key (slot_at t n)"
  proof
    assume "me_key e = me_key (slot_at t n)"
    then have eq: "e = slot_at t n"
      unfolding e_def by (rule key_unique[OF assms(2) robin_pos[OF assms(1)] assms(3)])
    have "(?h + i) mod length t = (?h + unat (me_probe e)) mod length t"
      using robinD(2)[OF assms(1), of "?h + i"] run by (simp add: eq flip: e_def)
    then show False
      using mod_add_neq_le[OF assms(4) robinD(1)[OF assms(1,3)], of ?h] by (simp add: eq)
  qed
qed

lemma find_loop_hit:
  assumes "robin t" "distinct (map fst (entries t))" "used (slot_at t n)"
  shows "i \<le> unat (me_probe (slot_at t n)) \<Longrightarrow>
    find_loop (me_key (slot_at t n)) t (hash_slot (length t) (me_key (slot_at t n)) + i) (of_nat i)
      = Some (me_value (slot_at t n))"
proof (induction rule: inc_induct)
  case base
  show ?case
    using assms(3) robin_run(1)[OF assms(1,3)] by (subst find_loop.simps) simp
next
  case (step i)
  show ?case
    using probe_before_key[OF assms, of i] step by (subst find_loop.simps) (simp add: Let_def add.commute)
qed

lemma erase_scan_hit:
  assumes "robin t" "distinct (map fst (entries t))" "used (slot_at t n)"
  shows "i \<le> unat (me_probe (slot_at t n)) \<Longrightarrow>
    erase_scan (me_key (slot_at t n)) t
      (hash_slot (length t) (me_key (slot_at t n)) + i) (of_nat i)
      = Some (Some (hash_slot (length t) (me_key (slot_at t n)) + unat (me_probe (slot_at t n))))"
proof (induction rule: inc_induct)
  case base
  show ?case
    using assms(3) robin_run(1)[OF assms(1,3)] by (subst erase_scan.simps) (simp add: Let_def)
next
  case (step i)
  show ?case
    using probe_before_key[OF assms, of i] step by (subst erase_scan.simps) (simp add: Let_def add.commute)
qed

lemma find_loop_miss:
  assumes "\<And>m. me_key (slot_at t m) \<noteq> oid"
  shows "\<not> used (slot_at t (s + n)) \<Longrightarrow> find_loop oid t s dist = Some kMapEmpty"
proof (induction n arbitrary: s dist)
  case 0
  then show ?case by (subst find_loop.simps) simp
next
  case (Suc n)
  from Suc.IH[of "s + 1"] Suc.prems assms show ?case
    by (subst find_loop.simps) (simp add: Let_def add.commute)
qed

lemma erase_scan_miss:
  assumes "\<And>m. me_key (slot_at t m) \<noteq> oid"
  shows "\<not> used (slot_at t (s + n)) \<Longrightarrow> erase_scan oid t s dist = Some None"
proof (induction n arbitrary: s dist)
  case 0
  then show ?case by (subst erase_scan.simps) (simp add: Let_def)
next
  case (Suc n)
  from Suc.IH[of "s + 1"] Suc.prems assms show ?case
    by (subst erase_scan.simps) (simp add: Let_def add.commute)
qed

section \<open>Insertion\<close>

text \<open>A run of used slots from an entry on ends before the room does.\<close>

lemma robin_run_room:
  assumes "robin t" "probe_room t" "used (slot_at t s)"
    and "\<And>k. k < n \<Longrightarrow> used (slot_at t (s + k))"
  shows "unat (me_probe (slot_at t s)) + n < length t"
    "unat (me_probe (slot_at t s)) + n < 65535"
proof -
  let ?P = "unat (me_probe (slot_at t s))" and ?h = "hash_slot (length t) (me_key (slot_at t s))"
  obtain k where k: "k < 65535" "\<not> used (slot_at t (?h + k))"
    using assms(2) by (auto simp: probe_room_def)
  have "slot_at t (?h + k mod length t) = slot_at t (?h + k)"
    by (rule slot_at_cong) (simp add: mod_add_right_eq)
  with k(2) have k': "\<not> used (slot_at t (?h + k mod length t))" by simp
  have all: "used (slot_at t (?h + j))" if "j < ?P + n" for j
  proof (cases "j \<le> ?P")
    case True
    then show ?thesis using robin_run(2)[OF assms(1,3)] by blast
  next
    case False
    have "(?h + ?P + (j - ?P)) mod length t = (s + (j - ?P)) mod length t"
      by (intro mod_add_cong robinD(2)[OF assms(1,3)] refl)
    then have "slot_at t (?h + j) = slot_at t (s + (j - ?P))"
      using False by (intro slot_at_cong) simp
    then show ?thesis using assms(4)[of "j - ?P"] that False by simp
  qed
  have "?P + n \<le> k" "?P + n \<le> k mod length t"
    using all k(2) k' by (meson leI)+
  moreover have "k mod length t < length t" using robin_pos[OF assms(1)] by simp
  ultimately show "?P + n < length t" "?P + n < 65535" using k(1) by simp_all
qed

lemma probe_room_put:
  assumes "0 < length t" "probe_room t" "used (slot_at t s) \<or> \<not> used x"
  shows "probe_room (put_slot t s x)"
proof (rule probe_room_mono[OF assms(2)])
  fix m assume "used (slot_at (put_slot t s x) m)"
  then show "used (slot_at t m)"
    using assms(3) slot_at_cong[of m t s]
    by (cases "m mod length t = s mod length t") (simp_all add: slot_at_put[OF assms(1)])
qed

lemma unat_Suc_word: "unat (w :: 'a::len word) + 1 < 2 ^ LENGTH('a) \<Longrightarrow> unat (w + 1) = Suc (unat w)"
  by (metis Suc_eq_plus1 unat_of_nat_small of_nat_Suc of_nat_unat ucast_id add.commute)

lemma carried_advance:
  assumes "carried t x s" "used (slot_at t s)" "\<not> me_probe (slot_at t s) < me_probe x"
    and "unat (me_probe x) + 1 < 65536"
  shows "carried t (x\<lparr>me_probe := me_probe x + 1\<rparr>) (Suc s)"
proof -
  have p: "unat (me_probe x + 1) = Suc (unat (me_probe x))"
    by (rule unat_Suc_word) (use assms(4) in simp)
  have "used (slot_at t m) \<and> unat (me_probe x) \<le> unat (me_probe (slot_at t m))"
    if "Suc m mod length t = Suc s mod length t" for m
    using slot_at_cong[OF Suc_mod_inj[OF that]] assms(2,3) by (simp add: word_less_nat_alt)
  moreover have "(hash_slot (length t) (me_key x) + unat (me_probe x)) mod length t = s mod length t"
    using assms(1) by (simp add: carried_def)
  note Suc_mod_cong[OF this]
  ultimately show ?thesis
    using assms(1) unfolding carried_def by (simp add: p)
qed

lemma robin_put_carried:
  assumes "robin t" "carried t x s" "unat (me_probe x) < length t"
    and "\<not> used (slot_at t s) \<or> me_probe (slot_at t s) < me_probe x"
  shows "robin (put_slot t s x)"
proof (rule robin_put[OF assms(1)])
  show "used x" "unat (me_probe x) < length t"
    "(hash_slot (length t) (me_key x) + unat (me_probe x)) mod length t = s mod length t"
    using assms by (auto simp: carried_def)
  show "used (slot_at t m) \<and> unat (me_probe x) \<le> Suc (unat (me_probe (slot_at t m)))"
    if "Suc m mod length t = s mod length t" "0 < unat (me_probe x)" for m
    using assms(2) that by (simp add: carried_def)
  show "unat (me_probe (slot_at t (Suc m))) \<le> Suc (unat (me_probe x))"
    if "m mod length t = s mod length t" "used (slot_at t (Suc m))"
      "0 < unat (me_probe (slot_at t (Suc m)))" for m
    using robin_prev[OF assms(1) that(2,3)] assms(4)
    by (auto simp: word_less_nat_alt slot_at_cong[OF that(1)])
qed

lemma carried_swap:
  assumes "robin t" "carried t x s" "used (slot_at t s)" "me_probe (slot_at t s) < me_probe x"
    and "unat (me_probe x) + 1 < 65536"
  defines "e \<equiv> slot_at t s"
  shows "carried (put_slot t s x) (e\<lparr>me_probe := me_probe e + 1\<rparr>) (Suc s)"
proof -
  have lt: "unat (me_probe e) < unat (me_probe x)"
    using assms(4) by (simp add: e_def word_less_nat_alt)
  have p: "unat (me_probe e + 1) = Suc (unat (me_probe e))"
    by (rule unat_Suc_word) (use assms(5) lt in simp)
  have at: "slot_at (put_slot t s x) m = x" if "Suc m mod length t = Suc s mod length t" for m
    using Suc_mod_inj[OF that] by (simp add: slot_at_put[OF robin_pos[OF assms(1)]])
  have "(hash_slot (length t) (me_key e) + unat (me_probe e)) mod length t = s mod length t"
    using robinD(2)[OF assms(1,3)] by (simp add: e_def)
  from Suc_mod_cong[OF this] show ?thesis
    using assms(2,3) lt unfolding carried_def by (simp add: p at flip: e_def)
qed

lemma insert_loop_new:
  assumes "robin t" "probe_room t" "carried t x s"
    and "\<not> used (slot_at t (s + n))" "\<And>k. k < n \<Longrightarrow> used (slot_at t (s + k))"
    and "\<And>k. k < n \<Longrightarrow> me_key (slot_at t (s + k)) \<noteq> oid"
    and "unat (me_probe x) + n < length t" "unat (me_probe x) + n < 65535"
  shows "\<exists>t'. insert_loop oid v t x s = Some (t', True) \<and> robin t' \<and> length t' = length t \<and>
    mset (entries t') = add_mset (entry_kv x) (mset (entries t))"
  using assms
proof (induction n arbitrary: t x s)
  case 0
  have "mset (entries (put_slot t s x)) = add_mset (entry_kv x) (mset (entries t))"
    using entries_put[OF robin_pos[OF 0(1)], of s x] 0(3,4) by (simp add: carried_def)
  then show ?case
    using 0 robin_put_carried[of t x s] by (subst insert_loop.simps) simp
next
  case (Suc n)
  note L = robin_pos[OF Suc.prems(1)]
  define e where "e = slot_at t s"
  have e: "used e" "me_key e \<noteq> oid" using Suc.prems(5,6)[of 0] by (simp_all add: e_def)
  show ?case
  proof (cases "me_probe e < me_probe x")
    case True
    let ?t = "put_slot t s x" and ?x = "e\<lparr>me_probe := me_probe e + 1\<rparr>"
    have n: "Suc n < length t" using Suc.prems(7) by simp
    have at: "slot_at ?t (Suc s + k) = slot_at t (s + Suc k)" if "k \<le> n" for k
      using mod_add_neq[of "Suc k" "length t" s] that n by (simp add: slot_at_put[OF L])
    have room: "unat (me_probe e) + Suc n < length t" "unat (me_probe e) + Suc n < 65535"
      using robin_run_room[OF Suc.prems(1,2), of s "Suc n"] Suc.prems(5) e(1)
      by (simp_all add: e_def)
    have p: "unat (me_probe e + 1) = Suc (unat (me_probe e))"
      by (rule unat_Suc_word) (use room in simp)
    have "\<exists>t'. insert_loop oid v ?t ?x (Suc s) = Some (t', True) \<and> robin t' \<and>
        length t' = length ?t \<and> mset (entries t') = add_mset (entry_kv ?x) (mset (entries ?t))"
    proof (rule Suc.IH)
      show "robin ?t"
        using robin_put_carried[OF Suc.prems(1,3)] Suc.prems(7) True by (simp add: e_def)
      show "probe_room ?t"
        using probe_room_put[OF L Suc.prems(2)] e(1) by (simp add: e_def)
      show "carried ?t ?x (Suc s)"
        using carried_swap[OF Suc.prems(1,3)] e(1) True Suc.prems(8) by (simp add: e_def)
      show "\<not> used (slot_at ?t (Suc s + n))" using Suc.prems(4) at[of n] by simp
      show "used (slot_at ?t (Suc s + k))" "me_key (slot_at ?t (Suc s + k)) \<noteq> oid"
        if "k < n" for k
        using Suc.prems(5,6)[of "Suc k"] at[of k] that by simp_all
      show "unat (me_probe ?x) + n < length ?t" "unat (me_probe ?x) + n < 65535"
        using room by (simp_all add: p)
    qed
    moreover have "mset (entries ?t) + {#entry_kv e#} = add_mset (entry_kv x) (mset (entries t))"
      using entries_put[OF L, of s x] e(1) Suc.prems(3) by (simp add: carried_def flip: e_def)
    ultimately show ?thesis
      using e True by (subst insert_loop.simps) (auto simp: entry_kv_def Let_def simp flip: e_def)
  next
    case False
    let ?x = "x\<lparr>me_probe := me_probe x + 1\<rparr>"
    have p: "unat (me_probe x + 1) = Suc (unat (me_probe x))"
      by (rule unat_Suc_word) (use Suc.prems(8) in simp)
    have "\<exists>t'. insert_loop oid v t ?x (Suc s) = Some (t', True) \<and> robin t' \<and>
        length t' = length t \<and> mset (entries t') = add_mset (entry_kv ?x) (mset (entries t))"
    proof (rule Suc.IH[OF Suc.prems(1,2)])
      show "carried t ?x (Suc s)"
        using carried_advance[OF Suc.prems(3)] e(1) False Suc.prems(8) by (simp add: e_def)
      show "\<not> used (slot_at t (Suc s + n))" using Suc.prems(4) by simp
      show "used (slot_at t (Suc s + k))" "me_key (slot_at t (Suc s + k)) \<noteq> oid"
        if "k < n" for k
        using Suc.prems(5,6)[of "Suc k"] that by simp_all
      show "unat (me_probe ?x) + n < length t" "unat (me_probe ?x) + n < 65535"
        using Suc.prems(7,8) by (simp_all add: p)
    qed
    then show ?thesis
      using e False by (subst insert_loop.simps) (auto simp: entry_kv_def Let_def simp flip: e_def)
  qed
qed

lemma insert_loop_hit:
  assumes "robin t" "distinct (map fst (entries t))" "used (slot_at t n)"
  defines "k \<equiv> me_key (slot_at t n)"
  shows "i \<le> unat (me_probe (slot_at t n)) \<Longrightarrow>
    insert_loop k v t \<lparr>me_key = k, me_value = v, me_probe = of_nat i\<rparr> (hash_slot (length t) k + i)
      = Some (put_slot t n ((slot_at t n)\<lparr>me_value := v\<rparr>), False)"
proof (induction rule: inc_induct)
  case base
  have "put_slot t (hash_slot (length t) k + unat (me_probe (slot_at t n))) = put_slot t n"
    using robinD(2)[OF assms(1,3)] unfolding k_def put_slot_def by presburger
  then show ?case
    using assms(3) robin_run(1)[OF assms(1,3)]
    by (subst insert_loop.simps) (simp add: Let_def k_def)
next
  case (step i)
  show ?case
    using probe_before_key[OF assms(1-3), of i] step
    by (subst insert_loop.simps) (simp add: Let_def add.commute k_def)
qed

lemma first_empty:
  assumes "0 < length t" "probe_room t"
  obtains n where "n < length t" "n < 65535" "\<not> used (slot_at t (s + n))"
    "\<And>k. k < n \<Longrightarrow> used (slot_at t (s + k))"
proof -
  define n where "n = (LEAST n. \<not> used (slot_at t (s + n)))"
  obtain k where k: "k < 65535" "\<not> used (slot_at t (s + k))"
    using assms(2) by (auto simp: probe_room_def)
  have "slot_at t (s + k mod length t) = slot_at t (s + k)"
    by (rule slot_at_cong) (simp add: mod_add_right_eq)
  then have "n \<le> k mod length t" unfolding n_def by (intro Least_le) (simp add: k(2))
  then have "n < length t" using assms(1) by (meson le_less_trans mod_less_divisor)
  moreover have "n < 65535" using Least_le[of "\<lambda>n. \<not> used (slot_at t (s + n))" k] k
    by (simp add: n_def)
  moreover have "\<not> used (slot_at t (s + n))" unfolding n_def by (rule LeastI) (rule k(2))
  moreover have "used (slot_at t (s + j))" if "j < n" for j
    using not_less_Least[of j "\<lambda>n. \<not> used (slot_at t (s + n))"] that by (auto simp: n_def)
  ultimately show thesis by (rule that)
qed

section \<open>Erasure\<close>

lemma robin_shift:
  assumes "robin t" "used (slot_at t pos)" "used (slot_at t (Suc pos))"
    and "me_probe (slot_at t (Suc pos)) \<noteq> 0"
  defines "e \<equiv> slot_at t (Suc pos)"
  shows "robin (put_slot t pos (e\<lparr>me_probe := me_probe e - 1\<rparr>))"
proof (rule robin_put[OF assms(1)])
  have pos: "0 < unat (me_probe e)" using assms(4) by (simp add: e_def unat_gt_0)
  then have p: "unat (me_probe e - 1) = unat (me_probe e) - 1"
    by (metis One_nat_def unat_minus_one unat_gt_0)
  have ub: "unat (me_probe e) \<le> Suc (unat (me_probe (slot_at t pos)))"
    using robin_prev(2)[OF assms(1,3)] pos by (simp add: e_def)
  let ?x = "e\<lparr>me_probe := me_probe e - 1\<rparr>"
  show "used ?x" using assms(3) by (simp add: e_def)
  show "unat (me_probe ?x) < length t"
    using robinD(1)[OF assms(1,3)] by (simp add: p flip: e_def)
  have "Suc (hash_slot (length t) (me_key e) + (unat (me_probe e) - 1)) mod length t
      = Suc pos mod length t"
    using robinD(2)[OF assms(1,3)] pos by (simp flip: e_def)
  from Suc_mod_inj[OF this]
  show "(hash_slot (length t) (me_key ?x) + unat (me_probe ?x)) mod length t = pos mod length t"
    by (simp add: p)
  show "used (slot_at t m) \<and> unat (me_probe ?x) \<le> Suc (unat (me_probe (slot_at t m)))"
    if "Suc m mod length t = pos mod length t" "0 < unat (me_probe ?x)" for m
    using robin_prev[OF assms(1), of m] slot_at_cong[OF that(1)] assms(2) ub that(2)
    by (simp add: p)
  show "unat (me_probe (slot_at t (Suc m))) \<le> Suc (unat (me_probe ?x))"
    if "m mod length t = pos mod length t" for m
    using slot_at_cong[OF Suc_mod_cong[OF that]] by (simp add: p flip: e_def)
qed

lemma shift_back_correct:
  assumes "robin t" "used (slot_at t pos)" "\<not> used (slot_at t (pos + Suc n))" "Suc n < length t"
  shows "\<exists>t'. shift_back t pos = Some t' \<and> robin t' \<and> length t' = length t \<and>
    add_mset (entry_kv (slot_at t pos)) (mset (entries t')) = mset (entries t) \<and>
    (\<forall>m. used (slot_at t' m) \<longrightarrow> used (slot_at t m))"
  using assms
proof (induction n arbitrary: t pos)
  case (0 t pos)
  note L = robin_pos[OF 0(1)]
  have "used (slot_at t m)" if "used (slot_at (put_slot t pos empty_entry) m)" for m
    using that by (cases "m mod length t = pos mod length t")
      (simp_all add: slot_at_put[OF L] empty_entry_def)
  then show ?case
    using 0 robin_put_empty[of t pos] entries_put[OF L, of pos empty_entry]
    by (subst shift_back.simps) (simp add: empty_entry_def)
next
  case (Suc n)
  note L = robin_pos[OF Suc.prems(1)]
  define e where "e = slot_at t (Suc pos)"
  show ?case
  proof (cases "me_key e = 0 \<or> me_probe e = 0")
    case True
    have "used (slot_at t m)" if "used (slot_at (put_slot t pos empty_entry) m)" for m
      using that by (cases "m mod length t = pos mod length t")
        (simp_all add: slot_at_put[OF L] empty_entry_def)
    then show ?thesis
      using True Suc.prems robin_put_empty[of t pos] entries_put[OF L, of pos empty_entry]
      by (subst shift_back.simps) (simp add: empty_entry_def e_def)
  next
    case False
    let ?x = "e\<lparr>me_probe := me_probe e - 1\<rparr>"
    let ?t = "put_slot t pos ?x"
    have at: "slot_at ?t (Suc pos + k) = slot_at t (Suc pos + k)" if "Suc k < length t" for k
      using mod_add_neq[of "Suc k" "length t" pos] that by (simp add: slot_at_put[OF L])
    have at0: "slot_at ?t (Suc pos) = e" using at[of 0] Suc.prems(4) by (simp add: e_def)
    have "\<exists>t'. shift_back ?t (Suc pos) = Some t' \<and> robin t' \<and> length t' = length ?t \<and>
        add_mset (entry_kv (slot_at ?t (Suc pos))) (mset (entries t')) = mset (entries ?t) \<and>
        (\<forall>m. used (slot_at t' m) \<longrightarrow> used (slot_at ?t m))"
    proof (rule Suc.IH)
      show "robin ?t"
        using robin_shift[OF Suc.prems(1,2)] False by (simp add: e_def)
      show "used (slot_at ?t (Suc pos))" using False by (simp add: at0)
      show "\<not> used (slot_at ?t (Suc pos + Suc n))"
        using at[of "Suc n"] Suc.prems(3,4) by simp
      show "Suc n < length ?t" using Suc.prems(4) by simp
    qed
    then obtain t' where t': "shift_back ?t (Suc pos) = Some t'" "robin t'" "length t' = length t"
      "add_mset (entry_kv e) (mset (entries t')) = mset (entries ?t)"
      "\<And>m. used (slot_at t' m) \<Longrightarrow> used (slot_at ?t m)" by (auto simp: at0)
    have "mset (entries ?t) + {#entry_kv (slot_at t pos)#} = mset (entries t) + {#entry_kv e#}"
      using entries_put[OF L, of pos ?x] Suc.prems(2) False by (simp add: entry_kv_def)
    then have "add_mset (entry_kv (slot_at t pos)) (mset (entries t')) = mset (entries t)"
      unfolding t'(4)[symmetric] by simp
    moreover have "used (slot_at t m)" if "used (slot_at t' m)" for m
      using t'(5)[OF that] slot_at_cong[of m t pos] Suc.prems(2)
      by (cases "m mod length t = pos mod length t") (simp_all add: slot_at_put[OF L])
    ultimately show ?thesis
      using t' False by (subst shift_back.simps) (simp add: Let_def flip: e_def)
  qed
qed

section \<open>The map as a whole\<close>

lemma map_of_cong_mset:
  assumes "mset ys = mset xs" "distinct (map fst xs)"
  shows "distinct (map fst ys)" "map_of ys = map_of xs"
proof -
  have "mset (map fst ys) = mset (map fst xs)" using assms(1) by simp
  then show d: "distinct (map fst ys)" using assms(2) mset_eq_imp_distinct_iff by blast
  show "map_of ys = map_of xs"
    using map_of_inject_set[OF d assms(2)] mset_eq_setD[OF assms(1)] by simp
qed

lemma om_invD:
  assumes "om_inv m"
  shows "robin (om_table m)" "distinct (map fst (entries (om_table m)))"
    "length (om_table m) = om_capacity m" "0 < om_capacity m"
    "om_size m = of_nat (length (entries (om_table m)))"
  using assms robin_pos[of "om_table m"] by (auto simp: om_inv_def)

lemma om_alpha_Some_slot:
  assumes "om_inv m" "om_alpha m oid = Some v"
  obtains n where "used (slot_at (om_table m) n)" "me_key (slot_at (om_table m) n) = oid"
    "me_value (slot_at (om_table m) n) = v"
  using assms map_of_entries_Some[OF om_invD(2)[OF assms(1)] robin_pos[OF om_invD(1)[OF assms(1)]]]
  unfolding om_alpha_def by blast

lemma om_alpha_None_slot:
  assumes "om_inv m" "om_alpha m oid = None" "oid \<noteq> 0"
  shows "me_key (slot_at (om_table m) n) \<noteq> oid"
proof
  assume "me_key (slot_at (om_table m) n) = oid"
  then have "om_alpha m oid = Some (me_value (slot_at (om_table m) n))"
    using map_of_entries_Some[OF om_invD(2)[OF assms(1)] robin_pos[OF om_invD(1)[OF assms(1)]]]
      assms(3) unfolding om_alpha_def by blast
  with assms(2) show False by simp
qed

lemma om_alpha_zero: "om_alpha m 0 = None"
  by (auto simp: om_alpha_def map_of_eq_None_iff entries_def entry_kv_def)

lemma map_find_correct:
  assumes "om_inv m" "probe_room (om_table m)" "oid \<noteq> 0"
  shows "map_find m oid = Some (case om_alpha m oid of None \<Rightarrow> kMapEmpty | Some v \<Rightarrow> v)"
proof (cases "om_alpha m oid")
  case None
  obtain n where "\<not> used (slot_at (om_table m) (hash_slot (om_capacity m) oid + n))"
    using assms(2) by (auto simp: probe_room_def)
  from find_loop_miss[OF om_alpha_None_slot[OF assms(1) None assms(3)] this] None
  show ?thesis by (simp add: map_find_def)
next
  case (Some v)
  then obtain n where n: "used (slot_at (om_table m) n)" "me_key (slot_at (om_table m) n) = oid"
    "me_value (slot_at (om_table m) n) = v" by (rule om_alpha_Some_slot[OF assms(1)])
  from find_loop_hit[OF om_invD(1,2)[OF assms(1)] n(1), of 0] n(2,3) Some
  show ?thesis by (simp add: map_find_def om_invD(3)[OF assms(1)])
qed

lemma map_insert_fresh:
  assumes "om_inv m" "probe_room (om_table m)" "oid \<noteq> 0" "om_alpha m oid = None"
  obtains m' where "map_insert m oid v = Some m'" "om_inv m'" "om_capacity m' = om_capacity m"
    "om_alpha m' = (om_alpha m)(oid \<mapsto> v)"
    "mset (entries (om_table m')) = add_mset (oid, v) (mset (entries (om_table m)))"
proof -
  let ?t = "om_table m" and ?x = "\<lparr>me_key = oid, me_value = v, me_probe = 0\<rparr>"
  let ?s = "hash_slot (om_capacity m) oid"
  note inv = om_invD[OF assms(1)]
  obtain n where n: "n < length ?t" "n < 65535" "\<not> used (slot_at ?t (?s + n))"
    "\<And>k. k < n \<Longrightarrow> used (slot_at ?t (?s + k))"
    using first_empty[OF robin_pos[OF inv(1)] assms(2), of ?s] by blast
  have "carried ?t ?x ?s" using assms(3) by (simp add: carried_def inv(3))
  from insert_loop_new[OF inv(1) assms(2) this n(3,4), of oid v]
    om_alpha_None_slot[OF assms(1,4,3)] n(1,2)
  obtain t' where t': "insert_loop oid v ?t ?x ?s = Some (t', True)" "robin t'"
    "length t' = length ?t" "mset (entries t') = add_mset (oid, v) (mset (entries ?t))"
    by (auto simp: entry_kv_def)
  let ?m = "m\<lparr>om_table := t', om_size := om_size m + 1\<rparr>"
  have fresh: "oid \<notin> fst ` set (entries ?t)"
    using assms(4) by (simp add: om_alpha_def map_of_eq_None_iff)
  have eq: "mset (entries t') = mset ((oid, v) # entries ?t)" using t'(4) by simp
  have d: "distinct (map fst ((oid, v) # entries ?t))" using inv(2) fresh by simp
  have "length (entries t') = Suc (length (entries ?t))" using mset_eq_length[OF eq] by simp
  then have "om_inv ?m"
    using t' map_of_cong_mset(1)[OF eq d] inv by (simp add: om_inv_def)
  moreover have "om_alpha ?m = (om_alpha m)(oid \<mapsto> v)"
    using map_of_cong_mset(2)[OF eq d] by (simp add: om_alpha_def)
  moreover have "map_insert m oid v = Some ?m" using t'(1) by (simp add: map_insert_def)
  ultimately show thesis using t'(4) by (intro that[of ?m]) simp_all
qed

lemma map_insert_present:
  assumes "om_inv m" "om_alpha m oid = Some w"
  obtains m' where "map_insert m oid v = Some m'" "om_inv m'" "om_capacity m' = om_capacity m"
    "om_alpha m' = (om_alpha m)(oid \<mapsto> v)"
    "add_mset (oid, w) (mset (entries (om_table m'))) = add_mset (oid, v) (mset (entries (om_table m)))"
proof -
  let ?t = "om_table m"
  note inv = om_invD[OF assms(1)]
  note L = robin_pos[OF inv(1)]
  obtain n where n: "used (slot_at ?t n)" "me_key (slot_at ?t n) = oid"
    "me_value (slot_at ?t n) = w" by (rule om_alpha_Some_slot[OF assms])
  let ?x = "(slot_at ?t n)\<lparr>me_value := v\<rparr>"
  let ?t' = "put_slot ?t n ?x"
  let ?m = "m\<lparr>om_table := ?t'\<rparr>"
  have loop: "insert_loop oid v ?t \<lparr>me_key = oid, me_value = v, me_probe = 0\<rparr>
      (hash_slot (om_capacity m) oid) = Some (?t', False)"
    using insert_loop_hit[OF inv(1,2) n(1), of 0 v] by (simp add: n(2) inv(3))
  have eq: "add_mset (oid, w) (mset (entries ?t')) = add_mset (oid, v) (mset (entries ?t))"
    using entries_put[OF L, of n ?x] n by (simp add: entry_kv_def)
  obtain xs where "mset xs = mset (entries ?t) - {#(oid, w)#}" by (metis ex_mset)
  moreover have "(oid, w) \<in># mset (entries ?t)"
    using assms(2) by (simp add: om_alpha_def map_of_SomeD)
  ultimately have xs: "mset (entries ?t) = mset ((oid, w) # xs)" by simp
  have d: "distinct (map fst ((oid, w) # xs))" "om_alpha m = map_of ((oid, w) # xs)"
    using map_of_cong_mset[OF xs[symmetric] inv(2)] by (auto simp: om_alpha_def)
  have eq': "mset (entries ?t') = mset ((oid, v) # xs)" using eq unfolding xs by simp
  have d': "distinct (map fst ((oid, v) # xs))" using d(1) by simp
  have "length (entries ?t') = length (entries ?t)"
    using mset_eq_length[OF xs] mset_eq_length[OF eq'] by simp
  then have "om_inv ?m"
    using robin_put_value[OF inv(1), of ?x n] map_of_cong_mset(1)[OF eq' d'] inv
    by (simp add: om_inv_def)
  moreover have "om_alpha ?m = (om_alpha m)(oid \<mapsto> v)"
    using map_of_cong_mset(2)[OF eq' d'] by (simp add: om_alpha_def d(2)[unfolded om_alpha_def])
  moreover have "map_insert m oid v = Some ?m" using loop by (simp add: map_insert_def)
  ultimately show thesis using eq by (intro that[of ?m]) simp_all
qed

lemma map_erase_present:
  assumes "om_inv m" "probe_room (om_table m)" "om_alpha m oid = Some w"
  obtains m' where "map_erase m oid = Some (True, m')" "om_inv m'" "om_capacity m' = om_capacity m"
    "om_alpha m' = (om_alpha m)(oid := None)" "probe_room (om_table m')"
    "add_mset (oid, w) (mset (entries (om_table m'))) = mset (entries (om_table m))"
proof -
  let ?t = "om_table m"
  note inv = om_invD[OF assms(1)]
  note L = robin_pos[OF inv(1)]
  obtain n where n: "used (slot_at ?t n)" "me_key (slot_at ?t n) = oid"
    "me_value (slot_at ?t n) = w" by (rule om_alpha_Some_slot[OF assms(1,3)])
  define pos where "pos = hash_slot (om_capacity m) oid + unat (me_probe (slot_at ?t n))"
  have scan: "erase_scan oid ?t (hash_slot (om_capacity m) oid) 0 = Some (Some pos)"
    using erase_scan_hit[OF inv(1,2) n(1), of 0] by (simp add: n(2) inv(3) pos_def)
  have at: "slot_at ?t pos = slot_at ?t n"
    using robin_run(1)[OF inv(1) n(1)] by (simp add: n(2) inv(3) pos_def)
  obtain k where k: "k < length ?t" "\<not> used (slot_at ?t (pos + k))"
    using first_empty[OF L assms(2), of pos] by blast
  then obtain j where j: "k = Suc j" using n(1) at by (cases k) auto
  from shift_back_correct[OF inv(1), of pos j] k j n(1)
  obtain t' where t': "shift_back ?t pos = Some t'" "robin t'" "length t' = length ?t"
    "add_mset (oid, w) (mset (entries t')) = mset (entries ?t)"
    "\<And>m. used (slot_at t' m) \<Longrightarrow> used (slot_at ?t m)"
    by (auto simp: at entry_kv_def n)
  let ?m = "m\<lparr>om_table := t', om_size := om_size m - 1\<rparr>"
  have eq: "mset ((oid, w) # entries t') = mset (entries ?t)" using t'(4) by simp
  note d = map_of_cong_mset[OF eq inv(2)]
  have "length (entries ?t) = Suc (length (entries t'))" using mset_eq_length[OF eq] by simp
  then have "om_inv ?m" using t' d(1) inv by (simp add: om_inv_def)
  moreover have "om_alpha ?m = (om_alpha m)(oid := None)"
    using d by (auto simp: om_alpha_def fun_eq_iff map_of_eq_None_iff simp flip: d(2))
  moreover have "map_erase m oid = Some (True, ?m)"
    using scan t'(1) by (simp add: map_erase_def)
  moreover have "probe_room t'" by (rule probe_room_mono[OF assms(2) t'(5)])
  ultimately show thesis using t'(4) by (intro that[of ?m]) simp_all
qed

lemma map_erase_absent:
  assumes "om_inv m" "probe_room (om_table m)" "oid \<noteq> 0" "om_alpha m oid = None"
  shows "map_erase m oid = Some (False, m)"
proof -
  obtain n where "\<not> used (slot_at (om_table m) (hash_slot (om_capacity m) oid + n))"
    using assms(2) by (auto simp: probe_room_def)
  from erase_scan_miss[OF om_alpha_None_slot[OF assms(1,4,3)] this]
  show ?thesis by (simp add: map_erase_def)
qed

lemma key_empty_entry [simp]: "me_key empty_entry = 0"
  by (simp add: empty_entry_def)

lemma om_inv_new: "0 < capacity \<Longrightarrow> om_inv (OrderMap_new capacity)"
  by (simp add: om_inv_def OrderMap_new_def robin_replicate_empty entries_def)

lemma om_alpha_new: "om_alpha (OrderMap_new capacity) = Map.empty"
  by (simp add: om_alpha_def OrderMap_new_def entries_def)

lemma om_capacity_new [simp]: "om_capacity (OrderMap_new capacity) = capacity"
  by (simp add: OrderMap_new_def)

lemma probe_room_empty: "0 < n \<Longrightarrow> probe_room (replicate n empty_entry)"
  by (auto simp: probe_room_def slot_at_def intro!: exI[of _ 0])

lemma map_reset_fresh:
  assumes "om_inv m"
  shows "om_inv (map_reset m)" "om_alpha (map_reset m) = Map.empty"
    "probe_room (om_table (map_reset m))"
  using om_invD(4)[OF assms]
  by (simp_all add: om_inv_def om_alpha_def map_reset_def robin_replicate_empty entries_def
      probe_room_empty)

lemma probe_room_new: "0 < capacity \<Longrightarrow> probe_room (om_table (OrderMap_new capacity))"
  by (simp add: OrderMap_new_def probe_room_empty)

lemma card_dom_entries:
  assumes "om_inv m"
  shows "card (dom (om_alpha m)) = length (entries (om_table m))"
  using om_invD(2)[OF assms]
  by (metis om_alpha_def dom_map_of_conv_image_fst distinct_card length_map list.set_map)

lemma room_of_count:
  assumes "om_inv m" "card (dom (om_alpha m)) < min (om_capacity m) 65535"
  shows "probe_room (om_table m)"
  using probe_roomI[of "om_table m"] om_invD[OF assms(1)] card_dom_entries[OF assms(1)] assms(2)
  by simp

section \<open>The index interface\<close>

text \<open>
  What the order book relies on. \<open>lookup\<close> is the finite map the table stands for and
  \<open>room\<close> what every probing loop needs in order to end.
\<close>

locale order_index =
  fixes inv :: "'m \<Rightarrow> bool"
    and room :: "'m \<Rightarrow> bool"
    and lookup :: "'m \<Rightarrow> OrderId \<Rightarrow> nat option"
    and find :: "'m \<Rightarrow> OrderId \<Rightarrow> nat option"
    and ins :: "'m \<Rightarrow> OrderId \<Rightarrow> nat \<Rightarrow> 'm option"
    and del :: "'m \<Rightarrow> OrderId \<Rightarrow> (bool \<times> 'm) option"
  assumes find_spec: "inv m \<Longrightarrow> room m \<Longrightarrow> k \<noteq> 0 \<Longrightarrow>
      find m k = Some (case lookup m k of None \<Rightarrow> kMapEmpty | Some v \<Rightarrow> v)"
    and ins_spec: "inv m \<Longrightarrow> room m \<Longrightarrow> k \<noteq> 0 \<Longrightarrow>
      \<exists>m'. ins m k v = Some m' \<and> inv m' \<and> lookup m' = (lookup m)(k \<mapsto> v)"
    and del_spec: "inv m \<Longrightarrow> room m \<Longrightarrow> k \<noteq> 0 \<Longrightarrow>
      \<exists>m'. del m k = Some (lookup m k \<noteq> None, m') \<and> inv m' \<and> room m' \<and>
        lookup m' = (lookup m)(k := None)"
begin

lemma ins_inv: "inv m \<Longrightarrow> room m \<Longrightarrow> k \<noteq> 0 \<Longrightarrow> ins m k v = Some m' \<Longrightarrow>
    inv m' \<and> lookup m' = (lookup m)(k \<mapsto> v)"
  using ins_spec[of m k v] by auto

lemma find_after_ins:
  assumes "inv m" "room m" "k \<noteq> 0" "ins m k v = Some m'" "room m'" "j \<noteq> 0"
  shows "find m' j = (if j = k then Some v else find m j)"
  using ins_inv[OF assms(1-4)] find_spec[of m' j] find_spec[of m j] assms by simp

lemma find_after_del:
  assumes "inv m" "room m" "k \<noteq> 0" "j \<noteq> 0"
  shows "\<exists>b m'. del m k = Some (b, m') \<and> find m' j = (if j = k then Some kMapEmpty else find m j)"
  using del_spec[OF assms(1-3)] find_spec[of _ j] assms by fastforce

lemma del_undoes_ins:
  assumes "inv m" "room m" "k \<noteq> 0" "lookup m k = None" "ins m k v = Some m'" "room m'"
  shows "\<exists>m''. del m' k = Some (True, m'') \<and> inv m'' \<and> lookup m'' = lookup m"
proof -
  have m': "inv m'" "lookup m' = (lookup m)(k \<mapsto> v)" using ins_inv[OF assms(1-3,5)] by auto
  obtain m'' where m'': "del m' k = Some (True, m'')" "inv m''" "lookup m'' = (lookup m')(k := None)"
    using del_spec[OF m'(1) assms(6,3)] m'(2) by auto
  moreover have "(lookup m')(k := None) = lookup m" using m'(2) assms(4) by (simp add: fun_upd_idem)
  ultimately show ?thesis by auto
qed

end

lemma map_insert_spec:
  assumes "om_inv m" "probe_room (om_table m)" "oid \<noteq> 0"
  shows "\<exists>m'. map_insert m oid v = Some m' \<and> om_inv m' \<and> om_alpha m' = (om_alpha m)(oid \<mapsto> v) \<and>
    om_capacity m' = om_capacity m"
proof (cases "om_alpha m oid")
  case None
  show ?thesis by (rule map_insert_fresh[OF assms None, of v]) blast
next
  case (Some w)
  show ?thesis by (rule map_insert_present[OF assms(1) Some, of v]) blast
qed

lemma map_erase_spec:
  assumes "om_inv m" "probe_room (om_table m)" "oid \<noteq> 0"
  shows "\<exists>m'. map_erase m oid = Some (om_alpha m oid \<noteq> None, m') \<and> om_inv m' \<and>
    probe_room (om_table m') \<and> om_alpha m' = (om_alpha m)(oid := None) \<and>
    om_capacity m' = om_capacity m"
proof (cases "om_alpha m oid")
  case None
  then show ?thesis
    using map_erase_absent[OF assms None] assms by (auto simp: fun_upd_idem)
next
  case (Some w)
  show ?thesis by (rule map_erase_present[OF assms(1,2) Some]) (use Some in auto)
qed

interpretation om: order_index om_inv "\<lambda>m. probe_room (om_table m)" om_alpha
    map_find map_insert map_erase
proof
  fix m k v
  assume m: "om_inv m" "probe_room (om_table m)" "k \<noteq> (0 :: OrderId)"
  show "map_find m k = Some (case om_alpha m k of None \<Rightarrow> kMapEmpty | Some v \<Rightarrow> v)"
    by (rule map_find_correct[OF m])
  show "\<exists>m'. map_insert m k v = Some m' \<and> om_inv m' \<and> om_alpha m' = (om_alpha m)(k \<mapsto> v)"
    using map_insert_spec[OF m] by blast
  show "\<exists>m'. map_erase m k = Some (om_alpha m k \<noteq> None, m') \<and> om_inv m' \<and>
      probe_room (om_table m') \<and> om_alpha m' = (om_alpha m)(k := None)"
    using map_erase_spec[OF m] by blast
qed

section \<open>A run of operations\<close>

lemma run_map_ops_refines:
  assumes "om_inv m" "\<And>x. x \<in> set ops \<Longrightarrow> map_op_key x \<noteq> 0"
    and "keys_below (min (om_capacity m) 65535) ops (om_alpha m)"
  shows "\<exists>m'. run_map_ops ops m = Some m' \<and> om_inv m' \<and> probe_room (om_table m') \<and>
    om_alpha m' = fold spec_map_op ops (om_alpha m)"
  using assms
proof (induction ops arbitrary: m)
  case Nil
  then show ?case using room_of_count[of m] by simp
next
  case (Cons x ops)
  have room: "probe_room (om_table m)" using Cons.prems room_of_count[of m] by simp
  have ops: "map_op_key y \<noteq> 0" if "y \<in> set ops" for y using Cons.prems(2) that by simp
  show ?case
  proof (cases x)
    case (MapIns k v)
    then obtain m' where m': "map_insert m k v = Some m'" "om_inv m'"
      "om_alpha m' = spec_map_op x (om_alpha m)" "om_capacity m' = om_capacity m"
      using map_insert_spec[OF Cons.prems(1) room, of k v] Cons.prems(2)[of x] by auto
    have "keys_below (min (om_capacity m') 65535) ops (om_alpha m')"
      using Cons.prems(3) by (simp add: m')
    from Cons.IH[OF m'(2) ops this] show ?thesis
      by (auto simp: m'(1) MapIns m'(3)[unfolded MapIns] fun_upd_def)
  next
    case (MapDel k)
    then obtain b m' where m': "map_erase m k = Some (b, m')" "om_inv m'"
      "om_alpha m' = spec_map_op x (om_alpha m)" "om_capacity m' = om_capacity m"
      using map_erase_spec[OF Cons.prems(1) room, of k] Cons.prems(2)[of x] by auto
    have "keys_below (min (om_capacity m') 65535) ops (om_alpha m')"
      using Cons.prems(3) by (simp add: m')
    from Cons.IH[OF m'(2) ops this] show ?thesis
      by (auto simp: m'(1) MapDel m'(3)[unfolded MapDel] fun_upd_def)
  qed
qed

section \<open>Properties\<close>

text \<open>
  Property C10. On a well-formed table with room for probing, a lookup of a non-zero order
  reference ends and returns the pool index stored under it, or \<^verbatim>\<open>kMapEmpty\<close> when there
  is none: the early exit on a smaller probe distance never misses a key.
\<close>

theorem order_map_find_correct:
  assumes "om_inv m" "probe_room (om_table m)" "oid \<noteq> 0"
  shows "map_find m oid = Some (case om_alpha m oid of None \<Rightarrow> kMapEmpty | Some v \<Rightarrow> v)"
  by (rule om.find_spec[OF assms])

theorem order_map_find_correct_witness:
  "map_find (OrderMap_new 4) 7 = Some kMapEmpty"
  using order_map_find_correct[of "OrderMap_new 4" 7]
  by (simp add: om_inv_new probe_room_new om_alpha_new)

text \<open>
  Property C9. Any sequence of insertions and erasures of non-zero references, in which fewer
  than \<^verbatim>\<open>min(capacity, 65535)\<close> keys are held at a time, runs to its end on a table that
  started well-formed, keeps the Robin Hood structure and leaves the finite map that the
  same updates give. Every probing loop of the sequence ends.
\<close>

theorem order_map_refines_finite_map:
  assumes "om_inv m" "\<forall>x \<in> set ops. map_op_key x \<noteq> 0"
    and "keys_below (min (om_capacity m) 65535) ops (om_alpha m)"
  shows "\<exists>m'. run_map_ops ops m = Some m' \<and> om_inv m' \<and> probe_room (om_table m') \<and>
    om_alpha m' = fold spec_map_op ops (om_alpha m)"
  by (rule run_map_ops_refines) (use assms in auto)

theorem order_map_refines_finite_map_witness:
  "\<exists>m'. run_map_ops [MapIns 7 1, MapIns 9 2, MapDel 7, MapIns 9 5] (OrderMap_new 4) = Some m' \<and>
    om_inv m' \<and> probe_room (om_table m') \<and> om_alpha m' = [9 \<mapsto> 5]"
proof -
  let ?ops = "[MapIns 7 1, MapIns 9 2, MapDel 7, MapIns 9 5]"
  have "fold spec_map_op ?ops Map.empty = [9 \<mapsto> 5]" by (simp add: fun_eq_iff)
  moreover have "keys_below (min (om_capacity (OrderMap_new 4)) 65535) ?ops Map.empty"
    by (simp add: card_insert_if)
  ultimately show ?thesis
    using order_map_refines_finite_map[of "OrderMap_new 4" ?ops, OF om_inv_new]
    unfolding om_alpha_new by (simp del: run_map_ops.simps keys_below.simps fold_simps)
qed

text \<open>
  Erasing a reference that was just inserted gives back the map there was
  before the insertion: the backward shift removes that entry and no other.
\<close>

theorem order_map_insert_erase_roundtrip:
  assumes "om_inv m" "probe_room (om_table m)" "oid \<noteq> 0" "om_alpha m oid = None"
    and "map_insert m oid idx = Some m'" "probe_room (om_table m')"
  shows "\<exists>m''. map_erase m' oid = Some (True, m'') \<and> om_inv m'' \<and> om_alpha m'' = om_alpha m"
  by (rule om.del_undoes_ins[OF assms])


theorem order_map_insert_erase_roundtrip_witness:
  "\<exists>m' m''. map_insert (OrderMap_new 4) 7 3 = Some m' \<and> map_erase m' 7 = Some (True, m'') \<and>
    om_inv m'' \<and> om_alpha m'' = Map.empty"
proof -
  let ?m = "OrderMap_new 4"
  have m: "om_inv ?m" "probe_room (om_table ?m)" by (simp_all add: om_inv_new probe_room_new)
  obtain m' where m': "map_insert ?m 7 3 = Some m'" "om_inv m'" "om_alpha m' = [7 \<mapsto> 3]"
    "om_capacity m' = 4"
    using map_insert_spec[OF m, of 7 3] by (auto simp: om_alpha_new)
  then have "probe_room (om_table m')" using room_of_count[of m'] by simp
  from order_map_insert_erase_roundtrip[OF m _ _ m'(1) this] m'(1) show ?thesis
    by (simp add: om_alpha_new)
qed

end
