(* ===== verification/Itch_Messages.thy ===== *)
theory Itch_Messages
  imports Itch_Prelude
begin

unbundle bit_operations_syntax

text \<open>
  \<^verbatim>\<open>include/protocol/itch_messages.hpp\<close>: the byte-swap helpers, the layout of the wire
  structs, and the host-order message \<^verbatim>\<open>ItchMsg\<close>.

  Memory is a function from addresses to bytes, so that a read past the end of a message
  has the value that lies there. A wire struct is the list of its fields with their sizes;
  the structs are packed, so the offset of a field is the sum of the sizes before it, and
  the lemmas below are the \<^verbatim>\<open>static_assert\<close>s and offset comments of the header.

  The members of the union in \<^verbatim>\<open>ItchMsg\<close> are separate sub-records of the model, while in the
  program they lie on the same bytes. What a member other than that of the type holds in the model
  therefore says nothing about the program; \<open>Message_Union\<close> shows that no reader depends on it.
\<close>

section \<open>Byte-swap helpers\<close>

type_synonym mem = "nat \<Rightarrow> u8"

definition be16 :: "mem \<Rightarrow> nat \<Rightarrow> u16" where
  "be16 d p = push_bit 8 (ucast (d p)) OR ucast (d (p + 1))"

definition be32 :: "mem \<Rightarrow> nat \<Rightarrow> u32" where
  "be32 d p = push_bit 24 (ucast (d p)) OR push_bit 16 (ucast (d (p + 1))) OR
              push_bit 8 (ucast (d (p + 2))) OR ucast (d (p + 3))"

definition be48 :: "mem \<Rightarrow> nat \<Rightarrow> u64" where
  "be48 d p = push_bit 40 (ucast (d p)) OR push_bit 32 (ucast (d (p + 1))) OR
              push_bit 24 (ucast (d (p + 2))) OR push_bit 16 (ucast (d (p + 3))) OR
              push_bit 8 (ucast (d (p + 4))) OR ucast (d (p + 5))"

definition be64 :: "mem \<Rightarrow> nat \<Rightarrow> u64" where
  "be64 d p = push_bit 56 (ucast (d p)) OR push_bit 48 (ucast (d (p + 1))) OR
              push_bit 40 (ucast (d (p + 2))) OR push_bit 32 (ucast (d (p + 3))) OR
              push_bit 24 (ucast (d (p + 4))) OR push_bit 16 (ucast (d (p + 5))) OR
              push_bit 8 (ucast (d (p + 6))) OR ucast (d (p + 7))"

text \<open>\<open>copy_bytes d p n\<close> is what \<^verbatim>\<open>memcpy(dst, d + p, n)\<close> stores.\<close>

definition copy_bytes :: "mem \<Rightarrow> nat \<Rightarrow> nat \<Rightarrow> u8 list" where
  "copy_bytes d p n = map (\<lambda>i. d (p + i)) [0..<n]"

section \<open>Common header offsets\<close>

definition kOffType :: nat where "kOffType = 0"
definition kOffLocate :: nat where "kOffLocate = 1"
definition kOffTracking :: nat where "kOffTracking = 3"
definition kOffTimestamp :: nat where "kOffTimestamp = 5"
definition kOffPayload :: nat where "kOffPayload = 11"

lemmas header_offsets =
  kOffType_def kOffLocate_def kOffTracking_def kOffTimestamp_def kOffPayload_def

section \<open>Wire structs\<close>

type_synonym layout = "(string \<times> nat) list"

definition sizeof :: "layout \<Rightarrow> nat" where
  "sizeof l = sum_list (map snd l)"

fun offset :: "layout \<Rightarrow> string \<Rightarrow> nat" where
  "offset [] f = 0"
| "offset ((g, n) # l) f = (if f = g then 0 else n + offset l f)"

definition wire_header :: layout where
  "wire_header = [(''type'', 1), (''locate'', 2), (''tracking'', 2), (''timestamp'', 6)]"

definition WireSystemEvent :: layout where
  "WireSystemEvent = wire_header @ [(''event_code'', 1)]"

definition WireStockDirectory :: layout where
  "WireStockDirectory = wire_header @
    [(''stock'', 8), (''market_category'', 1), (''financial_status'', 1), (''round_lot_size'', 4),
     (''round_lots_only'', 1), (''issue_classification'', 1), (''issue_sub_type'', 2),
     (''authenticity'', 1), (''short_sale_threshold'', 1), (''ipo_flag'', 1), (''luld_tier'', 1),
     (''etp_flag'', 1), (''etp_leverage'', 4), (''inverse_indicator'', 1)]"

definition WireStockTradingAction :: layout where
  "WireStockTradingAction = wire_header @
    [(''stock'', 8), (''trading_state'', 1), (''reserved'', 1), (''reason'', 4)]"

definition WireRegSHO :: layout where
  "WireRegSHO = wire_header @ [(''stock'', 8), (''reg_sho_action'', 1)]"

definition WireMarketParticipant :: layout where
  "WireMarketParticipant = wire_header @
    [(''mpid'', 4), (''stock'', 8), (''primary_mm'', 1), (''mm_mode'', 1),
     (''participant_state'', 1)]"

definition WireMWCBDecline :: layout where
  "WireMWCBDecline = wire_header @ [(''level1'', 8), (''level2'', 8), (''level3'', 8)]"

definition WireMWCBStatus :: layout where
  "WireMWCBStatus = wire_header @ [(''breached_level'', 1)]"

definition WireIPOQuoting :: layout where
  "WireIPOQuoting = wire_header @
    [(''stock'', 8), (''ipo_quotation_release_time'', 4), (''ipo_quotation_release_qualifier'', 1),
     (''ipo_price'', 4)]"

definition WireLULDAuctionCollar :: layout where
  "WireLULDAuctionCollar = wire_header @
    [(''stock'', 8), (''auction_collar_ref_price'', 4), (''upper_auction_collar_price'', 4),
     (''lower_auction_collar_price'', 4), (''auction_collar_extension'', 4)]"

definition WireOperationalHalt :: layout where
  "WireOperationalHalt = wire_header @
    [(''stock'', 8), (''market_code'', 1), (''operational_halt_action'', 1)]"

definition WireAddOrder :: layout where
  "WireAddOrder = wire_header @
    [(''order_ref'', 8), (''buy_sell'', 1), (''shares'', 4), (''stock'', 8), (''price'', 4)]"

definition WireAddOrderMPID :: layout where
  "WireAddOrderMPID = wire_header @
    [(''order_ref'', 8), (''buy_sell'', 1), (''shares'', 4), (''stock'', 8), (''price'', 4),
     (''attribution'', 4)]"

definition WireOrderExecuted :: layout where
  "WireOrderExecuted = wire_header @
    [(''order_ref'', 8), (''executed_shares'', 4), (''match_number'', 8)]"

definition WireOrderExecutedPrice :: layout where
  "WireOrderExecutedPrice = wire_header @
    [(''order_ref'', 8), (''executed_shares'', 4), (''match_number'', 8), (''printable'', 1),
     (''execution_price'', 4)]"

definition WireOrderCancel :: layout where
  "WireOrderCancel = wire_header @ [(''order_ref'', 8), (''cancelled_shares'', 4)]"

definition WireOrderDelete :: layout where
  "WireOrderDelete = wire_header @ [(''order_ref'', 8)]"

definition WireOrderReplace :: layout where
  "WireOrderReplace = wire_header @
    [(''orig_order_ref'', 8), (''new_order_ref'', 8), (''new_shares'', 4), (''new_price'', 4)]"

definition WireTrade :: layout where
  "WireTrade = wire_header @
    [(''order_ref'', 8), (''buy_sell'', 1), (''shares'', 4), (''stock'', 8), (''price'', 4),
     (''match_number'', 8)]"

definition WireCrossTrade :: layout where
  "WireCrossTrade = wire_header @
    [(''shares'', 8), (''stock'', 8), (''cross_price'', 4), (''match_number'', 8),
     (''cross_type'', 1)]"

definition WireBrokenTrade :: layout where
  "WireBrokenTrade = wire_header @ [(''match_number'', 8)]"

definition WireNOII :: layout where
  "WireNOII = wire_header @
    [(''paired_shares'', 8), (''imbalance_shares'', 8), (''imbalance_direction'', 1), (''stock'', 8),
     (''far_price'', 4), (''near_price'', 4), (''current_ref_price'', 4), (''cross_type'', 1),
     (''price_variation_indicator'', 1)]"

definition WireRPIIndicator :: layout where
  "WireRPIIndicator = wire_header @ [(''stock'', 8), (''interest_flag'', 1)]"

lemmas wire_structs =
  WireSystemEvent_def WireStockDirectory_def WireStockTradingAction_def WireRegSHO_def
  WireMarketParticipant_def WireMWCBDecline_def WireMWCBStatus_def WireIPOQuoting_def
  WireLULDAuctionCollar_def WireOperationalHalt_def WireAddOrder_def WireAddOrderMPID_def
  WireOrderExecuted_def WireOrderExecutedPrice_def WireOrderCancel_def WireOrderDelete_def
  WireOrderReplace_def WireTrade_def WireCrossTrade_def WireBrokenTrade_def WireNOII_def
  WireRPIIndicator_def wire_header_def

section \<open>The host-order message\<close>

record AddOrderFields =
  ao_ref :: OrderId
  ao_side :: Side
  ao_price :: Price
  ao_shares :: Qty
  ao_stock :: "u8 list"
  ao_attribution :: "u8 list"

record OrderExecutedFields =
  oe_ref :: OrderId
  oe_executed_shares :: Qty
  oe_match_number :: u64

record OrderExecutedPriceFields =
  op_ref :: OrderId
  op_executed_shares :: Qty
  op_match_number :: u64
  op_price :: Price
  op_printable :: bool

record OrderCancelFields =
  oc_ref :: OrderId
  oc_cancelled_shares :: Qty

record OrderReplaceFields =
  or_orig_ref :: OrderId
  or_new_ref :: OrderId
  or_new_shares :: Qty
  or_new_price :: Price

record StockDirectoryFields =
  sd_stock :: "u8 list"
  sd_market_category :: u8
  sd_round_lot_size :: u32
  sd_financial_status :: u8
  sd_authenticity :: u8

record TradingActionFields =
  ta_stock :: "u8 list"
  ta_trading_state :: u8
  ta_reason :: "u8 list"

record TradeFields =
  tr_ref :: OrderId
  tr_side :: Side
  tr_shares :: Qty
  tr_price :: Price
  tr_stock :: "u8 list"
  tr_match_number :: u64

record CrossTradeFields =
  ct_shares :: u64
  ct_cross_price :: Price
  ct_stock :: "u8 list"
  ct_match_number :: u64
  ct_cross_type :: u8

record NOIIFields =
  no_paired_shares :: u64
  no_imbalance_shares :: u64
  no_imbalance_direction :: u8
  no_stock :: "u8 list"
  no_far_price :: Price
  no_near_price :: Price
  no_current_ref_price :: Price
  no_cross_type :: u8
  no_price_variation_indicator :: u8

record ItchMsg =
  im_type :: MessageType
  im_locate :: LocateCode
  im_timestamp :: Timestamp
  im_recv_timestamp :: Timestamp
  im_add_order :: AddOrderFields
  im_order_executed :: OrderExecutedFields
  im_order_executed_price :: OrderExecutedPriceFields
  im_order_cancel :: OrderCancelFields
  im_order_delete_ref :: OrderId
  im_order_replace :: OrderReplaceFields
  im_stock_directory :: StockDirectoryFields
  im_trading_action :: TradingActionFields
  im_trade :: TradeFields
  im_cross_trade :: CrossTradeFields
  im_broken_trade_match_number :: u64
  im_noii :: NOIIFields
  im_system_event_code :: u8
  im_reg_sho_stock :: "u8 list"
  im_reg_sho_action :: u8
  im_rpi_stock :: "u8 list"
  im_rpi_interest_flag :: u8

text \<open>\<^verbatim>\<open>ItchMsg{}\<close>: value initialisation, every byte of the union zero.\<close>

definition zero_chars :: "nat \<Rightarrow> u8 list" where
  "zero_chars n = replicate n 0"

definition ItchMsg_init :: ItchMsg where
  "ItchMsg_init =
    \<lparr>im_type = Unknown, im_locate = 0, im_timestamp = 0, im_recv_timestamp = 0,
     im_add_order = \<lparr>ao_ref = 0, ao_side = SideChar 0, ao_price = 0, ao_shares = 0,
                     ao_stock = zero_chars 8, ao_attribution = zero_chars 4\<rparr>,
     im_order_executed = \<lparr>oe_ref = 0, oe_executed_shares = 0, oe_match_number = 0\<rparr>,
     im_order_executed_price = \<lparr>op_ref = 0, op_executed_shares = 0, op_match_number = 0,
                                op_price = 0, op_printable = False\<rparr>,
     im_order_cancel = \<lparr>oc_ref = 0, oc_cancelled_shares = 0\<rparr>,
     im_order_delete_ref = 0,
     im_order_replace = \<lparr>or_orig_ref = 0, or_new_ref = 0, or_new_shares = 0, or_new_price = 0\<rparr>,
     im_stock_directory = \<lparr>sd_stock = zero_chars 8, sd_market_category = 0, sd_round_lot_size = 0,
                           sd_financial_status = 0, sd_authenticity = 0\<rparr>,
     im_trading_action = \<lparr>ta_stock = zero_chars 8, ta_trading_state = 0,
                          ta_reason = zero_chars 4\<rparr>,
     im_trade = \<lparr>tr_ref = 0, tr_side = SideChar 0, tr_shares = 0, tr_price = 0,
                 tr_stock = zero_chars 8, tr_match_number = 0\<rparr>,
     im_cross_trade = \<lparr>ct_shares = 0, ct_cross_price = 0, ct_stock = zero_chars 8,
                       ct_match_number = 0, ct_cross_type = 0\<rparr>,
     im_broken_trade_match_number = 0,
     im_noii = \<lparr>no_paired_shares = 0, no_imbalance_shares = 0, no_imbalance_direction = 0,
                no_stock = zero_chars 8, no_far_price = 0, no_near_price = 0,
                no_current_ref_price = 0, no_cross_type = 0, no_price_variation_indicator = 0\<rparr>,
     im_system_event_code = 0, im_reg_sho_stock = zero_chars 8, im_reg_sho_action = 0,
     im_rpi_stock = zero_chars 8, im_rpi_interest_flag = 0\<rparr>"

section \<open>Sizes and offsets\<close>

lemma wire_sizes [wire_simps]:
  "sizeof WireSystemEvent = 12" "sizeof WireStockDirectory = 39"
  "sizeof WireStockTradingAction = 25" "sizeof WireRegSHO = 20"
  "sizeof WireMarketParticipant = 26" "sizeof WireMWCBDecline = 35" "sizeof WireMWCBStatus = 12"
  "sizeof WireIPOQuoting = 28" "sizeof WireLULDAuctionCollar = 35" "sizeof WireOperationalHalt = 21"
  "sizeof WireAddOrder = 36" "sizeof WireAddOrderMPID = 40" "sizeof WireOrderExecuted = 31"
  "sizeof WireOrderExecutedPrice = 36" "sizeof WireOrderCancel = 23" "sizeof WireOrderDelete = 19"
  "sizeof WireOrderReplace = 35" "sizeof WireTrade = 44" "sizeof WireCrossTrade = 40"
  "sizeof WireBrokenTrade = 19" "sizeof WireNOII = 50" "sizeof WireRPIIndicator = 20"
  by (simp_all add: sizeof_def wire_structs)

text \<open>Every wire struct starts with the common header, at the offsets the parser uses.\<close>

lemma header_offsets_agree:
  "offset (wire_header @ l) ''type'' = kOffType"
  "offset (wire_header @ l) ''locate'' = kOffLocate"
  "offset (wire_header @ l) ''tracking'' = kOffTracking"
  "offset (wire_header @ l) ''timestamp'' = kOffTimestamp"
  "sizeof wire_header = kOffPayload"
  by (simp_all add: wire_header_def header_offsets sizeof_def)

section \<open>Big-endian encoding\<close>

text \<open>The bytes of a word, most significant first, and their layout in memory.\<close>

definition enc_be :: "nat \<Rightarrow> 'a::len word \<Rightarrow> u8 list" where
  "enc_be n w = map (\<lambda>i. ucast (drop_bit (8 * (n - 1 - i)) w)) [0..<n]"

definition holds_at :: "mem \<Rightarrow> nat \<Rightarrow> u8 list \<Rightarrow> bool" where
  "holds_at d p bs \<longleftrightarrow> (\<forall>i < length bs. d (p + i) = bs ! i)"

lemma length_enc_be [simp]: "length (enc_be n w) = n"
  by (simp add: enc_be_def)

lemma holds_at_append:
  "holds_at d p (bs @ cs) \<longleftrightarrow> holds_at d p bs \<and> holds_at d (p + length bs) cs"
proof -
  have "(\<forall>i < length bs + length cs. d (p + i) = (bs @ cs) ! i) \<longleftrightarrow>
    (\<forall>i < length bs. d (p + i) = bs ! i) \<and> (\<forall>i < length cs. d (p + length bs + i) = cs ! i)"
    (is "?l \<longleftrightarrow> ?r1 \<and> ?r2")
  proof (intro iffI conjI)
    assume ?l
    show ?r1
    proof (intro allI impI)
      fix i assume "i < length bs"
      then show "d (p + i) = bs ! i" using \<open>?l\<close>[rule_format, of i] by (simp add: nth_append)
    qed
    show ?r2
    proof (intro allI impI)
      fix i assume "i < length cs"
      then show "d (p + length bs + i) = cs ! i"
        using \<open>?l\<close>[rule_format, of "length bs + i"] by (simp add: add.assoc)
    qed
  next
    assume r: "?r1 \<and> ?r2"
    show ?l
    proof (intro allI impI)
      fix i assume i: "i < length bs + length cs"
      show "d (p + i) = (bs @ cs) ! i"
      proof (cases "i < length bs")
        case True
        then show ?thesis using r by (simp add: nth_append)
      next
        case False
        then show ?thesis
          using conjunct2[OF r, rule_format, of "i - length bs"] i by (simp add: nth_append)
      qed
    qed
  qed
  then show ?thesis by (simp add: holds_at_def)
qed

lemma holds_at_Nil [simp]: "holds_at d p []"
  by (simp add: holds_at_def)

lemma holds_at_Cons: "holds_at d p (b # bs) \<longleftrightarrow> d p = b \<and> holds_at d (p + 1) bs"
  using holds_at_append[of d p "[b]" bs] by (simp add: holds_at_def)

lemma enc_be_at:
  assumes "holds_at d p (enc_be n w)" "i < n"
  shows "d (p + i) = ucast (drop_bit (8 * (n - 1 - i)) w)"
  using assms by (simp add: holds_at_def enc_be_def)

lemma byte_low: "ucast (ucast w :: u8) = (take_bit 8 w :: 'a::len word)"
  by (rule bit_word_eqI) (auto simp: bit_simps)

lemma byte_join:
  "push_bit k (ucast (ucast (drop_bit k w) :: u8)) OR take_bit k w =
    (take_bit (k + 8) w :: 'a::len word)"
proof (rule bit_word_eqI)
  fix n assume "n < LENGTH('a)"
  then show "bit (push_bit k (ucast (ucast (drop_bit k w) :: u8)) OR take_bit k w) n =
      bit (take_bit (k + 8) w) n"
    by (cases "k \<le> n") (auto simp: bit_simps)
qed

lemma be16_enc: "holds_at d p (enc_be 2 w) \<Longrightarrow> be16 d p = w"
  using enc_be_at[of d p 2 w 0] enc_be_at[of d p 2 w 1] byte_join[of 8 w]
  by (simp add: be16_def byte_low take_bit_word_eq_self)

lemma be32_enc: "holds_at d p (enc_be 4 w) \<Longrightarrow> be32 d p = w"
  using enc_be_at[of d p 4 w 0] enc_be_at[of d p 4 w 1] enc_be_at[of d p 4 w 2]
    enc_be_at[of d p 4 w 3] byte_join[of 8 w] byte_join[of 16 w] byte_join[of 24 w]
  by (simp add: be32_def byte_low take_bit_word_eq_self)

lemma be48_enc: "holds_at d p (enc_be 6 w) \<Longrightarrow> be48 d p = take_bit 48 w"
  using enc_be_at[of d p 6 w 0] enc_be_at[of d p 6 w 1] enc_be_at[of d p 6 w 2]
    enc_be_at[of d p 6 w 3] enc_be_at[of d p 6 w 4] enc_be_at[of d p 6 w 5]
    byte_join[of 8 w] byte_join[of 16 w] byte_join[of 24 w] byte_join[of 32 w] byte_join[of 40 w]
  by (simp add: be48_def byte_low)

lemma be64_enc: "holds_at d p (enc_be 8 w) \<Longrightarrow> be64 d p = w"
  using enc_be_at[of d p 8 w 0] enc_be_at[of d p 8 w 1] enc_be_at[of d p 8 w 2]
    enc_be_at[of d p 8 w 3] enc_be_at[of d p 8 w 4] enc_be_at[of d p 8 w 5]
    enc_be_at[of d p 8 w 6] enc_be_at[of d p 8 w 7]
    byte_join[of 8 w] byte_join[of 16 w] byte_join[of 24 w] byte_join[of 32 w] byte_join[of 40 w]
    byte_join[of 48 w] byte_join[of 56 w]
  by (simp add: be64_def byte_low take_bit_word_eq_self)

lemma copy_bytes_holds: "holds_at d p bs \<Longrightarrow> copy_bytes d p (length bs) = bs"
  by (rule nth_equalityI) (simp_all add: copy_bytes_def holds_at_def)

end
