(* ===== verification/Level2_Book.thy ===== *)
theory Level2_Book
  imports Order_Pool Order_Map Itch_Messages
begin

text \<open>
  The order book of one symbol: \<^verbatim>\<open>include/orderbook/price_level.hpp\<close>,
  \<^verbatim>\<open>include/orderbook/level2_book.hpp\<close> and \<^verbatim>\<open>src/orderbook/level2_book.cpp\<close>.

  A book holds two arrays of price levels with their counts; the orders of a level form a
  doubly linked list through the shard's order pool, and the shard's order map leads from
  an order reference to its pool slot. \<open>BookState\<close> is a book together with the pool, the
  map and the two counters of the shard it points to. A handler returns the new state or
  a fault: an array access out of range, or a probe loop of the map that does not end.
\<close>

section \<open>Data\<close>

record PriceLevel =
  pl_price :: Price
  pl_total_qty :: Qty
  pl_order_count :: u32
  pl_head :: nat
  pl_tail :: nat

definition blank_level :: "Price \<Rightarrow> PriceLevel" where
  "blank_level price = \<lparr>pl_price = price, pl_total_qty = 0, pl_order_count = 0,
                        pl_head = kInvalidIdx, pl_tail = kInvalidIdx\<rparr>"

datatype TradingStatus =
  StatusUnknown | Halted | Paused | Quotation | Trading | StatusByte u8

definition trading_status_of :: "u8 \<Rightarrow> TradingStatus" where
  "trading_status_of c =
    (if c = 0 then StatusUnknown else if c = 0x48 then Halted else if c = 0x50 then Paused
     else if c = 0x51 then Quotation else if c = 0x54 then Trading else StatusByte c)"

record BboSnapshot =
  bb_locate :: LocateCode
  bb_bid_price :: Price
  bb_bid_qty :: Qty
  bb_ask_price :: Price
  bb_ask_qty :: Qty
  bb_ts :: Timestamp

record Level2Book =
  lb_locate :: LocateCode
  lb_status :: TradingStatus
  lb_drop_ctr :: bool
  lb_inplace_ctr :: bool
  lb_bid_levels :: "PriceLevel list"
  lb_ask_levels :: "PriceLevel list"
  lb_bid_count :: nat
  lb_ask_count :: nat

record BookState =
  bs_book :: Level2Book
  bs_pool :: OrderPool
  bs_map :: OrderMap
  bs_drops :: counter
  bs_inplace :: counter

text \<open>The counter pointers are null until the shard worker attaches them.\<close>

definition Level2Book_new :: "LocateCode \<Rightarrow> Level2Book" where
  "Level2Book_new locate =
    \<lparr>lb_locate = locate, lb_status = Halted, lb_drop_ctr = False, lb_inplace_ctr = False,
     lb_bid_levels = replicate MAX_PRICE_LEVELS (blank_level 0),
     lb_ask_levels = replicate MAX_PRICE_LEVELS (blank_level 0),
     lb_bid_count = 0, lb_ask_count = 0\<rparr>"

definition book_clear :: "Level2Book \<Rightarrow> Level2Book" where
  "book_clear b =
    b\<lparr>lb_bid_levels := replicate MAX_PRICE_LEVELS (blank_level 0),
      lb_ask_levels := replicate MAX_PRICE_LEVELS (blank_level 0),
      lb_bid_count := 0, lb_ask_count := 0, lb_status := Halted\<rparr>"

definition bid_depth :: "Level2Book \<Rightarrow> u8" where
  "bid_depth b = of_nat (lb_bid_count b)"

definition ask_depth :: "Level2Book \<Rightarrow> u8" where
  "ask_depth b = of_nat (lb_ask_count b)"

definition is_full :: "Level2Book \<Rightarrow> bool" where
  "is_full b \<longleftrightarrow> MAX_PRICE_LEVELS \<le> lb_bid_count b \<or> MAX_PRICE_LEVELS \<le> lb_ask_count b"

definition set_drop_ctr :: "Level2Book \<Rightarrow> Level2Book" where
  "set_drop_ctr b = b\<lparr>lb_drop_ctr := True\<rparr>"

definition set_inplace_ctr :: "Level2Book \<Rightarrow> Level2Book" where
  "set_inplace_ctr b = b\<lparr>lb_inplace_ctr := True\<rparr>"

text \<open>The side selection \<^verbatim>\<open>(side == Side::Buy) ? bid_levels_ : ask_levels_\<close>.\<close>

definition levels_of :: "Level2Book \<Rightarrow> Side \<Rightarrow> PriceLevel list" where
  "levels_of b side = (if side = Buy then lb_bid_levels b else lb_ask_levels b)"

definition count_of :: "Level2Book \<Rightarrow> Side \<Rightarrow> nat" where
  "count_of b side = (if side = Buy then lb_bid_count b else lb_ask_count b)"

definition set_side :: "Level2Book \<Rightarrow> Side \<Rightarrow> PriceLevel list \<Rightarrow> nat \<Rightarrow> Level2Book" where
  "set_side b side levels cnt =
    (if side = Buy then b\<lparr>lb_bid_levels := levels, lb_bid_count := cnt\<rparr>
     else b\<lparr>lb_ask_levels := levels, lb_ask_count := cnt\<rparr>)"

section \<open>Price level array helpers\<close>

function find_level_loop :: "PriceLevel list \<Rightarrow> nat \<Rightarrow> Price \<Rightarrow> nat \<Rightarrow> nat" where
  "find_level_loop levels cnt price i =
    (if i < cnt then
       if pl_price (levels ! i) = price then i else find_level_loop levels cnt price (i + 1)
     else cnt)"
  by pat_completeness auto
termination by (relation "measure (\<lambda>(_, cnt, _, i). cnt - i)") auto

definition find_level :: "PriceLevel list \<Rightarrow> nat \<Rightarrow> Price \<Rightarrow> nat" where
  "find_level levels cnt price = find_level_loop levels cnt price 0"

text \<open>\<open>goes_before side p q\<close>: a level at price \<open>p\<close> stands before one at price \<open>q\<close>.\<close>

definition goes_before :: "Side \<Rightarrow> Price \<Rightarrow> Price \<Rightarrow> bool" where
  "goes_before side p q \<longleftrightarrow> (if side = Buy then p > q else p < q)"

function insert_pos :: "PriceLevel list \<Rightarrow> nat \<Rightarrow> Price \<Rightarrow> Side \<Rightarrow> nat \<Rightarrow> nat" where
  "insert_pos levels cnt price side pos =
    (if pos < cnt \<and> goes_before side (pl_price (levels ! pos)) price
     then insert_pos levels cnt price side (pos + 1) else pos)"
  by pat_completeness auto
termination by (relation "measure (\<lambda>(_, cnt, _, _, pos). cnt - pos)") auto

declare find_level_loop.simps [simp del] insert_pos.simps [simp del]

text \<open>The index (or \<^verbatim>\<open>MAX_PRICE_LEVELS\<close>), the array, the count and the drop counter.\<close>

definition insert_level ::
  "bool \<Rightarrow> counter \<Rightarrow> PriceLevel list \<Rightarrow> nat \<Rightarrow> Price \<Rightarrow> Side \<Rightarrow>
     nat \<times> PriceLevel list \<times> nat \<times> counter" where
  "insert_level drop_ctr drops levels cnt price side =
    (if MAX_PRICE_LEVELS \<le> cnt
     then (MAX_PRICE_LEVELS, levels, cnt, if drop_ctr then drops + 1 else drops)
     else let pos = insert_pos levels cnt price side 0;
              shifted = (if pos < cnt then memmove levels (pos + 1) pos (cnt - pos) else levels)
          in (pos, shifted[pos := blank_level price], cnt + 1, drops))"

text \<open>With a count of zero the code writes \<^verbatim>\<open>levels[-1]\<close>.\<close>

definition remove_level :: "PriceLevel list \<Rightarrow> nat \<Rightarrow> nat \<Rightarrow> (PriceLevel list \<times> nat) outcome" where
  "remove_level levels cnt idx =
    (if cnt = 0 then Inl OutOfBounds
     else let shifted = (if idx + 1 < cnt then memmove levels idx (idx + 1) (cnt - idx - 1)
                         else levels)
          in Inr (shifted[cnt - 1 := blank_level 0], cnt - 1))"

section \<open>Doubly linked list within a level\<close>

definition set_prev :: "OrderPool \<Rightarrow> nat \<Rightarrow> nat \<Rightarrow> OrderPool outcome" where
  "set_prev pool idx v =
    andthen (elem_at (op_pool pool) idx) (\<lambda>o'. Inr (set_order pool idx (o'\<lparr>o_prev := v\<rparr>)))"

definition set_next :: "OrderPool \<Rightarrow> nat \<Rightarrow> nat \<Rightarrow> OrderPool outcome" where
  "set_next pool idx v =
    andthen (elem_at (op_pool pool) idx) (\<lambda>o'. Inr (set_order pool idx (o'\<lparr>o_next := v\<rparr>)))"

definition link_order_tail ::
  "OrderPool \<Rightarrow> PriceLevel \<Rightarrow> nat \<Rightarrow> (OrderPool \<times> PriceLevel) outcome" where
  "link_order_tail pool lvl idx =
    andthen (set_prev pool idx (pl_tail lvl)) (\<lambda>pool1.
    andthen (set_next pool1 idx kInvalidIdx) (\<lambda>pool2.
    andthen (if pl_tail lvl \<noteq> kInvalidIdx
             then andthen (set_next pool2 (pl_tail lvl) idx) (\<lambda>pool3. Inr (pool3, lvl))
             else Inr (pool2, lvl\<lparr>pl_head := idx\<rparr>)) (\<lambda>(pool3, lvl1).
    Inr (pool3, lvl1\<lparr>pl_tail := idx,
                     pl_total_qty := pl_total_qty lvl1 + o_qty (order_at pool3 idx),
                     pl_order_count := pl_order_count lvl1 + 1\<rparr>))))"

definition unlink_order ::
  "OrderPool \<Rightarrow> PriceLevel \<Rightarrow> nat \<Rightarrow> (OrderPool \<times> PriceLevel) outcome" where
  "unlink_order pool lvl idx =
    andthen (elem_at (op_pool pool) idx) (\<lambda>o0.
    andthen (if o_prev o0 \<noteq> kInvalidIdx
             then andthen (set_next pool (o_prev o0) (o_next o0)) (\<lambda>pool1. Inr (pool1, lvl))
             else Inr (pool, lvl\<lparr>pl_head := o_next o0\<rparr>)) (\<lambda>(pool1, lvl1).
    (let o1 = order_at pool1 idx in
    andthen (if o_next o1 \<noteq> kInvalidIdx
             then andthen (set_prev pool1 (o_next o1) (o_prev o1)) (\<lambda>pool2. Inr (pool2, lvl1))
             else Inr (pool1, lvl1\<lparr>pl_tail := o_prev o1\<rparr>)) (\<lambda>(pool2, lvl2).
    Inr (pool2, lvl2\<lparr>pl_total_qty := pl_total_qty lvl2 - o_qty (order_at pool2 idx),
                     pl_order_count := pl_order_count lvl2 - 1\<rparr>)))))"

text \<open>\<^verbatim>\<open>pool_.free\<close> writes \<^verbatim>\<open>freelist_[freelist_top_]\<close>.\<close>

definition free_order :: "OrderPool \<Rightarrow> nat \<Rightarrow> OrderPool outcome" where
  "free_order pool idx =
    (if op_top pool < length (op_freelist pool) then Inr (pool_free pool idx) else Inl OutOfBounds)"

section \<open>Handlers\<close>

text \<open>The fields a new order gets, shared by add and replace.\<close>

definition init_order :: "OrderId \<Rightarrow> Price \<Rightarrow> Qty \<Rightarrow> Side \<Rightarrow> nat \<Rightarrow> Order \<Rightarrow> Order" where
  "init_order ref price qty side lvl_idx o0 =
    o0\<lparr>o_id := ref, o_price := price, o_qty := qty, o_side := side, o_level := lvl_idx\<rparr>"

text \<open>The level of a price: found, or made by \<^verbatim>\<open>insert_level\<close>.\<close>

definition level_for ::
  "bool \<Rightarrow> counter \<Rightarrow> PriceLevel list \<Rightarrow> nat \<Rightarrow> Price \<Rightarrow> Side \<Rightarrow>
     nat \<times> PriceLevel list \<times> nat \<times> counter" where
  "level_for drop_ctr drops levels cnt price side =
    (let lvl_idx = find_level levels cnt price in
     if lvl_idx = cnt then insert_level drop_ctr drops levels cnt price side
     else (lvl_idx, levels, cnt, drops))"

text \<open>
  From \<^verbatim>\<open>find_level\<close> on: find or make the level, fill in the order, link it at the tail and
  enter it in the map. Add and replace share this tail of the code. (Add tests for the
  overflow only after \<^verbatim>\<open>insert_level\<close>; a level that was found has an index below the
  count, so the test of replace gives the same.)
\<close>

definition place_order ::
  "BookState \<Rightarrow> nat \<Rightarrow> OrderId \<Rightarrow> Price \<Rightarrow> Qty \<Rightarrow> Side \<Rightarrow> BookState outcome" where
  "place_order st idx ref price qty side =
    (let b = bs_book st in
     case level_for (lb_drop_ctr b) (bs_drops st) (levels_of b side) (count_of b side) price side of
       (lvl_idx, levels, cnt, drops) \<Rightarrow>
     if lvl_idx = MAX_PRICE_LEVELS
     then andthen (free_order (bs_pool st) idx) (\<lambda>pool.
          Inr (st\<lparr>bs_pool := pool, bs_drops := drops\<rparr>))
     else andthen (elem_at (op_pool (bs_pool st)) idx) (\<lambda>o0.
          andthen (elem_at levels lvl_idx) (\<lambda>lvl.
          andthen (link_order_tail
                     (set_order (bs_pool st) idx (init_order ref price qty side lvl_idx o0))
                     lvl idx) (\<lambda>(pool, lvl').
          andthen (of_loop (map_insert (bs_map st) ref idx)) (\<lambda>m.
          Inr (st\<lparr>bs_book := set_side b side (levels[lvl_idx := lvl']) cnt,
                  bs_pool := pool, bs_map := m, bs_drops := drops\<rparr>))))))"

text \<open>\<^verbatim>\<open>pool_.alloc()\<close> with its early return, then \<open>place_order\<close>.\<close>

definition new_order ::
  "BookState \<Rightarrow> OrderId \<Rightarrow> Price \<Rightarrow> Qty \<Rightarrow> Side \<Rightarrow> BookState outcome" where
  "new_order st ref price qty side =
    (case alloc (bs_pool st) of
       (None, pool) \<Rightarrow> Inr (st\<lparr>bs_pool := pool\<rparr>)
     | (Some idx, pool) \<Rightarrow> place_order (st\<lparr>bs_pool := pool\<rparr>) idx ref price qty side)"

definition on_add_order :: "BookState \<Rightarrow> ItchMsg \<Rightarrow> BookState outcome" where
  "on_add_order st msg =
    (let a = im_add_order msg in new_order st (ao_ref a) (ao_price a) (ao_shares a) (ao_side a))"

text \<open>
  The removal of an order from its level, shared by \<^verbatim>\<open>reduce_qty\<close>, \<^verbatim>\<open>on_order_delete\<close> and
  \<^verbatim>\<open>on_order_replace\<close>: unlink, drop the level when it is empty, erase the reference, free
  the slot. The level is the one \<^verbatim>\<open>level_idx\<close> of the order names.
\<close>

definition drop_order :: "BookState \<Rightarrow> nat \<Rightarrow> OrderId \<Rightarrow> BookState outcome" where
  "drop_order st idx ref =
    andthen (elem_at (op_pool (bs_pool st)) idx) (\<lambda>o0.
    (let b = bs_book st; side = o_side o0; levels = levels_of b side; cnt = count_of b side in
    andthen (elem_at levels (o_level o0)) (\<lambda>lvl.
    andthen (unlink_order (bs_pool st) lvl idx) (\<lambda>(pool, lvl').
    andthen (if pl_order_count lvl' = 0
             then remove_level (levels[o_level o0 := lvl']) cnt (o_level o0)
             else Inr (levels[o_level o0 := lvl'], cnt)) (\<lambda>(levels', cnt').
    andthen (of_loop (map_erase (bs_map st) ref)) (\<lambda>(_, m).
    andthen (free_order pool idx) (\<lambda>pool'.
    Inr (st\<lparr>bs_book := set_side b side levels' cnt', bs_pool := pool', bs_map := m\<rparr>))))))))"

definition reduce_qty :: "BookState \<Rightarrow> OrderId \<Rightarrow> Qty \<Rightarrow> BookState outcome" where
  "reduce_qty st ref by_qty =
    andthen (of_loop (map_find (bs_map st) ref)) (\<lambda>idx.
    if idx = kMapEmpty then Inr st
    else
      andthen (elem_at (op_pool (bs_pool st)) idx) (\<lambda>o0.
      (let b = bs_book st; side = o_side o0; levels = levels_of b side; cnt = count_of b side in
      andthen (elem_at levels (o_level o0)) (\<lambda>lvl.
      (let lvl' = lvl\<lparr>pl_total_qty := pl_total_qty lvl - by_qty\<rparr>;
           o1 = o0\<lparr>o_qty := o_qty o0 - by_qty\<rparr>;
           st' = st\<lparr>bs_book := set_side b side (levels[o_level o0 := lvl']) cnt,
                    bs_pool := set_order (bs_pool st) idx o1\<rparr>
       in if o_qty o1 = 0 then drop_order st' idx ref else Inr st')))))"

definition on_order_executed :: "BookState \<Rightarrow> ItchMsg \<Rightarrow> BookState outcome" where
  "on_order_executed st msg =
    reduce_qty st (oe_ref (im_order_executed msg)) (oe_executed_shares (im_order_executed msg))"

definition on_order_executed_price :: "BookState \<Rightarrow> ItchMsg \<Rightarrow> BookState outcome" where
  "on_order_executed_price st msg =
    reduce_qty st (op_ref (im_order_executed_price msg))
      (op_executed_shares (im_order_executed_price msg))"

definition on_order_cancel :: "BookState \<Rightarrow> ItchMsg \<Rightarrow> BookState outcome" where
  "on_order_cancel st msg =
    reduce_qty st (oc_ref (im_order_cancel msg)) (oc_cancelled_shares (im_order_cancel msg))"

definition on_order_delete :: "BookState \<Rightarrow> ItchMsg \<Rightarrow> BookState outcome" where
  "on_order_delete st msg =
    andthen (of_loop (map_find (bs_map st) (im_order_delete_ref msg))) (\<lambda>idx.
    if idx = kMapEmpty then Inr st else drop_order st idx (im_order_delete_ref msg))"

text \<open>
  Replace. Case A changes the order in place; case B removes it and places a new order,
  in the slot that was just freed. When the new level does not fit, the new slot is freed
  and the replaced order is gone.
\<close>

definition on_order_replace :: "BookState \<Rightarrow> ItchMsg \<Rightarrow> BookState outcome" where
  "on_order_replace st msg =
    (let r = im_order_replace msg in
     andthen (of_loop (map_find (bs_map st) (or_orig_ref r))) (\<lambda>old_idx.
     if old_idx = kMapEmpty then Inr st
     else
       andthen (elem_at (op_pool (bs_pool st)) old_idx) (\<lambda>old_o.
       (let b = bs_book st; side = o_side old_o; levels = levels_of b side;
            cnt = count_of b side in
        if or_new_price r = o_price old_o \<and> or_new_shares r \<le> o_qty old_o
        then
          andthen (elem_at levels (o_level old_o)) (\<lambda>lvl.
          (let lvl' = lvl\<lparr>pl_total_qty := pl_total_qty lvl - o_qty old_o + or_new_shares r\<rparr>;
               pool = set_order (bs_pool st) old_idx
                        (old_o\<lparr>o_qty := or_new_shares r, o_id := or_new_ref r\<rparr>) in
          andthen (of_loop (map_erase (bs_map st) (or_orig_ref r))) (\<lambda>(_, m1).
          andthen (of_loop (map_insert m1 (or_new_ref r) old_idx)) (\<lambda>m2.
          Inr (st\<lparr>bs_book := set_side b side (levels[o_level old_o := lvl']) cnt,
                  bs_pool := pool, bs_map := m2,
                  bs_inplace := (if lb_inplace_ctr b then bs_inplace st + 1
                                 else bs_inplace st)\<rparr>)))))
        else
          andthen (drop_order st old_idx (or_orig_ref r)) (\<lambda>st1.
          new_order st1 (or_new_ref r) (or_new_price r) (or_new_shares r) side)))))"

definition on_trading_action :: "BookState \<Rightarrow> ItchMsg \<Rightarrow> BookState" where
  "on_trading_action st msg =
    st\<lparr>bs_book := (bs_book st)\<lparr>lb_status :=
         trading_status_of (ta_trading_state (im_trading_action msg))\<rparr>\<rparr>"

definition get_bbo :: "Level2Book \<Rightarrow> BboSnapshot" where
  "get_bbo b =
    \<lparr>bb_locate = lb_locate b,
     bb_bid_price = (if 0 < lb_bid_count b then pl_price (lb_bid_levels b ! 0) else 0),
     bb_bid_qty = (if 0 < lb_bid_count b then pl_total_qty (lb_bid_levels b ! 0) else 0),
     bb_ask_price = (if 0 < lb_ask_count b then pl_price (lb_ask_levels b ! 0) else 0),
     bb_ask_qty = (if 0 < lb_ask_count b then pl_total_qty (lb_ask_levels b ! 0) else 0),
     bb_ts = 0\<rparr>"

section \<open>Well-formed level arrays\<close>

text \<open>
  The active levels are strictly sorted, best price first. Nothing here looks at the
  orders, so it holds whatever their \<^verbatim>\<open>level_idx\<close> says.
\<close>

definition levels_wf :: "Side \<Rightarrow> PriceLevel list \<Rightarrow> nat \<Rightarrow> bool" where
  "levels_wf side levels cnt \<longleftrightarrow> length levels = MAX_PRICE_LEVELS \<and> cnt \<le> MAX_PRICE_LEVELS \<and>
    sorted_wrt (goes_before side) (map pl_price (take cnt levels))"

definition book_wf :: "Level2Book \<Rightarrow> bool" where
  "book_wf b \<longleftrightarrow> levels_wf Buy (lb_bid_levels b) (lb_bid_count b) \<and>
    levels_wf Sell (lb_ask_levels b) (lb_ask_count b)"

lemma goes_before_trans: "goes_before s p q \<Longrightarrow> goes_before s q r \<Longrightarrow> goes_before s p r"
  by (auto simp: goes_before_def split: if_splits)

lemma goes_before_linear: "p \<noteq> q \<Longrightarrow> \<not> goes_before s p q \<Longrightarrow> goes_before s q p"
  by (auto simp: goes_before_def split: if_splits)

lemma goes_before_irrefl [simp]: "\<not> goes_before s p p"
  by (auto simp: goes_before_def)

lemma goes_before_not_buy: "s \<noteq> Buy \<Longrightarrow> goes_before s = goes_before Sell"
  by (auto simp: goes_before_def fun_eq_iff)

lemma levels_wf_not_buy: "s \<noteq> Buy \<Longrightarrow> levels_wf s = levels_wf Sell"
  by (simp add: levels_wf_def fun_eq_iff goes_before_not_buy[of s])

lemma book_wf_side: "book_wf b \<Longrightarrow> levels_wf side (levels_of b side) (count_of b side)"
  by (cases "side = Buy")
    (auto simp: book_wf_def levels_of_def count_of_def levels_wf_not_buy[of side])

lemma book_wf_set_side:
  "book_wf b \<Longrightarrow> levels_wf side levels cnt \<Longrightarrow> book_wf (set_side b side levels cnt)"
  by (cases "side = Buy") (auto simp: book_wf_def set_side_def levels_wf_not_buy[of side])

lemma find_level_loop_spec:
  "i \<le> cnt \<Longrightarrow> (\<And>j. j < i \<Longrightarrow> pl_price (levels ! j) \<noteq> price) \<Longrightarrow>
   find_level_loop levels cnt price i = cnt \<and> (\<forall>j < cnt. pl_price (levels ! j) \<noteq> price) \<or>
   find_level_loop levels cnt price i < cnt \<and>
     pl_price (levels ! find_level_loop levels cnt price i) = price"
proof (induction levels cnt price i rule: find_level_loop.induct)
  case (1 levels cnt price i)
  show ?case
  proof (cases "i < cnt \<and> pl_price (levels ! i) \<noteq> price")
    case True
    have "\<And>j. j < i + 1 \<Longrightarrow> pl_price (levels ! j) \<noteq> price"
      using "1.prems"(2) True by (metis Suc_eq_plus1 less_SucE)
    moreover have "find_level_loop levels cnt price i = find_level_loop levels cnt price (i + 1)"
      using True by (subst find_level_loop.simps) simp
    ultimately show ?thesis using "1.IH" True by simp
  next
    case False
    then have "find_level_loop levels cnt price i = (if i < cnt then i else cnt)"
      by (subst find_level_loop.simps) auto
    with "1.prems" False show ?thesis by auto
  qed
qed

lemma find_level_cases:
  obtains (none) "find_level levels cnt price = cnt" "\<And>j. j < cnt \<Longrightarrow> pl_price (levels ! j) \<noteq> price"
  | (found) "find_level levels cnt price < cnt"
      "pl_price (levels ! find_level levels cnt price) = price"
  using find_level_loop_spec[of 0 cnt levels price] unfolding find_level_def by auto

lemma insert_pos_spec:
  "pos \<le> cnt \<Longrightarrow> (\<And>j. j < pos \<Longrightarrow> goes_before side (pl_price (levels ! j)) price) \<Longrightarrow>
   (let r = insert_pos levels cnt price side pos in
    r \<le> cnt \<and> (\<forall>j < r. goes_before side (pl_price (levels ! j)) price) \<and>
    (r < cnt \<longrightarrow> \<not> goes_before side (pl_price (levels ! r)) price))"
proof (induction levels cnt price side pos rule: insert_pos.induct)
  case (1 levels cnt price side pos)
  show ?case
  proof (cases "pos < cnt \<and> goes_before side (pl_price (levels ! pos)) price")
    case True
    have "\<And>j. j < pos + 1 \<Longrightarrow> goes_before side (pl_price (levels ! j)) price"
      using "1.prems"(2) True by (metis Suc_eq_plus1 less_SucE)
    with "1.IH"[OF True] True have "let r = insert_pos levels cnt price side (pos + 1) in
      r \<le> cnt \<and> (\<forall>j < r. goes_before side (pl_price (levels ! j)) price) \<and>
      (r < cnt \<longrightarrow> \<not> goes_before side (pl_price (levels ! r)) price)" by simp
    moreover have "insert_pos levels cnt price side pos = insert_pos levels cnt price side (pos + 1)"
      using True by (subst insert_pos.simps) simp
    ultimately show ?thesis by simp
  next
    case False
    then have "insert_pos levels cnt price side pos = pos"
      by (subst insert_pos.simps) auto
    with "1.prems" False show ?thesis by (auto simp: Let_def)
  qed
qed

text \<open>Insertion and removal on the active part of the array.\<close>

lemma insert_level_active:
  fixes levels :: "PriceLevel list" and price :: Price and side :: Side
  assumes "length levels = MAX_PRICE_LEVELS" "cnt < MAX_PRICE_LEVELS"
  defines "pos \<equiv> insert_pos levels cnt price side 0"
  obtains levels' where
    "insert_level ctr drops levels cnt price side = (pos, levels', cnt + 1, drops)"
    "length levels' = MAX_PRICE_LEVELS" "pos \<le> cnt"
    "take (cnt + 1) levels' =
      take pos (take cnt levels) @ blank_level price # drop pos (take cnt levels)"
proof -
  have pos: "pos \<le> cnt"
    using insert_pos_spec[of 0 cnt side levels price] by (simp add: pos_def Let_def)
  define sh where "sh = (if pos < cnt then memmove levels (pos + 1) pos (cnt - pos) else levels)"
  have len: "length sh = MAX_PRICE_LEVELS"
    using assms(1,2) pos by (simp add: sh_def)
  have "take (cnt + 1) (sh[pos := blank_level price]) =
      take pos (take cnt levels) @ blank_level price # drop pos (take cnt levels)"
  proof (cases "pos < cnt")
    case True
    have "take pos sh = take pos levels" "drop (Suc pos) (take (cnt + 1) sh) = drop pos (take cnt levels)"
      using True assms(1,2) by (simp_all add: sh_def memmove_def drop_take)
    moreover have "take (cnt + 1) (sh[pos := blank_level price]) =
        take pos sh @ blank_level price # drop (Suc pos) (take (cnt + 1) sh)"
      using True len assms(2) by (subst take_update_swap) (simp add: upd_conv_take_nth_drop)
    ultimately show ?thesis using True by simp
  next
    case False
    with pos have "pos = cnt" by simp
    then show ?thesis
      using assms(1,2) by (simp add: sh_def take_Suc_conv_app_nth)
  qed
  then show thesis
    using that[of "sh[pos := blank_level price]"] len pos assms(2)
    by (simp add: insert_level_def Let_def sh_def pos_def)
qed

lemma remove_level_active:
  assumes "length levels = MAX_PRICE_LEVELS" "cnt \<le> MAX_PRICE_LEVELS" "0 < cnt"
  obtains levels' where "remove_level levels cnt idx = Inr (levels', cnt - 1)"
    "length levels' = MAX_PRICE_LEVELS"
    "take (cnt - 1) levels' =
      (if idx < cnt then take idx (take cnt levels) @ drop (Suc idx) (take cnt levels)
       else take (cnt - 1) levels)"
proof -
  define sh where
    "sh = (if idx + 1 < cnt then memmove levels idx (idx + 1) (cnt - idx - 1) else levels)"
  have len: "length sh = MAX_PRICE_LEVELS" using assms by (simp add: sh_def)
  have "take (cnt - 1) sh = (if idx < cnt then take idx (take cnt levels) @ drop (Suc idx) (take cnt levels)
       else take (cnt - 1) levels)"
  proof (cases "idx + 1 < cnt")
    case True
    then show ?thesis
      using assms by (simp add: sh_def memmove_def drop_take min_absorb1)
  next
    case False
    then have "cnt - 1 = idx" if "idx < cnt" using that by simp
    then show ?thesis using False assms(3) by (auto simp: sh_def)
  qed
  then show thesis
    using that[of "sh[cnt - 1 := blank_level 0]"] len assms(3)
    by (simp add: remove_level_def Let_def sh_def)
qed

lemma sorted_wrt_insert:
  assumes "sorted_wrt R (xs @ ys)" "\<And>x. x \<in> set xs \<Longrightarrow> R x p" "\<And>y. y \<in> set ys \<Longrightarrow> R p y"
  shows "sorted_wrt R (xs @ p # ys)"
  using assms by (auto simp: sorted_wrt_append)

lemma sorted_wrt_drop_one:
  "sorted_wrt R xs \<Longrightarrow> sorted_wrt R (take i xs @ drop (Suc i) xs)"
proof -
  assume "sorted_wrt R xs"
  then have "sorted_wrt R (take i xs @ drop i xs)" by simp
  moreover have "set (drop (Suc i) xs) \<subseteq> set (drop i xs)" by (rule set_drop_subset_set_drop) simp
  moreover have "sorted_wrt R (drop (Suc i) xs)"
    using \<open>sorted_wrt R xs\<close> by (rule sorted_wrt_drop)
  ultimately show ?thesis unfolding sorted_wrt_append by blast
qed

lemma levels_wf_new: "levels_wf side (replicate MAX_PRICE_LEVELS l) 0"
  by (simp add: levels_wf_def)

lemma levels_wf_update:
  assumes "levels_wf side levels cnt" "pl_price l = pl_price (levels ! i)"
  shows "levels_wf side (levels[i := l]) cnt"
proof -
  have "map pl_price (levels[i := l]) = map pl_price levels"
  proof (cases "i < length levels")
    case True
    then show ?thesis using assms(2) by (metis list_update_id map_update nth_map)
  qed (simp add: not_less list_update_beyond)
  then show ?thesis using assms(1) by (simp add: levels_wf_def flip: take_map)
qed

lemma insert_pos_sorted:
  assumes "levels_wf side levels cnt" "\<And>j. j < cnt \<Longrightarrow> pl_price (levels ! j) \<noteq> price"
  defines "pos \<equiv> insert_pos levels cnt price side 0"
  shows "l \<in> set (take pos (take cnt levels)) \<Longrightarrow> goes_before side (pl_price l) price"
    "l \<in> set (drop pos (take cnt levels)) \<Longrightarrow> goes_before side price (pl_price l)"
proof -
  let ?L = "take cnt levels"
  have pos: "pos \<le> cnt" "\<And>j. j < pos \<Longrightarrow> goes_before side (pl_price (levels ! j)) price"
    "pos < cnt \<Longrightarrow> \<not> goes_before side (pl_price (levels ! pos)) price"
    using insert_pos_spec[of 0 cnt side levels price] by (auto simp: pos_def Let_def)
  have len: "length ?L = cnt" using assms(1) by (simp add: levels_wf_def)
  show "goes_before side (pl_price l) price" if mem: "l \<in> set (take pos ?L)"
  proof -
    obtain k where "k < length (take pos ?L)" "l = take pos ?L ! k"
      using mem unfolding in_set_conv_nth by blast
    then show ?thesis using pos(2)[of k] len pos(1) by simp
  qed
  show "goes_before side price (pl_price l)" if mem: "l \<in> set (drop pos ?L)"
  proof -
    obtain k where "k < length (drop pos ?L)" "l = drop pos ?L ! k"
      using mem unfolding in_set_conv_nth by blast
    then have k: "pos + k < cnt" "l = levels ! (pos + k)" using len pos(1) by simp_all
    have "goes_before side price (pl_price (levels ! pos))"
      using goes_before_linear pos(3) assms(2) k(1) by simp
    moreover have "goes_before side (pl_price (levels ! pos)) (pl_price l)" if "k \<noteq> 0"
      using sorted_wrt_nth_less[of "goes_before side" "map pl_price ?L" pos "pos + k"]
        assms(1) k len that by (simp add: levels_wf_def)
    ultimately show ?thesis using k goes_before_trans by (cases "k = 0") auto
  qed
qed

lemma levels_wf_insert:
  assumes "levels_wf side levels cnt" "cnt < MAX_PRICE_LEVELS"
    and "\<And>j. j < cnt \<Longrightarrow> pl_price (levels ! j) \<noteq> price"
    and "insert_level ctr drops levels cnt price side = (pos, levels', cnt', drops')"
  shows "levels_wf side levels' cnt'" "pos < cnt'" "pl_price (levels' ! pos) = price"
proof -
  let ?L = "take cnt levels" and ?pos = "insert_pos levels cnt price side 0"
  have len: "length levels = MAX_PRICE_LEVELS" using assms(1) by (simp add: levels_wf_def)
  obtain l' where l': "insert_level ctr drops levels cnt price side = (?pos, l', cnt + 1, drops)"
    "length l' = MAX_PRICE_LEVELS" "?pos \<le> cnt"
    "take (cnt + 1) l' = take ?pos ?L @ blank_level price # drop ?pos ?L"
    by (rule insert_level_active[OF len assms(2)])
  with assms(4) have r: "pos = ?pos" "cnt' = cnt + 1" "length levels' = MAX_PRICE_LEVELS" "pos \<le> cnt"
    "take cnt' levels' = take pos ?L @ blank_level price # drop pos ?L" by simp_all
  have "sorted_wrt (goes_before side) (map pl_price (take pos ?L) @ map pl_price (drop pos ?L))"
    using assms(1) unfolding levels_wf_def map_append[symmetric] append_take_drop_id by simp
  from sorted_wrt_insert[OF this, of price] insert_pos_sorted[OF assms(1,3)]
  have "sorted_wrt (goes_before side)
      (map pl_price (take pos ?L) @ price # map pl_price (drop pos ?L))"
    unfolding r(1) by (metis (no_types, lifting) imageE list.set_map)
  then show "levels_wf side levels' cnt'"
    unfolding levels_wf_def r(5) using r(2,3) assms(2) by (simp add: blank_level_def)
  show "pos < cnt'" using r by simp
  have "levels' ! pos = take cnt' levels' ! pos" using r(2,4) by simp
  also have "\<dots> = blank_level price"
    unfolding r(5) using r(4) len assms(2) by (simp add: nth_append)
  finally show "pl_price (levels' ! pos) = price" by (simp add: blank_level_def)
qed

lemma levels_wf_remove:
  assumes "levels_wf side levels cnt" "remove_level levels cnt idx = Inr (levels', cnt')"
  shows "levels_wf side levels' cnt'"
proof -
  have len: "length levels = MAX_PRICE_LEVELS" "cnt \<le> MAX_PRICE_LEVELS"
    "sorted_wrt (goes_before side) (map pl_price (take cnt levels))"
    using assms(1) by (simp_all add: levels_wf_def)
  have "0 < cnt" using assms(2) by (auto simp: remove_level_def split: if_splits)
  then obtain l' where l': "remove_level levels cnt idx = Inr (l', cnt - 1)"
    "length l' = MAX_PRICE_LEVELS"
    "take (cnt - 1) l' =
      (if idx < cnt then take idx (take cnt levels) @ drop (Suc idx) (take cnt levels)
       else take (cnt - 1) levels)"
    by (rule remove_level_active[OF len(1,2)])
  with assms(2) have r: "l' = levels'" "cnt' = cnt - 1" by simp_all
  have "sorted_wrt (goes_before side) (map pl_price (take (cnt - 1) levels))"
    using sorted_wrt_take[OF len(3), of "cnt - 1"] by (simp add: take_map min_def)
  then show ?thesis
    using sorted_wrt_drop_one[OF len(3), of idx] l'(2,3) len(2)
    by (cases "idx < cnt") (simp_all add: levels_wf_def take_map drop_map r)
qed

lemma link_order_tail_price:
  "link_order_tail pool lvl idx = Inr (pool', lvl') \<Longrightarrow> pl_price lvl' = pl_price lvl"
  by (auto simp: link_order_tail_def split: if_splits)

lemma unlink_order_price:
  "unlink_order pool lvl idx = Inr (pool', lvl') \<Longrightarrow> pl_price lvl' = pl_price lvl"
  by (auto simp: unlink_order_def Let_def split: if_splits)

lemma level_for_wf:
  assumes "levels_wf side L c" "level_for ctr d L c price side = (i, L', c', d')"
    and "i \<noteq> MAX_PRICE_LEVELS"
  shows "levels_wf side L' c'" "i < c'" "pl_price (L' ! i) = price"
proof -
  have "levels_wf side L' c' \<and> i < c' \<and> pl_price (L' ! i) = price"
  proof (cases rule: find_level_cases[of L c price])
    case none
    then have ins: "insert_level ctr d L c price side = (i, L', c', d')"
      using assms(2) by (simp add: level_for_def)
    then have "c < MAX_PRICE_LEVELS" using assms(3) by (auto simp: insert_level_def split: if_splits)
    from levels_wf_insert[OF assms(1) this none(2) ins] show ?thesis by simp
  next
    case found
    then show ?thesis using assms by (auto simp: level_for_def)
  qed
  then show "levels_wf side L' c'" "i < c'" "pl_price (L' ! i) = price" by simp_all
qed

lemma book_wf_place:
  assumes wf: "book_wf (bs_book st)" and r: "place_order st idx ref price qty side = Inr st'"
  shows "book_wf (bs_book st')"
proof -
  let ?b = "bs_book st"
  obtain i L1 c1 d1 where lf: "level_for (lb_drop_ctr ?b) (bs_drops st) (levels_of ?b side)
      (count_of ?b side) price side = (i, L1, c1, d1)" by (metis prod.exhaust)
  show ?thesis
  proof (cases "i = MAX_PRICE_LEVELS")
    case True
    then show ?thesis using r lf wf by (auto simp: place_order_def)
  next
    case False
    then obtain lvl' pool pool' m where
      "st' = st\<lparr>bs_book := set_side ?b side (L1[i := lvl']) c1, bs_pool := pool',
         bs_map := m, bs_drops := d1\<rparr>"
      "link_order_tail pool (L1 ! i) idx = Inr (pool', lvl')"
      using r lf by (auto simp: place_order_def)
    then show ?thesis
      using book_wf_set_side[OF wf levels_wf_update[OF level_for_wf(1)[OF book_wf_side[OF wf] lf False]]]
        link_order_tail_price by auto
  qed
qed

lemma book_wf_new:
  "book_wf (bs_book st) \<Longrightarrow> new_order st ref price qty side = Inr st' \<Longrightarrow> book_wf (bs_book st')"
  by (auto simp: new_order_def split: prod.splits option.splits dest!: book_wf_place[rotated])

lemma drop_order_InrE:
  assumes "drop_order st idx ref = Inr st'"
  defines "o0 \<equiv> op_pool (bs_pool st) ! idx" and "b \<equiv> bs_book st"
  obtains pool lvl' levels' cnt' m pool' e where
    "idx < length (op_pool (bs_pool st))" "o_level o0 < length (levels_of b (o_side o0))"
    "unlink_order (bs_pool st) (levels_of b (o_side o0) ! o_level o0) idx = Inr (pool, lvl')"
    "(if pl_order_count lvl' = 0
      then remove_level ((levels_of b (o_side o0))[o_level o0 := lvl'])
             (count_of b (o_side o0)) (o_level o0)
      else Inr ((levels_of b (o_side o0))[o_level o0 := lvl'], count_of b (o_side o0)))
     = Inr (levels', cnt')"
    "map_erase (bs_map st) ref = Some (e, m)" "free_order pool idx = Inr pool'"
    "st' = st\<lparr>bs_book := set_side b (o_side o0) levels' cnt', bs_pool := pool', bs_map := m\<rparr>"
proof -
  from assms(1) show thesis
    unfolding drop_order_def Let_def andthen_eq_Inr of_loop_simps elem_at_eq_Inr
    by (auto split del: if_split intro: that[unfolded b_def o0_def])
qed

lemma book_wf_drop:
  assumes wf: "book_wf (bs_book st)" and r: "drop_order st idx ref = Inr st'"
  shows "book_wf (bs_book st')"
  using r
proof (rule drop_order_InrE)
  let ?b = "bs_book st" and ?o = "op_pool (bs_pool st) ! idx"
  let ?L = "levels_of ?b (o_side ?o)" and ?c = "count_of ?b (o_side ?o)"
  fix pool lvl' L' c' m pool' e
  assume u: "unlink_order (bs_pool st) (?L ! o_level ?o) idx = Inr (pool, lvl')"
    and rm: "(if pl_order_count lvl' = 0 then remove_level (?L[o_level ?o := lvl']) ?c (o_level ?o)
       else Inr (?L[o_level ?o := lvl'], ?c)) = Inr (L', c')"
    and st': "st' = st\<lparr>bs_book := set_side ?b (o_side ?o) L' c', bs_pool := pool', bs_map := m\<rparr>"
  have "levels_wf (o_side ?o) (?L[o_level ?o := lvl']) ?c"
    using levels_wf_update[OF book_wf_side[OF wf]] unlink_order_price[OF u] by simp
  then have "levels_wf (o_side ?o) L' c'"
    using rm levels_wf_remove by (auto split: if_splits)
  then show ?thesis using book_wf_set_side[OF wf] st' by simp
qed

lemma book_wf_update:
  "book_wf b \<Longrightarrow> pl_price l = pl_price (levels_of b side ! i) \<Longrightarrow>
   book_wf (set_side b side ((levels_of b side)[i := l]) (count_of b side))"
  by (intro book_wf_set_side levels_wf_update book_wf_side) auto

lemma book_wf_reduce:
  assumes wf: "book_wf (bs_book st)" and r: "reduce_qty st ref q = Inr st'"
  shows "book_wf (bs_book st')"
  using wf r by (auto simp: reduce_qty_def Let_def split: if_splits
      intro!: book_wf_update dest!: book_wf_drop[rotated])

lemma book_wf_delete:
  "book_wf (bs_book st) \<Longrightarrow> on_order_delete st msg = Inr st' \<Longrightarrow> book_wf (bs_book st')"
  by (auto simp: on_order_delete_def split: if_splits dest!: book_wf_drop[rotated])

lemma book_wf_replace:
  assumes wf: "book_wf (bs_book st)" and r: "on_order_replace st msg = Inr st'"
  shows "book_wf (bs_book st')"
  using wf r by (auto simp: on_order_replace_def Let_def split: if_splits
      intro!: book_wf_update dest!: book_wf_drop[OF wf] book_wf_new[rotated])

end
