(* ===== verification/Book_Queues.thy ===== *)
theory Book_Queues
  imports Level2_Book
begin

text \<open>
  What the arrays, the links and the map of a book stand for: on each side a list of price
  levels, best first, each with its queue of orders in time priority. The section on a
  changed level is the frame rule every handler of the book is proved with.
\<close>

section \<open>The order queue of a level\<close>

text \<open>
  \<open>dll P p h xs l n\<close>: from slot \<open>h\<close> on, the \<^verbatim>\<open>next_idx\<close> links of the pool array visit the
  slots \<open>xs\<close> and then lead to \<open>n\<close>; the \<^verbatim>\<open>prev_idx\<close> links lead back to \<open>p\<close>; \<open>l\<close> is the
  last slot visited, or \<open>p\<close> if there is none.
\<close>

fun dll :: "Order list \<Rightarrow> nat \<Rightarrow> nat \<Rightarrow> nat list \<Rightarrow> nat \<Rightarrow> nat \<Rightarrow> bool" where
  "dll P p h [] l n \<longleftrightarrow> h = n \<and> l = p"
| "dll P p h (x # xs) l n \<longleftrightarrow>
    h = x \<and> x < length P \<and> o_prev (P ! x) = p \<and> dll P x (o_next (P ! x)) xs l n"

definition level_rep :: "Order list \<Rightarrow> PriceLevel \<Rightarrow> nat list \<Rightarrow> bool" where
  "level_rep P lvl xs \<longleftrightarrow> dll P kInvalidIdx (pl_head lvl) xs (pl_tail lvl) kInvalidIdx \<and>
    distinct xs \<and> kInvalidIdx \<notin> set xs \<and> pl_order_count lvl = of_nat (length xs) \<and>
    pl_total_qty lvl = sum_list (map (\<lambda>x. o_qty (P ! x)) xs)"

text \<open>Two pool arrays that differ in the links at most.\<close>

definition same_data :: "Order list \<Rightarrow> Order list \<Rightarrow> bool" where
  "same_data P Q \<longleftrightarrow> length Q = length P \<and>
    (\<forall>x < length P. o_id (Q ! x) = o_id (P ! x) \<and> o_price (Q ! x) = o_price (P ! x) \<and>
      o_qty (Q ! x) = o_qty (P ! x) \<and> o_side (Q ! x) = o_side (P ! x) \<and>
      o_level (Q ! x) = o_level (P ! x))"

lemma same_data_update:
  "same_data P (P[x := (P ! x)\<lparr>o_prev := p\<rparr>])" "same_data P (P[x := (P ! x)\<lparr>o_next := n\<rparr>])"
  by (auto simp: same_data_def nth_list_update_upto)

lemma same_data_refl: "same_data P P"
  by (simp add: same_data_def)

lemma same_data_trans: "same_data P Q \<Longrightarrow> same_data Q R \<Longrightarrow> same_data P R"
  by (auto simp: same_data_def)

lemma dll_append:
  "dll P p h (xs @ ys) l n \<longleftrightarrow> (\<exists>k m. dll P p h xs k m \<and> dll P k m ys l n)"
  by (induction xs arbitrary: p h) auto

lemma dll_bound: "dll P p h xs l n \<Longrightarrow> x \<in> set xs \<Longrightarrow> x < length P"
  by (induction xs arbitrary: p h) auto

lemma dll_cong:
  assumes "length P' = length P"
    "\<And>x. x \<in> set xs \<Longrightarrow> o_prev (P' ! x) = o_prev (P ! x) \<and> o_next (P' ! x) = o_next (P ! x)"
  shows "dll P' p h xs l n = dll P p h xs l n"
  using assms(2) by (induction xs arbitrary: p h) (auto simp: assms(1))

lemma dll_update_frame:
  "x \<notin> set xs \<Longrightarrow> dll (P[x := o']) p h xs l n = dll P p h xs l n"
  by (rule dll_cong) (simp, metis nth_list_update_neq)

lemma dll_snoc_last: "dll P p h (xs @ [t]) l n \<Longrightarrow> l = t \<and> o_next (P ! t) = n"
  by (auto simp: dll_append)

lemma dll_last: "dll P p h xs l n \<Longrightarrow> l = (if xs = [] then p else last xs)"
  by (induction xs arbitrary: p h) auto

lemma dll_head: "dll P p h xs l n \<Longrightarrow> h = (if xs = [] then n else hd xs)"
  by (cases xs) auto

text \<open>Changing the link after the last slot, and the link before the first.\<close>

lemma dll_set_next:
  assumes "dll P p h (xs @ [t]) l n" "t \<notin> set xs"
  shows "dll (P[t := (P ! t)\<lparr>o_next := n'\<rparr>]) p h (xs @ [t]) l n'"
  using assms by (auto simp: dll_append dll_update_frame)

lemma dll_set_prev:
  assumes "dll P p h (t # xs) l n" "t \<notin> set xs"
  shows "dll (P[t := (P ! t)\<lparr>o_prev := p'\<rparr>]) p' h (t # xs) l n"
  using assms by (auto simp: dll_update_frame)

lemma dll_join:
  "dll P p h xs k m \<Longrightarrow> dll P k m ys l n \<Longrightarrow> dll P p h (xs @ ys) l n"
  by (auto simp: dll_append)

lemma sum_qty_same_data:
  "same_data P Q \<Longrightarrow> set xs \<subseteq> {..<length P} \<Longrightarrow>
   sum_list (map (\<lambda>x. o_qty (Q ! x)) xs) = sum_list (map (\<lambda>x. o_qty (P ! x)) xs)"
  by (intro arg_cong[of _ _ sum_list] map_cong refl) (auto simp: same_data_def)

lemma set_next_Inr:
  "x < length (op_pool pool) \<Longrightarrow>
   set_next pool x n = Inr (pool\<lparr>op_pool := (op_pool pool)[x := (op_pool pool ! x)\<lparr>o_next := n\<rparr>]\<rparr>)"
  by (simp add: set_next_def elem_at_def set_order_def)

lemma set_prev_Inr:
  "x < length (op_pool pool) \<Longrightarrow>
   set_prev pool x n = Inr (pool\<lparr>op_pool := (op_pool pool)[x := (op_pool pool ! x)\<lparr>o_prev := n\<rparr>]\<rparr>)"
  by (simp add: set_prev_def elem_at_def set_order_def)

text \<open>Appending at the tail.\<close>

lemma link_order_tail_rep:
  assumes lvl: "level_rep P lvl xs" and idx: "idx < length P" "idx \<notin> set xs" "idx \<noteq> kInvalidIdx"
    and pool: "op_pool pool = P"
  obtains P' lvl' where "link_order_tail pool lvl idx = Inr (pool\<lparr>op_pool := P'\<rparr>, lvl')"
    "level_rep P' lvl' (xs @ [idx])" "pl_price lvl' = pl_price lvl" "same_data P P'"
    "\<And>x. x \<noteq> idx \<Longrightarrow> x \<notin> set xs \<Longrightarrow> P' ! x = P ! x"
proof -
  define P0 where "P0 = P[idx := (P ! idx)\<lparr>o_prev := pl_tail lvl\<rparr>]"
  define P1 where "P1 = P0[idx := (P0 ! idx)\<lparr>o_next := kInvalidIdx\<rparr>]"
  have sd: "same_data P P1"
    unfolding P1_def P0_def by (rule same_data_trans[OF same_data_update(1) same_data_update(2)])
  have len: "length P1 = length P" by (simp add: P1_def P0_def)
  have d: "dll P kInvalidIdx (pl_head lvl) xs (pl_tail lvl) kInvalidIdx" "distinct xs"
    "kInvalidIdx \<notin> set xs"
    using lvl by (simp_all add: level_rep_def)
  have d1: "dll P1 kInvalidIdx (pl_head lvl) xs (pl_tail lvl) kInvalidIdx"
    using d(1) idx(2) by (simp add: dll_update_frame P1_def P0_def)
  have e: "dll P1 (pl_tail lvl) idx [idx] idx kInvalidIdx"
    using idx(1) by (simp add: P1_def P0_def)
  have q: "sum_list (map (\<lambda>x. o_qty (Q ! x)) (xs @ [idx])) = pl_total_qty lvl + o_qty (P ! idx)"
    if "same_data P Q" for Q
    using sum_qty_same_data[OF that, of "xs @ [idx]"] dll_bound[OF d(1)] idx(1) lvl
    by (auto simp: level_rep_def)
  have qi: "o_qty (Q ! idx) = o_qty (P ! idx)" if "same_data P Q" for Q
    using that idx(1) by (simp add: same_data_def)
  show thesis
  proof (cases xs rule: rev_cases)
    case Nil
    then have t: "pl_tail lvl = kInvalidIdx" using d(1) by simp
    let ?lvl = "lvl\<lparr>pl_head := idx, pl_tail := idx,
      pl_total_qty := pl_total_qty lvl + o_qty (P ! idx), pl_order_count := pl_order_count lvl + 1\<rparr>"
    have "link_order_tail pool lvl idx = Inr (pool\<lparr>op_pool := P1\<rparr>, ?lvl)"
      using idx t qi[OF sd] by (simp add: link_order_tail_def set_prev_Inr set_next_Inr pool
          order_at_def P1_def P0_def)
    moreover have "level_rep P1 ?lvl (xs @ [idx])"
      using e lvl idx q[OF sd] by (simp add: level_rep_def t Nil)
    ultimately show ?thesis
      using sd by (intro that[of P1 ?lvl]) (auto simp: P1_def P0_def)
  next
    case (snoc ys t)
    then have t: "pl_tail lvl = t" "t \<noteq> kInvalidIdx" "t \<noteq> idx" "t \<notin> set ys" "t < length P"
      using dll_snoc_last[of P kInvalidIdx "pl_head lvl" ys t] d idx(2) dll_bound[OF d(1), of t]
      by auto
    define P2 where "P2 = P1[t := (P1 ! t)\<lparr>o_next := idx\<rparr>]"
    have sd2: "same_data P P2"
      unfolding P2_def by (rule same_data_trans[OF sd same_data_update(2)])
    let ?lvl = "lvl\<lparr>pl_tail := idx,
      pl_total_qty := pl_total_qty lvl + o_qty (P ! idx), pl_order_count := pl_order_count lvl + 1\<rparr>"
    have "link_order_tail pool lvl idx = Inr (pool\<lparr>op_pool := P2\<rparr>, ?lvl)"
      using idx t qi[OF sd2] by (simp add: link_order_tail_def set_prev_Inr set_next_Inr pool
          order_at_def P2_def P1_def P0_def)
    moreover have "dll P2 kInvalidIdx (pl_head lvl) (xs @ [idx]) idx kInvalidIdx"
    proof (rule dll_join)
      show "dll P2 kInvalidIdx (pl_head lvl) xs (pl_tail lvl) idx"
        using dll_set_next[of P1 _ _ ys t] d1 t(4) by (simp add: snoc P2_def)
      show "dll P2 (pl_tail lvl) idx [idx] idx kInvalidIdx"
        using e t(3) unfolding P2_def by (subst dll_update_frame) auto
    qed
    then have "level_rep P2 ?lvl (xs @ [idx])"
      using lvl idx q[OF sd2] by (simp add: level_rep_def)
    ultimately show ?thesis
      using sd2 snoc by (intro that[of P2 ?lvl]) (auto simp: P2_def P1_def P0_def)
  qed
qed

text \<open>Unlinking from any position.\<close>

lemma unlink_order_rep:
  assumes lvl: "level_rep P lvl (xs @ idx # ys)" and pool: "op_pool pool = P"
  obtains P' lvl' where "unlink_order pool lvl idx = Inr (pool\<lparr>op_pool := P'\<rparr>, lvl')"
    "level_rep P' lvl' (xs @ ys)" "pl_price lvl' = pl_price lvl" "same_data P P'"
    "\<And>x. x \<notin> set (xs @ ys) \<Longrightarrow> P' ! x = P ! x"
proof -
  have dist: "distinct (xs @ idx # ys)" "kInvalidIdx \<notin> set (xs @ idx # ys)"
    using lvl by (simp_all add: level_rep_def)
  obtain k m where d: "dll P kInvalidIdx (pl_head lvl) xs k m"
    "dll P k m (idx # ys) (pl_tail lvl) kInvalidIdx"
    using lvl by (auto simp: level_rep_def dll_append)
  define n where "n = o_next (P ! idx)"
  have i: "m = idx" "idx < length P" "o_prev (P ! idx) = k" "dll P idx n ys (pl_tail lvl) kInvalidIdx"
    using d(2) by (auto simp: n_def)
  have bnd: "x < length P" if "x \<in> set xs \<union> set ys" for x
    using that dll_bound[OF d(1)] dll_bound[OF i(4)] by auto
  have k: "k = (if xs = [] then kInvalidIdx else last xs)" by (rule dll_last[OF d(1)])
  have n: "n = (if ys = [] then kInvalidIdx else hd ys)" by (rule dll_head[OF i(4)])
  define P1 where "P1 = (if xs = [] then P else P[k := (P ! k)\<lparr>o_next := n\<rparr>])"
  define l1 where "l1 = (if xs = [] then lvl\<lparr>pl_head := n\<rparr> else lvl)"
  define P2 where "P2 = (if ys = [] then P1 else P1[n := (P1 ! n)\<lparr>o_prev := k\<rparr>])"
  define l2 where "l2 = (if ys = [] then l1\<lparr>pl_tail := k\<rparr> else l1)"
  have sd1: "same_data P P1"
    by (simp add: P1_def same_data_refl same_data_update)
  then have sd: "same_data P P2"
    using same_data_trans[OF sd1] by (simp add: P2_def same_data_update)
  have kx: "xs \<noteq> [] \<Longrightarrow> k \<in> set xs \<and> k < length P \<and> k \<noteq> kInvalidIdx"
    using k bnd dist(2) by (metis UnI1 last_in_set set_append UnCI)
  have ny: "ys \<noteq> [] \<Longrightarrow> n \<in> set ys \<and> n < length P \<and> n \<noteq> kInvalidIdx"
    using n bnd dist(2) by (metis UnI2 list.set_sel(1) set_append list.set_intros(2) UnCI)
  have ne: "xs \<noteq> [] \<Longrightarrow> k \<noteq> idx \<and> k \<notin> set ys" "ys \<noteq> [] \<Longrightarrow> n \<noteq> idx \<and> n \<notin> set xs"
    using kx ny dist(1) by auto
  let ?lvl = "l2\<lparr>pl_total_qty := pl_total_qty lvl - o_qty (P ! idx),
    pl_order_count := pl_order_count lvl - 1\<rparr>"
  have P1i: "P1 ! idx = P ! idx" using ne by (simp add: P1_def)
  have P2i: "P2 ! idx = P ! idx" using ne by (simp add: P2_def P1i)
  have run: "unlink_order pool lvl idx = Inr (pool\<lparr>op_pool := P2\<rparr>, ?lvl)"
  proof -
    have a: "(if o_prev (P ! idx) \<noteq> kInvalidIdx
        then andthen (set_next pool (o_prev (P ! idx)) (o_next (P ! idx))) (\<lambda>pool1. Inr (pool1, lvl))
        else Inr (pool, lvl\<lparr>pl_head := o_next (P ! idx)\<rparr>)) = Inr (pool\<lparr>op_pool := P1\<rparr>, l1)"
      using kx by (cases "xs = []") (simp_all add: i k n_def P1_def l1_def set_next_Inr pool)
    have b: "(if o_next (P ! idx) \<noteq> kInvalidIdx
        then andthen (set_prev (pool\<lparr>op_pool := P1\<rparr>) (o_next (P ! idx)) (o_prev (P ! idx)))
               (\<lambda>pool2. Inr (pool2, l1))
        else Inr (pool\<lparr>op_pool := P1\<rparr>, l1\<lparr>pl_tail := o_prev (P ! idx)\<rparr>))
        = Inr (pool\<lparr>op_pool := P2\<rparr>, l2)"
      using ny sd1 by (cases "ys = []")
        (simp_all add: i P2_def l2_def set_prev_Inr same_data_def flip: n_def, simp_all add: n)
    have o: "elem_at P idx = Inr (P ! idx)" "order_at (pool\<lparr>op_pool := P1\<rparr>) idx = P ! idx"
      "order_at (pool\<lparr>op_pool := P2\<rparr>) idx = P ! idx"
      using i(2) P1i P2i by (simp_all add: elem_at_def order_at_def)
    show ?thesis
      unfolding unlink_order_def pool by (simp only: o andthen.simps a prod.case Let_def b)
        (simp add: l1_def l2_def)
  qed
  have "dll P2 kInvalidIdx (pl_head l2) (xs @ ys) (pl_tail l2) kInvalidIdx"
  proof (rule dll_join)
    show "dll P2 kInvalidIdx (pl_head l2) xs k n"
    proof (cases xs rule: rev_cases)
      case Nil
      then show ?thesis using k by (simp add: l2_def l1_def)
    next
      case (snoc zs t)
      then have "dll P1 kInvalidIdx (pl_head lvl) xs k n"
        using dll_set_next[of P _ _ zs k] d(1) k dist(1) by (simp add: P1_def)
      then show ?thesis
        using ne(2) snoc by (simp add: P2_def l2_def l1_def dll_update_frame)
    qed
    show "dll P2 k n ys (pl_tail l2) kInvalidIdx"
    proof (cases ys)
      case Nil
      then show ?thesis using n by (simp add: l2_def)
    next
      case (Cons t ws)
      have "dll P1 idx n ys (pl_tail lvl) kInvalidIdx"
        using i(4) ne(1) by (simp add: P1_def dll_update_frame)
      then show ?thesis
        using dll_set_prev[of P1 idx n n ws] Cons n dist(1) by (simp add: P2_def l2_def l1_def)
    qed
  qed
  moreover have "set (xs @ ys) \<subseteq> {..<length P}" using bnd by auto
  note sum_qty_same_data[OF sd this]
  ultimately have "level_rep P2 ?lvl (xs @ ys)"
    using lvl dist by (auto simp: level_rep_def)
  moreover have "P2 ! x = P ! x" if "x \<notin> set (xs @ ys)" for x
  proof -
    have "xs \<noteq> [] \<Longrightarrow> k \<noteq> x" "ys \<noteq> [] \<Longrightarrow> n \<noteq> x" using kx ny that by auto
    then show ?thesis by (simp add: P2_def P1_def)
  qed
  ultimately show thesis
    using sd run by (intro that[of P2 ?lvl]) (simp_all add: l2_def l1_def)
qed

section \<open>The book as two sorted lists of queues\<close>

fun walk :: "Order list \<Rightarrow> nat \<Rightarrow> nat \<Rightarrow> nat list" where
  "walk P h 0 = []"
| "walk P h (Suc n) = h # walk P (o_next (P ! h)) n"

text \<open>The orders of a level in time priority: \<^verbatim>\<open>order_count\<close> steps from the head.\<close>

definition queue_of :: "Order list \<Rightarrow> PriceLevel \<Rightarrow> nat list" where
  "queue_of P lvl = walk P (pl_head lvl) (unat (pl_order_count lvl))"

type_synonym aside = "(Price \<times> (OrderId \<times> Qty) list) list"

definition queue_view :: "Order list \<Rightarrow> nat list \<Rightarrow> (OrderId \<times> Qty) list" where
  "queue_view P xs = map (\<lambda>x. (o_id (P ! x), o_qty (P ! x))) xs"

definition side_view :: "BookState \<Rightarrow> Side \<Rightarrow> aside" where
  "side_view st side =
    map (\<lambda>lvl. (pl_price lvl, queue_view (op_pool (bs_pool st)) (queue_of (op_pool (bs_pool st)) lvl)))
      (take (count_of (bs_book st) side) (levels_of (bs_book st) side))"

text \<open>The abstract operations.\<close>

fun spec_add :: "Side \<Rightarrow> Price \<Rightarrow> OrderId \<times> Qty \<Rightarrow> aside \<Rightarrow> aside" where
  "spec_add side p x [] = [(p, [x])]"
| "spec_add side p x ((p', q) # ls) =
    (if p' = p then (p', q @ [x]) # ls
     else if goes_before side p p' then (p, [x]) # (p', q) # ls
     else (p', q) # spec_add side p x ls)"

definition spec_remove :: "OrderId \<Rightarrow> aside \<Rightarrow> aside" where
  "spec_remove ref ls =
    filter (\<lambda>(p, q). q \<noteq> []) (map (\<lambda>(p, q). (p, filter (\<lambda>(r, n). r \<noteq> ref) q)) ls)"

definition spec_amend :: "OrderId \<Rightarrow> OrderId \<times> Qty \<Rightarrow> aside \<Rightarrow> aside" where
  "spec_amend ref y ls = map (\<lambda>(p, q). (p, map (\<lambda>(r, n). if r = ref then y else (r, n)) q)) ls"

text \<open>
  The representation: \<open>qs True\<close> and \<open>qs False\<close> are the queues of the bid and of the ask
  levels, as lists of pool slots. Nothing is said about \<^verbatim>\<open>level_idx\<close>.
\<close>

definition level_ok :: "Order list \<Rightarrow> bool \<Rightarrow> PriceLevel \<Rightarrow> nat list \<Rightarrow> bool" where
  "level_ok P buy lvl xs \<longleftrightarrow> level_rep P lvl xs \<and> xs \<noteq> [] \<and>
    (\<forall>x \<in> set xs. o_price (P ! x) = pl_price lvl \<and> (o_side (P ! x) = Buy) = buy)"

definition active :: "Level2Book \<Rightarrow> bool \<Rightarrow> PriceLevel list" where
  "active b buy = (if buy then take (lb_bid_count b) (lb_bid_levels b)
                   else take (lb_ask_count b) (lb_ask_levels b))"

definition slots :: "(bool \<Rightarrow> nat list list) \<Rightarrow> nat set" where
  "slots qs = set (concat (qs True)) \<union> set (concat (qs False))"

definition book_rep :: "BookState \<Rightarrow> (bool \<Rightarrow> nat list list) \<Rightarrow> bool" where
  "book_rep st qs \<longleftrightarrow> pool_inv (bs_pool st) \<and> om_inv (bs_map st) \<and> book_wf (bs_book st) \<and>
    (\<forall>buy. list_all2 (level_ok (op_pool (bs_pool st)) buy) (active (bs_book st) buy) (qs buy)) \<and>
    distinct (concat (qs True) @ concat (qs False)) \<and> slots qs \<subseteq> live_slots (bs_pool st) \<and>
    (\<forall>x \<in> slots qs. om_alpha (bs_map st) (o_id (op_pool (bs_pool st) ! x)) = Some x)"

definition queues :: "BookState \<Rightarrow> bool \<Rightarrow> nat list list" where
  "queues st buy = map (queue_of (op_pool (bs_pool st))) (active (bs_book st) buy)"

definition book_inv :: "BookState \<Rightarrow> bool" where
  "book_inv st \<longleftrightarrow> book_rep st (queues st)"

lemma dll_walk: "dll P p h xs l n \<Longrightarrow> walk P h (length xs) = xs"
  by (induction xs arbitrary: p h) auto

lemma level_rep_bound: "level_rep P lvl xs \<Longrightarrow> x \<in> set xs \<Longrightarrow> x < length P"
  by (auto simp: level_rep_def dest: dll_bound)

lemma level_rep_length:
  assumes "level_rep P lvl xs"
  shows "length xs \<le> length P"
proof -
  have "set xs \<subseteq> {..<length P}" using level_rep_bound[OF assms] by auto
  then have "card (set xs) \<le> length P" using card_mono[of "{..<length P}"] by simp
  then show ?thesis using assms by (simp add: level_rep_def distinct_card)
qed

lemma pool_small: "pool_inv p \<Longrightarrow> length (op_pool p) < 4294967295"
  by (simp add: pool_inv_def kInvalidIdx_def)

lemma level_rep_count:
  assumes "level_rep P lvl xs" "length P < 4294967295"
  shows "unat (pl_order_count lvl) = length xs" "pl_order_count lvl = 0 \<longleftrightarrow> xs = []"
proof -
  have "length xs < 2 ^ 32" using level_rep_length[OF assms(1)] assms(2) by simp
  then have *: "unat (of_nat (length xs) :: u32) = length xs" by (intro unat_of_nat_small) simp
  show "unat (pl_order_count lvl) = length xs"
    using assms(1) * by (simp add: level_rep_def)
  then show "pl_order_count lvl = 0 \<longleftrightarrow> xs = []"
    by (metis length_0_conv unat_eq_zero)
qed

lemma queue_of_rep:
  assumes "level_rep P lvl xs" "length P < 4294967295"
  shows "queue_of P lvl = xs"
  using assms(1) dll_walk level_rep_count(1)[OF assms] by (auto simp: queue_of_def level_rep_def)

lemma level_rep_frame:
  assumes "level_rep P lvl xs" "length P' = length P" "\<And>x. x \<in> set xs \<Longrightarrow> P' ! x = P ! x"
  shows "level_rep P' lvl xs"
proof -
  have "map (\<lambda>x. o_qty (P' ! x)) xs = map (\<lambda>x. o_qty (P ! x)) xs"
    using assms(3) by simp
  then show ?thesis
    using assms dll_cong[of P' P xs] by (simp add: level_rep_def del: map_eq_conv)
qed

lemma level_ok_frame:
  assumes "level_ok P buy lvl xs" "length P' = length P" "\<And>x. x \<in> set xs \<Longrightarrow> P' ! x = P ! x"
  shows "level_ok P' buy lvl xs"
  using assms level_rep_frame[of P lvl xs P'] by (auto simp: level_ok_def)

lemma level_ok_frame_all:
  assumes "list_all2 (level_ok P buy) L Q" "length P' = length P"
    "\<And>x. x \<in> set (concat Q) \<Longrightarrow> P' ! x = P ! x"
  shows "list_all2 (level_ok P' buy) L Q"
  using assms(1,3)
proof (induction rule: list_all2_induct)
  case (Cons l L q Q)
  then show ?case using level_ok_frame[OF _ assms(2), of buy l q] by simp
qed simp

lemma active_side: "active b (side = Buy) = take (count_of b side) (levels_of b side)"
  by (simp add: active_def count_of_def levels_of_def)

lemma active_set_side:
  "active (set_side b side L c) buy = (if buy = (side = Buy) then take c L else active b buy)"
  by (auto simp: active_def set_side_def)

definition view_of :: "Order list \<Rightarrow> PriceLevel list \<Rightarrow> nat list list \<Rightarrow> aside" where
  "view_of P L Q = map2 (\<lambda>lvl xs. (pl_price lvl, queue_view P xs)) L Q"

lemma queue_map_rep:
  assumes "list_all2 (level_ok P buy) L Q" "length P < 4294967295"
  shows "map (queue_of P) L = Q"
    "map (\<lambda>lvl. (pl_price lvl, queue_view P (queue_of P lvl))) L = view_of P L Q"
proof -
  have "map (queue_of P) L = Q \<and>
      map (\<lambda>lvl. (pl_price lvl, queue_view P (queue_of P lvl))) L = view_of P L Q"
    using assms(1)
  proof (induction rule: list_all2_induct)
    case (Cons l L q Q)
    then have "queue_of P l = q" using queue_of_rep[OF _ assms(2)] by (simp add: level_ok_def)
    with Cons show ?case by (simp add: view_of_def)
  qed (simp add: view_of_def)
  then show "map (queue_of P) L = Q"
    "map (\<lambda>lvl. (pl_price lvl, queue_view P (queue_of P lvl))) L = view_of P L Q" by simp_all
qed

lemma book_repD:
  assumes "book_rep st qs"
  shows "pool_inv (bs_pool st)" "om_inv (bs_map st)" "book_wf (bs_book st)"
    "list_all2 (level_ok (op_pool (bs_pool st)) buy) (active (bs_book st) buy) (qs buy)"
    "distinct (concat (qs True) @ concat (qs False))" "slots qs \<subseteq> live_slots (bs_pool st)"
    "x \<in> slots qs \<Longrightarrow> om_alpha (bs_map st) (o_id (op_pool (bs_pool st) ! x)) = Some x"
  using assms by (auto simp: book_rep_def)

lemma book_rep_queues: "book_rep st qs \<Longrightarrow> queues st = qs"
  unfolding queues_def fun_eq_iff
  using queue_map_rep(1)[OF book_repD(4) pool_small[OF book_repD(1)]] by blast

lemma book_inv_iff: "book_inv st \<longleftrightarrow> (\<exists>qs. book_rep st qs)"
  using book_rep_queues book_inv_def by metis

lemma side_view_rep:
  assumes "book_rep st qs"
  shows "side_view st side =
    view_of (op_pool (bs_pool st)) (active (bs_book st) (side = Buy)) (qs (side = Buy))"
  using queue_map_rep(2)[OF book_repD(4)[OF assms, of "side = Buy"] pool_small[OF book_repD(1)[OF assms]]]
  by (simp add: side_view_def active_side)

lemma spec_add_new:
  assumes "\<And>a. a \<in> set as \<Longrightarrow> goes_before side (fst a) p" "\<And>b. b \<in> set bs \<Longrightarrow> goes_before side p (fst b)"
  shows "spec_add side p x (as @ bs) = as @ (p, [x]) # bs"
  using assms
proof (induction as)
  case Nil
  then show ?case
  proof (cases bs)
    case (Cons b bs')
    have "goes_before side p (fst b)" using Nil(2) Cons by simp
    then have "fst b \<noteq> p" by auto
    then show ?thesis using Cons \<open>goes_before side p (fst b)\<close> by (cases b) simp
  qed simp
next
  case (Cons a as)
  have "goes_before side (fst a) p" using Cons.prems(1) by simp
  then have "fst a \<noteq> p" "\<not> goes_before side p (fst a)"
    using goes_before_trans goes_before_irrefl by metis+
  then show ?case using Cons by (cases a) auto
qed

lemma spec_add_found:
  assumes "\<And>a. a \<in> set as \<Longrightarrow> goes_before side (fst a) p"
  shows "spec_add side p x (as @ (p, q) # bs) = as @ (p, q @ [x]) # bs"
  using assms
proof (induction as)
  case (Cons a as)
  have "goes_before side (fst a) p" using Cons.prems(1) by simp
  then have "fst a \<noteq> p" "\<not> goes_before side p (fst a)"
    using goes_before_trans goes_before_irrefl by metis+
  then show ?case using Cons by (cases a) auto
qed simp

lemma view_of_append:
  "length L1 = length Q1 \<Longrightarrow> view_of P (L1 @ L2) (Q1 @ Q2) = view_of P L1 Q1 @ view_of P L2 Q2"
  by (simp add: view_of_def)

lemma view_of_Cons: "view_of P (l # L) (q # Q) = (pl_price l, queue_view P q) # view_of P L Q"
  by (simp add: view_of_def)

lemma view_of_frame:
  assumes "\<And>x. x \<in> set (concat Q) \<Longrightarrow> o_id (P' ! x) = o_id (P ! x) \<and> o_qty (P' ! x) = o_qty (P ! x)"
  shows "view_of P' L Q = view_of P L Q"
proof -
  have "queue_view P' q = queue_view P q" if "q \<in> set Q" for q
    using assms that unfolding queue_view_def by (intro map_cong refl) auto
  then show ?thesis
    unfolding view_of_def by (intro map_cong refl) (auto dest: set_zip_rightD)
qed

lemma view_of_prices: "a \<in> set (view_of P L Q) \<Longrightarrow> \<exists>l \<in> set L. fst a = pl_price l"
  by (auto simp: view_of_def dest: set_zip_leftD)

text \<open>
  The level a new order goes to, as a split of the levels and of their queues: the level
  at the price, with queue \<open>xs\<close>, which is empty exactly when the level is new.
\<close>

lemma level_for_split:
  assumes wf: "levels_wf side L c" and Q: "list_all2 (level_ok P buy) (take c L) Q"
    and lf: "level_for ctr d L c price side = (i, L', c', d')" and i: "i \<noteq> MAX_PRICE_LEVELS"
  obtains L1 lvl L2 Q1 xs Q2 where
    "take c' L' = L1 @ lvl # L2" "length L1 = i" "d' = d"
    "Q = (if xs = [] then Q1 @ Q2 else Q1 @ xs # Q2)"
    "take c L = (if xs = [] then L1 @ L2 else L1 @ lvl # L2)"
    "list_all2 (level_ok P buy) L1 Q1" "list_all2 (level_ok P buy) L2 Q2"
    "level_rep P lvl xs" "pl_price lvl = price" "xs \<noteq> [] \<Longrightarrow> level_ok P buy lvl xs"
    "\<And>l. l \<in> set L1 \<Longrightarrow> goes_before side (pl_price l) price"
    "\<And>l. l \<in> set L2 \<Longrightarrow> goes_before side price (pl_price l)"
proof -
  have len: "length L = MAX_PRICE_LEVELS" "c \<le> MAX_PRICE_LEVELS" "length (take c L) = c"
    using wf by (simp_all add: levels_wf_def)
  show thesis
  proof (cases rule: find_level_cases[of L c price])
    case none
    then have ins: "insert_level ctr d L c price side = (i, L', c', d')"
      using lf by (simp add: level_for_def)
    then have c: "c < MAX_PRICE_LEVELS" using i by (auto simp: insert_level_def split: if_splits)
    let ?pos = "insert_pos L c price side 0"
    obtain l' where l': "insert_level ctr d L c price side = (?pos, l', c + 1, d)"
      "length l' = MAX_PRICE_LEVELS" "?pos \<le> c"
      "take (c + 1) l' = take ?pos (take c L) @ blank_level price # drop ?pos (take c L)"
      by (rule insert_level_active[OF len(1) c])
    have eq: "?pos = i" "l' = L'" "c + 1 = c'" "d' = d" using l'(1) ins by simp_all
    have Q': "list_all2 (level_ok P buy) (take i (take c L)) (take i Q)"
      "list_all2 (level_ok P buy) (drop i (take c L)) (drop i Q)"
      by (rule list_all2_takeI[OF Q], rule list_all2_dropI[OF Q])
    show ?thesis
    proof (rule that[of "take i (take c L)" "blank_level price" "drop i (take c L)" "[]"
          "take i Q" "drop i Q"])
      show "take c' L' = take i (take c L) @ blank_level price # drop i (take c L)"
        using l'(4) by (simp only: eq)
      show "length (take i (take c L)) = i" using l'(3) len(3) eq(1) by simp
      show "level_rep P (blank_level price) []" by (simp add: level_rep_def blank_level_def)
      show "goes_before side (pl_price l) price" if "l \<in> set (take i (take c L))" for l
        using insert_pos_sorted(1)[OF wf none(2)] that by (simp add: eq)
      show "goes_before side price (pl_price l)" if "l \<in> set (drop i (take c L))" for l
        using insert_pos_sorted(2)[OF wf none(2)] that by (simp add: eq)
    qed (use Q' eq in \<open>simp_all add: blank_level_def del: take_take\<close>)
  next
    case found
    then have eq: "find_level L c price = i" "L' = L" "c' = c" "d' = d"
      using lf by (auto simp: level_for_def)
    let ?L = "take c L"
    have i: "i < length ?L" "i < length Q" "pl_price (?L ! i) = price"
      using found eq(1) len(3) Q by (auto simp: list_all2_lengthD[symmetric])
    have "list_all2 (level_ok P buy) (take i ?L) (take i Q)"
      "list_all2 (level_ok P buy) (drop (Suc i) ?L) (drop (Suc i) Q)" "level_ok P buy (?L ! i) (Q ! i)"
      by (rule list_all2_takeI[OF Q], rule list_all2_dropI[OF Q], rule list_all2_nthD[OF Q i(1)])
    moreover have "Q ! i \<noteq> []" "level_rep P (?L ! i) (Q ! i)"
      using \<open>level_ok P buy (?L ! i) (Q ! i)\<close> by (simp_all add: level_ok_def)
    moreover have "sorted_wrt (goes_before side)
        (map pl_price (take i ?L) @ price # map pl_price (drop (Suc i) ?L))"
      using wf insert_split[OF i(1)] i(3) unfolding levels_wf_def
      by (metis list.simps(9) map_append)
    moreover note insert_split[OF i(1)] insert_split[OF i(2)]
    ultimately show ?thesis
      using i eq by (intro that[of "take i ?L" "?L ! i" "drop (Suc i) ?L" "Q ! i" "take i Q"
            "drop (Suc i) Q"]) (auto simp: sorted_wrt_append simp del: take_take)
  qed
qed

section \<open>Changing one level of a book\<close>

lemma slots_upd: "slots (qs(b := Q)) = set (concat Q) \<union> set (concat (qs (\<not> b)))"
  by (cases b) (auto simp: slots_def)

lemma slots_split: "slots qs = set (concat (qs b)) \<union> set (concat (qs (\<not> b)))"
  by (cases b) (auto simp: slots_def)

lemma distinct_slots:
  "distinct (concat (qs True) @ concat (qs False)) \<longleftrightarrow>
   distinct (concat (qs b)) \<and> distinct (concat (qs (\<not> b))) \<and>
   set (concat (qs b)) \<inter> set (concat (qs (\<not> b))) = {}"
  by (cases b) (auto simp del: set_concat)

lemma parts_distinct:
  assumes "book_rep st qs" "qs buy = Q1 @ X @ Q2"
  shows "distinct (concat Q1)" "distinct (concat X)" "distinct (concat Q2)"
    "distinct (concat (qs (\<not> buy)))"
    "set (concat Q1) \<inter> set (concat X) = {}" "set (concat Q1) \<inter> set (concat Q2) = {}"
    "set (concat X) \<inter> set (concat Q2) = {}"
    "(set (concat Q1) \<union> set (concat X) \<union> set (concat Q2)) \<inter> set (concat (qs (\<not> buy))) = {}"
  using book_repD(5)[OF assms(1)] unfolding distinct_slots[of qs buy] assms(2)
  by (auto simp del: set_concat)

lemma rest_slots:
  assumes "book_rep st qs" "qs buy = Q1 @ X @ Q2"
  shows "slots qs - set (concat X) =
    set (concat Q1) \<union> set (concat Q2) \<union> set (concat (qs (\<not> buy)))"
  using parts_distinct[OF assms] unfolding slots_split[of qs buy] assms(2)
  by (auto simp del: set_concat)

text \<open>
  The common shape of every operation: a stretch \<open>M\<close> of the levels of one side (at most one
  level) with queues \<open>X\<close> becomes \<open>M'\<close> with queues \<open>X'\<close>; the orders outside it keep their
  pool entries.
\<close>

definition level_change ::
  "BookState \<Rightarrow> BookState \<Rightarrow> (bool \<Rightarrow> nat list list) \<Rightarrow> bool \<Rightarrow>
   PriceLevel list \<Rightarrow> PriceLevel list \<Rightarrow> PriceLevel list \<Rightarrow> PriceLevel list \<Rightarrow>
   nat list list \<Rightarrow> nat list list \<Rightarrow> nat list list \<Rightarrow> nat list list \<Rightarrow> bool" where
  "level_change st st' qs buy L1 M M' L2 Q1 X X' Q2 \<longleftrightarrow>
    book_rep st qs \<and> active (bs_book st) buy = L1 @ M @ L2 \<and> qs buy = Q1 @ X @ Q2 \<and>
    length L1 = length Q1 \<and> length M = length X \<and>
    active (bs_book st') buy = L1 @ M' @ L2 \<and>
    active (bs_book st') (\<not> buy) = active (bs_book st) (\<not> buy) \<and>
    pool_inv (bs_pool st') \<and> om_inv (bs_map st') \<and> book_wf (bs_book st') \<and>
    length (op_pool (bs_pool st')) = length (op_pool (bs_pool st)) \<and>
    (\<forall>x \<in> slots qs - set (concat X). op_pool (bs_pool st') ! x = op_pool (bs_pool st) ! x) \<and>
    list_all2 (level_ok (op_pool (bs_pool st')) buy) M' X' \<and> distinct (concat X') \<and>
    set (concat X') \<inter> (slots qs - set (concat X)) = {} \<and>
    (slots qs - set (concat X)) \<union> set (concat X') \<subseteq> live_slots (bs_pool st') \<and>
    (\<forall>x \<in> (slots qs - set (concat X)) \<union> set (concat X').
       om_alpha (bs_map st') (o_id (op_pool (bs_pool st') ! x)) = Some x)"

lemma level_change_frame:
  assumes "level_change st st' qs buy L1 M M' L2 Q1 X X' Q2"
    and "x \<in> set (concat Q1) \<union> set (concat Q2) \<union> set (concat (qs (\<not> buy)))"
  shows "op_pool (bs_pool st') ! x = op_pool (bs_pool st) ! x"
proof -
  have "book_rep st qs" "qs buy = Q1 @ X @ Q2" using assms(1) by (simp_all add: level_change_def)
  from rest_slots[OF this] assms(2) have "x \<in> slots qs - set (concat X)" by blast
  then show ?thesis using assms(1) by (simp add: level_change_def del: set_concat)
qed

lemma level_change_levels:
  assumes ch: "level_change st st' qs buy L1 M M' L2 Q1 X X' Q2"
  shows "list_all2 (level_ok (op_pool (bs_pool st')) b) (active (bs_book st') b)
    ((qs(buy := Q1 @ X' @ Q2)) b)"
proof -
  let ?P = "op_pool (bs_pool st)" and ?P' = "op_pool (bs_pool st')"
  have rep: "book_rep st qs" and len: "length ?P' = length ?P"
    and lv: "active (bs_book st) buy = L1 @ M @ L2" "qs buy = Q1 @ X @ Q2"
      "length L1 = length Q1" "length M = length X"
    using ch by (simp_all add: level_change_def)
  have old: "list_all2 (level_ok ?P buy) L1 Q1" "list_all2 (level_ok ?P buy) L2 Q2"
    using book_repD(4)[OF rep, of buy] unfolding lv(1,2) by (auto simp: list_all2_append lv(3,4))
  have "list_all2 (level_ok ?P' buy) L1 Q1" "list_all2 (level_ok ?P' buy) L2 Q2"
    by (rule level_ok_frame_all[OF old(1) len], rule level_change_frame[OF ch], blast)
      (rule level_ok_frame_all[OF old(2) len], rule level_change_frame[OF ch], blast)
  moreover have "list_all2 (level_ok ?P' (\<not> buy)) (active (bs_book st) (\<not> buy)) (qs (\<not> buy))"
    by (rule level_ok_frame_all[OF book_repD(4)[OF rep] len], rule level_change_frame[OF ch], blast)
  ultimately show ?thesis
    using ch by (cases "b = buy")
      (auto simp: level_change_def list_all2_append list_all2_lengthD)
qed

lemma level_change_rep:
  assumes ch: "level_change st st' qs buy L1 M M' L2 Q1 X X' Q2"
  shows "book_rep st' (qs(buy := Q1 @ X' @ Q2))"
    "slots (qs(buy := Q1 @ X' @ Q2)) = (slots qs - set (concat X)) \<union> set (concat X')"
proof -
  let ?qs = "qs(buy := Q1 @ X' @ Q2)"
  have rep: "book_rep st qs" and q: "qs buy = Q1 @ X @ Q2"
    using ch by (simp_all add: level_change_def)
  note rest = rest_slots[OF rep q]
  show sl: "slots ?qs = (slots qs - set (concat X)) \<union> set (concat X')"
    unfolding rest by (auto simp: slots_upd simp del: set_concat)
  have "set (concat X') \<inter> (set (concat Q1) \<union> set (concat Q2) \<union> set (concat (qs (\<not> buy)))) = {}"
    "distinct (concat X')"
    using ch unfolding level_change_def rest by blast+
  then have "distinct (concat (?qs True) @ concat (?qs False))"
    unfolding distinct_slots[of ?qs buy] using parts_distinct[OF rep q]
    by (auto simp del: set_concat)
  then show "book_rep st' ?qs"
    unfolding book_rep_def sl using ch level_change_levels[OF ch]
    by (simp add: level_change_def del: set_concat)
qed

lemma level_change_view:
  assumes ch: "level_change st st' qs buy L1 M M' L2 Q1 X X' Q2" and side: "(side = Buy) = buy"
  shows "side_view st' side = view_of (op_pool (bs_pool st)) L1 Q1 @
      view_of (op_pool (bs_pool st')) M' X' @ view_of (op_pool (bs_pool st)) L2 Q2"
    "side_view st side = view_of (op_pool (bs_pool st)) L1 Q1 @
      view_of (op_pool (bs_pool st)) M X @ view_of (op_pool (bs_pool st)) L2 Q2"
proof -
  have len: "length L1 = length Q1" "length M = length X" "length M' = length X'"
    using ch by (auto simp: level_change_def list_all2_lengthD)
  have "view_of (op_pool (bs_pool st')) L1 Q1 = view_of (op_pool (bs_pool st)) L1 Q1"
    "view_of (op_pool (bs_pool st')) L2 Q2 = view_of (op_pool (bs_pool st)) L2 Q2"
    by (rule view_of_frame, use level_change_frame[OF ch] in simp)+
  then show "side_view st' side = view_of (op_pool (bs_pool st)) L1 Q1 @
      view_of (op_pool (bs_pool st')) M' X' @ view_of (op_pool (bs_pool st)) L2 Q2"
    using side_view_rep[OF level_change_rep(1)[OF ch], of side] ch
    by (simp add: side level_change_def view_of_append len)
  show "side_view st side = view_of (op_pool (bs_pool st)) L1 Q1 @
      view_of (op_pool (bs_pool st)) M X @ view_of (op_pool (bs_pool st)) L2 Q2"
    using side_view_rep[of st qs side] ch by (simp add: side level_change_def view_of_append len)
qed

lemma level_change_other:
  assumes ch: "level_change st st' qs buy L1 M M' L2 Q1 X X' Q2" and side: "(side = Buy) \<noteq> buy"
  shows "side_view st' side = side_view st side"
proof -
  have b: "(side = Buy) = (\<not> buy)" using side by simp
  have "view_of (op_pool (bs_pool st')) (active (bs_book st) (\<not> buy)) (qs (\<not> buy)) =
      view_of (op_pool (bs_pool st)) (active (bs_book st) (\<not> buy)) (qs (\<not> buy))"
    by (rule view_of_frame, use level_change_frame[OF ch] in simp)
  then show ?thesis
    using side_view_rep[OF level_change_rep(1)[OF ch], of side] side_view_rep[of st qs side] ch
    by (simp add: b level_change_def)
qed

end
