(* ===== verification/Book_Frame.thy ===== *)
theory Book_Frame
  imports Book_Queues "HOL-Library.Sublist"
begin

text \<open>
  What an operation on one book leaves alone. The \<^verbatim>\<open>level_idx\<close> of the orders stays right as long as
  the levels only change at the end of the array, and the orders of the other books of the shard,
  which lie in the same pool and the same map, keep their entries.
\<close>

section \<open>Level indices\<close>

text \<open>Every order of the book names the level that holds it.\<close>

definition indexed :: "BookState \<Rightarrow> bool" where
  "indexed st \<longleftrightarrow> (\<forall>buy. \<forall>k < length (queues st buy). \<forall>x \<in> set (queues st buy ! k).
     o_level (op_pool (bs_pool st) ! x) = k)"

lemma indexedD:
  assumes "indexed st" "queues st b = Q1 @ q # Q2" "x \<in> set q"
  shows "o_level (op_pool (bs_pool st) ! x) = length Q1"
proof -
  have "length Q1 < length (queues st b)" "x \<in> set (queues st b ! length Q1)" using assms(2,3) by simp_all
  then show ?thesis using assms(1) unfolding indexed_def by blast
qed

text \<open>The levels that two states of a side have in common are at the same positions.\<close>

definition steady :: "aside \<Rightarrow> aside \<Rightarrow> bool" where
  "steady V V' \<longleftrightarrow> prefix (map fst V) (map fst V') \<or> prefix (map fst V') (map fst V)"

lemma steady_refl [simp]: "steady V V" by (simp add: steady_def)

lemma prefix_insert:
  assumes "distinct (xs @ y # ys)" "prefix (xs @ ys) (xs @ y # ys) \<or> prefix (xs @ y # ys) (xs @ ys)"
  shows "ys = []"
proof (cases ys)
  case (Cons z zs)
  have "prefix (xs @ ys) (xs @ y # ys)" using assms(2) prefix_length_le by fastforce
  then show ?thesis using assms(1) Cons by simp
qed simp

lemma active_prices_distinct:
  assumes "book_wf b"
  shows "distinct (map pl_price (active b buy))"
proof -
  have "sorted_wrt (goes_before (if buy then Buy else Sell)) (map pl_price (active b buy))"
    using assms by (simp add: book_wf_def levels_wf_def active_def)
  then show ?thesis
    by (simp add: distinct_conv_nth sorted_wrt_iff_nth_less goes_before_def nat_neq_iff split: if_splits)
      (metis less_irrefl)+
qed

lemma view_prices: "map fst (side_view st side) = map pl_price (active (bs_book st) (side = Buy))"
  by (simp add: side_view_def active_side)

lemma steady_change:
  assumes ch: "level_change st st' qs buy L1 M M' L2 Q1 X X' Q2" and side: "(side = Buy) = buy"
    and len: "length X \<le> 1" "length X' \<le> 1" and st: "steady (side_view st side) (side_view st' side)"
  shows "length X = length X' \<or> Q2 = []"
proof -
  have lv: "active (bs_book st) buy = L1 @ M @ L2" "active (bs_book st') buy = L1 @ M' @ L2"
    "length M = length X" "length M' = length X'" "book_wf (bs_book st)" "book_wf (bs_book st')"
    "qs buy = Q1 @ X @ Q2" "length L1 = length Q1" "book_rep st qs"
    using ch book_repD(3)[of st qs] by (auto simp: level_change_def list_all2_lengthD)
  have l2: "length L2 = length Q2"
    using list_all2_lengthD[OF book_repD(4)[OF lv(9), of buy]] lv(1,3,7,8) by simp
  note d = active_prices_distinct[OF lv(5), of buy] active_prices_distinct[OF lv(6), of buy]
  have p: "prefix (map pl_price (L1 @ M @ L2)) (map pl_price (L1 @ M' @ L2)) \<or>
      prefix (map pl_price (L1 @ M' @ L2)) (map pl_price (L1 @ M @ L2))"
    using st lv(1,2) by (simp add: steady_def view_prices side)
  have "map pl_price L2 = []" if ne: "length X \<noteq> length X'"
  proof (cases "X = []")
    case True
    then obtain l where "M' = [l]" "M = []" using len ne lv(3,4) by (cases M'; cases "tl M'") auto
    then show ?thesis
      using prefix_insert[of "map pl_price L1" "pl_price l" "map pl_price L2"] d(2) p lv(2) by simp
  next
    case False
    then obtain l where "M = [l]" "M' = []" using len ne lv(3,4) by (cases M; cases "tl M"; cases X; cases M') auto
    then show ?thesis
      using prefix_insert[of "map pl_price L1" "pl_price l" "map pl_price L2"] d(1) p lv(1) by auto
  qed
  then show ?thesis using l2 by (cases "length X = length X'") auto
qed

lemma level_change_indexed:
  assumes ch: "level_change st st' qs buy L1 M M' L2 Q1 X X' Q2" and ix: "indexed st"
    and new: "\<And>x. x \<in> set (concat X') \<Longrightarrow> o_level (op_pool (bs_pool st') ! x) = length Q1"
    and len: "length X' \<le> 1" "length X = length X' \<or> Q2 = []"
  shows "indexed st'"
proof -
  let ?P = "op_pool (bs_pool st)" and ?P' = "op_pool (bs_pool st')"
  have rep: "book_rep st qs" and q: "qs buy = Q1 @ X @ Q2" using ch by (simp_all add: level_change_def)
  note q' = book_rep_queues[OF level_change_rep(1)[OF ch]]
  have old: "o_level (?P ! x) = k" if "k < length (qs b)" "x \<in> set (qs b ! k)" for b k x
    using ix that unfolding indexed_def book_rep_queues[OF rep] by blast
  have fr: "?P' ! x = ?P ! x" if "x \<in> set (concat Q1) \<union> set (concat Q2) \<union> set (concat (qs (\<not> buy)))" for x
    using level_change_frame[OF ch that] .
  have in_concat: "x \<in> set (concat Q)" if "k < length Q" "x \<in> set (Q ! k)" for k x and Q :: "nat list list"
    using that nth_mem by force
  have "o_level (?P' ! x) = k" if k: "k < length (queues st' b)" "x \<in> set (queues st' b ! k)" for b k x
  proof (cases "b = buy")
    case False
    then have "k < length (qs b)" "x \<in> set (qs b ! k)" "b = (\<not> buy)" using k by (auto simp: q')
    then show ?thesis using old fr[of x] in_concat by simp
  next
    case True
    then have k': "k < length (Q1 @ X' @ Q2)" "x \<in> set ((Q1 @ X' @ Q2) ! k)" using k by (simp_all add: q')
    consider "k < length Q1" | "k = length Q1" "X' \<noteq> []" | "length Q1 + length X' \<le> k"
      using len(1) by (cases X') force+
    then show ?thesis
    proof cases
      case 1
      then have x: "x \<in> set (Q1 ! k)" using k'(2) by (simp add: nth_append)
      then have "x \<in> set (qs buy ! k)" "k < length (qs buy)" using 1 by (simp_all add: q nth_append)
      then show ?thesis using old fr[of x] in_concat[OF 1 x] by simp
    next
      case 2
      then have "x \<in> set (concat X')" using k'(2) in_concat[of 0 X' x] by (simp add: nth_append)
      then show ?thesis using new 2(1) by simp
    next
      case 3
      let ?j = "k - length Q1 - length X'"
      have x: "?j < length Q2" "x \<in> set (Q2 ! ?j)" using 3 k' by (auto simp: nth_append split: if_splits)
      then have "length X = length X'" using len(2) by auto
      then have "k < length (qs buy)" "x \<in> set (qs buy ! k)" using 3 x by (auto simp: q nth_append)
      then show ?thesis using old fr[of x] in_concat[OF x] by simp
    qed
  qed
  then show ?thesis unfolding indexed_def by blast
qed

section \<open>The other books of the shard\<close>

definition keeps_others :: "BookState \<Rightarrow> BookState \<Rightarrow> bool" where
  "keeps_others st st' \<longleftrightarrow> length (op_pool (bs_pool st')) = length (op_pool (bs_pool st)) \<and>
     (\<forall>x \<in> live_slots (bs_pool st) - slots (queues st). x \<in> live_slots (bs_pool st') - slots (queues st') \<and>
        op_pool (bs_pool st') ! x = op_pool (bs_pool st) ! x \<and>
        (\<forall>ref. om_alpha (bs_map st) ref = Some x \<longrightarrow> om_alpha (bs_map st') ref = Some x))"

lemma keeps_others_refl: "keeps_others st st"
  by (simp add: keeps_others_def)

lemma keeps_others_trans: "keeps_others st st' \<Longrightarrow> keeps_others st' st'' \<Longrightarrow> keeps_others st st''"
  by (simp add: keeps_others_def)

lemma keeps_others_rep:
  assumes k: "keeps_others st st'" "pool_inv (bs_pool st')" "om_inv (bs_map st')"
    and other: "book_rep (st\<lparr>bs_book := b\<rparr>) qs" "slots qs \<inter> slots (queues st) = {}"
  shows "book_rep (st'\<lparr>bs_book := b\<rparr>) qs" "slots qs \<inter> slots (queues st') = {}"
    "side_view (st'\<lparr>bs_book := b\<rparr>) side = side_view (st\<lparr>bs_book := b\<rparr>) side"
    "indexed (st'\<lparr>bs_book := b\<rparr>) = indexed (st\<lparr>bs_book := b\<rparr>)"
proof -
  let ?P = "op_pool (bs_pool st)" and ?P' = "op_pool (bs_pool st')"
  note D = book_repD[OF other(1), simplified]
  have sub: "slots qs \<subseteq> live_slots (bs_pool st) - slots (queues st)" using D(6) other(2) by blast
  have fr: "?P' ! x = ?P ! x" "x \<in> live_slots (bs_pool st') - slots (queues st')"
      "om_alpha (bs_map st') (o_id (?P' ! x)) = Some x" if "x \<in> slots qs" for x
    using k(1) sub that D(7)[OF that] unfolding keeps_others_def by auto
  show "slots qs \<inter> slots (queues st') = {}" using fr(2) by blast
  have frq: "?P' ! x = ?P ! x" if "x \<in> set (concat (qs c))" for x c
    using fr(1) that unfolding slots_split[of qs c] by blast
  have "list_all2 (level_ok ?P' c) (active b c) (qs c)" for c
    by (rule level_ok_frame_all[OF D(4)]) (use k(1) frq in \<open>simp_all add: keeps_others_def\<close>)
  then show rep: "book_rep (st'\<lparr>bs_book := b\<rparr>) qs"
    using D(3,5) k(2,3) fr(2,3) by (auto simp: book_rep_def)
  show "side_view (st'\<lparr>bs_book := b\<rparr>) side = side_view (st\<lparr>bs_book := b\<rparr>) side"
    unfolding side_view_rep[OF rep] side_view_rep[OF other(1)] by (simp, rule view_of_frame) (use frq in simp)
  have "\<forall>c k. k < length (qs c) \<longrightarrow> (\<forall>x \<in> set (qs c ! k). ?P' ! x = ?P ! x)" using frq nth_mem by fastforce
  then show "indexed (st'\<lparr>bs_book := b\<rparr>) = indexed (st\<lparr>bs_book := b\<rparr>)"
    unfolding indexed_def book_rep_queues[OF rep] book_rep_queues[OF other(1)] by auto
qed

end
