(* ===== verification/Book_Refinement.thy ===== *)
theory Book_Refinement
  imports Book_Frame
begin

text \<open>
  The handlers of \<^verbatim>\<open>src/orderbook/level2_book.cpp\<close> refine operations on sorted lists of
  queues. Adding an order needs nothing of the other orders' \<^verbatim>\<open>level_idx\<close>; taking one out or
  amending it needs the \<^verbatim>\<open>level_idx\<close> of that order to name its level.
\<close>

section \<open>Placing an order\<close>

lemma pool_links:
  assumes "pool_inv p" "length P = length (op_pool p)"
  shows "pool_inv (p\<lparr>op_pool := P\<rparr>)" "live_slots (p\<lparr>op_pool := P\<rparr>) = live_slots p"
  using assms by (simp_all add: pool_inv_def live_slots_def)

lemma live_slots_bound: "pool_inv p \<Longrightarrow> x \<in> live_slots p \<Longrightarrow> x < length (op_pool p) \<and> x \<noteq> kInvalidIdx"
  by (auto simp: pool_inv_def live_slots_def)

lemma take_update_mid:
  "take c L = L1 @ l # L2 \<Longrightarrow> take c (L[length L1 := l']) = L1 @ l' # L2"
  by (simp add: take_update_swap)

text \<open>The pool entries after a new order has been filled in and linked.\<close>

lemma init_link_data:
  assumes "idx < length P" "same_data (P[idx := init_order ref price qty side i (P ! idx)]) P'"
  shows "length P' = length P" "o_id (P' ! idx) = ref" "o_price (P' ! idx) = price"
    "o_qty (P' ! idx) = qty" "o_side (P' ! idx) = side" "o_level (P' ! idx) = i"
    "x < length P \<Longrightarrow> x \<noteq> idx \<Longrightarrow> o_id (P' ! x) = o_id (P ! x) \<and> o_price (P' ! x) = o_price (P ! x) \<and>
      o_qty (P' ! x) = o_qty (P ! x) \<and> o_side (P' ! x) = o_side (P ! x) \<and>
      o_level (P' ! x) = o_level (P ! x)"
  using assms by (simp_all add: same_data_def init_order_def)

lemma queue_view_data:
  assumes "\<And>x. x \<in> set xs \<Longrightarrow> o_id (P' ! x) = o_id (P ! x) \<and> o_qty (P' ! x) = o_qty (P ! x)"
  shows "queue_view P' xs = queue_view P xs"
  using assms by (simp add: queue_view_def)

lemma queue_view_snoc: "queue_view P (xs @ [x]) = queue_view P xs @ [(o_id (P ! x), o_qty (P ! x))]"
  by (simp add: queue_view_def)

lemma place_order_rep:
  assumes rep: "book_rep st qs" and idx: "idx \<in> live_slots (bs_pool st)" "idx \<notin> slots qs"
    and ref: "ref \<noteq> 0" "om_alpha (bs_map st) ref = None" "probe_room (om_table (bs_map st))"
    and lf: "level_for (lb_drop_ctr (bs_book st)) (bs_drops st) (levels_of (bs_book st) side)
      (count_of (bs_book st) side) price side = (i, L', c', d')" "i \<noteq> MAX_PRICE_LEVELS"
  obtains st' L1 M lvl' L2 Q1 X xs Q2 where "place_order st idx ref price qty side = Inr st'"
    "level_change st st' qs (side = Buy) L1 M [lvl'] L2 Q1 X [xs @ [idx]] Q2"
    "side_view st' side = spec_add side price (ref, qty) (side_view st side)"
    "om_alpha (bs_map st') = (om_alpha (bs_map st))(ref \<mapsto> idx)"
    "live_slots (bs_pool st') = live_slots (bs_pool st)" "bs_drops st' = bs_drops st"
    "X = (if xs = [] then [] else [xs])" "o_level (op_pool (bs_pool st') ! idx) = length Q1"
    "o_side (op_pool (bs_pool st') ! idx) = side" "o_id (op_pool (bs_pool st') ! idx) = ref"
    "o_qty (op_pool (bs_pool st') ! idx) = qty" "o_price (op_pool (bs_pool st') ! idx) = price"
    "\<forall>x. x \<noteq> idx \<and> x \<notin> slots qs \<longrightarrow> op_pool (bs_pool st') ! x = op_pool (bs_pool st) ! x"
    "\<forall>x \<in> slots qs. o_level (op_pool (bs_pool st') ! x) = o_level (op_pool (bs_pool st) ! x) \<and>
      o_id (op_pool (bs_pool st') ! x) = o_id (op_pool (bs_pool st) ! x)"
proof -
  let ?b = "bs_book st" and ?p = "bs_pool st" and ?buy = "side = Buy"
  let ?P = "op_pool ?p"
  note D = book_repD[OF rep]
  have ib: "idx < length ?P" "idx \<noteq> kInvalidIdx" using live_slots_bound[OF D(1) idx(1)] by simp_all
  obtain L1 lvl L2 Q1 xs Q2 where sp:
    "take c' L' = L1 @ lvl # L2" "length L1 = i" "d' = bs_drops st"
    "qs ?buy = (if xs = [] then Q1 @ Q2 else Q1 @ xs # Q2)"
    "active ?b ?buy = (if xs = [] then L1 @ L2 else L1 @ lvl # L2)"
    "list_all2 (level_ok ?P ?buy) L1 Q1" "list_all2 (level_ok ?P ?buy) L2 Q2"
    "level_rep ?P lvl xs" "pl_price lvl = price" "xs \<noteq> [] \<Longrightarrow> level_ok ?P ?buy lvl xs"
    "\<And>l. l \<in> set L1 \<Longrightarrow> goes_before side (pl_price l) price"
    "\<And>l. l \<in> set L2 \<Longrightarrow> goes_before side price (pl_price l)"
    by (rule level_for_split[OF book_wf_side[OF D(3)] D(4)[of ?buy, unfolded active_side] lf,
          folded active_side]) blast
  define X where "X = (if xs = [] then [] else [xs])"
  define M where "M = (if xs = [] then [] else [lvl])"
  have X: "set (concat X) = set xs" "qs ?buy = Q1 @ X @ Q2" "active ?b ?buy = L1 @ M @ L2"
    using sp(4,5) by (auto simp: X_def M_def)
  have xs: "set xs \<subseteq> slots qs" unfolding slots_split[of qs ?buy] X(2) by (auto simp flip: X(1))
  define P0 where "P0 = ?P[idx := init_order ref price qty side i (?P ! idx)]"
  have lrep: "level_rep P0 lvl xs"
  proof (rule level_rep_frame[OF sp(8)])
    fix x assume "x \<in> set xs"
    then have "idx \<noteq> x" using xs idx(2) by auto
    then show "P0 ! x = ?P ! x" by (simp add: P0_def)
  qed (simp add: P0_def)
  obtain P' lvl' where lnk: "link_order_tail (set_order ?p idx (init_order ref price qty side i (?P ! idx)))
        lvl idx = Inr (?p\<lparr>op_pool := P'\<rparr>, lvl')"
    "level_rep P' lvl' (xs @ [idx])" "pl_price lvl' = price" "same_data P0 P'"
    "\<And>x. x \<noteq> idx \<Longrightarrow> x \<notin> set xs \<Longrightarrow> P' ! x = P0 ! x"
    by (rule link_order_tail_rep[OF lrep, of idx
          "set_order ?p idx (init_order ref price qty side i (?P ! idx))"])
      (use ib xs idx(2) sp(9) in \<open>auto simp: P0_def set_order_def\<close>)
  obtain m where m: "map_insert (bs_map st) ref idx = Some m" "om_inv m"
    "om_alpha m = (om_alpha (bs_map st))(ref \<mapsto> idx)"
    using om.ins_spec[OF D(2) ref(3,1)] by blast
  define st' where "st' = st\<lparr>bs_book := set_side ?b side (L'[i := lvl']) c',
    bs_pool := ?p\<lparr>op_pool := P'\<rparr>, bs_map := m, bs_drops := d'\<rparr>"
  have iL: "i < length L'" "L' ! i = lvl"
  proof -
    have "i < length (take c' L')" unfolding sp(1) using sp(2) by simp
    then show "i < length L'" by simp
    have "L' ! i = take c' L' ! i" using \<open>i < length (take c' L')\<close> by simp
    then show "L' ! i = lvl" unfolding sp(1) using sp(2) by (simp add: nth_append)
  qed
  have run: "place_order st idx ref price qty side = Inr st'"
    using lf ib(1) iL lnk(1) m(1)
    by (simp add: place_order_def elem_at_def st'_def)
  note dat = init_link_data[OF ib(1) lnk(4)[unfolded P0_def]]
  have fr: "P' ! x = ?P ! x" if "x \<noteq> idx" "x \<notin> set xs" for x
    using lnk(5)[OF that] that(1) by (simp add: P0_def)
  have nslots: "x \<noteq> idx" "x < length ?P" if "x \<in> slots qs" for x
    using that idx(2) D(6) live_slots_bound[OF D(1)] by auto
  have ok: "level_ok P' ?buy lvl' (xs @ [idx])"
    using lnk(2,3) dat sp(9,10) nslots xs unfolding level_ok_def by (cases "xs = []") auto
  have act: "active (bs_book st') ?buy = L1 @ [lvl'] @ L2"
    "active (bs_book st') (\<not> ?buy) = active ?b (\<not> ?buy)"
    using take_update_mid[OF sp(1), of lvl'] sp(2) by (auto simp: st'_def active_set_side)
  have ids: "om_alpha m (o_id (P' ! x)) = Some x" if "x \<in> insert idx (slots qs)" for x
  proof (cases "x = idx")
    case False
    then have x: "x \<in> slots qs" using that by simp
    from D(7)[OF x] have "o_id (?P ! x) \<noteq> ref" using ref(2) by auto
    then show ?thesis using D(7)[OF x] dat(7)[of x] nslots[OF x] by (simp add: m(3))
  qed (simp add: dat m(3))
  have lens: "length L1 = length Q1" "length M = length X"
    using sp(6) by (auto simp: M_def X_def list_all2_lengthD)
  have fr': "\<forall>x \<in> slots qs - set xs. P' ! x = ?P ! x" using fr nslots(1) by simp
  have ch: "level_change st st' qs ?buy L1 M [lvl'] L2 Q1 X [xs @ [idx]] Q2"
    unfolding level_change_def
    using rep X(2,3) lens act pool_links[OF D(1) dat(1)] m(2) book_wf_place[OF D(3) run] dat(1)
      ok D(6) idx ids lnk(2) xs fr'
    by (auto simp: st'_def X(1) level_rep_def simp del: set_concat)
  let ?V1 = "view_of ?P L1 Q1" and ?V2 = "view_of ?P L2 Q2"
  have V: "\<And>a. a \<in> set ?V1 \<Longrightarrow> goes_before side (fst a) price"
    "\<And>a. a \<in> set ?V2 \<Longrightarrow> goes_before side price (fst a)"
    using view_of_prices sp(11,12) by metis+
  have "queue_view P' xs = queue_view ?P xs"
    by (rule queue_view_data) (use dat(7) nslots xs in auto)
  then have "view_of P' [lvl'] [xs @ [idx]] = [(price, queue_view ?P xs @ [(ref, qty)])]"
    using lnk(3) dat by (simp add: view_of_def queue_view_snoc)
  moreover have "view_of ?P M X = (if xs = [] then [] else [(price, queue_view ?P xs)])"
    using sp(9) by (simp add: M_def X_def view_of_def)
  ultimately have "side_view st' side = spec_add side price (ref, qty) (side_view st side)"
    using level_change_view[OF ch refl] spec_add_new[OF V, of ?V1 ?V2] spec_add_found[OF V(1), of ?V1]
    by (cases "xs = []") (simp_all add: st'_def queue_view_def)
  moreover have "\<forall>x. x \<noteq> idx \<and> x \<notin> slots qs \<longrightarrow> op_pool (bs_pool st') ! x = ?P ! x"
    using fr xs by (auto simp: st'_def)
  moreover have "\<forall>x \<in> slots qs. o_level (op_pool (bs_pool st') ! x) = o_level (?P ! x) \<and>
      o_id (op_pool (bs_pool st') ! x) = o_id (?P ! x)"
    using dat(7) nslots by (simp add: st'_def)
  ultimately show thesis
    using that[OF run ch] m(3) sp(2,3) lens(1) pool_links(2)[OF D(1) dat(1)]
    by (simp add: st'_def X_def dat)
qed

section \<open>Taking an order out\<close>

lemma free_order_live:
  "pool_inv p \<Longrightarrow> i \<in> live_slots p \<Longrightarrow> free_order p i = Inr (pool_free p i)"
  by (simp add: free_order_def pool_free_room)

lemma spec_remove_append: "spec_remove ref (as @ bs) = spec_remove ref as @ spec_remove ref bs"
  by (simp add: spec_remove_def)

lemma spec_amend_append: "spec_amend ref y (as @ bs) = spec_amend ref y as @ spec_amend ref y bs"
  by (simp add: spec_amend_def)

lemma queue_view_filter_other:
  "(\<And>x. x \<in> set xs \<Longrightarrow> o_id (P ! x) \<noteq> ref) \<Longrightarrow>
   filter (\<lambda>(r, n). r \<noteq> ref) (queue_view P xs) = queue_view P xs"
  by (induction xs) (auto simp: queue_view_def)

lemma queue_view_amend_other:
  "(\<And>x. x \<in> set xs \<Longrightarrow> o_id (P ! x) \<noteq> ref) \<Longrightarrow>
   map (\<lambda>(r, n). if r = ref then y else (r, n)) (queue_view P xs) = queue_view P xs"
  by (induction xs) (auto simp: queue_view_def)

lemma spec_other_view:
  assumes "list_all2 (level_ok P b) L Q" "\<And>x. x \<in> set (concat Q) \<Longrightarrow> o_id (P ! x) \<noteq> ref"
  shows "spec_remove ref (view_of P L Q) = view_of P L Q"
    "spec_amend ref y (view_of P L Q) = view_of P L Q"
proof -
  have "spec_remove ref (view_of P L Q) = view_of P L Q \<and>
    spec_amend ref y (view_of P L Q) = view_of P L Q"
    using assms
  proof (induction rule: list_all2_induct)
    case Nil
    then show ?case by (simp add: view_of_def spec_remove_def spec_amend_def)
  next
    case (Cons l L q Q)
    have q: "filter (\<lambda>(r, n). r \<noteq> ref) (queue_view P q) = queue_view P q"
      "map (\<lambda>(r, n). if r = ref then y else (r, n)) (queue_view P q) = queue_view P q"
      by (rule queue_view_filter_other queue_view_amend_other, use Cons.prems in simp)+
    moreover have "queue_view P q \<noteq> []" using Cons.hyps(1) by (simp add: level_ok_def queue_view_def)
    ultimately show ?case
      using Cons.IH Cons.prems by (simp add: view_of_Cons spec_remove_def spec_amend_def)
  qed
  then show "spec_remove ref (view_of P L Q) = view_of P L Q"
    "spec_amend ref y (view_of P L Q) = view_of P L Q" by simp_all
qed

text \<open>An order reference names one order of a book.\<close>

lemma book_rep_id_inj:
  assumes "book_rep st qs" "x \<in> slots qs" "y \<in> slots qs"
    "o_id (op_pool (bs_pool st) ! x) = o_id (op_pool (bs_pool st) ! y)"
  shows "x = y"
  using book_repD(7)[OF assms(1,2)] book_repD(7)[OF assms(1,3)] assms(4) by (metis option.inject)

text \<open>Where an order stands: at level \<open>k\<close> of its side, between \<open>xs\<close> and \<open>ys\<close>.\<close>

definition stands_at ::
  "BookState \<Rightarrow> (bool \<Rightarrow> nat list list) \<Rightarrow> nat \<Rightarrow> PriceLevel list \<Rightarrow> PriceLevel \<Rightarrow> PriceLevel list \<Rightarrow>
   nat list list \<Rightarrow> nat list \<Rightarrow> nat list \<Rightarrow> nat list list \<Rightarrow> bool" where
  "stands_at st qs idx L1 lvl L2 Q1 xs ys Q2 \<longleftrightarrow>
    (let buy = (o_side (op_pool (bs_pool st) ! idx) = Buy) in
     book_rep st qs \<and> qs buy = Q1 @ (xs @ idx # ys) # Q2 \<and>
     active (bs_book st) buy = L1 @ lvl # L2 \<and> length L1 = length Q1 \<and>
     o_level (op_pool (bs_pool st) ! idx) = length Q1)"

lemma stands_atD:
  assumes "stands_at st qs idx L1 lvl L2 Q1 xs ys Q2"
  defines "P \<equiv> op_pool (bs_pool st)"
  defines "buy \<equiv> o_side (P ! idx) = Buy" and "o0 \<equiv> P ! idx"
  shows "idx \<in> slots qs" "level_ok P buy lvl (xs @ idx # ys)"
    "list_all2 (level_ok P buy) L1 Q1" "list_all2 (level_ok P buy) L2 Q2"
    "o_level o0 < length (levels_of (bs_book st) (o_side o0))"
    "o_level o0 < count_of (bs_book st) (o_side o0)"
    "levels_of (bs_book st) (o_side o0) ! o_level o0 = lvl"
    "take (count_of (bs_book st) (o_side o0)) (levels_of (bs_book st) (o_side o0)) = L1 @ lvl # L2"
    "set (xs @ idx # ys) \<subseteq> slots qs"
proof -
  let ?L = "levels_of (bs_book st) (o_side o0)" and ?c = "count_of (bs_book st) (o_side o0)"
  have s: "book_rep st qs" "qs buy = Q1 @ (xs @ idx # ys) # Q2"
    "active (bs_book st) buy = L1 @ lvl # L2" "length L1 = length Q1" "o_level o0 = length Q1"
    using assms(1) by (simp_all add: stands_at_def Let_def buy_def o0_def P_def)
  show sub: "set (xs @ idx # ys) \<subseteq> slots qs"
    unfolding slots_split[of qs buy] s(2) by auto
  then show "idx \<in> slots qs" by auto
  show "level_ok P buy lvl (xs @ idx # ys)" "list_all2 (level_ok P buy) L1 Q1"
    "list_all2 (level_ok P buy) L2 Q2"
    using book_repD(4)[OF s(1), of buy] unfolding s(2,3)
    by (auto simp: list_all2_append s(4) P_def)
  show tk: "take ?c ?L = L1 @ lvl # L2"
    using s(3) by (simp add: buy_def o0_def active_side)
  have "o_level o0 < length (take ?c ?L)" unfolding tk using s(4,5) by simp
  then show "o_level o0 < length ?L" "o_level o0 < ?c" by simp_all
  have "?L ! o_level o0 = take ?c ?L ! o_level o0" using \<open>o_level o0 < ?c\<close> by simp
  then show "?L ! o_level o0 = lvl" unfolding tk using s(4,5) by (simp add: nth_append)
qed

text \<open>Dropping the level at a position, or keeping it.\<close>

lemma remove_level_split:
  assumes "levels_wf side L c" "take c L = A @ lvl # B"
  obtains L' c' where
    "(if gone then remove_level L c (length A) else Inr (L, c)) = Inr (L', c')"
    "take c' L' = A @ (if gone then [] else [lvl]) @ B"
proof (cases gone)
  case True
  have len: "length L = MAX_PRICE_LEVELS" "c \<le> MAX_PRICE_LEVELS" "length (take c L) = c"
    using assms(1) by (simp_all add: levels_wf_def)
  then have A: "length A < c" using assms(2) by simp
  then have "0 < c" by simp
  obtain L' where "remove_level L c (length A) = Inr (L', c - 1)" "length L' = MAX_PRICE_LEVELS"
    "take (c - 1) L' = (if length A < c then take (length A) (take c L) @
       drop (Suc (length A)) (take c L) else take (c - 1) L)"
    by (rule remove_level_active[OF len(1,2) \<open>0 < c\<close>])
  then show ?thesis using that[of L' "c - 1"] A True unfolding assms(2) by simp
next
  case False
  then show ?thesis using that[of L c] assms(2) by simp
qed

lemma drop_order_rep:
  assumes at: "stands_at st qs idx L1 lvl L2 Q1 xs ys Q2"
    and room: "probe_room (om_table (bs_map st))"
  defines "ref \<equiv> o_id (op_pool (bs_pool st) ! idx)"
    and "buy \<equiv> o_side (op_pool (bs_pool st) ! idx) = Buy"
  obtains st' M' X' where "drop_order st idx ref = Inr st'"
    "level_change st st' qs buy L1 [lvl] M' L2 Q1 [xs @ idx # ys] X' Q2"
    "X' = (if xs @ ys = [] then [] else [xs @ ys])"
    "\<And>l. l \<in> set M' \<Longrightarrow> pl_price l = pl_price lvl"
    "\<And>x. x \<in> set (xs @ ys) \<Longrightarrow> o_id (op_pool (bs_pool st') ! x) = o_id (op_pool (bs_pool st) ! x) \<and>
      o_qty (op_pool (bs_pool st') ! x) = o_qty (op_pool (bs_pool st) ! x)"
    "om_alpha (bs_map st') = (om_alpha (bs_map st))(ref := None)"
    "live_slots (bs_pool st') = live_slots (bs_pool st) - {idx}"
    "probe_room (om_table (bs_map st'))" "op_capacity (bs_pool st') = op_capacity (bs_pool st)"
    "\<forall>x. x \<notin> slots qs \<longrightarrow> op_pool (bs_pool st') ! x = op_pool (bs_pool st) ! x"
    "\<forall>x \<in> slots qs. o_level (op_pool (bs_pool st') ! x) = o_level (op_pool (bs_pool st) ! x) \<and>
      o_id (op_pool (bs_pool st') ! x) = o_id (op_pool (bs_pool st) ! x)"
proof -
  let ?p = "bs_pool st" and ?b = "bs_book st"
  let ?P = "op_pool ?p"
  define o0 where "o0 = ?P ! idx"
  note A = stands_atD[OF at, folded o0_def, folded buy_def[folded o0_def]]
  have s: "book_rep st qs" "qs buy = Q1 @ [xs @ idx # ys] @ Q2" "active ?b buy = L1 @ [lvl] @ L2"
    "length L1 = length Q1" "o_level o0 = length Q1"
    using at by (simp_all add: stands_at_def Let_def buy_def o0_def)
  note D = book_repD[OF s(1)]
  have live: "idx \<in> live_slots ?p" using A(1) D(6) by blast
  have ib: "idx < length ?P" using live_slots_bound[OF D(1) live] by simp
  have lrep: "level_rep ?P lvl (xs @ idx # ys)" using A(2) by (simp add: level_ok_def)
  obtain P' lvl' where un: "unlink_order ?p lvl idx = Inr (?p\<lparr>op_pool := P'\<rparr>, lvl')"
    "level_rep P' lvl' (xs @ ys)" "pl_price lvl' = pl_price lvl" "same_data ?P P'"
    "\<And>x. x \<notin> set (xs @ ys) \<Longrightarrow> P' ! x = ?P ! x"
    by (rule unlink_order_rep[OF lrep refl]) blast
  have len: "length P' = length ?P" using un(4) by (simp add: same_data_def)
  have ref0: "om_alpha (bs_map st) ref = Some idx" using D(7)[OF A(1)] by (simp add: ref_def)
  then have refn: "ref \<noteq> 0" using om_alpha_zero by force
  obtain m where m: "map_erase (bs_map st) ref = Some (True, m)" "om_inv m"
    "probe_room (om_table m)" "om_alpha m = (om_alpha (bs_map st))(ref := None)"
    using om.del_spec[OF D(2) room refn] ref0 by auto
  have cnt: "pl_order_count lvl' = 0 \<longleftrightarrow> xs @ ys = []"
    by (rule level_rep_count(2)[OF un(2)]) (use len pool_small[OF D(1)] in simp)
  let ?L = "levels_of ?b (o_side o0)" and ?c = "count_of ?b (o_side o0)"
  let ?L1 = "?L[o_level o0 := lvl']"
  have wf: "levels_wf (o_side o0) ?L1 ?c"
    by (rule levels_wf_update[OF book_wf_side[OF D(3)]]) (simp add: A(7) un(3))
  have tk: "take ?c ?L1 = L1 @ lvl' # L2"
    using take_update_mid[OF A(8), of lvl'] s(4,5) by simp
  have k: "o_level o0 = length L1" using s(4,5) by simp
  define M' where "M' = (if xs @ ys = [] then [] else [lvl'])"
  define X' where "X' = (if xs @ ys = [] then [] else [xs @ ys])"
  obtain L' c' where rm: "(if pl_order_count lvl' = 0 then remove_level ?L1 ?c (o_level o0)
      else Inr (?L1, ?c)) = Inr (L', c')" "take c' L' = L1 @ M' @ L2"
    by (rule remove_level_split[OF wf tk, of "pl_order_count lvl' = 0", folded k])
      (simp add: cnt M'_def split del: if_split)
  have pl: "pool_inv (?p\<lparr>op_pool := P'\<rparr>)" "live_slots (?p\<lparr>op_pool := P'\<rparr>) = live_slots ?p"
    using pool_links[OF D(1) len] by simp_all
  define p' where "p' = pool_free (?p\<lparr>op_pool := P'\<rparr>) idx"
  have p': "free_order (?p\<lparr>op_pool := P'\<rparr>) idx = Inr p'" "pool_inv p'"
    "live_slots p' = live_slots ?p - {idx}" "op_pool p' = P'"
    using free_order_live[OF pl(1)] op.fr_inv[OF pl(1)] op.fr_live[OF pl(1)] live pl(2)
    by (simp_all add: p'_def pool_free_def)
  define st' where "st' = st\<lparr>bs_book := set_side ?b (o_side o0) L' c', bs_pool := p', bs_map := m\<rparr>"
  have run: "drop_order st idx ref = Inr st'"
    using ib A(5,7) un(1) rm(1) m(1) p'(1)
    by (simp add: drop_order_def Let_def elem_at_def st'_def split del: if_split flip: o0_def)
  have dat: "o_id (P' ! x) = o_id (?P ! x) \<and> o_price (P' ! x) = o_price (?P ! x) \<and>
      o_qty (P' ! x) = o_qty (?P ! x) \<and> o_side (P' ! x) = o_side (?P ! x) \<and>
      o_level (P' ! x) = o_level (?P ! x)" if "x \<in> slots qs" for x
    using un(4) that D(6) live_slots_bound[OF D(1)] by (auto simp: same_data_def)
  have ok: "list_all2 (level_ok P' buy) M' X'"
    using un(2,3) A(2,9) dat by (auto simp: level_ok_def M'_def X'_def)
  have act: "active (bs_book st') buy = L1 @ M' @ L2"
    "active (bs_book st') (\<not> buy) = active ?b (\<not> buy)"
    using rm(2) by (simp_all add: st'_def active_set_side buy_def o0_def)
  have dist: "distinct (xs @ idx # ys)" using lrep by (simp add: level_rep_def)
  have cX: "set (concat X') = set (xs @ ys)" "distinct (concat X')"
    using dist by (auto simp: X'_def)
  have rest: "(slots qs - set (concat [xs @ idx # ys])) \<union> set (concat X') = slots qs - {idx}"
    using A(9) dist unfolding cX by auto
  have ids: "om_alpha m (o_id (P' ! x)) = Some x" if "x \<in> slots qs - {idx}" for x
  proof -
    have x: "x \<in> slots qs" "x \<noteq> idx" using that by auto
    then have "o_id (?P ! x) \<noteq> ref" using book_rep_id_inj[OF s(1) x(1) A(1)] by (auto simp: ref_def)
    then show ?thesis using D(7)[OF x(1)] dat[OF x(1)] by (simp add: m(4))
  qed
  have fr: "\<forall>x \<in> slots qs - set (concat [xs @ idx # ys]). P' ! x = ?P ! x"
    using un(5) by simp
  have "level_change st st' qs buy L1 [lvl] M' L2 Q1 [xs @ idx # ys] X' Q2"
    unfolding level_change_def rest
    using s act p'(2-) m(2) book_wf_drop[OF D(3) run] len fr ok cX D(6) ids A(9)
    by (auto simp: st'_def simp del: concat.simps)
  then show thesis
  proof (rule that[OF run])
    show "pl_price l = pl_price lvl" if "l \<in> set M'" for l
      using that un(3) by (simp add: M'_def split: if_splits)
    show "o_id (op_pool (bs_pool st') ! x) = o_id (?P ! x) \<and>
        o_qty (op_pool (bs_pool st') ! x) = o_qty (?P ! x)" if "x \<in> set (xs @ ys)" for x
      using dat[of x] A(9) that by (auto simp: st'_def p'(4))
    show "\<forall>x. x \<notin> slots qs \<longrightarrow> op_pool (bs_pool st') ! x = ?P ! x"
      using un(5) A(9) by (auto simp: st'_def p'(4))
    show "\<forall>x \<in> slots qs. o_level (op_pool (bs_pool st') ! x) = o_level (?P ! x) \<and>
        o_id (op_pool (bs_pool st') ! x) = o_id (?P ! x)"
      using dat by (simp add: st'_def p'(4))
  qed (simp_all add: st'_def m p' X'_def, simp add: p'_def pool_free_def)
qed

lemma queue_view_append: "queue_view P (xs @ ys) = queue_view P xs @ queue_view P ys"
  by (simp add: queue_view_def)

lemma queue_view_Cons: "queue_view P (x # xs) = (o_id (P ! x), o_qty (P ! x)) # queue_view P xs"
  by (simp add: queue_view_def)

text \<open>The orders that are not the one at hand have other references.\<close>

lemma stands_at_others:
  assumes at: "stands_at st qs idx L1 lvl L2 Q1 xs ys Q2"
  defines "P \<equiv> op_pool (bs_pool st)"
  shows "x \<in> slots qs \<Longrightarrow> x \<noteq> idx \<Longrightarrow> o_id (P ! x) \<noteq> o_id (P ! idx)"
    "idx \<notin> set (concat Q1)" "idx \<notin> set (concat Q2)" "idx \<notin> set (xs @ ys)"
    "idx \<notin> set (concat (qs (o_side (P ! idx) \<noteq> Buy)))"
proof -
  have s: "book_rep st qs" "qs (o_side (P ! idx) = Buy) = Q1 @ [xs @ idx # ys] @ Q2"
    using at by (simp_all add: stands_at_def Let_def P_def)
  show "o_id (P ! x) \<noteq> o_id (P ! idx)" if "x \<in> slots qs" "x \<noteq> idx"
    using book_rep_id_inj[OF s(1) that(1) stands_atD(1)[OF at]] that(2) by (auto simp: P_def)
  show "idx \<notin> set (concat Q1)" "idx \<notin> set (concat Q2)" "idx \<notin> set (xs @ ys)"
    "idx \<notin> set (concat (qs (o_side (P ! idx) \<noteq> Buy)))"
    using parts_distinct[OF s] by (auto simp del: set_concat)
qed

lemma stands_at_spec_other:
  assumes at: "stands_at st qs idx L1 lvl L2 Q1 xs ys Q2"
  defines "P \<equiv> op_pool (bs_pool st)"
  defines "ref \<equiv> o_id (P ! idx)"
  shows "spec_remove ref (view_of P L1 Q1) = view_of P L1 Q1"
    "spec_remove ref (view_of P L2 Q2) = view_of P L2 Q2"
    "spec_amend ref y (view_of P L1 Q1) = view_of P L1 Q1"
    "spec_amend ref y (view_of P L2 Q2) = view_of P L2 Q2"
    "(side = Buy) \<noteq> (o_side (P ! idx) = Buy) \<Longrightarrow>
      spec_remove ref (side_view st side) = side_view st side \<and>
      spec_amend ref y (side_view st side) = side_view st side"
proof -
  have s: "book_rep st qs" "qs (o_side (P ! idx) = Buy) = Q1 @ [xs @ idx # ys] @ Q2"
    using at by (simp_all add: stands_at_def Let_def P_def)
  have sub: "set (concat Q1) \<subseteq> slots qs" "set (concat Q2) \<subseteq> slots qs"
    using rest_slots[OF s] by blast+
  have 1: "o_id (P ! x) \<noteq> ref" if "x \<in> set (concat Q1)" for x
    using stands_at_others(1)[OF at, of x] stands_at_others(2)[OF at] that sub
    unfolding ref_def P_def by blast
  have 2: "o_id (P ! x) \<noteq> ref" if "x \<in> set (concat Q2)" for x
    using stands_at_others(1)[OF at, of x] stands_at_others(3)[OF at] that sub
    unfolding ref_def P_def by blast
  note A = stands_atD[OF at, folded P_def]
  show "spec_remove ref (view_of P L1 Q1) = view_of P L1 Q1"
    "spec_amend ref y (view_of P L1 Q1) = view_of P L1 Q1"
    by (rule spec_other_view[OF A(3) 1], simp)+
  show "spec_remove ref (view_of P L2 Q2) = view_of P L2 Q2"
    "spec_amend ref y (view_of P L2 Q2) = view_of P L2 Q2"
    by (rule spec_other_view[OF A(4) 2], simp)+
  assume side: "(side = Buy) \<noteq> (o_side (P ! idx) = Buy)"
  have 3: "o_id (P ! x) \<noteq> ref" if x: "x \<in> set (concat (qs (side = Buy)))" for x
  proof -
    have "x \<in> slots qs" unfolding slots_split[of qs "side = Buy"] using x by blast
    moreover have b: "(side = Buy) = (o_side (P ! idx) \<noteq> Buy)" using side by blast
    have "x \<noteq> idx" using stands_at_others(5)[OF at] x unfolding b P_def by blast
    ultimately show ?thesis using stands_at_others(1)[OF at] by (simp add: ref_def P_def)
  qed
  show "spec_remove ref (side_view st side) = side_view st side \<and>
      spec_amend ref y (side_view st side) = side_view st side"
    unfolding side_view_rep[OF s(1)]
    using spec_other_view[OF book_repD(4)[OF s(1), of "side = Buy", folded P_def] 3]
    by (simp add: P_def)
qed

lemma drop_order_view:
  assumes at: "stands_at st qs idx L1 lvl L2 Q1 xs ys Q2"
  defines "P \<equiv> op_pool (bs_pool st)"
  assumes ch: "level_change st st' qs (o_side (P ! idx) = Buy) L1 [lvl] M' L2 Q1 [xs @ idx # ys] X' Q2"
    and X': "X' = (if xs @ ys = [] then [] else [xs @ ys])"
    and M': "\<And>l. l \<in> set M' \<Longrightarrow> pl_price l = pl_price lvl"
    and dat: "\<And>x. x \<in> set (xs @ ys) \<Longrightarrow> o_id (op_pool (bs_pool st') ! x) = o_id (P ! x) \<and>
      o_qty (op_pool (bs_pool st') ! x) = o_qty (P ! x)"
  shows "side_view st' side = spec_remove (o_id (P ! idx)) (side_view st side)"
proof (cases "(side = Buy) = (o_side (P ! idx) = Buy)")
  case True
  let ?ref = "o_id (P ! idx)"
  have "length M' = length X'" using ch by (auto simp: level_change_def list_all2_lengthD)
  then have "view_of (op_pool (bs_pool st')) M' X' =
      (if xs @ ys = [] then [] else [(pl_price lvl, queue_view P (xs @ ys))])"
  proof (cases "xs @ ys = []")
    case False
    then obtain l where l: "M' = [l]"
      using \<open>length M' = length X'\<close> by (cases M') (auto simp: X' split: if_splits)
    show ?thesis
      using M'[of l] queue_view_data[of "xs @ ys", OF dat] False by (simp add: X' l view_of_def)
  qed (simp add: X' view_of_def)
  moreover have "filter (\<lambda>(r, n). r \<noteq> ?ref) (queue_view P (xs @ idx # ys)) = queue_view P (xs @ ys)"
  proof -
    have o: "o_id (P ! x) \<noteq> ?ref" if "x \<in> set (xs @ ys)" for x
      using stands_at_others(1)[OF at, of x] stands_at_others(4)[OF at] stands_atD(9)[OF at] that
      by (auto simp: P_def)
    then have "filter (\<lambda>(r, n). r \<noteq> ?ref) (queue_view P xs) = queue_view P xs"
      "filter (\<lambda>(r, n). r \<noteq> ?ref) (queue_view P ys) = queue_view P ys"
      by (auto intro!: queue_view_filter_other)
    then show ?thesis by (simp add: queue_view_append queue_view_Cons)
  qed
  then have "spec_remove ?ref (view_of P [lvl] [xs @ idx # ys]) =
      (if xs @ ys = [] then [] else [(pl_price lvl, queue_view P (xs @ ys))])"
    by (simp add: spec_remove_def view_of_def) (simp add: queue_view_def)
  ultimately show ?thesis
    using level_change_view[OF ch True] stands_at_spec_other(1,2)[OF at, folded P_def]
    by (simp add: spec_remove_append P_def)
next
  case False
  then show ?thesis
    using level_change_other[OF ch False] stands_at_spec_other(5)[OF at, folded P_def] by metis
qed

section \<open>Amending an order in place\<close>

definition amended :: "BookState \<Rightarrow> nat \<Rightarrow> OrderId \<Rightarrow> Qty \<Rightarrow> OrderMap \<Rightarrow> BookState" where
  "amended st idx ref' qty' m =
    (let o0 = op_pool (bs_pool st) ! idx; b = bs_book st; levels = levels_of b (o_side o0);
         lvl = levels ! o_level o0
     in st\<lparr>bs_book := set_side b (o_side o0)
             (levels[o_level o0 := lvl\<lparr>pl_total_qty := pl_total_qty lvl - o_qty o0 + qty'\<rparr>])
             (count_of b (o_side o0)),
           bs_pool := set_order (bs_pool st) idx (o0\<lparr>o_qty := qty', o_id := ref'\<rparr>),
           bs_map := m\<rparr>)"

lemma dll_same_links:
  assumes "o_prev o' = o_prev (P ! x)" "o_next o' = o_next (P ! x)"
  shows "dll (P[x := o']) p h xs l n = dll P p h xs l n"
proof (rule dll_cong)
  fix y show "o_prev (P[x := o'] ! y) = o_prev (P ! y) \<and> o_next (P[x := o'] ! y) = o_next (P ! y)"
    using assms by (cases "x = y"; cases "x < length P") (simp_all add: list_update_beyond not_less)
qed simp

lemma sum_qty_update:
  assumes "distinct (xs @ x # ys)" "x < length P"
  shows "sum_list (map (\<lambda>y. o_qty (P[x := o'] ! y)) (xs @ x # ys)) =
    sum_list (map (\<lambda>y. o_qty (P ! y)) (xs @ x # ys)) - o_qty (P ! x) + o_qty o'"
proof -
  have m: "map (\<lambda>y. o_qty (P[x := o'] ! y)) zs = map (\<lambda>y. o_qty (P ! y)) zs" if "x \<notin> set zs" for zs
    using that by (auto intro!: map_cong arg_cong[of _ _ o_qty] nth_list_update_neq)
  have "x \<notin> set xs" "x \<notin> set ys" using assms(1) by auto
  with assms(2) show ?thesis by (simp add: m)
qed

lemma amended_rep:
  fixes qty' :: Qty
  assumes at: "stands_at st qs idx L1 lvl L2 Q1 xs ys Q2"
  defines "P \<equiv> op_pool (bs_pool st)"
  defines "ref \<equiv> o_id (P ! idx)" and "buy \<equiv> o_side (P ! idx) = Buy"
  assumes m: "om_inv m" "om_alpha m = (om_alpha (bs_map st))(ref := None, ref' \<mapsto> idx)"
    and ref': "ref' = ref \<or> om_alpha (bs_map st) ref' = None"
  defines "st' \<equiv> amended st idx ref' qty' m"
  obtains lvl' where
    "level_change st st' qs buy L1 [lvl] [lvl'] L2 Q1 [xs @ idx # ys] [xs @ idx # ys] Q2"
    "stands_at st' qs idx L1 lvl' L2 Q1 xs ys Q2" "pl_price lvl' = pl_price lvl"
    "live_slots (bs_pool st') = live_slots (bs_pool st)"
    "op_pool (bs_pool st') = P[idx := (P ! idx)\<lparr>o_qty := qty', o_id := ref'\<rparr>]"
proof -
  define o0 where "o0 = P ! idx"
  define lvl' where "lvl' = lvl\<lparr>pl_total_qty := pl_total_qty lvl - o_qty o0 + qty'\<rparr>"
  define o1 where "o1 = o0\<lparr>o_qty := qty', o_id := ref'\<rparr>"
  let ?P' = "P[idx := o1]" and ?q = "xs @ idx # ys"
  note A = stands_atD[OF at, folded P_def, folded o0_def]
  have s: "book_rep st qs" "qs buy = Q1 @ [?q] @ Q2" "active (bs_book st) buy = L1 @ [lvl] @ L2"
    "length L1 = length Q1" "o_level o0 = length Q1"
    using at by (simp_all add: stands_at_def Let_def buy_def o0_def P_def)
  note D = book_repD[OF s(1)]
  have live: "idx \<in> live_slots (bs_pool st)" using A(1) D(6) by blast
  have ib: "idx < length P" using live_slots_bound[OF D(1) live] by (simp add: P_def)
  have st': "st' = st\<lparr>bs_book := set_side (bs_book st) (o_side o0)
      ((levels_of (bs_book st) (o_side o0))[o_level o0 := lvl']) (count_of (bs_book st) (o_side o0)),
      bs_pool := (bs_pool st)\<lparr>op_pool := ?P'\<rparr>, bs_map := m\<rparr>"
    using A(7) by (simp add: st'_def amended_def Let_def set_order_def lvl'_def o1_def o0_def P_def)
  have act: "active (bs_book st') buy = L1 @ [lvl'] @ L2"
    "active (bs_book st') (\<not> buy) = active (bs_book st) (\<not> buy)"
    using take_update_mid[OF A(8), of lvl'] s(4,5)
    by (simp_all add: st' active_set_side buy_def o0_def)
  have lok: "level_ok P buy lvl ?q" using A(2) by (simp add: buy_def o0_def)
  then have lrep: "level_rep P lvl ?q" by (simp add: level_ok_def)
  then have "distinct ?q" by (simp add: level_rep_def)
  have "level_rep ?P' lvl' ?q"
    using lrep dll_same_links[of o1 P idx] sum_qty_update[OF \<open>distinct ?q\<close> ib, of o1]
    by (simp add: level_rep_def lvl'_def o1_def o0_def)
  then have ok: "level_ok ?P' buy lvl' ?q"
    using lok ib unfolding level_ok_def lvl'_def by (auto simp: nth_list_update o1_def o0_def)
  have wf: "book_wf (bs_book st')"
    unfolding st' using book_wf_update[OF D(3), of lvl' "o_side o0" "o_level o0"] A(7)
    by (simp add: lvl'_def)
  have rest: "(slots qs - set (concat [?q])) \<union> set (concat [?q]) = slots qs" using A(9) by auto
  have ids: "om_alpha m (o_id (?P' ! x)) = Some x" if x: "x \<in> slots qs" for x
  proof (cases "x = idx")
    case False
    have "o_id (P ! x) \<noteq> ref" using stands_at_others(1)[OF at x False] by (simp add: ref_def P_def)
    moreover from this have "o_id (P ! x) \<noteq> ref'" using ref' D(7)[OF x] by (auto simp: P_def)
    ultimately show ?thesis using D(7)[OF x] False by (simp add: m(2) P_def)
  qed (use ib in \<open>simp add: m(2) o1_def\<close>)
  have pl: "pool_inv (bs_pool st')" "live_slots (bs_pool st') = live_slots (bs_pool st)"
    using pool_links[OF D(1), of ?P'] by (simp_all add: st' P_def)
  have fr: "\<forall>x \<in> slots qs - set (concat [?q]). ?P' ! x = P ! x" by auto
  have ch: "level_change st st' qs buy L1 [lvl] [lvl'] L2 Q1 [?q] [?q] Q2"
    unfolding level_change_def rest
    using s act pl m(1) wf ok D(6) ids \<open>distinct ?q\<close> fr
    by (simp add: st' P_def del: append_assoc)
  moreover have "stands_at st' qs idx L1 lvl' L2 Q1 xs ys Q2"
    using level_change_rep(1)[OF ch] s act ib
    by (simp add: stands_at_def Let_def st' o1_def buy_def o0_def fun_upd_idem)
  ultimately show thesis
    using pl(2) by (intro that[of lvl']) (simp_all add: lvl'_def st' o1_def o0_def)
qed

lemma amended_view:
  assumes at: "stands_at st qs idx L1 lvl L2 Q1 xs ys Q2"
  defines "P \<equiv> op_pool (bs_pool st)"
  assumes ch: "level_change st st' qs (o_side (P ! idx) = Buy) L1 [lvl] [lvl'] L2 Q1
      [xs @ idx # ys] [xs @ idx # ys] Q2"
    and lvl': "pl_price lvl' = pl_price lvl"
    and P': "op_pool (bs_pool st') = P[idx := (P ! idx)\<lparr>o_qty := qty', o_id := ref'\<rparr>]"
  shows "side_view st' side = spec_amend (o_id (P ! idx)) (ref', qty') (side_view st side)"
proof (cases "(side = Buy) = (o_side (P ! idx) = Buy)")
  case True
  let ?ref = "o_id (P ! idx)" and ?P' = "op_pool (bs_pool st')"
  let ?f = "\<lambda>(r, n). if r = ?ref then (ref', qty') else (r, n)"
  have ib: "idx < length P"
    using stands_atD(2)[OF at] level_rep_bound[of P lvl "xs @ idx # ys" idx]
    by (simp add: level_ok_def P_def)
  have sub: "queue_view ?P' zs = map ?f (queue_view P zs)" if zs: "set zs \<subseteq> set (xs @ ys)" for zs
  proof -
    have o: "o_id (P ! x) \<noteq> ?ref" "idx \<noteq> x" if "x \<in> set zs" for x
      using stands_at_others(1)[OF at, of x] stands_at_others(4)[OF at] stands_atD(9)[OF at] that zs
      by (auto simp: P_def)
    then have "queue_view ?P' zs = queue_view P zs"
      unfolding P' by (intro queue_view_data) (simp add: nth_list_update_neq)
    also have "\<dots> = map ?f (queue_view P zs)"
      using queue_view_amend_other[of zs P ?ref] o by simp
    finally show ?thesis .
  qed
  have "queue_view ?P' (xs @ idx # ys) = map ?f (queue_view P (xs @ idx # ys))"
    using sub[of xs] sub[of ys] ib by (simp add: queue_view_append queue_view_Cons P')
  then have "view_of ?P' [lvl'] [xs @ idx # ys] =
      spec_amend ?ref (ref', qty') (view_of P [lvl] [xs @ idx # ys])"
    using lvl' by (simp add: view_of_def spec_amend_def)
  then show ?thesis
    using level_change_view[OF ch True] stands_at_spec_other(3,4)[OF at, folded P_def]
    by (simp add: spec_amend_append P_def)
next
  case False
  then show ?thesis
    using level_change_other[OF ch False] stands_at_spec_other(5)[OF at, folded P_def] by metis
qed

section \<open>The handlers\<close>

text \<open>
  The precondition of every handler that starts from an order reference: the order is in
  the book and its \<^verbatim>\<open>level_idx\<close> names the level whose queue holds it.
\<close>

definition level_idx_ok :: "BookState \<Rightarrow> nat \<Rightarrow> bool" where
  "level_idx_ok st idx \<longleftrightarrow>
    (let o0 = op_pool (bs_pool st) ! idx; qs = queues st (o_side o0 = Buy)
     in o_level o0 < length qs \<and> idx \<in> set (qs ! o_level o0))"

lemma level_idx_ok_stands:
  assumes "book_inv st" "level_idx_ok st idx"
  obtains L1 lvl L2 Q1 xs ys Q2 where "stands_at st (queues st) idx L1 lvl L2 Q1 xs ys Q2"
proof -
  define o0 where "o0 = op_pool (bs_pool st) ! idx"
  define buy where "buy = (o_side o0 = Buy)"
  let ?q = "queues st buy" and ?k = "o_level o0" and ?L = "active (bs_book st) buy"
  have k: "?k < length ?q" "idx \<in> set (?q ! ?k)"
    using assms(2) by (simp_all add: level_idx_ok_def Let_def o0_def buy_def)
  obtain xs ys where xy: "?q ! ?k = xs @ idx # ys" using k(2) by (metis in_set_conv_decomp)
  have rep: "book_rep st (queues st)" using assms(1) by (simp add: book_inv_def)
  have len: "length ?L = length ?q" by (simp add: queues_def)
  have "stands_at st (queues st) idx (take ?k ?L) (?L ! ?k) (drop (Suc ?k) ?L)
      (take ?k ?q) xs ys (drop (Suc ?k) ?q)"
    using insert_split[OF k(1)] insert_split[of ?k ?L] k(1) len xy rep
    by (simp add: stands_at_def Let_def flip: o0_def buy_def)
  then show thesis by (rule that)
qed

lemma map_find_order:
  assumes "book_rep st qs" "x \<in> slots qs" "probe_room (om_table (bs_map st))"
  shows "map_find (bs_map st) (o_id (op_pool (bs_pool st) ! x)) = Some x" "x \<noteq> kMapEmpty"
    "o_id (op_pool (bs_pool st) ! x) \<noteq> 0"
proof -
  note D = book_repD[OF assms(1)]
  show n: "o_id (op_pool (bs_pool st) ! x) \<noteq> 0" using D(7)[OF assms(2)] om_alpha_zero by force
  show "map_find (bs_map st) (o_id (op_pool (bs_pool st) ! x)) = Some x"
    using om.find_spec[OF D(2) assms(3) n] D(7)[OF assms(2)] by simp
  show "x \<noteq> kMapEmpty"
    using live_slots_bound[OF D(1)] D(6) assms(2) by (auto simp: kMapEmpty_def kInvalidIdx_def)
qed

lemma drop_order_refines:
  assumes "book_inv st" "level_idx_ok st idx" "probe_room (om_table (bs_map st))"
  defines "ref \<equiv> o_id (op_pool (bs_pool st) ! idx)"
  obtains st' where "drop_order st idx ref = Inr st'" "book_inv st'"
    "\<And>side. side_view st' side = spec_remove ref (side_view st side)"
    "om_alpha (bs_map st') = (om_alpha (bs_map st))(ref := None)"
    "live_slots (bs_pool st') = live_slots (bs_pool st) - {idx}"
    "probe_room (om_table (bs_map st'))" "idx \<in> live_slots (bs_pool st)"
    "om_alpha (bs_map st) ref = Some idx" "slots (queues st') = slots (queues st) - {idx}"
    "op_capacity (bs_pool st') = op_capacity (bs_pool st)"
    "indexed st \<Longrightarrow> (\<And>side. steady (side_view st side) (side_view st' side)) \<Longrightarrow> indexed st'"
    "\<forall>x. x \<notin> slots (queues st) \<longrightarrow> op_pool (bs_pool st') ! x = op_pool (bs_pool st) ! x"
    "\<forall>x \<in> slots (queues st). o_id (op_pool (bs_pool st') ! x) = o_id (op_pool (bs_pool st) ! x)"
proof -
  obtain L1 lvl L2 Q1 xs ys Q2 where at: "stands_at st (queues st) idx L1 lvl L2 Q1 xs ys Q2"
    by (rule level_idx_ok_stands[OF assms(1,2)])
  have rep: "book_rep st (queues st)" using assms(1) by (simp add: book_inv_def)
  note A = stands_atD[OF at]
  obtain st' M' X' where d: "drop_order st idx ref = Inr st'"
    "level_change st st' (queues st) (o_side (op_pool (bs_pool st) ! idx) = Buy) L1 [lvl] M' L2 Q1
       [xs @ idx # ys] X' Q2" "X' = (if xs @ ys = [] then [] else [xs @ ys])"
    "\<And>l. l \<in> set M' \<Longrightarrow> pl_price l = pl_price lvl"
    "\<And>x. x \<in> set (xs @ ys) \<Longrightarrow> o_id (op_pool (bs_pool st') ! x) = o_id (op_pool (bs_pool st) ! x) \<and>
      o_qty (op_pool (bs_pool st') ! x) = o_qty (op_pool (bs_pool st) ! x)"
    "om_alpha (bs_map st') = (om_alpha (bs_map st))(ref := None)"
    "live_slots (bs_pool st') = live_slots (bs_pool st) - {idx}" "probe_room (om_table (bs_map st'))"
    "op_capacity (bs_pool st') = op_capacity (bs_pool st)"
    "\<forall>x. x \<notin> slots (queues st) \<longrightarrow> op_pool (bs_pool st') ! x = op_pool (bs_pool st) ! x"
    "\<forall>x \<in> slots (queues st). o_level (op_pool (bs_pool st') ! x) = o_level (op_pool (bs_pool st) ! x) \<and>
      o_id (op_pool (bs_pool st') ! x) = o_id (op_pool (bs_pool st) ! x)"
    unfolding ref_def by (rule drop_order_rep[OF at assms(3)]) blast
  note r = level_change_rep[OF d(2)]
  have ix: "indexed st'" if "indexed st" "\<And>side. steady (side_view st side) (side_view st' side)"
  proof (rule level_change_indexed[OF d(2) that(1)])
    fix x assume x: "x \<in> set (concat X')"
    then have "x \<in> set (xs @ idx # ys)" "x \<in> slots (queues st)" using A(9) d(3) by (auto split: if_splits)
    then show "o_level (op_pool (bs_pool st') ! x) = length Q1"
      using d(11) indexedD[OF that(1), of "o_side (op_pool (bs_pool st) ! idx) = Buy" Q1 "xs @ idx # ys" Q2 x] at
      by (simp add: stands_at_def Let_def)
  qed (use steady_change[OF d(2) refl _ _ that(2)] d(3) in auto)
  have "slots (queues st') = slots (queues st) - {idx}"
    unfolding book_rep_queues[OF r(1)] r(2) using A(9) stands_at_others(4)[OF at] d(3) by auto
  moreover have "book_inv st'" using r(1) book_inv_iff by blast
  ultimately show thesis
    using that[OF d(1)] drop_order_view[OF at d(2-5)] d(6-11) book_repD(6,7)[OF rep] A(1) ix
    by (auto simp: ref_def)
qed

lemma on_order_delete_refines:
  assumes "book_inv st" "level_idx_ok st idx" "probe_room (om_table (bs_map st))"
    and "im_order_delete_ref msg = o_id (op_pool (bs_pool st) ! idx)"
  shows "\<exists>st'. on_order_delete st msg = Inr st' \<and> book_inv st' \<and>
    (\<forall>side. side_view st' side = spec_remove (im_order_delete_ref msg) (side_view st side)) \<and>
    live_slots (bs_pool st') = live_slots (bs_pool st) - {idx}"
proof -
  obtain L1 lvl L2 Q1 xs ys Q2 where at: "stands_at st (queues st) idx L1 lvl L2 Q1 xs ys Q2"
    by (rule level_idx_ok_stands[OF assms(1,2)])
  have rep: "book_rep st (queues st)" using assms(1) by (simp add: book_inv_def)
  note f = map_find_order[OF rep stands_atD(1)[OF at] assms(3)]
  obtain st' where "drop_order st idx (o_id (op_pool (bs_pool st) ! idx)) = Inr st'" "book_inv st'"
    "\<And>side. side_view st' side = spec_remove (o_id (op_pool (bs_pool st) ! idx)) (side_view st side)"
    "live_slots (bs_pool st') = live_slots (bs_pool st) - {idx}"
    by (rule drop_order_refines[OF assms(1-3)]) blast
  then show ?thesis using f by (simp add: on_order_delete_def assms(4))
qed

lemma stands_level_idx_ok:
  assumes "stands_at st qs idx L1 lvl L2 Q1 xs ys Q2"
  shows "level_idx_ok st idx"
proof -
  have "queues st = qs" using assms book_rep_queues by (auto simp: stands_at_def Let_def)
  then show ?thesis
    using assms by (simp add: stands_at_def level_idx_ok_def Let_def nth_append)
qed

lemma spec_remove_amend: "spec_remove ref (spec_amend ref (ref, n) ls) = spec_remove ref ls"
proof -
  have "filter (\<lambda>(r, n). r \<noteq> ref) (map (\<lambda>(r, k). if r = ref then (ref, n) else (r, k)) q) =
      filter (\<lambda>(r, n). r \<noteq> ref) q" for q :: "(OrderId \<times> Qty) list"
    by (induction q) auto
  then show ?thesis
    by (simp add: spec_remove_def spec_amend_def comp_def case_prod_beta')
qed

lemma counters_irrelevant [simp]:
  "book_inv (st\<lparr>bs_inplace := x\<rparr>) = book_inv st" "book_inv (st\<lparr>bs_drops := x\<rparr>) = book_inv st"
  "side_view (st\<lparr>bs_inplace := x\<rparr>) side = side_view st side"
  "side_view (st\<lparr>bs_drops := x\<rparr>) side = side_view st side"
  "level_idx_ok (st\<lparr>bs_inplace := x\<rparr>) idx = level_idx_ok st idx"
  by (simp_all add: book_inv_def book_rep_def queues_def side_view_def slots_def level_idx_ok_def
      Let_def)

lemma amended_refines:
  fixes qty' :: Qty
  assumes "book_inv st" "level_idx_ok st idx"
  defines "ref \<equiv> o_id (op_pool (bs_pool st) ! idx)"
  assumes m: "om_inv m" "om_alpha m = (om_alpha (bs_map st))(ref := None, ref' \<mapsto> idx)"
    and ref': "ref' = ref \<or> om_alpha (bs_map st) ref' = None"
  defines "st' \<equiv> amended st idx ref' qty' m"
  shows "book_inv st'" "level_idx_ok st' idx"
    "side_view st' side = spec_amend ref (ref', qty') (side_view st side)"
    "op_pool (bs_pool st') ! idx = (op_pool (bs_pool st) ! idx)\<lparr>o_qty := qty', o_id := ref'\<rparr>"
    "live_slots (bs_pool st') = live_slots (bs_pool st)" "slots (queues st') = slots (queues st)"
    "indexed st \<Longrightarrow> indexed st'"
    "op_pool (bs_pool st') = (op_pool (bs_pool st))[idx := (op_pool (bs_pool st) ! idx)\<lparr>o_qty := qty', o_id := ref'\<rparr>]"
proof -
  let ?P = "op_pool (bs_pool st)"
  obtain L1 lvl L2 Q1 xs ys Q2 where at: "stands_at st (queues st) idx L1 lvl L2 Q1 xs ys Q2"
    by (rule level_idx_ok_stands[OF assms(1,2)])
  obtain lvl' where c:
    "level_change st st' (queues st) (o_side (?P ! idx) = Buy) L1 [lvl] [lvl'] L2 Q1 [xs @ idx # ys]
      [xs @ idx # ys] Q2"
    "stands_at st' (queues st) idx L1 lvl' L2 Q1 xs ys Q2" "pl_price lvl' = pl_price lvl"
    "live_slots (bs_pool st') = live_slots (bs_pool st)"
    "op_pool (bs_pool st') = ?P[idx := (?P ! idx)\<lparr>o_qty := qty', o_id := ref'\<rparr>]"
    unfolding st'_def by (rule amended_rep[OF at m[unfolded ref_def] ref'[unfolded ref_def]]) blast
  show "book_inv st'" using level_change_rep(1)[OF c(1)] book_inv_iff by blast
  show "level_idx_ok st' idx" by (rule stands_level_idx_ok[OF c(2)])
  show "side_view st' side = spec_amend ref (ref', qty') (side_view st side)"
    unfolding ref_def by (rule amended_view[OF at c(1,3,5)])
  have "level_rep ?P lvl (xs @ idx # ys)" using stands_atD(2)[OF at] by (simp add: level_ok_def)
  from level_rep_bound[OF this, of idx]
  show "op_pool (bs_pool st') ! idx = (?P ! idx)\<lparr>o_qty := qty', o_id := ref'\<rparr>"
    by (simp add: c(5))
  show "live_slots (bs_pool st') = live_slots (bs_pool st)" by (rule c(4))
  show P': "op_pool (bs_pool st') = ?P[idx := (?P ! idx)\<lparr>o_qty := qty', o_id := ref'\<rparr>]" by (rule c(5))
  have q: "queues st' = queues st" using c(2) book_rep_queues[of st' "queues st"] by (simp add: stands_at_def Let_def)
  then show "slots (queues st') = slots (queues st)" by simp
  have "o_level (op_pool (bs_pool st') ! x) = o_level (?P ! x)" for x
    unfolding P' by (cases "x = idx"; cases "idx < length ?P") (simp_all add: list_update_beyond not_less)
  then show "indexed st \<Longrightarrow> indexed st'" by (simp add: indexed_def q)
qed

lemma reduce_qty_step:
  fixes q :: Qty
  assumes "book_inv st" "level_idx_ok st idx" "probe_room (om_table (bs_map st))"
  defines "o0 \<equiv> op_pool (bs_pool st) ! idx"
  defines "st1 \<equiv> amended st idx (o_id o0) (o_qty o0 - q) (bs_map st)"
  shows "reduce_qty st (o_id o0) q =
      (if o_qty o0 = q then drop_order st1 idx (o_id o0) else Inr st1)"
    "om_alpha (bs_map st) = (om_alpha (bs_map st))(o_id o0 := None, o_id o0 \<mapsto> idx)"
    "om_inv (bs_map st)"
proof -
  obtain L1 lvl L2 Q1 xs ys Q2 where at: "stands_at st (queues st) idx L1 lvl L2 Q1 xs ys Q2"
    by (rule level_idx_ok_stands[OF assms(1,2)])
  have rep: "book_rep st (queues st)" using assms(1) by (simp add: book_inv_def)
  note f = map_find_order[OF rep stands_atD(1)[OF at] assms(3), folded o0_def]
  have ib: "idx < length (op_pool (bs_pool st))"
    using stands_atD(1)[OF at] book_repD(1,6)[OF rep] live_slots_bound by blast
  have "st1 = st\<lparr>bs_book := set_side (bs_book st) (o_side o0)
        ((levels_of (bs_book st) (o_side o0))[o_level o0 := lvl\<lparr>pl_total_qty := pl_total_qty lvl - q\<rparr>])
        (count_of (bs_book st) (o_side o0)),
      bs_pool := set_order (bs_pool st) idx (o0\<lparr>o_qty := o_qty o0 - q\<rparr>)\<rparr>"
    using stands_atD(7)[OF at, folded o0_def]
    by (simp add: st1_def amended_def Let_def flip: o0_def)
  then show "reduce_qty st (o_id o0) q =
      (if o_qty o0 = q then drop_order st1 idx (o_id o0) else Inr st1)"
    using f ib stands_atD(5,7)[OF at, folded o0_def]
    by (simp add: reduce_qty_def Let_def elem_at_def flip: o0_def)
  show "om_alpha (bs_map st) = (om_alpha (bs_map st))(o_id o0 := None, o_id o0 \<mapsto> idx)"
    using book_repD(7)[OF rep stands_atD(1)[OF at]] by (simp add: o0_def fun_upd_idem)
  show "om_inv (bs_map st)" by (rule book_repD(2)[OF rep])
qed

lemma reduce_qty_partial:
  assumes "book_inv st" "level_idx_ok st idx" "probe_room (om_table (bs_map st))"
  defines "o0 \<equiv> op_pool (bs_pool st) ! idx"
  assumes "q \<noteq> o_qty o0"
  shows "\<exists>st'. reduce_qty st (o_id o0) q = Inr st' \<and> book_inv st' \<and> level_idx_ok st' idx \<and>
    (\<forall>side. side_view st' side = spec_amend (o_id o0) (o_id o0, o_qty o0 - q) (side_view st side))"
proof -
  note r = reduce_qty_step[OF assms(1-3), folded o0_def]
  note a = amended_refines[OF assms(1,2), where qty' = "o_qty o0 - q", folded o0_def, OF r(3,2)]
  show ?thesis using r(1) assms(5) a by auto
qed

lemma reduce_qty_full:
  assumes "book_inv st" "level_idx_ok st idx" "probe_room (om_table (bs_map st))"
  defines "o0 \<equiv> op_pool (bs_pool st) ! idx"
  shows "\<exists>st'. reduce_qty st (o_id o0) (o_qty o0) = Inr st' \<and> book_inv st' \<and>
    (\<forall>side. side_view st' side = spec_remove (o_id o0) (side_view st side)) \<and>
    live_slots (bs_pool st') = live_slots (bs_pool st) - {idx}"
proof -
  note r = reduce_qty_step[OF assms(1-3), folded o0_def]
  note a = amended_refines[OF assms(1,2), where qty' = "o_qty o0 - o_qty o0", folded o0_def, OF r(3,2)]
  let ?st1 = "amended st idx (o_id o0) (o_qty o0 - o_qty o0) (bs_map st)"
  have room: "probe_room (om_table (bs_map ?st1))"
    using assms(3) by (simp add: amended_def Let_def)
  have o1: "o_id (op_pool (bs_pool ?st1) ! idx) = o_id o0" using a(4) by simp
  obtain st' where "drop_order ?st1 idx (o_id o0) = Inr st'" "book_inv st'"
    "\<And>side. side_view st' side = spec_remove (o_id o0) (side_view ?st1 side)"
    "live_slots (bs_pool st') = live_slots (bs_pool ?st1) - {idx}"
    using drop_order_refines[OF a(1,2) room, unfolded o1] by metis
  then show ?thesis using r(1) a(3,5) by (simp add: spec_remove_amend)
qed

text \<open>A price has room on a side when it has a level there or a level can be added.\<close>

definition has_room :: "Price \<Rightarrow> aside \<Rightarrow> bool" where
  "has_room price V \<longleftrightarrow> price \<in> fst ` set V \<or> length V < MAX_PRICE_LEVELS"

lemma level_for_room:
  assumes "levels_wf side L c"
  shows "fst (level_for ctr d L c price side) = MAX_PRICE_LEVELS \<longleftrightarrow>
    price \<notin> pl_price ` set (take c L) \<and> c = MAX_PRICE_LEVELS"
    "fst (level_for ctr d L c price side) = MAX_PRICE_LEVELS \<Longrightarrow>
      level_for ctr d L c price side = (MAX_PRICE_LEVELS, L, c, if ctr then d + 1 else d)"
proof -
  have len: "length L = MAX_PRICE_LEVELS" "c \<le> MAX_PRICE_LEVELS"
    using assms by (simp_all add: levels_wf_def)
  have "set (take c L) = (!) L ` {0..<c}" using len by (simp add: nth_image)
  then have mem: "price \<in> pl_price ` set (take c L) \<longleftrightarrow> (\<exists>j < c. pl_price (L ! j) = price)"
    by auto
  have pos: "insert_pos L c price side 0 \<le> c"
    using insert_pos_spec[of 0 c side L price] by (simp add: Let_def)
  show "fst (level_for ctr d L c price side) = MAX_PRICE_LEVELS \<longleftrightarrow>
      price \<notin> pl_price ` set (take c L) \<and> c = MAX_PRICE_LEVELS"
    unfolding mem
    by (cases rule: find_level_cases[of L c price])
      (use len pos in \<open>auto simp: level_for_def insert_level_def Let_def\<close>)
  show "level_for ctr d L c price side = (MAX_PRICE_LEVELS, L, c, if ctr then d + 1 else d)"
    if "fst (level_for ctr d L c price side) = MAX_PRICE_LEVELS"
    using that by (cases rule: find_level_cases[of L c price])
      (use len pos in \<open>auto simp: level_for_def insert_level_def Let_def split: if_splits\<close>)
qed

lemma has_room_level_for:
  assumes "book_inv st"
  shows "has_room price (side_view st side) \<longleftrightarrow>
    fst (level_for ctr d (levels_of (bs_book st) side) (count_of (bs_book st) side) price side)
      \<noteq> MAX_PRICE_LEVELS"
proof -
  have wf: "levels_wf side (levels_of (bs_book st) side) (count_of (bs_book st) side)"
    using assms book_wf_side by (simp add: book_inv_def book_rep_def)
  then have "length (side_view st side) = count_of (bs_book st) side"
    by (simp add: side_view_def levels_wf_def)
  moreover have "fst ` set (side_view st side) =
      pl_price ` set (take (count_of (bs_book st) side) (levels_of (bs_book st) side))"
    by (simp add: side_view_def image_image)
  ultimately show ?thesis
    using level_for_room(1)[OF wf, of ctr d price] wf by (auto simp: has_room_def levels_wf_def)
qed

text \<open>A slot handed out by the pool does not touch the orders of the book.\<close>

lemma alloc_frame: "alloc p = (Some i, p') \<Longrightarrow> x \<noteq> i \<Longrightarrow> op_pool p' ! x = op_pool p ! x"
  by (simp add: alloc_Some_iff)

lemma alloc_rep:
  assumes "book_rep st qs" "alloc (bs_pool st) = (Some idx, pool)"
  shows "book_rep (st\<lparr>bs_pool := pool\<rparr>) qs" "idx \<notin> slots qs" "idx \<in> live_slots pool"
    "live_slots pool = insert idx (live_slots (bs_pool st))"
    "side_view (st\<lparr>bs_pool := pool\<rparr>) side = side_view st side"
proof -
  note D = book_repD[OF assms(1)]
  note a = alloc_step[OF D(1) assms(2)]
  show n: "idx \<notin> slots qs" using a(2) D(6) by blast
  show "idx \<in> live_slots pool" "live_slots pool = insert idx (live_slots (bs_pool st))"
    using a(3) by simp_all
  have P: "op_pool pool = (op_pool (bs_pool st))[idx := (op_pool (bs_pool st) ! idx)
      \<lparr>o_prev := kInvalidIdx, o_next := kInvalidIdx\<rparr>]"
    using assms(2) by (simp add: alloc_Some_iff)
  have fr: "op_pool pool ! x = op_pool (bs_pool st) ! x" if "x \<in> slots qs" for x
  proof -
    have "idx \<noteq> x" using n that by auto
    then show ?thesis by (simp add: P)
  qed
  have sub: "set (concat (qs b)) \<subseteq> slots qs" for b unfolding slots_split[of qs b] by blast
  have frq: "op_pool pool ! x = op_pool (bs_pool st) ! x" if "x \<in> set (concat (qs b))" for x b
    using fr sub that by blast
  have "list_all2 (level_ok (op_pool pool) b) (active (bs_book st) b) (qs b)" for b
    by (rule level_ok_frame_all[OF D(4)]) (simp add: P, rule frq)
  then show rep: "book_rep (st\<lparr>bs_pool := pool\<rparr>) qs"
    using D a fr unfolding book_rep_def by auto
  show "side_view (st\<lparr>bs_pool := pool\<rparr>) side = side_view st side"
    unfolding side_view_rep[OF rep] side_view_rep[OF assms(1)]
    by (simp, rule view_of_frame, simp add: frq del: set_concat)
qed

lemma new_order_refines:
  assumes inv: "book_inv st" and free: "live_slots (bs_pool st) \<noteq> {..<op_capacity (bs_pool st)}"
    and ref: "ref \<noteq> 0" "om_alpha (bs_map st) ref = None" "probe_room (om_table (bs_map st))"
    and room: "has_room price (side_view st side)"
  obtains st' idx where "new_order st ref price qty side = Inr st'" "book_inv st'"
    "side_view st' side = spec_add side price (ref, qty) (side_view st side)"
    "\<And>s. (s = Buy) \<noteq> (side = Buy) \<Longrightarrow> side_view st' s = side_view st s"
    "om_alpha (bs_map st') = (om_alpha (bs_map st))(ref \<mapsto> idx)"
    "live_slots (bs_pool st') = insert idx (live_slots (bs_pool st))"
    "idx \<notin> live_slots (bs_pool st)" "bs_drops st' = bs_drops st" "level_idx_ok st' idx"
    "o_id (op_pool (bs_pool st') ! idx) = ref" "o_qty (op_pool (bs_pool st') ! idx) = qty"
    "o_price (op_pool (bs_pool st') ! idx) = price" "o_side (op_pool (bs_pool st') ! idx) = side"
    "slots (queues st') = insert idx (slots (queues st))"
    "indexed st \<Longrightarrow> steady (side_view st side) (side_view st' side) \<Longrightarrow> indexed st'"
    "\<forall>x. x \<noteq> idx \<and> x \<notin> slots (queues st) \<longrightarrow> op_pool (bs_pool st') ! x = op_pool (bs_pool st) ! x"
    "\<forall>x \<in> slots (queues st). o_id (op_pool (bs_pool st') ! x) = o_id (op_pool (bs_pool st) ! x)"
proof -
  have rep: "book_rep st (queues st)" using inv by (simp add: book_inv_def)
  note D = book_repD[OF rep]
  obtain idx pool where al: "alloc (bs_pool st) = (Some idx, pool)"
    using op.al_none[OF D(1)] free by (metis not_None_eq prod.collapse)
  note a = alloc_rep[OF rep al]
  let ?st = "st\<lparr>bs_pool := pool\<rparr>"
  obtain i L' c' d' where lf: "level_for (lb_drop_ctr (bs_book ?st)) (bs_drops ?st)
      (levels_of (bs_book ?st) side) (count_of (bs_book ?st) side) price side = (i, L', c', d')"
    by (metis prod.exhaust)
  have i: "i \<noteq> MAX_PRICE_LEVELS"
    using room has_room_level_for[OF inv, of price side "lb_drop_ctr (bs_book st)" "bs_drops st"] lf
    by simp
  obtain st' L1 M lvl' L2 Q1 X xs Q2 where p: "place_order ?st idx ref price qty side = Inr st'"
    "level_change ?st st' (queues st) (side = Buy) L1 M [lvl'] L2 Q1 X [xs @ [idx]] Q2"
    "side_view st' side = spec_add side price (ref, qty) (side_view ?st side)"
    "om_alpha (bs_map st') = (om_alpha (bs_map ?st))(ref \<mapsto> idx)"
    "live_slots (bs_pool st') = live_slots (bs_pool ?st)" "bs_drops st' = bs_drops ?st"
    "o_level (op_pool (bs_pool st') ! idx) = length Q1"
    "o_side (op_pool (bs_pool st') ! idx) = side" "o_id (op_pool (bs_pool st') ! idx) = ref"
    "o_qty (op_pool (bs_pool st') ! idx) = qty" "o_price (op_pool (bs_pool st') ! idx) = price"
    "X = (if xs = [] then [] else [xs])"
    "\<forall>x. x \<noteq> idx \<and> x \<notin> slots (queues st) \<longrightarrow> op_pool (bs_pool st') ! x = op_pool (bs_pool ?st) ! x"
    "\<forall>x \<in> slots (queues st). o_level (op_pool (bs_pool st') ! x) = o_level (op_pool (bs_pool ?st) ! x) \<and>
      o_id (op_pool (bs_pool st') ! x) = o_id (op_pool (bs_pool ?st) ! x)"
    by (rule place_order_rep[OF a(1) _ a(2) ref(1) _ _ lf i, where qty = qty])
      (use a(3) ref(2,3) in auto)
  note al_fr = alloc_frame[OF al]
  have "x \<noteq> idx" if "x \<in> slots (queues st)" for x using that a(2) by blast
  note fr = al_fr[OF this]
  have qs: "queues ?st = queues st" by (rule book_rep_queues[OF a(1)])
  have X: "set (concat X) \<subseteq> slots (queues st)" "set (concat X) = set xs"
    using level_change_rep(2)[OF p(2)] p(2,12) unfolding level_change_def slots_split[of "queues st" "side = Buy"]
    by (auto split: if_splits)
  show thesis
  proof (rule that[of st' idx])
    show "new_order st ref price qty side = Inr st'" using al p(1) by (simp add: new_order_def)
    show "book_inv st'" using level_change_rep(1)[OF p(2)] book_inv_iff by blast
    show "side_view st' s = side_view st s" if "(s = Buy) \<noteq> (side = Buy)" for s
      using level_change_other[OF p(2) that] a(5) by simp
    show "idx \<notin> live_slots (bs_pool st)" using alloc_step(2)[OF D(1) al] .
    have "stands_at st' ((queues st)(side = Buy := Q1 @ [xs @ [idx]] @ Q2)) idx L1 lvl' L2 Q1 xs [] Q2"
      using level_change_rep(1)[OF p(2)] p(2,7,8) by (simp add: stands_at_def Let_def level_change_def)
    then show "level_idx_ok st' idx" by (rule stands_level_idx_ok)
    show "slots (queues st') = insert idx (slots (queues st))"
      unfolding book_rep_queues[OF level_change_rep(1)[OF p(2)]] level_change_rep(2)[OF p(2)]
      using X by auto
    show "\<forall>x. x \<noteq> idx \<and> x \<notin> slots (queues st) \<longrightarrow> op_pool (bs_pool st') ! x = op_pool (bs_pool st) ! x"
      using p(13) al_fr by simp
    show "\<forall>x \<in> slots (queues st). o_id (op_pool (bs_pool st') ! x) = o_id (op_pool (bs_pool st) ! x)"
      using p(14) fr by simp
    assume ix: "indexed st" and sd: "steady (side_view st side) (side_view st' side)"
    have in_slots: "x \<in> slots (queues st)" if "k < length (queues st b)" "x \<in> set (queues st b ! k)" for b k x
      using that nth_mem unfolding slots_split[of "queues st" b] by fastforce
    have ix': "indexed ?st" unfolding indexed_def qs using ix fr in_slots by (auto simp: indexed_def)
    show "indexed st'"
    proof (rule level_change_indexed[OF p(2) ix'])
      fix x assume "x \<in> set (concat [xs @ [idx]])"
      then consider "x = idx" | "x \<in> set xs" by auto
      then show "o_level (op_pool (bs_pool st') ! x) = length Q1"
      proof cases
        case 2
        then have "x \<in> slots (queues st)" "queues st (side = Buy) = Q1 @ [xs] @ Q2"
          using X p(2,12) by (auto simp: level_change_def)
        then show ?thesis using p(14) fr[of x] indexedD[OF ix _ 2] by simp
      qed (simp add: p(7))
    qed (use steady_change[OF p(2) refl] p(12) sd a(5) in auto)
  qed (use p a in simp_all)
qed

lemma new_order_exhausted:
  assumes "pool_inv (bs_pool st)" "live_slots (bs_pool st) = {..<op_capacity (bs_pool st)}"
  shows "new_order st ref price qty side = Inr st"
proof -
  obtain p where p: "alloc (bs_pool st) = (None, p)"
    using op.al_none[OF assms(1)] assms(2) by (metis prod.collapse)
  then show ?thesis using op.al_none_same[OF assms(1) p] by (simp add: new_order_def)
qed

lemma new_order_no_level:
  assumes inv: "book_inv st" and free: "live_slots (bs_pool st) \<noteq> {..<op_capacity (bs_pool st)}"
    and room: "\<not> has_room price (side_view st side)"
  shows "\<exists>st'. new_order st ref price qty side = Inr st' \<and> book_inv st' \<and>
    (\<forall>s. side_view st' s = side_view st s) \<and> bs_map st' = bs_map st \<and>
    live_slots (bs_pool st') = live_slots (bs_pool st) \<and>
    bs_drops st' = (if lb_drop_ctr (bs_book st) then bs_drops st + 1 else bs_drops st) \<and>
    queues st' = queues st \<and> (\<forall>x \<in> live_slots (bs_pool st). op_pool (bs_pool st') ! x = op_pool (bs_pool st) ! x) \<and>
    op_capacity (bs_pool st') = op_capacity (bs_pool st)"
proof -
  have rep: "book_rep st (queues st)" using inv by (simp add: book_inv_def)
  note D = book_repD[OF rep]
  obtain idx pool where al: "alloc (bs_pool st) = (Some idx, pool)"
    using op.al_none[OF D(1)] free by (metis not_None_eq prod.collapse)
  note a = alloc_rep[OF rep al]
  note A = book_repD[OF a(1)]
  let ?d = "if lb_drop_ctr (bs_book st) then bs_drops st + 1 else bs_drops st"
  have "level_for (lb_drop_ctr (bs_book st)) (bs_drops st) (levels_of (bs_book st) side)
      (count_of (bs_book st) side) price side =
      (MAX_PRICE_LEVELS, levels_of (bs_book st) side, count_of (bs_book st) side, ?d)"
    using level_for_room(2)[OF book_wf_side[OF D(3)]] room
      has_room_level_for[OF inv, of price side "lb_drop_ctr (bs_book st)" "bs_drops st"] by simp
  moreover have fo: "free_order pool idx = Inr (pool_free pool idx)"
    using free_order_live[OF A(1)] a(3) by simp
  ultimately have run: "new_order st ref price qty side =
      Inr (st\<lparr>bs_pool := pool_free pool idx, bs_drops := ?d\<rparr>)"
    using al by (simp add: new_order_def place_order_def)
  have live: "live_slots (pool_free pool idx) = live_slots (bs_pool st)"
    using op.fr_live[OF A(1)] a(3,4) alloc_step(2)[OF D(1) al] by simp
  have b: "book_rep (st\<lparr>bs_pool := pool_free pool idx, bs_drops := ?d\<rparr>) (queues st)"
    using a(1) op.fr_inv[of pool idx] A(1) a(3) D(6) live
    by (simp add: book_rep_def) (simp add: pool_free_def)
  then have "book_inv (st\<lparr>bs_pool := pool_free pool idx, bs_drops := ?d\<rparr>)"
    using book_inv_iff by blast
  moreover have "side_view (st\<lparr>bs_pool := pool_free pool idx, bs_drops := ?d\<rparr>) s = side_view st s" for s
    using a(5)[of s] by (simp add: side_view_def pool_free_def)
  moreover have "op_pool (pool_free pool idx) ! x = op_pool (bs_pool st) ! x" if "x \<in> live_slots (bs_pool st)" for x
    using that alloc_step(2)[OF D(1) al] alloc_frame[OF al, of x] by (cases "x = idx") (simp_all add: pool_free_def)
  moreover have "op_capacity (pool_free pool idx) = op_capacity (bs_pool st)"
    using al by (auto simp: alloc_Some_iff pool_free_def)
  ultimately show ?thesis
    using run live book_rep_queues[OF b] by simp
qed

text \<open>What the map finds for an order of the book.\<close>

lemma order_found:
  assumes "book_inv st" "level_idx_ok st idx" "probe_room (om_table (bs_map st))"
  defines "ref \<equiv> o_id (op_pool (bs_pool st) ! idx)"
  shows "map_find (bs_map st) ref = Some idx" "idx \<noteq> kMapEmpty" "ref \<noteq> 0" "om_alpha (bs_map st) ref = Some idx"
    "idx < length (op_pool (bs_pool st))" "idx \<in> slots (queues st)"
    "o_level (op_pool (bs_pool st) ! idx) < length (levels_of (bs_book st) (o_side (op_pool (bs_pool st) ! idx)))"
proof -
  obtain L1 lvl L2 Q1 xs ys Q2 where at: "stands_at st (queues st) idx L1 lvl L2 Q1 xs ys Q2"
    by (rule level_idx_ok_stands[OF assms(1,2)])
  have rep: "book_rep st (queues st)" using assms(1) by (simp add: book_inv_def)
  show "map_find (bs_map st) ref = Some idx" "idx \<noteq> kMapEmpty" "ref \<noteq> 0" "idx \<in> slots (queues st)"
    "om_alpha (bs_map st) ref = Some idx"
    using map_find_order[OF rep stands_atD(1)[OF at] assms(3)] stands_atD(1)[OF at]
      book_repD(7)[OF rep stands_atD(1)[OF at]] by (simp_all add: ref_def)
  then show "idx < length (op_pool (bs_pool st))" using book_repD(1,6)[OF rep] live_slots_bound by blast
  show "o_level (op_pool (bs_pool st) ! idx) < length (levels_of (bs_book st) (o_side (op_pool (bs_pool st) ! idx)))"
    by (rule stands_atD(5)[OF at])
qed

text \<open>The two cases of a replacement: in place, and as a removal and an addition.\<close>

lemma replace_in_place_eq:
  fixes msg :: ItchMsg
  assumes "book_inv st" "level_idx_ok st idx" "probe_room (om_table (bs_map st))"
  defines "o0 \<equiv> op_pool (bs_pool st) ! idx" and "r \<equiv> im_order_replace msg"
  assumes r: "or_orig_ref r = o_id o0" "or_new_ref r \<noteq> 0" "or_new_price r = o_price o0" "or_new_shares r \<le> o_qty o0"
  obtains m where "om_inv m" "om_alpha m = (om_alpha (bs_map st))(o_id o0 := None, or_new_ref r \<mapsto> idx)"
    "on_order_replace st msg = Inr ((amended st idx (or_new_ref r) (or_new_shares r) m)\<lparr>bs_inplace :=
      (if lb_inplace_ctr (bs_book st) then bs_inplace st + 1 else bs_inplace st)\<rparr>)"
proof -
  note f = order_found[OF assms(1-3), folded o0_def]
  have om: "om_inv (bs_map st)" using assms(1) by (simp add: book_inv_def book_rep_def)
  obtain e m1 where m1: "map_erase (bs_map st) (o_id o0) = Some (e, m1)" "om_inv m1"
    "probe_room (om_table m1)" "om_alpha m1 = (om_alpha (bs_map st))(o_id o0 := None)"
    using om.del_spec[OF om assms(3) f(3)] by blast
  obtain m2 where m2: "map_insert m1 (or_new_ref r) idx = Some m2" "om_inv m2"
    "om_alpha m2 = (om_alpha m1)(or_new_ref r \<mapsto> idx)"
    using om.ins_spec[OF m1(2,3) r(2)] by blast
  have "om_alpha m2 = (om_alpha (bs_map st))(o_id o0 := None, or_new_ref r \<mapsto> idx)"
    by (simp add: m2(3) m1(4))
  then show thesis
  proof (rule that[OF m2(2)])
    show "on_order_replace st msg = Inr ((amended st idx (or_new_ref r) (or_new_shares r) m2)\<lparr>bs_inplace :=
        (if lb_inplace_ctr (bs_book st) then bs_inplace st + 1 else bs_inplace st)\<rparr>)"
      using f r m1(1) m2(1)
      by (simp add: on_order_replace_def Let_def elem_at_def amended_def flip: o0_def r_def)
  qed
qed

lemma replace_moves_eq:
  fixes msg :: ItchMsg
  assumes "book_inv st" "level_idx_ok st idx" "probe_room (om_table (bs_map st))"
  defines "o0 \<equiv> op_pool (bs_pool st) ! idx" and "r \<equiv> im_order_replace msg"
  assumes "or_orig_ref r = o_id o0" "or_new_price r \<noteq> o_price o0 \<or> o_qty o0 < or_new_shares r"
  shows "on_order_replace st msg = andthen (drop_order st idx (o_id o0)) (\<lambda>st1.
    new_order st1 (or_new_ref r) (or_new_price r) (or_new_shares r) (o_side o0))"
proof -
  have "(or_new_price r = o_price o0 \<and> or_new_shares r \<le> o_qty o0) = False" using assms(7) by auto
  then show ?thesis
    using order_found[OF assms(1-3), folded o0_def] assms(6) unfolding on_order_replace_def Let_def r_def[symmetric]
    by (simp add: elem_at_def flip: o0_def del: de_Morgan_conj)
qed

lemma on_order_replace_in_place:
  fixes msg :: ItchMsg
  assumes "book_inv st" "level_idx_ok st idx" "probe_room (om_table (bs_map st))"
  defines "o0 \<equiv> op_pool (bs_pool st) ! idx" and "r \<equiv> im_order_replace msg"
  assumes r: "or_orig_ref r = o_id o0" "or_new_ref r \<noteq> 0"
    "or_new_ref r = o_id o0 \<or> om_alpha (bs_map st) (or_new_ref r) = None"
    "or_new_price r = o_price o0" "or_new_shares r \<le> o_qty o0"
  shows "\<exists>st'. on_order_replace st msg = Inr st' \<and> book_inv st' \<and> level_idx_ok st' idx \<and>
    (\<forall>side. side_view st' side =
       spec_amend (or_orig_ref r) (or_new_ref r, or_new_shares r) (side_view st side)) \<and>
    bs_inplace st' = (if lb_inplace_ctr (bs_book st) then bs_inplace st + 1 else bs_inplace st)"
proof -
  obtain m where m: "om_inv m" "om_alpha m = (om_alpha (bs_map st))(o_id o0 := None, or_new_ref r \<mapsto> idx)"
    "on_order_replace st msg = Inr ((amended st idx (or_new_ref r) (or_new_shares r) m)\<lparr>bs_inplace :=
      (if lb_inplace_ctr (bs_book st) then bs_inplace st + 1 else bs_inplace st)\<rparr>)"
    unfolding o0_def r_def
    by (rule replace_in_place_eq[OF assms(1-3), of msg]) (use r in \<open>simp_all add: o0_def r_def\<close>)
  note a = amended_refines[OF assms(1,2), where qty' = "or_new_shares r", folded o0_def, OF m(1,2) r(3)]
  show ?thesis using a m(3) r(1) by simp
qed

lemma spec_remove_other_side:
  assumes "book_inv st" "level_idx_ok st idx"
    and "(side = Buy) \<noteq> (o_side (op_pool (bs_pool st) ! idx) = Buy)"
  shows "spec_remove (o_id (op_pool (bs_pool st) ! idx)) (side_view st side) = side_view st side"
  by (rule level_idx_ok_stands[OF assms(1,2)]) (use stands_at_spec_other(5) assms(3) in blast)

lemma on_order_replace_moves:
  fixes msg :: ItchMsg
  assumes "book_inv st" "level_idx_ok st idx" "probe_room (om_table (bs_map st))"
  defines "o0 \<equiv> op_pool (bs_pool st) ! idx" and "r \<equiv> im_order_replace msg"
  assumes r: "or_orig_ref r = o_id o0" "or_new_ref r \<noteq> 0"
    "or_new_ref r = o_id o0 \<or> om_alpha (bs_map st) (or_new_ref r) = None"
    "or_new_price r \<noteq> o_price o0 \<or> o_qty o0 < or_new_shares r"
    and room: "has_room (or_new_price r) (spec_remove (o_id o0) (side_view st (o_side o0)))"
  shows "\<exists>st'. on_order_replace st msg = Inr st' \<and> book_inv st' \<and>
    side_view st' (o_side o0) = spec_add (o_side o0) (or_new_price r)
      (or_new_ref r, or_new_shares r) (spec_remove (o_id o0) (side_view st (o_side o0))) \<and>
    (\<forall>s. (s = Buy) \<noteq> (o_side o0 = Buy) \<longrightarrow> side_view st' s = side_view st s)"
proof -
  have rep: "book_rep st (queues st)" using assms(1) by (simp add: book_inv_def)
  obtain st1 where d: "drop_order st idx (o_id o0) = Inr st1" "book_inv st1"
    "\<And>side. side_view st1 side = spec_remove (o_id o0) (side_view st side)"
    "om_alpha (bs_map st1) = (om_alpha (bs_map st))(o_id o0 := None)"
    "live_slots (bs_pool st1) = live_slots (bs_pool st) - {idx}" "probe_room (om_table (bs_map st1))"
    "idx \<in> live_slots (bs_pool st)" "op_capacity (bs_pool st1) = op_capacity (bs_pool st)"
    unfolding o0_def by (rule drop_order_refines[OF assms(1-3)]) blast
  have "idx \<in> {..<op_capacity (bs_pool st1)}"
    using d(7,8) op.live_owned[OF book_repD(1)[OF rep]] by auto
  then have free: "live_slots (bs_pool st1) \<noteq> {..<op_capacity (bs_pool st1)}" using d(5) by auto
  have fresh: "om_alpha (bs_map st1) (or_new_ref r) = None" using r(3) d(4) by auto
  obtain st' idx' where n:
    "new_order st1 (or_new_ref r) (or_new_price r) (or_new_shares r) (o_side o0) = Inr st'"
    "book_inv st'"
    "side_view st' (o_side o0) = spec_add (o_side o0) (or_new_price r) (or_new_ref r, or_new_shares r)
       (side_view st1 (o_side o0))"
    "\<And>s. (s = Buy) \<noteq> (o_side o0 = Buy) \<Longrightarrow> side_view st' s = side_view st1 s"
    by (rule new_order_refines[OF d(2) free r(2) fresh d(6)]) (use room d(3) in auto)
  have "on_order_replace st msg = Inr st'"
    using replace_moves_eq[OF assms(1-3), of msg, folded o0_def r_def, OF r(1,4)] d(1) n(1) by simp
  then show ?thesis
    using n d(3) spec_remove_other_side[OF assms(1,2), folded o0_def] by auto
qed

lemma unknown_ref_ignored:
  assumes "om_inv (bs_map st)" "probe_room (om_table (bs_map st))" "ref \<noteq> 0"
    "om_alpha (bs_map st) ref = None"
  shows "reduce_qty st ref q = Inr st"
    "im_order_delete_ref msg = ref \<Longrightarrow> on_order_delete st msg = Inr st"
    "or_orig_ref (im_order_replace msg) = ref \<Longrightarrow> on_order_replace st msg = Inr st"
  using om.find_spec[OF assms(1-3)] assms(4)
  by (simp_all add: reduce_qty_def on_order_delete_def on_order_replace_def Let_def)

end
