(* ===== verification/Book_Properties.thy ===== *)
theory Book_Properties
  imports Book_Refinement
begin

text \<open>
  The properties of the order book: the sorted arrays and the best bid and offer in every
  reachable state, the refinement of each handler, its early returns, and the state two
  additions and a deletion lead to when the \<^verbatim>\<open>level_idx\<close> of an order is out of date.
\<close>

section \<open>Runs of a book\<close>

text \<open>
  One step of a book: a handler, a status change, \<^verbatim>\<open>clear\<close>, or a step of another book of the
  shard, which may change the shared pool, map and counters in any way.
\<close>

inductive book_step :: "BookState \<Rightarrow> BookState \<Rightarrow> bool" where
  add: "on_add_order st msg = Inr st' \<Longrightarrow> book_step st st'"
| executed: "on_order_executed st msg = Inr st' \<Longrightarrow> book_step st st'"
| executed_price: "on_order_executed_price st msg = Inr st' \<Longrightarrow> book_step st st'"
| cancel: "on_order_cancel st msg = Inr st' \<Longrightarrow> book_step st st'"
| delete: "on_order_delete st msg = Inr st' \<Longrightarrow> book_step st st'"
| replace: "on_order_replace st msg = Inr st' \<Longrightarrow> book_step st st'"
| action: "book_step st (on_trading_action st msg)"
| clear: "book_step st (st\<lparr>bs_book := book_clear (bs_book st)\<rparr>)"
| others: "book_step st (st\<lparr>bs_pool := p, bs_map := m, bs_drops := d, bs_inplace := i\<rparr>)"

inductive book_reachable :: "BookState \<Rightarrow> bool" where
  start: "bs_book st = set_inplace_ctr (set_drop_ctr (Level2Book_new locate)) \<Longrightarrow> book_reachable st"
| step: "book_reachable st \<Longrightarrow> book_step st st' \<Longrightarrow> book_reachable st'"

inductive_cases book_stepE: "book_step st st'"

text \<open>A new book over a new pool and a new map.\<close>

definition fresh_state :: "LocateCode \<Rightarrow> Order list \<Rightarrow> nat \<Rightarrow> BookState" where
  "fresh_state locate orders map_capacity =
    \<lparr>bs_book = set_inplace_ctr (set_drop_ctr (Level2Book_new locate)),
     bs_pool = OrderPool_new (length orders) orders, bs_map = OrderMap_new map_capacity,
     bs_drops = 0, bs_inplace = 0\<rparr>"

definition zero_order :: Order where
  "zero_order = \<lparr>o_id = 0, o_price = 0, o_qty = 0, o_prev = 0, o_next = 0, o_level = 0,
                 o_side = Buy\<rparr>"

definition add_msg :: "OrderId \<Rightarrow> Side \<Rightarrow> Price \<Rightarrow> Qty \<Rightarrow> ItchMsg" where
  "add_msg ref side price qty = ItchMsg_init\<lparr>im_type := AddOrder, im_add_order :=
     \<lparr>ao_ref = ref, ao_side = side, ao_price = price, ao_shares = qty, ao_stock = zero_chars 8,
      ao_attribution = zero_chars 4\<rparr>\<rparr>"

definition delete_msg :: "OrderId \<Rightarrow> ItchMsg" where
  "delete_msg ref = ItchMsg_init\<lparr>im_type := OrderDelete, im_order_delete_ref := ref\<rparr>"

definition cancel_msg :: "OrderId \<Rightarrow> Qty \<Rightarrow> ItchMsg" where
  "cancel_msg ref qty = ItchMsg_init\<lparr>im_type := OrderCancel,
     im_order_cancel := \<lparr>oc_ref = ref, oc_cancelled_shares = qty\<rparr>\<rparr>"

definition replace_msg :: "OrderId \<Rightarrow> OrderId \<Rightarrow> Qty \<Rightarrow> Price \<Rightarrow> ItchMsg" where
  "replace_msg orig new qty price = ItchMsg_init\<lparr>im_type := OrderReplace,
     im_order_replace := \<lparr>or_orig_ref = orig, or_new_ref = new, or_new_shares = qty,
                          or_new_price = price\<rparr>\<rparr>"

lemmas msg_defs = add_msg_def delete_msg_def cancel_msg_def replace_msg_def ItchMsg_init_def

section \<open>Lemmas on runs\<close>

lemma book_wf_initial: "book_wf (Level2Book_new locate)"
  by (simp add: book_wf_def Level2Book_new_def levels_wf_new)

lemma book_wf_step: "book_step st st' \<Longrightarrow> book_wf (bs_book st) \<Longrightarrow> book_wf (bs_book st')"
proof (induction rule: book_step.induct)
  case (action st msg)
  then show ?case by (simp add: on_trading_action_def book_wf_def)
next
  case (clear st)
  then show ?case by (simp add: book_clear_def book_wf_def levels_wf_new)
qed (auto simp: on_add_order_def Let_def on_order_executed_def on_order_executed_price_def
    on_order_cancel_def
    intro: book_wf_new book_wf_reduce book_wf_delete book_wf_replace)

lemma book_wf_reachable: "book_reachable st \<Longrightarrow> book_wf (bs_book st)"
proof (induction rule: book_reachable.induct)
  case (start st locate)
  then show ?case using book_wf_initial[of locate]
    by (simp add: book_wf_def set_inplace_ctr_def set_drop_ctr_def)
qed (rule book_wf_step)

lemma levels_wf_best:
  assumes "levels_wf side L c" "0 < c" "l \<in> set (take c L)"
  shows "l = L ! 0 \<or> goes_before side (pl_price (L ! 0)) (pl_price l)"
proof -
  have len: "length (take c L) = c" using assms(1) by (simp add: levels_wf_def)
  obtain k where k: "k < length (take c L)" "l = take c L ! k"
    using assms(3) unfolding in_set_conv_nth by blast
  show ?thesis
    using sorted_wrt_nth_less[of "goes_before side" "map pl_price (take c L)" 0 k] assms(1,2) k len
    by (cases "k = 0") (simp_all add: levels_wf_def)
qed

lemma levels_wf_nth0:
  "levels_wf side L c \<Longrightarrow> 0 < c \<Longrightarrow> L ! 0 \<in> set (take c L)"
  by (metis levels_wf_def length_take min.absorb2 nth_mem nth_take)

lemma fresh_state_inv:
  assumes "length orders < kInvalidIdx" "0 < cap"
  shows "book_inv (fresh_state locate orders cap)"
    "probe_room (om_table (bs_map (fresh_state locate orders cap)))"
    "om_alpha (bs_map (fresh_state locate orders cap)) = Map.empty"
    "live_slots (bs_pool (fresh_state locate orders cap)) = {}"
    "side_view (fresh_state locate orders cap) side = []"
    "om_capacity (bs_map (fresh_state locate orders cap)) = cap"
proof -
  let ?st = "fresh_state locate orders cap"
  have p: "pool_inv (bs_pool ?st)" "live_slots (bs_pool ?st) = {}"
    using pool_inv_new[of orders] assms(1) by (simp_all add: fresh_state_def)
  have "active (bs_book ?st) b = []" for b
    by (simp add: active_def fresh_state_def set_inplace_ctr_def set_drop_ctr_def Level2Book_new_def)
  moreover have "book_wf (bs_book ?st)"
    by (rule book_wf_reachable, rule book_reachable.start) (simp add: fresh_state_def)
  ultimately have "book_rep ?st (\<lambda>_. [])"
    using p assms(2) by (simp add: book_rep_def slots_def) (simp add: fresh_state_def om_inv_new)
  then show "book_inv ?st" using book_inv_iff by blast
  show "side_view ?st side = []"
    by (simp add: side_view_def fresh_state_def count_of_def set_inplace_ctr_def set_drop_ctr_def
        Level2Book_new_def)
qed (use assms in \<open>simp_all add: fresh_state_def om_alpha_new probe_room_new pool_inv_new\<close>)

lemma new_order_capacity:
  "new_order st ref price qty side = Inr st' \<Longrightarrow> om_capacity (bs_map st') = om_capacity (bs_map st)"
  by (auto simp: new_order_def place_order_def map_insert_def Let_def
      split: prod.splits option.splits if_splits)

lemma link_order_tail_capacity:
  "link_order_tail pool lvl idx = Inr (pool', lvl') \<Longrightarrow> op_capacity pool' = op_capacity pool"
  by (auto simp: link_order_tail_def set_prev_def set_next_def set_order_def split: if_splits)

lemma new_order_pool_capacity:
  "new_order st ref price qty side = Inr st' \<Longrightarrow> op_capacity (bs_pool st') = op_capacity (bs_pool st)"
  by (auto simp: new_order_def place_order_def alloc_def free_order_def pool_free_def set_order_def
      Let_def dest!: link_order_tail_capacity split: prod.splits option.splits if_splits)

text \<open>One order in a new book, the state the witnesses start from.\<close>

lemma one_order_state:
  obtains st idx where
    "on_add_order (fresh_state 1 [zero_order, zero_order] 4) (add_msg 7 Buy 100 10) = Inr st"
    "book_inv st" "level_idx_ok st idx" "probe_room (om_table (bs_map st))"
    "side_view st Buy = [(100, [(7, 10)])]" "side_view st Sell = []"
    "om_alpha (bs_map st) = [7 \<mapsto> idx]" "o_id (op_pool (bs_pool st) ! idx) = 7"
    "o_qty (op_pool (bs_pool st) ! idx) = 10" "o_price (op_pool (bs_pool st) ! idx) = 100"
    "o_side (op_pool (bs_pool st) ! idx) = Buy"
    "live_slots (bs_pool st) \<noteq> {..<op_capacity (bs_pool st)}"
proof -
  let ?st = "fresh_state 1 [zero_order, zero_order] 4"
  have small: "length [zero_order, zero_order] < kInvalidIdx" "0 < (4::nat)"
    by (simp_all add: kInvalidIdx_def)
  note f = fresh_state_inv[OF small, of 1]
  have free: "live_slots (bs_pool ?st) \<noteq> {..<op_capacity (bs_pool ?st)}"
    unfolding f(4) by (auto simp: fresh_state_def OrderPool_new_def)
  have room: "has_room 100 (side_view ?st Buy)"
    by (simp add: f(5) has_room_def MAX_PRICE_LEVELS_def)
  have ref: "(7 :: OrderId) \<noteq> 0" and none: "om_alpha (bs_map ?st) 7 = None"
    by (simp_all add: f(3))
  obtain st idx where s: "new_order ?st 7 100 10 Buy = Inr st" "book_inv st"
    "side_view st Buy = spec_add Buy 100 (7, 10) (side_view ?st Buy)"
    "\<And>s. (s = Buy) \<noteq> (Buy = Buy) \<Longrightarrow> side_view st s = side_view ?st s"
    "om_alpha (bs_map st) = (om_alpha (bs_map ?st))(7 \<mapsto> idx)" "level_idx_ok st idx"
    "o_id (op_pool (bs_pool st) ! idx) = 7" "o_qty (op_pool (bs_pool st) ! idx) = 10"
    "o_price (op_pool (bs_pool st) ! idx) = 100" "o_side (op_pool (bs_pool st) ! idx) = Buy"
    "live_slots (bs_pool st) = insert idx (live_slots (bs_pool ?st))"
    by (rule new_order_refines[where qty = 10, OF f(1) free ref none f(2) room]) blast
  have run: "on_add_order ?st (add_msg 7 Buy 100 10) = Inr st"
    using s(1) by (simp add: on_add_order_def msg_defs)
  have a: "om_alpha (bs_map st) = [7 \<mapsto> idx]" using s(5) f(3) by simp
  have "om_inv (bs_map st)" "om_capacity (bs_map st) = 4"
    using s(2) new_order_capacity[OF s(1)] f(6) by (simp_all add: book_inv_def book_rep_def)
  then have "probe_room (om_table (bs_map st))" using room_of_count[of "bs_map st"] a by simp
  moreover have "op_capacity (bs_pool st) = 2"
    using new_order_pool_capacity[OF s(1)] by (simp add: fresh_state_def OrderPool_new_def)
  then have "live_slots (bs_pool st) \<noteq> {..<op_capacity (bs_pool st)}"
    using s(11) f(4) by (simp add: lessThan_nat_numeral lessThan_Suc)
  ultimately show thesis
    using that[OF run] s f(5) a by (simp add: f(5)[of Buy] f(5)[of Sell])
qed

section \<open>Properties\<close>

text \<open>
  Property C1. In every reachable state of a book, whatever the other books of the shard do
  to the shared pool and map, both level arrays are strictly sorted best price first and
  hold at most \<^verbatim>\<open>MAX_PRICE_LEVELS\<close> levels, and \<^verbatim>\<open>get_bbo\<close> reports the locate code of the
  book and, for each side, the price and the total quantity of one and the same level: the
  bid level whose price is above that of every other bid level, the ask level whose price
  is below that of every other ask level, or zeros for a side that has no level.
\<close>

theorem bbo_is_best_level:
  assumes "book_reachable st"
  shows "book_wf (bs_book st) \<and> bb_locate (get_bbo (bs_book st)) = lb_locate (bs_book st) \<and>
    (if lb_bid_count (bs_book st) = 0
     then bb_bid_price (get_bbo (bs_book st)) = 0 \<and> bb_bid_qty (get_bbo (bs_book st)) = 0
     else \<exists>best \<in> set (active (bs_book st) True).
       bb_bid_price (get_bbo (bs_book st)) = pl_price best \<and>
       bb_bid_qty (get_bbo (bs_book st)) = pl_total_qty best \<and>
       (\<forall>l \<in> set (active (bs_book st) True). l \<noteq> best \<longrightarrow> pl_price l < pl_price best)) \<and>
    (if lb_ask_count (bs_book st) = 0
     then bb_ask_price (get_bbo (bs_book st)) = 0 \<and> bb_ask_qty (get_bbo (bs_book st)) = 0
     else \<exists>best \<in> set (active (bs_book st) False).
       bb_ask_price (get_bbo (bs_book st)) = pl_price best \<and>
       bb_ask_qty (get_bbo (bs_book st)) = pl_total_qty best \<and>
       (\<forall>l \<in> set (active (bs_book st) False). l \<noteq> best \<longrightarrow> pl_price best < pl_price l))"
proof -
  let ?b = "bs_book st"
  have wf: "book_wf ?b" by (rule book_wf_reachable[OF assms])
  then have w: "levels_wf Buy (lb_bid_levels ?b) (lb_bid_count ?b)"
    "levels_wf Sell (lb_ask_levels ?b) (lb_ask_count ?b)" by (simp_all add: book_wf_def)
  have "lb_bid_levels ?b ! 0 \<in> set (active ?b True) \<and>
      (\<forall>l \<in> set (active ?b True). l \<noteq> lb_bid_levels ?b ! 0 \<longrightarrow>
        pl_price l < pl_price (lb_bid_levels ?b ! 0))" if "0 < lb_bid_count ?b"
    using levels_wf_best[OF w(1) that] levels_wf_nth0[OF w(1) that]
    by (auto simp: active_def goes_before_def)
  moreover have "lb_ask_levels ?b ! 0 \<in> set (active ?b False) \<and>
      (\<forall>l \<in> set (active ?b False). l \<noteq> lb_ask_levels ?b ! 0 \<longrightarrow>
        pl_price (lb_ask_levels ?b ! 0) < pl_price l)" if "0 < lb_ask_count ?b"
    using levels_wf_best[OF w(2) that] levels_wf_nth0[OF w(2) that]
    by (auto simp: active_def goes_before_def)
  ultimately show ?thesis using wf by (auto simp: get_bbo_def)
qed

theorem bbo_is_best_level_witness:
  "\<exists>st best. on_add_order (fresh_state 1 [zero_order, zero_order] 4) (add_msg 7 Buy 100 10) = Inr st \<and>
    best \<in> set (active (bs_book st) True) \<and> bb_bid_price (get_bbo (bs_book st)) = pl_price best \<and>
    bb_bid_qty (get_bbo (bs_book st)) = pl_total_qty best \<and> bb_ask_price (get_bbo (bs_book st)) = 0"
proof -
  obtain st where st: "on_add_order (fresh_state 1 [zero_order, zero_order] 4) (add_msg 7 Buy 100 10)
      = Inr st" "side_view st Buy = [(100, [(7, 10)])]" "side_view st Sell = []"
    by (rule one_order_state) blast
  have r: "book_reachable st"
    by (rule book_reachable.step[OF book_reachable.start book_step.add[OF st(1)]])
      (simp add: fresh_state_def)
  have "lb_ask_count (bs_book st) = 0"
    using st(3) book_wf_reachable[OF r]
    by (auto simp: side_view_def count_of_def levels_of_def book_wf_def levels_wf_def
        MAX_PRICE_LEVELS_def)
  moreover have "lb_bid_count (bs_book st) \<noteq> 0"
    using st(2) by (intro notI) (simp add: side_view_def count_of_def levels_of_def)
  ultimately show ?thesis using bbo_is_best_level[OF r] st(1) by auto
qed

text \<open>
  Property C4. Adding an order with a new, non-zero reference, when the pool has a free slot
  and the price has a level or can get one: the handler returns, the book stays well formed,
  the order is appended to the queue of its price (a new level is made in sorted position
  when there is none) and the other side of the book is as before.
\<close>

theorem add_order_refines:
  assumes "book_inv st" "live_slots (bs_pool st) \<noteq> {..<op_capacity (bs_pool st)}"
    and "ao_ref a \<noteq> 0" "om_alpha (bs_map st) (ao_ref a) = None" "probe_room (om_table (bs_map st))"
    and "has_room (ao_price a) (side_view st (ao_side a))" "a = im_add_order msg"
  shows "\<exists>st' idx. on_add_order st msg = Inr st' \<and> book_inv st' \<and>
    side_view st' (ao_side a) =
      spec_add (ao_side a) (ao_price a) (ao_ref a, ao_shares a) (side_view st (ao_side a)) \<and>
    (\<forall>s. (s = Buy) \<noteq> (ao_side a = Buy) \<longrightarrow> side_view st' s = side_view st s) \<and>
    om_alpha (bs_map st') = (om_alpha (bs_map st))(ao_ref a \<mapsto> idx) \<and> level_idx_ok st' idx"
proof (rule new_order_refines[OF assms(1-6), where qty = "ao_shares a"])
  fix st' idx
  assume "new_order st (ao_ref a) (ao_price a) (ao_shares a) (ao_side a) = Inr st'"
  then have "on_add_order st msg = Inr st'" by (simp add: on_add_order_def Let_def assms(7))
  moreover assume "book_inv st'" "level_idx_ok st' idx"
    "side_view st' (ao_side a) =
      spec_add (ao_side a) (ao_price a) (ao_ref a, ao_shares a) (side_view st (ao_side a))"
    "\<And>s. (s = Buy) \<noteq> (ao_side a = Buy) \<Longrightarrow> side_view st' s = side_view st s"
    "om_alpha (bs_map st') = (om_alpha (bs_map st))(ao_ref a \<mapsto> idx)"
  ultimately show ?thesis by blast
qed

theorem add_order_refines_witness:
  "\<exists>st1 st2. on_add_order (fresh_state 1 [zero_order, zero_order] 4) (add_msg 7 Buy 100 10) = Inr st1 \<and>
    on_add_order st1 (add_msg 9 Buy 100 5) = Inr st2 \<and>
    side_view st2 Buy = [(100, [(7, 10), (9, 5)])]"
proof -
  obtain st idx where s:
    "on_add_order (fresh_state 1 [zero_order, zero_order] 4) (add_msg 7 Buy 100 10) = Inr st"
    "book_inv st" "probe_room (om_table (bs_map st))" "side_view st Buy = [(100, [(7, 10)])]"
    "om_alpha (bs_map st) = [7 \<mapsto> idx]" "live_slots (bs_pool st) \<noteq> {..<op_capacity (bs_pool st)}"
    by (rule one_order_state) blast
  from add_order_refines[OF s(2,6), of "im_add_order (add_msg 9 Buy 100 5)" "add_msg 9 Buy 100 5"]
    s(1,3,4,5) show ?thesis by (auto simp: msg_defs has_room_def)
qed

text \<open>
  Property C5. Deleting an order whose \<^verbatim>\<open>level_idx\<close> names its level: the handler returns, the
  order leaves its queue, its level goes when it was the only one, every other order keeps
  its place, and the pool slot is free again.
\<close>

theorem delete_order_refines:
  assumes "book_inv st" "level_idx_ok st idx" "probe_room (om_table (bs_map st))"
    and "im_order_delete_ref msg = o_id (op_pool (bs_pool st) ! idx)"
  shows "\<exists>st'. on_order_delete st msg = Inr st' \<and> book_inv st' \<and>
    (\<forall>side. side_view st' side = spec_remove (im_order_delete_ref msg) (side_view st side)) \<and>
    live_slots (bs_pool st') = live_slots (bs_pool st) - {idx}"
  by (rule on_order_delete_refines[OF assms])

theorem delete_order_refines_witness:
  "\<exists>st1 st2. on_add_order (fresh_state 1 [zero_order, zero_order] 4) (add_msg 7 Buy 100 10) = Inr st1 \<and>
    on_order_delete st1 (delete_msg 7) = Inr st2 \<and> side_view st2 Buy = []"
proof (rule one_order_state)
  fix st idx
  assume s: "on_add_order (fresh_state 1 [zero_order, zero_order] 4) (add_msg 7 Buy 100 10) = Inr st"
    "book_inv st" "level_idx_ok st idx" "probe_room (om_table (bs_map st))"
    "side_view st Buy = [(100, [(7, 10)])]" "o_id (op_pool (bs_pool st) ! idx) = 7"
  then show ?thesis
    using delete_order_refines[OF s(2-4), of "delete_msg 7"]
    by (auto simp: msg_defs spec_remove_def)
qed

text \<open>
  Property C8. A cancellation or execution of fewer shares than the order has left leaves it
  in its place in the queue with the difference, and takes the same amount off the total of
  its level; the book stays well formed.
\<close>

theorem reduce_order_partial:
  assumes "book_inv st" "level_idx_ok st idx" "probe_room (om_table (bs_map st))"
    and "o0 = op_pool (bs_pool st) ! idx" "q < o_qty o0"
  shows "\<exists>st'. reduce_qty st (o_id o0) q = Inr st' \<and> book_inv st' \<and> level_idx_ok st' idx \<and>
    (\<forall>side. side_view st' side = spec_amend (o_id o0) (o_id o0, o_qty o0 - q) (side_view st side)) \<and>
    unat (o_qty o0 - q) = unat (o_qty o0) - unat q"
proof -
  have "unat (o_qty o0 - q) = unat (o_qty o0) - unat q"
    using assms(5) by (simp add: unat_sub less_imp_le)
  then show ?thesis
    using reduce_qty_partial[OF assms(1-3), of q] assms(4,5) by auto
qed

theorem reduce_order_partial_witness:
  "\<exists>st1 st2. on_add_order (fresh_state 1 [zero_order, zero_order] 4) (add_msg 7 Buy 100 10) = Inr st1 \<and>
    on_order_cancel st1 (cancel_msg 7 4) = Inr st2 \<and> side_view st2 Buy = [(100, [(7, 6)])]"
proof (rule one_order_state)
  fix st idx
  assume s: "on_add_order (fresh_state 1 [zero_order, zero_order] 4) (add_msg 7 Buy 100 10) = Inr st"
    "book_inv st" "level_idx_ok st idx" "probe_room (om_table (bs_map st))"
    "side_view st Buy = [(100, [(7, 10)])]" "o_id (op_pool (bs_pool st) ! idx) = 7"
    "o_qty (op_pool (bs_pool st) ! idx) = 10"
  then show ?thesis
    using reduce_order_partial[OF s(2-4) refl, of 4]
    by (auto simp: msg_defs spec_amend_def on_order_cancel_def)
qed

text \<open>
  Nothing limits a reduction to the shares the order has: an execution of more leaves the order in
  the book with a quantity that has wrapped around.
\<close>

theorem over_execution_wraps:
  assumes "book_inv st" "level_idx_ok st idx" "probe_room (om_table (bs_map st))"
    and "o0 = op_pool (bs_pool st) ! idx" "o_qty o0 < q"
  shows "\<exists>st'. reduce_qty st (o_id o0) q = Inr st' \<and>
    (\<forall>side. side_view st' side = spec_amend (o_id o0) (o_id o0, o_qty o0 - q) (side_view st side)) \<and>
    unat (o_qty o0 - q) = 2 ^ 32 + unat (o_qty o0) - unat q"
proof -
  have "unat (o_qty o0 - q) = 2 ^ 32 + unat (o_qty o0) - unat q"
    using assms(5) by (simp add: unat_sub_if_size word_less_nat_alt word_size)
  then show ?thesis
    using reduce_qty_partial[OF assms(1-3), of q] assms(4,5) by auto
qed

text \<open>
  A cancellation or execution of all the shares an order has left removes it
  like a deletion.
\<close>

theorem reduce_order_full:
  assumes "book_inv st" "level_idx_ok st idx" "probe_room (om_table (bs_map st))"
    and "o0 = op_pool (bs_pool st) ! idx"
  shows "\<exists>st'. reduce_qty st (o_id o0) (o_qty o0) = Inr st' \<and> book_inv st' \<and>
    (\<forall>side. side_view st' side = spec_remove (o_id o0) (side_view st side)) \<and>
    live_slots (bs_pool st') = live_slots (bs_pool st) - {idx}"
  using reduce_qty_full[OF assms(1-3)] by (simp add: assms(4))

theorem reduce_order_full_witness:
  "\<exists>st1 st2. on_add_order (fresh_state 1 [zero_order, zero_order] 4) (add_msg 7 Buy 100 10) = Inr st1 \<and>
    on_order_cancel st1 (cancel_msg 7 10) = Inr st2 \<and> side_view st2 Buy = []"
proof (rule one_order_state)
  fix st idx
  assume s: "on_add_order (fresh_state 1 [zero_order, zero_order] 4) (add_msg 7 Buy 100 10) = Inr st"
    "book_inv st" "level_idx_ok st idx" "probe_room (om_table (bs_map st))"
    "side_view st Buy = [(100, [(7, 10)])]" "o_id (op_pool (bs_pool st) ! idx) = 7"
    "o_qty (op_pool (bs_pool st) ! idx) = 10"
  then show ?thesis
    using reduce_order_full[OF s(2-4) refl]
    by (auto simp: msg_defs spec_remove_def on_order_cancel_def)
qed

text \<open>
  Property C7. Replacing an order at the same price by no more shares than it has (case A)
  keeps its place in the queue: only the reference and the quantity change.
\<close>

theorem replace_keeps_priority:
  assumes "book_inv st" "level_idx_ok st idx" "probe_room (om_table (bs_map st))"
    and "o0 = op_pool (bs_pool st) ! idx" "r = im_order_replace msg"
    and "or_orig_ref r = o_id o0" "or_new_ref r \<noteq> 0"
    and "or_new_ref r = o_id o0 \<or> om_alpha (bs_map st) (or_new_ref r) = None"
    and "or_new_price r = o_price o0" "or_new_shares r \<le> o_qty o0"
  shows "\<exists>st'. on_order_replace st msg = Inr st' \<and> book_inv st' \<and> level_idx_ok st' idx \<and>
    (\<forall>side. side_view st' side =
       spec_amend (or_orig_ref r) (or_new_ref r, or_new_shares r) (side_view st side)) \<and>
    bs_inplace st' = (if lb_inplace_ctr (bs_book st) then bs_inplace st + 1 else bs_inplace st)"
  using on_order_replace_in_place[OF assms(1-3), of msg] assms(4-) by simp

theorem replace_keeps_priority_witness:
  "\<exists>st1 st2. on_add_order (fresh_state 1 [zero_order, zero_order] 4) (add_msg 7 Buy 100 10) = Inr st1 \<and>
    on_order_replace st1 (replace_msg 7 8 3 100) = Inr st2 \<and> side_view st2 Buy = [(100, [(8, 3)])]"
proof (rule one_order_state)
  fix st idx
  assume s: "on_add_order (fresh_state 1 [zero_order, zero_order] 4) (add_msg 7 Buy 100 10) = Inr st"
    "book_inv st" "level_idx_ok st idx" "probe_room (om_table (bs_map st))"
    "side_view st Buy = [(100, [(7, 10)])]" "o_id (op_pool (bs_pool st) ! idx) = 7"
    "o_qty (op_pool (bs_pool st) ! idx) = 10" "o_price (op_pool (bs_pool st) ! idx) = 100"
    "om_alpha (bs_map st) = [7 \<mapsto> idx]"
  then show ?thesis
    using replace_keeps_priority[OF s(2-4) refl, of _ "replace_msg 7 8 3 100"]
    by (auto simp: msg_defs spec_amend_def)
qed

text \<open>
  Property C6. Replacing an order at another price or by more shares (case B) takes it out
  and appends a new order to the queue of the new price, behind every order there; the other
  side of the book is as before. The new price needs a level, or room for one after the old
  order has left.
\<close>

theorem replace_loses_priority:
  assumes "book_inv st" "level_idx_ok st idx" "probe_room (om_table (bs_map st))"
    and "o0 = op_pool (bs_pool st) ! idx" "r = im_order_replace msg"
    and "or_orig_ref r = o_id o0" "or_new_ref r \<noteq> 0"
    and "or_new_ref r = o_id o0 \<or> om_alpha (bs_map st) (or_new_ref r) = None"
    and "or_new_price r \<noteq> o_price o0 \<or> o_qty o0 < or_new_shares r"
    and "has_room (or_new_price r) (spec_remove (o_id o0) (side_view st (o_side o0)))"
  shows "\<exists>st'. on_order_replace st msg = Inr st' \<and> book_inv st' \<and>
    side_view st' (o_side o0) = spec_add (o_side o0) (or_new_price r)
      (or_new_ref r, or_new_shares r) (spec_remove (o_id o0) (side_view st (o_side o0))) \<and>
    (\<forall>s. (s = Buy) \<noteq> (o_side o0 = Buy) \<longrightarrow> side_view st' s = side_view st s)"
  using on_order_replace_moves[OF assms(1-3), of msg] assms(4-) by simp

theorem replace_loses_priority_witness:
  "\<exists>st1 st2. on_add_order (fresh_state 1 [zero_order, zero_order] 4) (add_msg 7 Buy 100 10) = Inr st1 \<and>
    on_order_replace st1 (replace_msg 7 8 3 101) = Inr st2 \<and> side_view st2 Buy = [(101, [(8, 3)])]"
proof (rule one_order_state)
  fix st idx
  assume s: "on_add_order (fresh_state 1 [zero_order, zero_order] 4) (add_msg 7 Buy 100 10) = Inr st"
    "book_inv st" "level_idx_ok st idx" "probe_room (om_table (bs_map st))"
    "side_view st Buy = [(100, [(7, 10)])]" "o_id (op_pool (bs_pool st) ! idx) = 7"
    "o_qty (op_pool (bs_pool st) ! idx) = 10" "o_price (op_pool (bs_pool st) ! idx) = 100"
    "om_alpha (bs_map st) = [7 \<mapsto> idx]" "o_side (op_pool (bs_pool st) ! idx) = Buy"
  then show ?thesis
    using replace_loses_priority[OF s(2-4) refl, of _ "replace_msg 7 8 3 101"]
    by (auto simp: msg_defs spec_remove_def has_room_def MAX_PRICE_LEVELS_def)
qed

text \<open>
  Property C17. The two ways an addition is dropped leave the book as it was. With no free
  pool slot nothing changes at all; with no room for a new level the slot is given back and
  only the drop counter of the shard goes up.
\<close>

theorem add_order_dropped:
  assumes "book_inv st" "a = im_add_order msg"
    and "live_slots (bs_pool st) = {..<op_capacity (bs_pool st)} \<or>
      \<not> has_room (ao_price a) (side_view st (ao_side a))"
  shows "\<exists>st'. on_add_order st msg = Inr st' \<and> book_inv st' \<and>
    (\<forall>s. side_view st' s = side_view st s) \<and> bs_map st' = bs_map st \<and>
    live_slots (bs_pool st') = live_slots (bs_pool st) \<and>
    bs_drops st' = (if live_slots (bs_pool st) \<noteq> {..<op_capacity (bs_pool st)} \<and>
      lb_drop_ctr (bs_book st) then bs_drops st + 1 else bs_drops st)"
proof -
  have run: "on_add_order st msg = new_order st (ao_ref a) (ao_price a) (ao_shares a) (ao_side a)"
    by (simp add: on_add_order_def Let_def assms(2))
  have p: "pool_inv (bs_pool st)" using assms(1) by (simp add: book_inv_def book_rep_def)
  show ?thesis
  proof (cases "live_slots (bs_pool st) = {..<op_capacity (bs_pool st)}")
    case True
    then show ?thesis using new_order_exhausted[OF p True] run assms(1) by simp
  next
    case False
    then have "\<not> has_room (ao_price a) (side_view st (ao_side a))" using assms(3) by simp
    from new_order_no_level[OF assms(1) False this, of "ao_ref a" "ao_shares a"] False show ?thesis
      unfolding run by auto
  qed
qed

theorem add_order_dropped_witness:
  "\<exists>st'. on_add_order (fresh_state 1 [] 4) (add_msg 7 Buy 100 10) = Inr st' \<and> side_view st' Buy = []"
proof -
  have small: "length ([] :: Order list) < kInvalidIdx" "0 < (4::nat)" by (simp_all add: kInvalidIdx_def)
  note f = fresh_state_inv[OF small, of 1]
  have "op_capacity (bs_pool (fresh_state 1 [] 4)) = 0"
    by (simp add: fresh_state_def OrderPool_new_def)
  then show ?thesis
    using add_order_dropped[OF f(1) refl, of "add_msg 7 Buy 100 10"] f(4,5) by auto
qed

text \<open>
  An execution, cancellation, deletion or replacement of a non-zero reference
  the shard does not hold changes nothing.
\<close>

theorem unknown_reference_ignored:
  assumes "om_inv (bs_map st)" "probe_room (om_table (bs_map st))" "ref \<noteq> 0"
    and "om_alpha (bs_map st) ref = None"
    and "im_order_delete_ref msg = ref" "or_orig_ref (im_order_replace msg) = ref"
  shows "reduce_qty st ref q = Inr st \<and> on_order_delete st msg = Inr st \<and>
    on_order_replace st msg = Inr st"
  using unknown_ref_ignored[OF assms(1-4)] assms(5,6) by simp

theorem unknown_reference_ignored_witness:
  "on_order_delete (fresh_state 1 [] 4) (ItchMsg_init\<lparr>im_order_delete_ref := 7,
     im_order_replace := \<lparr>or_orig_ref = 7, or_new_ref = 8, or_new_shares = 1, or_new_price = 2\<rparr>\<rparr>)
   = Inr (fresh_state 1 [] 4)"
proof -
  have small: "length ([] :: Order list) < kInvalidIdx" "0 < (4::nat)" by (simp_all add: kInvalidIdx_def)
  note f = fresh_state_inv[OF small, of 1]
  have "om_inv (bs_map (fresh_state 1 [] 4))" using f(1) by (simp add: book_inv_def book_rep_def)
  from unknown_reference_ignored[OF this f(2), of 7] f(3) show ?thesis by simp
qed

section \<open>A stale level index\<close>

lemma replicate_levels: "replicate MAX_PRICE_LEVELS x = x # x # replicate 254 x"
proof -
  have "replicate (Suc (Suc 254)) x = x # x # replicate 254 x" by (simp only: replicate.simps)
  then show ?thesis by (simp add: MAX_PRICE_LEVELS_def)
qed

lemmas add_run = on_add_order_def new_order_def place_order_def level_for_def find_level_def
  insert_level_def link_order_tail_def set_prev_def set_next_def elem_at_def set_order_def
  order_at_def init_order_def alloc_def levels_of_def count_of_def set_side_def memmove_def
  find_level_loop.simps insert_pos.simps goes_before_def blank_level_def

lemmas delete_run = on_order_delete_def drop_order_def unlink_order_def set_prev_def set_next_def
  elem_at_def set_order_def order_at_def levels_of_def count_of_def set_side_def memmove_def
  remove_level_def free_order_def pool_free_def

text \<open>The state after a bid at 100 and then a bid at 101, with any map.\<close>

definition two_bids :: "OrderMap \<Rightarrow> BookState" where
  "two_bids m =
    \<lparr>bs_book = (set_inplace_ctr (set_drop_ctr (Level2Book_new 1)))\<lparr>
       lb_bid_levels :=
         \<lparr>pl_price = 101, pl_total_qty = 20, pl_order_count = 1, pl_head = 1, pl_tail = 1\<rparr> #
         \<lparr>pl_price = 100, pl_total_qty = 10, pl_order_count = 1, pl_head = 0, pl_tail = 0\<rparr> #
         replicate 254 (blank_level 0),
       lb_bid_count := 2\<rparr>,
     bs_pool = \<lparr>op_pool =
         [\<lparr>o_id = 1, o_price = 100, o_qty = 10, o_prev = kInvalidIdx, o_next = kInvalidIdx,
           o_level = 0, o_side = Buy\<rparr>,
          \<lparr>o_id = 2, o_price = 101, o_qty = 20, o_prev = kInvalidIdx, o_next = kInvalidIdx,
           o_level = 0, o_side = Buy\<rparr>],
       op_capacity = 2, op_freelist = [1, 0], op_top = 0, op_allocated = 2\<rparr>,
     bs_map = m, bs_drops = 0, bs_inplace = 0\<rparr>"

lemma kInvalidIdx_neq [simp]: "kInvalidIdx \<noteq> 0" "kInvalidIdx \<noteq> Suc 0" "0 \<noteq> kInvalidIdx"
  "Suc 0 \<noteq> kInvalidIdx"
  by (simp_all add: kInvalidIdx_def)

lemma two_bids_run:
  assumes "map_insert (OrderMap_new 4) 1 0 = Some m1" "map_insert m1 2 1 = Some m2"
  shows "andthen (on_add_order (fresh_state 1 [zero_order, zero_order] 4) (add_msg 1 Buy 100 10))
      (\<lambda>st. on_add_order st (add_msg 2 Buy 101 20)) = Inr (two_bids m2)"
  using assms MAX_PRICE_LEVELS_def
  by (simp add: add_run fresh_state_def OrderPool_new_def fresh_freelist_def msg_defs
     set_inplace_ctr_def set_drop_ctr_def Level2Book_new_def two_bids_def
     replicate_levels zero_order_def upt_rec)

lemma two_bids_delete:
  assumes "map_find m2 1 = Some 0" "map_erase m2 1 = Some (True, m3)"
  obtains st where "on_order_delete (two_bids m2) (delete_msg 1) = Inr st" "bs_map st = m3"
    "lb_bid_count (bs_book st) = 1" "bb_bid_price (get_bbo (bs_book st)) = 100"
    "bb_bid_qty (get_bbo (bs_book st)) = 10" "o_price (op_pool (bs_pool st) ! 1) = 101"
    "o_qty (op_pool (bs_pool st) ! 1) = 20"
  using assms
  by (auto simp: delete_run two_bids_def msg_defs get_bbo_def kMapEmpty_def
     set_inplace_ctr_def set_drop_ctr_def Level2Book_new_def)

text \<open>
  Property C16. The \<^verbatim>\<open>level_idx\<close> of an order is not updated when a level is inserted before
  its own. After a bid of 10 at 100 and a bid of 20 at 101, deleting the first removes the
  level at 101: the book then reports a best bid of 10 at 100, an order that no longer
  exists, while the order at 101 is the only one the map still holds.
\<close>

theorem stale_level_idx_removes_wrong_level:
  "\<exists>st2 st3. andthen (on_add_order (fresh_state 1 [zero_order, zero_order] 4) (add_msg 1 Buy 100 10))
      (\<lambda>st. on_add_order st (add_msg 2 Buy 101 20)) = Inr st2 \<and>
    on_order_delete st2 (delete_msg 1) = Inr st3 \<and>
    bb_bid_price (get_bbo (bs_book st3)) = 100 \<and> bb_bid_qty (get_bbo (bs_book st3)) = 10 \<and>
    om_alpha (bs_map st3) = [2 \<mapsto> 1] \<and>
    o_price (op_pool (bs_pool st3) ! 1) = 101 \<and> o_qty (op_pool (bs_pool st3) ! 1) = 20"
proof -
  let ?m = "OrderMap_new 4"
  obtain m1 where m1: "map_insert ?m 1 0 = Some m1" "om_inv m1" "om_alpha m1 = [1 \<mapsto> 0]"
    "om_capacity m1 = 4"
    using map_insert_spec[of ?m 1 0] by (auto simp: om_alpha_new om_inv_new probe_room_new)
  then have r1: "probe_room (om_table m1)" using room_of_count[of m1] by simp
  obtain m2 where m2: "map_insert m1 2 1 = Some m2" "om_inv m2" "om_alpha m2 = [1 \<mapsto> 0, 2 \<mapsto> 1]"
    "om_capacity m2 = 4"
    using map_insert_spec[OF m1(2) r1, of 2 1] m1(3,4) by auto
  then have r2: "probe_room (om_table m2)" using room_of_count[of m2] by (simp add: card_insert_if)
  have find: "map_find m2 1 = Some 0" using map_find_correct[OF m2(2) r2, of 1] m2(3) by simp
  obtain m3 where m3: "map_erase m2 1 = Some (True, m3)" "om_alpha m3 = [1 \<mapsto> 0, 2 \<mapsto> 1](1 := None)"
    using map_erase_spec[OF m2(2) r2, of 1] m2(3) by auto
  have "[1 \<mapsto> 0, 2 \<mapsto> 1](1 := None) = ([2 \<mapsto> 1] :: OrderId \<Rightarrow> nat option)" by (simp add: fun_eq_iff)
  with m3 obtain st where "on_order_delete (two_bids m2) (delete_msg 1) = Inr st"
    "om_alpha (bs_map st) = [2 \<mapsto> 1]" "bb_bid_price (get_bbo (bs_book st)) = 100"
    "bb_bid_qty (get_bbo (bs_book st)) = 10" "o_price (op_pool (bs_pool st) ! 1) = 101"
    "o_qty (op_pool (bs_pool st) ! 1) = 20"
    using two_bids_delete[OF find m3(1)] by metis
  then show ?thesis using two_bids_run[OF m1(1) m2(1)] by blast
qed

text \<open>
  \<^verbatim>\<open>bid_depth()\<close> and \<^verbatim>\<open>ask_depth()\<close> return the 16-bit count as an 8-bit value:
  they are the count while it is below 256, and zero for a full side.
\<close>

theorem depth_truncates:
  assumes "book_wf b"
  shows "unat (bid_depth b) = (if lb_bid_count b = MAX_PRICE_LEVELS then 0 else lb_bid_count b) \<and>
    unat (ask_depth b) = (if lb_ask_count b = MAX_PRICE_LEVELS then 0 else lb_ask_count b)"
proof -
  have "unat (of_nat n :: u8) = (if n = MAX_PRICE_LEVELS then 0 else n)" if "n \<le> MAX_PRICE_LEVELS" for n
    using that unat_of_nat_small[where 'a = 8, of n] by (auto simp: MAX_PRICE_LEVELS_def)
  then show ?thesis using assms by (simp add: bid_depth_def ask_depth_def book_wf_def levels_wf_def)
qed

theorem depth_truncates_witness: "unat (bid_depth (Level2Book_new 1)) = 0"
  using depth_truncates[OF book_wf_initial[of 1]] by (simp add: Level2Book_new_def MAX_PRICE_LEVELS_def)

end
