(* ===== verification/Spsc_Queue.thy ===== *)
theory Spsc_Queue
  imports Itch_Prelude
begin

text \<open>
  The single-producer single-consumer queue of \<^verbatim>\<open>include/concurrency/spsc_queue.hpp\<close>.

  The positions are 64-bit counters that wrap around; the template parameter \<^verbatim>\<open>Capacity\<close> is
  the length of the buffer, a power of two below \<open>2 ^ 64\<close>. \<open>try_push\<close> and \<open>try_pop\<close> are
  the two operations run without interruption; \<open>spsc_step\<close> interleaves the accesses of one
  producer and one consumer to the shared fields, one access per step, in any order.

  The interface of a bounded queue is the locale \<open>bounded_fifo\<close>.
\<close>

section \<open>The queue and its operations\<close>

record 'a SpscQueue =
  sq_write_pos :: u64
  sq_cached_read_pos :: u64
  sq_buffer :: "'a list"
  sq_cached_write_pos :: u64
  sq_read_pos :: u64

definition Capacity :: "'a SpscQueue \<Rightarrow> u64" where
  "Capacity q = of_nat (length (sq_buffer q))"

text \<open>The index \<^verbatim>\<open>pos & (Capacity - 1)\<close>.\<close>

definition buffer_idx :: "'a SpscQueue \<Rightarrow> u64 \<Rightarrow> nat" where
  "buffer_idx q pos = unat (pos AND (Capacity q - 1))"

definition SpscQueue_new :: "'a list \<Rightarrow> 'a SpscQueue" where
  "SpscQueue_new buf = \<lparr>sq_write_pos = 0, sq_cached_read_pos = 0, sq_buffer = buf,
     sq_cached_write_pos = 0, sq_read_pos = 0\<rparr>"

definition try_push :: "'a \<Rightarrow> 'a SpscQueue \<Rightarrow> bool \<times> 'a SpscQueue" where
  "try_push item q =
    (let write = sq_write_pos q;
         q1 = (if Capacity q \<le> write - sq_cached_read_pos q
               then q\<lparr>sq_cached_read_pos := sq_read_pos q\<rparr> else q) in
     if Capacity q \<le> write - sq_cached_read_pos q1 then (False, q1)
     else (True, q1\<lparr>sq_buffer := (sq_buffer q1)[buffer_idx q1 write := item],
                    sq_write_pos := write + 1\<rparr>))"

definition try_pop :: "'a SpscQueue \<Rightarrow> 'a option \<times> 'a SpscQueue" where
  "try_pop q =
    (let read = sq_read_pos q;
         q1 = (if read = sq_cached_write_pos q
               then q\<lparr>sq_cached_write_pos := sq_write_pos q\<rparr> else q) in
     if read = sq_cached_write_pos q1 then (None, q1)
     else (Some (sq_buffer q1 ! buffer_idx q1 read), q1\<lparr>sq_read_pos := read + 1\<rparr>))"

definition size_approx :: "'a SpscQueue \<Rightarrow> u64" where
  "size_approx q = sq_write_pos q - sq_read_pos q"

definition is_pressure_high :: "u64 \<Rightarrow> 'a SpscQueue \<Rightarrow> bool" where
  "is_pressure_high high_watermark q \<longleftrightarrow> high_watermark \<le> sq_write_pos q - sq_read_pos q"

section \<open>Interleaved accesses\<close>

text \<open>
  The program counters. A producer in \<open>P_write\<close> has passed the capacity test and is about to
  store into the buffer; in \<open>P_publish\<close> it is about to store \<^verbatim>\<open>write_pos_\<close>. The fields a side
  owns (\<^verbatim>\<open>write_pos_\<close> and \<^verbatim>\<open>cached_read_pos_\<close> for the producer) are read in the step that
  needs them, no other thread writes them.
\<close>

datatype 'a producer = P_idle | P_refresh 'a | P_write 'a | P_publish 'a
datatype 'a consumer = C_idle | C_refresh | C_read | C_publish 'a

record 'a spsc_state =
  ss_queue :: "'a SpscQueue"
  ss_producer :: "'a producer"
  ss_consumer :: "'a consumer"
  ss_pushed :: "'a list"
  ss_popped :: "'a list"

text \<open>
  \<open>ss_pushed\<close> and \<open>ss_popped\<close> record the items whose operation has taken effect, at the
  store that publishes it. A push that returns false leaves no record.
\<close>

inductive spsc_step :: "'a spsc_state \<Rightarrow> 'a spsc_state \<Rightarrow> bool" where
  push_start: "ss_producer s = P_idle \<Longrightarrow> q = ss_queue s \<Longrightarrow>
    spsc_step s (s\<lparr>ss_producer := (if Capacity q \<le> sq_write_pos q - sq_cached_read_pos q
                                  then P_refresh x else P_write x)\<rparr>)"
| push_refresh: "ss_producer s = P_refresh x \<Longrightarrow>
    q = (ss_queue s)\<lparr>sq_cached_read_pos := sq_read_pos (ss_queue s)\<rparr> \<Longrightarrow>
    spsc_step s (s\<lparr>ss_queue := q,
                   ss_producer := (if Capacity q \<le> sq_write_pos q - sq_cached_read_pos q
                                   then P_idle else P_write x)\<rparr>)"
| push_write: "ss_producer s = P_write x \<Longrightarrow> q = ss_queue s \<Longrightarrow>
    spsc_step s (s\<lparr>ss_queue := q\<lparr>sq_buffer := (sq_buffer q)[buffer_idx q (sq_write_pos q) := x]\<rparr>,
                   ss_producer := P_publish x\<rparr>)"
| push_publish: "ss_producer s = P_publish x \<Longrightarrow> q = ss_queue s \<Longrightarrow>
    spsc_step s (s\<lparr>ss_queue := q\<lparr>sq_write_pos := sq_write_pos q + 1\<rparr>,
                   ss_producer := P_idle, ss_pushed := ss_pushed s @ [x]\<rparr>)"
| pop_start: "ss_consumer s = C_idle \<Longrightarrow> q = ss_queue s \<Longrightarrow>
    spsc_step s (s\<lparr>ss_consumer := (if sq_read_pos q = sq_cached_write_pos q
                                  then C_refresh else C_read)\<rparr>)"
| pop_refresh: "ss_consumer s = C_refresh \<Longrightarrow>
    q = (ss_queue s)\<lparr>sq_cached_write_pos := sq_write_pos (ss_queue s)\<rparr> \<Longrightarrow>
    spsc_step s (s\<lparr>ss_queue := q,
                   ss_consumer := (if sq_read_pos q = sq_cached_write_pos q
                                   then C_idle else C_read)\<rparr>)"
| pop_read: "ss_consumer s = C_read \<Longrightarrow> q = ss_queue s \<Longrightarrow>
    spsc_step s (s\<lparr>ss_consumer := C_publish (sq_buffer q ! buffer_idx q (sq_read_pos q))\<rparr>)"
| pop_publish: "ss_consumer s = C_publish x \<Longrightarrow> q = ss_queue s \<Longrightarrow>
    spsc_step s (s\<lparr>ss_queue := q\<lparr>sq_read_pos := sq_read_pos q + 1\<rparr>,
                   ss_consumer := C_idle, ss_popped := ss_popped s @ [x]\<rparr>)"

definition spsc_init :: "'a list \<Rightarrow> 'a spsc_state" where
  "spsc_init buf = \<lparr>ss_queue = SpscQueue_new buf, ss_producer = P_idle, ss_consumer = C_idle,
     ss_pushed = [], ss_popped = []\<rparr>"

inductive spsc_reachable :: "'a list \<Rightarrow> 'a spsc_state \<Rightarrow> bool" for buf where
  start: "spsc_reachable buf (spsc_init buf)"
| step: "spsc_reachable buf s \<Longrightarrow> spsc_step s s' \<Longrightarrow> spsc_reachable buf s'"

section \<open>Counters\<close>

text \<open>
  The positions are the values modulo \<open>2 ^ 64\<close> of counters that never wrap: \<open>r\<close> items
  popped, \<open>w\<close> pushed, and the stale copies \<open>cr\<close> and \<open>cw\<close> each side keeps of the other's
  counter.
\<close>

definition pow2_length :: "'a list \<Rightarrow> bool" where
  "pow2_length xs \<longleftrightarrow> (\<exists>k < 64. length xs = 2 ^ k)"

definition counters :: "'a SpscQueue \<Rightarrow> nat \<Rightarrow> nat \<Rightarrow> nat \<Rightarrow> nat \<Rightarrow> bool" where
  "counters q cr r cw w \<longleftrightarrow>
     sq_cached_read_pos q = of_nat cr \<and> sq_read_pos q = of_nat r \<and>
     sq_cached_write_pos q = of_nat cw \<and> sq_write_pos q = of_nat w \<and>
     cr \<le> r \<and> r \<le> cw \<and> cw \<le> w \<and> w \<le> cr + length (sq_buffer q) \<and> pow2_length (sq_buffer q)"

lemma of_nat_diff_u64:
  assumes "b \<le> a" "a - b < 2 ^ 64"
  shows "unat (of_nat a - of_nat b :: u64) = a - b"
proof -
  have "(of_nat a - of_nat b :: u64) = of_nat (a - b)" using assms(1) by (simp add: of_nat_diff)
  then show ?thesis using assms(2) by (simp add: unat_of_nat_small)
qed

lemma pow2_length_bound: "pow2_length xs \<Longrightarrow> length xs < 2 ^ 64 \<and> 0 < length xs"
  using power_strict_increasing[of _ 64 "2 :: nat"] by (auto simp: pow2_length_def simp del: power_numeral)

lemma buffer_idx_of_nat:
  assumes "pow2_length (sq_buffer q)"
  shows "buffer_idx q (of_nat n) = n mod length (sq_buffer q)"
proof -
  obtain k where k: "k < 64" "length (sq_buffer q) = 2 ^ k"
    using assms by (auto simp: pow2_length_def)
  have "Capacity q - 1 = mask k" by (simp add: Capacity_def k(2) mask_eq_exp_minus_1)
  then have "(of_nat n :: u64) AND (Capacity q - 1) = take_bit k (of_nat n)"
    by (simp add: take_bit_eq_mask)
  then show ?thesis
    using k by (simp add: buffer_idx_def unsigned_take_bit_eq unsigned_of_nat take_bit_take_bit min_def)
      (simp add: take_bit_eq_mod)
qed

lemma counters_full_iff:
  assumes "counters q cr r cw w"
  shows "Capacity q \<le> sq_write_pos q - sq_cached_read_pos q \<longleftrightarrow> w = cr + length (sq_buffer q)"
    and "sq_read_pos q = sq_cached_write_pos q \<longleftrightarrow> r = cw"
    and "unat (size_approx q) = w - r"
proof -
  note c = assms[unfolded counters_def]
  note len = pow2_length_bound[of "sq_buffer q"]
  have d: "w - cr < 2 ^ 64" "cw - r < 2 ^ 64" "w - r < 2 ^ 64" using c len by linarith+
  have "unat (sq_write_pos q - sq_cached_read_pos q) = w - cr"
    using of_nat_diff_u64[OF _ d(1)] c by simp
  moreover have "unat (Capacity q) = length (sq_buffer q)"
    using len c by (simp add: Capacity_def unat_of_nat_small)
  ultimately show "Capacity q \<le> sq_write_pos q - sq_cached_read_pos q \<longleftrightarrow> w = cr + length (sq_buffer q)"
    using c by (auto simp: word_le_nat_alt)
  have "unat (sq_cached_write_pos q - sq_read_pos q) = cw - r"
    using of_nat_diff_u64[OF _ d(2)] c by simp
  then show "sq_read_pos q = sq_cached_write_pos q \<longleftrightarrow> r = cw"
    using c by (metis diff_is_0_eq eq_iff right_minus_eq unat_eq_zero)
  show "unat (size_approx q) = w - r"
    using of_nat_diff_u64[OF _ d(3)] c by (simp add: size_approx_def)
qed

lemma mod_window_neq:
  assumes "(i::nat) < j" "j < i + n"
  shows "i mod n \<noteq> j mod n"
proof
  assume "i mod n = j mod n"
  then have "n dvd j - i" using assms(1) by (metis less_imp_le mod_eq_dvd_iff_nat)
  then show False using assms by (auto dest: dvd_imp_le)
qed

definition contents :: "'a SpscQueue \<Rightarrow> 'a list" where
  "contents q = map (\<lambda>i. sq_buffer q ! buffer_idx q (sq_read_pos q + of_nat i)) [0..<unat (size_approx q)]"

definition spsc_wf :: "'a SpscQueue \<Rightarrow> bool" where
  "spsc_wf q \<longleftrightarrow> (\<exists>cr r cw w. counters q cr r cw w)"

lemma spsc_wfI: "counters q cr r cw w \<Longrightarrow> spsc_wf q"
  by (auto simp: spsc_wf_def)

definition spsc_cap :: "'a SpscQueue \<Rightarrow> nat" where
  "spsc_cap q = length (sq_buffer q)"

lemma contents_counters:
  assumes "counters q cr r cw w"
  shows "contents q = map (\<lambda>i. sq_buffer q ! (i mod length (sq_buffer q))) [r..<w]"
proof -
  have "contents q = map (\<lambda>i. sq_buffer q ! buffer_idx q (of_nat (r + i))) [0..<w - r]"
    using assms counters_full_iff(3)[OF assms] by (simp add: contents_def counters_def)
  also have "\<dots> = map (\<lambda>i. sq_buffer q ! (i mod length (sq_buffer q))) (map (\<lambda>i. i + r) [0..<w - r])"
    using assms by (simp add: buffer_idx_of_nat counters_def add.commute del: of_nat_add)
  also have "map (\<lambda>i. i + r) [0..<w - r] = [r..<w]"
    using assms map_add_upt[of r "w - r"] by (simp add: counters_def)
  finally show ?thesis .
qed

lemma counters_push_refresh:
  "counters q cr r cw w \<Longrightarrow> counters (q\<lparr>sq_cached_read_pos := sq_read_pos q\<rparr>) r r cw w"
  by (auto simp: counters_def)

lemma counters_pop_refresh:
  "counters q cr r cw w \<Longrightarrow> counters (q\<lparr>sq_cached_write_pos := sq_write_pos q\<rparr>) cr r w w"
  by (auto simp: counters_def)

lemma counters_store:
  "counters q cr r cw w \<Longrightarrow> counters (q\<lparr>sq_buffer := (sq_buffer q)[i := x]\<rparr>) cr r cw w"
  by (auto simp: counters_def pow2_length_def)

lemma counters_push_publish:
  "counters q cr r cw w \<Longrightarrow> w < cr + length (sq_buffer q) \<Longrightarrow>
   counters (q\<lparr>sq_write_pos := sq_write_pos q + 1\<rparr>) cr r cw (Suc w)"
  by (auto simp: counters_def add.commute)

lemma counters_pop_publish:
  "counters q cr r cw w \<Longrightarrow> r < cw \<Longrightarrow>
   counters (q\<lparr>sq_read_pos := sq_read_pos q + 1\<rparr>) cr (Suc r) cw w"
  by (auto simp: counters_def add.commute)

lemmas counters_updates = counters_push_refresh counters_pop_refresh counters_store
  counters_push_publish counters_pop_publish

lemma counters_write_idx:
  assumes "counters q cr r cw w"
  shows "buffer_idx q (sq_write_pos q) = w mod length (sq_buffer q)"
    "buffer_idx q (sq_read_pos q) = r mod length (sq_buffer q)"
    "w mod length (sq_buffer q) < length (sq_buffer q)"
  using assms buffer_idx_of_nat[of q] pow2_length_bound[of "sq_buffer q"]
  by (simp_all add: counters_def)

section \<open>The interface of a bounded queue\<close>

locale bounded_fifo =
  fixes push :: "'a \<Rightarrow> 'q \<Rightarrow> bool \<times> 'q"
    and pop :: "'q \<Rightarrow> 'a option \<times> 'q"
    and queue_wf :: "'q \<Rightarrow> bool"
    and queue_items :: "'q \<Rightarrow> 'a list"
    and queue_cap :: "'q \<Rightarrow> nat"
  assumes items_bounded: "queue_wf q \<Longrightarrow> length (queue_items q) \<le> queue_cap q"
    and push_wf: "queue_wf q \<Longrightarrow> queue_wf (snd (push x q)) \<and> queue_cap (snd (push x q)) = queue_cap q"
    and push_accepts: "queue_wf q \<Longrightarrow> fst (push x q) \<longleftrightarrow> length (queue_items q) < queue_cap q"
    and push_items: "queue_wf q \<Longrightarrow>
      queue_items (snd (push x q)) = (if fst (push x q) then queue_items q @ [x] else queue_items q)"
    and pop_wf: "queue_wf q \<Longrightarrow> queue_wf (snd (pop q)) \<and> queue_cap (snd (pop q)) = queue_cap q"
    and pop_result: "queue_wf q \<Longrightarrow>
      fst (pop q) = (case queue_items q of [] \<Rightarrow> None | x # xs \<Rightarrow> Some x)"
    and pop_items: "queue_wf q \<Longrightarrow> queue_items (snd (pop q)) = tl (queue_items q)"

text \<open>A sequence of operations, and what a queue of at most \<open>cap\<close> items does with it.\<close>

datatype 'a fifo_op = Push 'a | Pop

datatype 'a fifo_result = Pushed bool | Popped "'a option"

fun run_fifo ::
  "('a \<Rightarrow> 'q \<Rightarrow> bool \<times> 'q) \<Rightarrow> ('q \<Rightarrow> 'a option \<times> 'q) \<Rightarrow> 'a fifo_op list \<Rightarrow> 'q \<Rightarrow> 'a fifo_result list \<times> 'q" where
  "run_fifo push pop [] q = ([], q)"
| "run_fifo push pop (Push x # ops) q =
    (let (ok, q') = push x q; (rs, q'') = run_fifo push pop ops q' in (Pushed ok # rs, q''))"
| "run_fifo push pop (Pop # ops) q =
    (let (r, q') = pop q; (rs, q'') = run_fifo push pop ops q' in (Popped r # rs, q''))"

definition spec_push :: "nat \<Rightarrow> 'a \<Rightarrow> 'a list \<Rightarrow> bool \<times> 'a list" where
  "spec_push cap x xs = (if length xs < cap then (True, xs @ [x]) else (False, xs))"

definition spec_pop :: "'a list \<Rightarrow> 'a option \<times> 'a list" where
  "spec_pop xs = (case xs of [] \<Rightarrow> (None, []) | x # ys \<Rightarrow> (Some x, ys))"

context bounded_fifo
begin

lemma push_spec:
  assumes "queue_wf q"
  shows "spec_push (queue_cap q) x (queue_items q) = (fst (push x q), queue_items (snd (push x q)))"
  using push_accepts[OF assms, of x] push_items[OF assms, of x] by (simp add: spec_push_def)

lemma pop_spec:
  assumes "queue_wf q"
  shows "spec_pop (queue_items q) = (fst (pop q), queue_items (snd (pop q)))"
  using pop_result[OF assms] pop_items[OF assms] by (simp add: spec_pop_def split: list.splits)

lemma run_refines:
  assumes "queue_wf q" "run_fifo push pop ops q = (rs, q')"
  shows "queue_wf q' \<and> queue_cap q' = queue_cap q \<and>
    run_fifo (spec_push (queue_cap q)) spec_pop ops (queue_items q) = (rs, queue_items q')"
  using assms
proof (induction ops arbitrary: q rs)
  case Nil
  then show ?case by simp
next
  case (Cons op ops)
  show ?case
  proof (cases op)
    case (Push x)
    obtain rs' where "run_fifo push pop ops (snd (push x q)) = (rs', q')" "rs = Pushed (fst (push x q)) # rs'"
      using Cons.prems(2) Push by (auto simp: case_prod_beta' Let_def prod_eq_iff)
    then show ?thesis
      using Cons.IH[of "snd (push x q)" rs'] push_wf[OF Cons.prems(1), of x]
        push_spec[OF Cons.prems(1), of x] Push by simp
  next
    case Pop
    obtain rs' where "run_fifo push pop ops (snd (pop q)) = (rs', q')" "rs = Popped (fst (pop q)) # rs'"
      using Cons.prems(2) Pop by (auto simp: case_prod_beta' Let_def prod_eq_iff)
    then show ?thesis
      using Cons.IH[of "snd (pop q)" rs'] pop_wf[OF Cons.prems(1)] pop_spec[OF Cons.prems(1)] Pop by simp
  qed
qed

end

section \<open>The queue implements the interface\<close>

lemma spsc_push_counters:
  assumes c: "counters q cr r cw w"
  shows "(w - r = length (sq_buffer q) \<and> (\<exists>q'. try_push x q = (False, q') \<and> counters q' r r cw w \<and>
            sq_buffer q' = sq_buffer q)) \<or>
         (w - r < length (sq_buffer q) \<and> (\<exists>q' cr'. try_push x q = (True, q') \<and> counters q' cr' r cw (Suc w) \<and>
            sq_buffer q' = (sq_buffer q)[w mod length (sq_buffer q) := x]))"
proof (cases "w = cr + length (sq_buffer q)")
  case True
  let ?q = "q\<lparr>sq_cached_read_pos := sq_read_pos q\<rparr>"
  note c' = counters_push_refresh[OF c]
  have cap: "Capacity ?q = Capacity q" by (simp add: Capacity_def)
  have full: "Capacity q \<le> sq_write_pos q - sq_read_pos q \<longleftrightarrow> w = r + length (sq_buffer q)"
    using counters_full_iff(1)[OF c'] by (simp add: cap)
  have first: "Capacity q \<le> sq_write_pos q - sq_cached_read_pos q"
    using counters_full_iff(1)[OF c] True by simp
  show ?thesis
  proof (cases "w = r + length (sq_buffer q)")
    case True
    then show ?thesis using c' first full by (auto simp: try_push_def)
  next
    case False
    have b: "w < r + length (sq_buffer ?q)" using False c \<open>w = cr + _\<close> by (auto simp: counters_def)
    then have "w - r < length (sq_buffer q)" using c by (auto simp: counters_def)
    then show ?thesis
      using counters_push_publish[OF counters_store[OF c', of "w mod length (sq_buffer q)" x]] b
        first full False counters_write_idx(1)[OF c']
      by (auto simp: try_push_def)
  qed
next
  case False
  have b: "w < cr + length (sq_buffer q)" using False c by (auto simp: counters_def)
  then have "w - r < length (sq_buffer q)" using c by (auto simp: counters_def)
  moreover have "\<not> Capacity q \<le> sq_write_pos q - sq_cached_read_pos q"
    using counters_full_iff(1)[OF c] False by simp
  ultimately show ?thesis
    using counters_push_publish[OF counters_store[OF c, of "w mod length (sq_buffer q)" x]] b
      counters_write_idx(1)[OF c]
    by (auto simp: try_push_def)
qed

lemma spsc_pop_counters:
  assumes c: "counters q cr r cw w"
  shows "(w = r \<and> (\<exists>q'. try_pop q = (None, q') \<and> counters q' cr r w w \<and> sq_buffer q' = sq_buffer q)) \<or>
         (r < w \<and> (\<exists>q' cw'. try_pop q = (Some (sq_buffer q ! (r mod length (sq_buffer q))), q') \<and>
            counters q' cr (Suc r) cw' w \<and> sq_buffer q' = sq_buffer q))"
proof (cases "r = cw")
  case True
  let ?q = "q\<lparr>sq_cached_write_pos := sq_write_pos q\<rparr>"
  note c' = counters_pop_refresh[OF c]
  have empty: "sq_read_pos q = sq_write_pos q \<longleftrightarrow> r = w" using counters_full_iff(2)[OF c'] by simp
  have first: "sq_read_pos q = sq_cached_write_pos q" using counters_full_iff(2)[OF c] True by simp
  show ?thesis
  proof (cases "r = w")
    case True
    then show ?thesis using c' first empty by (auto simp: try_pop_def)
  next
    case False
    then have "r < w" using c by (auto simp: counters_def)
    then show ?thesis
      using counters_pop_publish[OF c'] first empty False counters_write_idx(2)[OF c']
      by (auto simp: try_pop_def buffer_idx_def Capacity_def)
  qed
next
  case False
  then have "r < cw" "r < w" using c by (auto simp: counters_def)
  moreover have "sq_read_pos q \<noteq> sq_cached_write_pos q" using counters_full_iff(2)[OF c] False by simp
  ultimately show ?thesis
    using counters_pop_publish[OF c] counters_write_idx(2)[OF c]
    by (auto simp: try_pop_def)
qed

lemma contents_push:
  assumes "counters q cr r cw w" "w - r < length (sq_buffer q)"
    and "counters q' cr' r cw' (Suc w)" "sq_buffer q' = (sq_buffer q)[w mod length (sq_buffer q) := x]"
  shows "contents q' = contents q @ [x]"
proof -
  let ?n = "length (sq_buffer q)"
  have "sq_buffer q' ! (i mod ?n) = sq_buffer q ! (i mod ?n)" if "i \<in> set [r..<w]" for i
  proof -
    have "i mod ?n \<noteq> w mod ?n" by (rule mod_window_neq) (use that assms(2) in auto)
    then show ?thesis using assms(4) by simp
  qed
  then show ?thesis
    using assms counters_write_idx(3)[OF assms(1)]
    by (simp add: contents_counters[OF assms(1)] contents_counters[OF assms(3)] counters_def)
qed

lemma contents_pop:
  assumes "counters q cr r cw w" "r < w" "counters q' cr' (Suc r) cw' w" "sq_buffer q' = sq_buffer q"
  shows "contents q = sq_buffer q ! (r mod length (sq_buffer q)) # contents q'"
  using assms by (simp add: contents_counters[OF assms(1)] contents_counters[OF assms(3)] upt_conv_Cons)

interpretation spsc: bounded_fifo try_push try_pop spsc_wf contents spsc_cap
proof
  fix q :: "'a SpscQueue" and x
  assume "spsc_wf q"
  then obtain cr r cw w where c: "counters q cr r cw w" by (auto simp: spsc_wf_def)
  have len: "length (contents q) = w - r" by (simp add: contents_counters[OF c])
  show "length (contents q) \<le> spsc_cap q"
    using c len by (auto simp: spsc_cap_def counters_def)
  note push = spsc_push_counters[OF c, of x]
  from push show "spsc_wf (snd (try_push x q)) \<and> spsc_cap (snd (try_push x q)) = spsc_cap q"
    by (auto simp: spsc_cap_def intro: spsc_wfI)
  from push show "fst (try_push x q) = (length (contents q) < spsc_cap q)"
    by (auto simp: len spsc_cap_def)
  from push show "contents (snd (try_push x q)) =
      (if fst (try_push x q) then contents q @ [x] else contents q)"
    using contents_push[OF c] by (auto simp: contents_counters[OF c] contents_counters)
  note pop = spsc_pop_counters[OF c]
  from pop show "spsc_wf (snd (try_pop q)) \<and> spsc_cap (snd (try_pop q)) = spsc_cap q"
    by (auto simp: spsc_cap_def intro: spsc_wfI)
  from pop show "fst (try_pop q) = (case contents q of [] \<Rightarrow> None | x # xs \<Rightarrow> Some x)"
    using contents_pop[OF c] len by (auto simp: contents_counters[OF c])
  from pop show "contents (snd (try_pop q)) = tl (contents q)"
    using contents_pop[OF c] by (auto simp: contents_counters[OF c] contents_counters)
qed

lemma counters_new: "pow2_length buf \<Longrightarrow> counters (SpscQueue_new buf) 0 0 0 0"
  by (simp add: counters_def SpscQueue_new_def)

lemma spsc_new:
  assumes "pow2_length buf"
  shows "spsc_wf (SpscQueue_new buf)" "contents (SpscQueue_new buf) = []"
    "spsc_cap (SpscQueue_new buf) = length buf"
  using counters_new[OF assms] contents_counters[OF counters_new[OF assms]]
  by (auto simp: spsc_wf_def spsc_cap_def SpscQueue_new_def)

section \<open>Interleavings\<close>

text \<open>
  The invariant of the interleaved accesses: the counters count the histories, what was popped
  is what was pushed first, the occupied part of the buffer holds the rest, and a side that is
  past its test still has what it tested.
\<close>

definition occupied :: "'a SpscQueue \<Rightarrow> 'a list \<Rightarrow> nat \<Rightarrow> bool" where
  "occupied q xs r \<longleftrightarrow> (\<forall>i. r \<le> i \<and> i < length xs \<longrightarrow> sq_buffer q ! (i mod length (sq_buffer q)) = xs ! i)"

fun producer_ok :: "'a list \<Rightarrow> nat \<Rightarrow> nat \<Rightarrow> 'a producer \<Rightarrow> bool" where
  "producer_ok buf cr w (P_write x) = (w < cr + length buf)"
| "producer_ok buf cr w (P_publish x) = (w < cr + length buf \<and> buf ! (w mod length buf) = x)"
| "producer_ok buf cr w _ = True"

fun consumer_ok :: "'a list \<Rightarrow> nat \<Rightarrow> nat \<Rightarrow> 'a consumer \<Rightarrow> bool" where
  "consumer_ok xs r cw C_read = (r < cw)"
| "consumer_ok xs r cw (C_publish x) = (r < cw \<and> x = xs ! r)"
| "consumer_ok xs r cw _ = True"

definition spsc_inv_at :: "nat \<Rightarrow> 'a spsc_state \<Rightarrow> nat \<Rightarrow> nat \<Rightarrow> bool" where
  "spsc_inv_at n s cr cw \<longleftrightarrow>
    (let q = ss_queue s; r = length (ss_popped s); w = length (ss_pushed s) in
     counters q cr r cw w \<and> length (sq_buffer q) = n \<and>
     ss_popped s = take r (ss_pushed s) \<and> occupied q (ss_pushed s) r \<and>
     producer_ok (sq_buffer q) cr w (ss_producer s) \<and> consumer_ok (ss_pushed s) r cw (ss_consumer s))"

definition spsc_inv :: "nat \<Rightarrow> 'a spsc_state \<Rightarrow> bool" where
  "spsc_inv n s \<longleftrightarrow> (\<exists>cr cw. spsc_inv_at n s cr cw)"

lemma spsc_invI: "spsc_inv_at n s cr cw \<Longrightarrow> spsc_inv n s"
  by (auto simp: spsc_inv_def)

lemma occupied_store:
  assumes "occupied q xs r" "length xs < r + length (sq_buffer q)"
  shows "occupied (q\<lparr>sq_buffer := (sq_buffer q)[length xs mod length (sq_buffer q) := x]\<rparr>) xs r"
  unfolding occupied_def
proof (intro allI impI)
  fix i
  assume i: "r \<le> i \<and> i < length xs"
  have "i mod length (sq_buffer q) \<noteq> length xs mod length (sq_buffer q)"
    by (rule mod_window_neq) (use i assms(2) in auto)
  then show "sq_buffer (q\<lparr>sq_buffer := (sq_buffer q)[length xs mod length (sq_buffer q) := x]\<rparr>) !
      (i mod length (sq_buffer (q\<lparr>sq_buffer := (sq_buffer q)[length xs mod length (sq_buffer q) := x]\<rparr>))) = xs ! i"
    using assms(1) i by (simp add: occupied_def)
qed

lemma occupied_append:
  "occupied q xs r \<Longrightarrow> sq_buffer q ! (length xs mod length (sq_buffer q)) = x \<Longrightarrow> occupied q (xs @ [x]) r"
  by (auto simp: occupied_def nth_append less_Suc_eq)

lemma occupied_Suc: "occupied q xs r \<Longrightarrow> occupied q xs (Suc r)"
  by (simp add: occupied_def)

lemma occupied_positions [simp]:
  "occupied (q\<lparr>sq_write_pos := a\<rparr>) = occupied q" "occupied (q\<lparr>sq_read_pos := a\<rparr>) = occupied q"
  "occupied (q\<lparr>sq_cached_read_pos := a\<rparr>) = occupied q"
  "occupied (q\<lparr>sq_cached_write_pos := a\<rparr>) = occupied q"
  by (simp_all add: occupied_def fun_eq_iff)

lemma consumer_ok_append:
  "cw \<le> length xs \<Longrightarrow> consumer_ok xs r cw c \<Longrightarrow> consumer_ok (xs @ ys) r cw c"
  by (cases c) (auto simp: nth_append)

lemma consumer_ok_mono: "consumer_ok xs r cw c \<Longrightarrow> cw \<le> cw' \<Longrightarrow> consumer_ok xs r cw' c"
  by (cases c) auto

lemma producer_ok_mono: "producer_ok buf cr w c \<Longrightarrow> cr \<le> cr' \<Longrightarrow> producer_ok buf cr' w c"
  by (cases c) auto

lemma spsc_inv_step:
  assumes "spsc_inv n s" "spsc_step s s'"
  shows "spsc_inv n s'"
proof -
  obtain cr cw where inv: "counters (ss_queue s) cr (length (ss_popped s)) cw (length (ss_pushed s))"
    "length (sq_buffer (ss_queue s)) = n" "ss_popped s = take (length (ss_popped s)) (ss_pushed s)"
    "occupied (ss_queue s) (ss_pushed s) (length (ss_popped s))"
    "producer_ok (sq_buffer (ss_queue s)) cr (length (ss_pushed s)) (ss_producer s)"
    "consumer_ok (ss_pushed s) (length (ss_popped s)) cw (ss_consumer s)"
    using assms(1) unfolding spsc_inv_def spsc_inv_at_def Let_def by blast
  note idx = counters_write_idx[OF inv(1)]
  have ord: "cr \<le> length (ss_popped s)" "length (ss_popped s) \<le> cw" "cw \<le> length (ss_pushed s)"
    "length (ss_pushed s) \<le> cr + n"
    using inv(1,2) by (auto simp: counters_def)
  from assms(2) show ?thesis
  proof (cases rule: spsc_step.cases)
    case (push_start q x)
    have "length (ss_pushed s) < cr + n" if "\<not> Capacity q \<le> sq_write_pos q - sq_cached_read_pos q"
      using counters_full_iff(1)[OF inv(1)] that push_start ord inv(2) by auto
    then have "spsc_inv_at n s' cr cw"
      using inv push_start unfolding spsc_inv_at_def Let_def by auto
    then show ?thesis by (rule spsc_invI)
  next
    case (push_refresh x q)
    note c = counters_push_refresh[OF inv(1)]
    have "length (ss_pushed s) < length (ss_popped s) + n"
      if "\<not> Capacity q \<le> sq_write_pos q - sq_cached_read_pos q"
      using counters_full_iff(1)[OF c] that push_refresh ord inv(2) by auto
    then have "spsc_inv_at n s' (length (ss_popped s)) cw"
      using inv c push_refresh unfolding spsc_inv_at_def Let_def by auto
    then show ?thesis by (rule spsc_invI)
  next
    case (push_write x q)
    have b: "length (ss_pushed s) < cr + n" using inv(2,5) push_write by simp
    have "length (ss_pushed s) < length (ss_popped s) + n" using b ord by simp
    then have "spsc_inv_at n s' cr cw"
      using inv counters_store[OF inv(1)] occupied_store[OF inv(4)] push_write b ord idx unfolding spsc_inv_at_def Let_def by auto
    then show ?thesis by (rule spsc_invI)
  next
    case (push_publish x q)
    have b: "length (ss_pushed s) < cr + n" "sq_buffer q ! (length (ss_pushed s) mod n) = x"
      using inv(2,5) push_publish by simp_all
    then have "spsc_inv_at n s' cr cw"
      using inv counters_push_publish[OF inv(1)] occupied_append[OF inv(4)] push_publish ord unfolding spsc_inv_at_def Let_def by (auto simp: consumer_ok_append)
    then show ?thesis by (rule spsc_invI)
  next
    case (pop_start q)
    have "length (ss_popped s) < cw" if "sq_read_pos q \<noteq> sq_cached_write_pos q"
      using counters_full_iff(2)[OF inv(1)] that pop_start ord by auto
    then have "spsc_inv_at n s' cr cw"
      using inv pop_start unfolding spsc_inv_at_def Let_def by auto
    then show ?thesis by (rule spsc_invI)
  next
    case (pop_refresh q)
    note c = counters_pop_refresh[OF inv(1)]
    have "length (ss_popped s) < length (ss_pushed s)" if "sq_read_pos q \<noteq> sq_cached_write_pos q"
      using counters_full_iff(2)[OF c] that pop_refresh ord by auto
    then have "spsc_inv_at n s' cr (length (ss_pushed s))"
      using inv c pop_refresh unfolding spsc_inv_at_def Let_def by auto
    then show ?thesis by (rule spsc_invI)
  next
    case (pop_read q)
    have b: "length (ss_popped s) < cw" using inv(6) pop_read by simp
    then have "sq_buffer q ! (length (ss_popped s) mod n) = ss_pushed s ! length (ss_popped s)"
      using inv(2,4) ord pop_read by (simp add: occupied_def)
    then have "spsc_inv_at n s' cr cw"
      using inv pop_read b idx unfolding spsc_inv_at_def Let_def by auto
    then show ?thesis by (rule spsc_invI)
  next
    case (pop_publish x q)
    have b: "length (ss_popped s) < cw" "x = ss_pushed s ! length (ss_popped s)"
      using inv(6) pop_publish by simp_all
    have "ss_popped s @ [x] = take (Suc (length (ss_popped s))) (ss_pushed s)"
      using inv(3) b ord by (simp add: take_Suc_conv_app_nth)
    moreover have "min (length (ss_pushed s)) (Suc (length (ss_popped s))) = Suc (length (ss_popped s))"
      using b ord by simp
    ultimately have "spsc_inv_at n s' cr cw"
      using inv counters_pop_publish[OF inv(1)] occupied_Suc[OF inv(4)] pop_publish b unfolding spsc_inv_at_def Let_def by (auto simp: consumer_ok_append)
    then show ?thesis by (rule spsc_invI)
  qed
qed

lemma spsc_reachable_inv:
  assumes "spsc_reachable buf s" "pow2_length buf"
  shows "spsc_inv (length buf) s"
  using assms(1)
proof induction
  case start
  show ?case
    by (rule spsc_invI[of _ _ 0 0], use counters_new[OF assms(2)] in
      \<open>auto simp: spsc_inv_at_def spsc_init_def occupied_def SpscQueue_new_def\<close>)
next
  case (step s s')
  then show ?case using spsc_inv_step by blast
qed

lemma contents_drop:
  assumes "counters q cr r cw (length xs)" "occupied q xs r"
  shows "contents q = drop r xs"
proof -
  have "contents q = map (\<lambda>i. xs ! i) [r..<length xs]"
    unfolding contents_counters[OF assms(1)] using assms(2) by (auto simp: occupied_def)
  then show ?thesis by (simp add: list_eq_iff_nth_eq)
qed

section \<open>Properties\<close>

text \<open>
  Run as whole operations, the queue is a bounded first-in first-out queue: every
  sequence of pushes and pops returns what a list of at most \<^verbatim>\<open>Capacity\<close> items returns, also
  after the 64-bit positions have wrapped around.
\<close>

theorem spsc_refines_fifo:
  assumes "pow2_length buf"
  shows "fst (run_fifo try_push try_pop ops (SpscQueue_new buf)) =
    fst (run_fifo (spec_push (length buf)) spec_pop ops [])"
proof -
  obtain rs q' where r: "run_fifo try_push try_pop ops (SpscQueue_new buf) = (rs, q')" by force
  show ?thesis using spsc.run_refines[OF spsc_new(1)[OF assms] r] r by (simp add: spsc_new[OF assms])
qed

theorem spsc_refines_fifo_witness:
  "fst (run_fifo try_push try_pop [Push 1, Push 2, Push 3, Pop, Pop, Pop] (SpscQueue_new [0, 0 :: nat])) =
   [Pushed True, Pushed True, Pushed False, Popped (Some 1), Popped (Some 2), Popped None]"
proof -
  have "pow2_length [0, 0 :: nat]" by (auto simp: pow2_length_def intro!: exI[of _ 1])
  from spsc_refines_fifo[OF this, of "[Push 1, Push 2, Push 3, Pop, Pop, Pop]"] show ?thesis
    by (simp add: spec_push_def spec_pop_def)
qed

text \<open>
  Property C21. In every interleaving of the accesses of one producer and one consumer, what was
  popped followed by what the buffer holds is what was pushed, in order, and at most
  \<^verbatim>\<open>Capacity\<close> items are held. The producer never stores into the slot the consumer is reading.
  A push is refused only when the queue is full at its load of \<^verbatim>\<open>read_pos_\<close>, and a pop only
  when the queue is empty at its load of \<^verbatim>\<open>write_pos_\<close>.
\<close>

theorem spsc_concurrent_fifo:
  assumes "pow2_length buf" "spsc_reachable buf s"
  shows "ss_pushed s = ss_popped s @ contents (ss_queue s) \<and> length (contents (ss_queue s)) \<le> length buf \<and>
    (ss_producer s = P_write x \<and> ss_consumer s = C_read \<longrightarrow>
       buffer_idx (ss_queue s) (sq_write_pos (ss_queue s)) \<noteq> buffer_idx (ss_queue s) (sq_read_pos (ss_queue s))) \<and>
    (spsc_step s s' \<and> ss_producer s = P_refresh x \<and> ss_producer s' = P_idle \<longrightarrow>
       length (contents (ss_queue s)) = length buf) \<and>
    (spsc_step s s' \<and> ss_consumer s = C_refresh \<and> ss_consumer s' = C_idle \<longrightarrow> contents (ss_queue s) = [])"
proof -
  let ?q = "ss_queue s" and ?r = "length (ss_popped s)" and ?w = "length (ss_pushed s)"
  obtain cr cw where inv: "counters ?q cr ?r cw ?w" "length (sq_buffer ?q) = length buf"
    "ss_popped s = take ?r (ss_pushed s)" "occupied ?q (ss_pushed s) ?r"
    "producer_ok (sq_buffer ?q) cr ?w (ss_producer s)" "consumer_ok (ss_pushed s) ?r cw (ss_consumer s)"
    using spsc_reachable_inv[OF assms(2,1)] unfolding spsc_inv_def spsc_inv_at_def Let_def by blast
  have items: "contents ?q = drop ?r (ss_pushed s)" by (rule contents_drop[OF inv(1,4)])
  have ord: "cr \<le> ?r" "?r \<le> cw" "cw \<le> ?w" "?w \<le> cr + length buf"
    using inv(1,2) by (auto simp: counters_def)
  have race: "buffer_idx ?q (sq_write_pos ?q) \<noteq> buffer_idx ?q (sq_read_pos ?q)"
    if "ss_producer s = P_write x" "ss_consumer s = C_read"
    unfolding counters_write_idx(1,2)[OF inv(1)] inv(2)
    using mod_window_neq[of ?r ?w "length buf"] inv(2,5,6) ord that by auto
  have full: "?w = ?r + length buf" if "spsc_step s s'" "ss_producer s = P_refresh x" "ss_producer s' = P_idle"
    using that(1)
  proof (cases rule: spsc_step.cases)
    case (push_refresh y q)
    then show ?thesis
      using counters_full_iff(1)[OF counters_push_refresh[OF inv(1)]] that inv(2) by (auto split: if_splits)
  qed (use that in auto)
  have empty: "?w = ?r" if "spsc_step s s'" "ss_consumer s = C_refresh" "ss_consumer s' = C_idle"
    using that(1)
  proof (cases rule: spsc_step.cases)
    case (pop_refresh q)
    then show ?thesis
      using counters_full_iff(2)[OF counters_pop_refresh[OF inv(1)]] that by (auto split: if_splits)
  qed (use that in auto)
  show ?thesis
  proof (intro conjI impI)
    show "ss_pushed s = ss_popped s @ contents ?q" unfolding items by (subst inv(3)) simp
    show "length (contents ?q) \<le> length buf" unfolding items using ord by simp
  qed (use race full empty items in \<open>blast | simp\<close>)+
qed

theorem spsc_concurrent_fifo_witness:
  "\<exists>s. spsc_reachable [0, 0 :: nat] s \<and> ss_producer s = P_publish 7 \<and>
     ss_pushed s = ss_popped s @ contents (ss_queue s)"
proof -
  have p: "pow2_length [0, 0 :: nat]" by (auto simp: pow2_length_def intro!: exI[of _ 1])
  let ?s = "(spsc_init [0, 0 :: nat])\<lparr>ss_producer := P_write 7\<rparr>"
  have 1: "spsc_reachable [0, 0 :: nat] ?s"
    using spsc_reachable.step[OF spsc_reachable.start[of "[0, 0 :: nat]"] push_start[OF _ refl, of _ 7]]
    by (simp add: spsc_init_def SpscQueue_new_def Capacity_def)
  have w: "ss_producer ?s = P_write 7" by simp
  note 2 = spsc_reachable.step[OF 1 push_write[OF w refl]]
  show ?thesis using 2 spsc_concurrent_fifo[OF p 2] by (intro exI conjI) (assumption, simp_all)
qed

end
