(* ===== verification/Feed_Stats.thy ===== *)
theory Feed_Stats
  imports Itch_Prelude
begin

text \<open>
  The counters of \<^verbatim>\<open>struct FeedStats\<close> in \<^verbatim>\<open>include/monitoring/metrics_reporter.hpp\<close>. Every
  counter is incremented with a relaxed \<^verbatim>\<open>fetch_add\<close> by one thread and read by the reporter
  only; it wraps at \<open>2 ^ 64\<close>.
\<close>

record FeedStats =
  fs_packets_received :: counter
  fs_packets_dropped :: counter
  fs_messages_parsed :: counter
  fs_sequence_gaps :: counter
  fs_sequence_dups :: counter
  fs_shard_queue_drops :: "counter list"
  fs_price_level_drops :: "counter list"
  fs_recovered_packets :: counter
  fs_recovery_drops :: counter
  fs_order_replaces_inplace :: "counter list"
  fs_secondary_packets :: counter
  fs_dedup_drops :: counter
  fs_feed_failover_count :: counter
  fs_merged_drops :: counter
  fs_msg_type_count :: "counter list"

definition FeedStats_init :: FeedStats where
  "FeedStats_init =
    \<lparr>fs_packets_received = 0, fs_packets_dropped = 0, fs_messages_parsed = 0, fs_sequence_gaps = 0,
     fs_sequence_dups = 0, fs_shard_queue_drops = replicate NUM_SHARDS 0,
     fs_price_level_drops = replicate NUM_SHARDS 0, fs_recovered_packets = 0, fs_recovery_drops = 0,
     fs_order_replaces_inplace = replicate NUM_SHARDS 0, fs_secondary_packets = 0,
     fs_dedup_drops = 0, fs_feed_failover_count = 0, fs_merged_drops = 0,
     fs_msg_type_count = replicate 256 0\<rparr>"

text \<open>\<^verbatim>\<open>counters[i].fetch_add(1)\<close> on an array of counters; every caller's index is in range.\<close>

definition bump :: "nat \<Rightarrow> counter list \<Rightarrow> counter list" where
  "bump i cs = cs[i := cs ! i + 1]"

lemma length_bump [simp]: "length (bump i cs) = length cs"
  by (simp add: bump_def)

lemma nth_bump: "i < length cs \<Longrightarrow> bump i cs ! j = (if i = j then cs ! i + 1 else cs ! j)"
  by (simp add: bump_def nth_list_update)

end
