(* ===== verification/Shard_Routing.thy ===== *)
theory Shard_Routing
  imports Spsc_Queue Feed_Stats Itch_Messages
begin

text \<open>
  The symbol directory and the router: \<^verbatim>\<open>src/routing/symbol_directory.cpp\<close> and
  \<^verbatim>\<open>src/routing/shard_router.cpp\<close>. The router only reads the pure function
  \<open>shard_for_locate\<close> of the directory, so it does not carry the directory.
\<close>

section \<open>SymbolDirectory\<close>

record SymbolInfo =
  si_ticker :: "u8 list"
  si_locate :: LocateCode
  si_shard :: nat
  si_market_category :: u8
  si_round_lot_size :: u32
  si_financial_status :: u8
  si_is_active :: bool

definition SymbolInfo_init :: SymbolInfo where
  "SymbolInfo_init = \<lparr>si_ticker = replicate 9 0, si_locate = 0, si_shard = 0, si_market_category = 0,
     si_round_lot_size = 100, si_financial_status = 0, si_is_active = False\<rparr>"

record SymbolDirectory =
  sy_symbols :: "SymbolInfo list"
  sy_count :: counter

definition SymbolDirectory_new :: SymbolDirectory where
  "SymbolDirectory_new = \<lparr>sy_symbols = replicate MAX_LOCATE SymbolInfo_init, sy_count = 0\<rparr>"

definition shard_for_locate :: "LocateCode \<Rightarrow> nat" where
  "shard_for_locate loc = unat loc mod NUM_SHARDS"

definition register_symbol ::
  "LocateCode \<Rightarrow> u8 list \<Rightarrow> u32 \<Rightarrow> u8 \<Rightarrow> u8 \<Rightarrow> SymbolDirectory \<Rightarrow> SymbolDirectory" where
  "register_symbol loc stock8 lot_size market_cat fin_status dir =
    (if loc = 0 \<or> MAX_LOCATE \<le> unat loc then dir
     else dir\<lparr>sy_symbols := (sy_symbols dir)[unat loc :=
                \<lparr>si_ticker = take 8 stock8 @ [0], si_locate = loc, si_shard = unat loc mod NUM_SHARDS,
                 si_market_category = market_cat, si_round_lot_size = lot_size,
                 si_financial_status = fin_status, si_is_active = True\<rparr>],
              sy_count := sy_count dir + 1\<rparr>)"

definition lookup :: "LocateCode \<Rightarrow> SymbolDirectory \<Rightarrow> SymbolInfo option" where
  "lookup loc dir =
    (if loc = 0 \<or> MAX_LOCATE \<le> unat loc then None
     else let s = sy_symbols dir ! unat loc in if si_is_active s then Some s else None)"

definition directory_reset :: "SymbolDirectory \<Rightarrow> SymbolDirectory" where
  "directory_reset dir =
    dir\<lparr>sy_symbols := map (\<lambda>s. s\<lparr>si_is_active := False\<rparr>) (sy_symbols dir), sy_count := 0\<rparr>"

section \<open>ShardRouter\<close>

datatype RouteResult = Ok | QueueFull

record ShardRouter =
  sr_queues :: "ItchMsg SpscQueue list"
  sr_stats :: FeedStats
  sr_pressure_threshold :: u64

definition ShardRouter_new :: "FeedStats \<Rightarrow> u64 \<Rightarrow> ShardRouter" where
  "ShardRouter_new stats pressure_threshold =
    \<lparr>sr_queues = replicate NUM_SHARDS (SpscQueue_new (replicate SHARD_QUEUE_DEPTH ItchMsg_init)),
     sr_stats = stats, sr_pressure_threshold = pressure_threshold\<rparr>"

definition is_admin_message :: "MessageType \<Rightarrow> bool" where
  "is_admin_message t \<longleftrightarrow>
    (case t of SystemEvent \<Rightarrow> True | StockDirectory \<Rightarrow> True | StockTradingAction \<Rightarrow> True | RegSHO \<Rightarrow> True
     | MWCBDecline \<Rightarrow> True | MWCBStatus \<Rightarrow> True | OperationalHalt \<Rightarrow> True | _ \<Rightarrow> False)"

text \<open>One \<^verbatim>\<open>try_push\<close> with the drop counter of the shard.\<close>

definition push_shard :: "nat \<Rightarrow> ItchMsg \<Rightarrow> ShardRouter \<Rightarrow> bool \<times> ShardRouter" where
  "push_shard s msg r =
    (let (ok, q) = try_push msg (sr_queues r ! s); r1 = r\<lparr>sr_queues := (sr_queues r)[s := q]\<rparr> in
     if ok then (True, r1)
     else (False, r1\<lparr>sr_stats := (sr_stats r)\<lparr>fs_shard_queue_drops := bump s (fs_shard_queue_drops (sr_stats r))\<rparr>\<rparr>))"

fun broadcast_loop :: "nat list \<Rightarrow> ItchMsg \<Rightarrow> RouteResult \<Rightarrow> ShardRouter \<Rightarrow> RouteResult \<times> ShardRouter" where
  "broadcast_loop [] msg result r = (result, r)"
| "broadcast_loop (s # ss) msg result r =
    (let (ok, r') = push_shard s msg r
     in broadcast_loop ss msg (if ok then result else QueueFull) r')"

definition broadcast :: "ItchMsg \<Rightarrow> ShardRouter \<Rightarrow> RouteResult \<times> ShardRouter" where
  "broadcast msg r = broadcast_loop [0..<NUM_SHARDS] msg Ok r"

definition route :: "ItchMsg \<Rightarrow> ShardRouter \<Rightarrow> RouteResult \<times> ShardRouter" where
  "route msg r =
    (if is_admin_message (im_type msg) then broadcast msg r
     else let (ok, r') = push_shard (shard_for_locate (im_locate msg)) msg r
          in (if ok then Ok else QueueFull, r'))"

definition queue_depth :: "nat \<Rightarrow> ShardRouter \<Rightarrow> u64" where
  "queue_depth shard r = size_approx (sr_queues r ! shard)"

definition shard_pressure_high :: "nat \<Rightarrow> ShardRouter \<Rightarrow> bool" where
  "shard_pressure_high shard r = is_pressure_high (sr_pressure_threshold r) (sr_queues r ! shard)"

section \<open>The directory as a map\<close>

definition directory_ok :: "SymbolDirectory \<Rightarrow> bool" where
  "directory_ok dir \<longleftrightarrow> length (sy_symbols dir) = MAX_LOCATE"

lemma directory_ok_ops:
  "directory_ok SymbolDirectory_new"
  "directory_ok dir \<Longrightarrow> directory_ok (register_symbol loc st lot m f dir)"
  "directory_ok dir \<Longrightarrow> directory_ok (directory_reset dir)"
  by (simp_all add: directory_ok_def SymbolDirectory_new_def register_symbol_def directory_reset_def)

lemma locate_in_range: "unat (loc :: LocateCode) < MAX_LOCATE"
  using unat_bound[of loc] by (simp add: MAX_LOCATE_def)

lemma lookup_register:
  assumes "directory_ok dir" "loc \<noteq> 0"
  shows "lookup loc' (register_symbol loc st lot m f dir) =
    (if loc' = loc then Some \<lparr>si_ticker = take 8 st @ [0], si_locate = loc, si_shard = shard_for_locate loc,
       si_market_category = m, si_round_lot_size = lot, si_financial_status = f, si_is_active = True\<rparr>
     else lookup loc' dir)"
  using assms locate_in_range[of loc]
  by (auto simp: lookup_def register_symbol_def directory_ok_def shard_for_locate_def nth_list_update
      word_unat_eq_iff Let_def)

lemma lookup_reset: "directory_ok dir \<Longrightarrow> lookup loc (directory_reset dir) = None"
  using locate_in_range[of loc] by (simp add: lookup_def directory_reset_def directory_ok_def)

section \<open>Delivery\<close>

definition router_ok :: "ShardRouter \<Rightarrow> bool" where
  "router_ok r \<longleftrightarrow> length (sr_queues r) = NUM_SHARDS \<and> (\<forall>q \<in> set (sr_queues r). spsc_wf q) \<and>
     length (fs_shard_queue_drops (sr_stats r)) = NUM_SHARDS"

definition shard_items :: "ShardRouter \<Rightarrow> nat \<Rightarrow> ItchMsg list" where
  "shard_items r s = contents (sr_queues r ! s)"

definition shard_drops :: "ShardRouter \<Rightarrow> nat \<Rightarrow> counter" where
  "shard_drops r s = fs_shard_queue_drops (sr_stats r) ! s"

definition shard_room :: "ShardRouter \<Rightarrow> nat \<Rightarrow> bool" where
  "shard_room r s \<longleftrightarrow> length (shard_items r s) < spsc_cap (sr_queues r ! s)"

text \<open>The shards a message goes to.\<close>

definition targets :: "ItchMsg \<Rightarrow> nat set" where
  "targets msg = (if is_admin_message (im_type msg) then {0..<NUM_SHARDS} else {shard_for_locate (im_locate msg)})"

lemma push_shard_spec:
  assumes "router_ok r" "s < NUM_SHARDS" "push_shard s msg r = (ok, r')"
  shows "router_ok r'" "ok \<longleftrightarrow> shard_room r s"
    "\<And>t. t < NUM_SHARDS \<Longrightarrow> shard_items r' t = shard_items r t @ (if t = s \<and> ok then [msg] else [])"
    "\<And>t. t < NUM_SHARDS \<Longrightarrow> shard_drops r' t = shard_drops r t + (if t = s \<and> \<not> ok then 1 else 0)"
    "\<And>t. t < NUM_SHARDS \<Longrightarrow> t \<noteq> s \<Longrightarrow> shard_room r' t = shard_room r t"
    "\<And>t. t < NUM_SHARDS \<Longrightarrow> spsc_cap (sr_queues r' ! t) = spsc_cap (sr_queues r ! t)"
proof -
  let ?q = "sr_queues r ! s"
  have len: "s < length (sr_queues r)" "length (fs_shard_queue_drops (sr_stats r)) = NUM_SHARDS"
    using assms(1,2) by (simp_all add: router_ok_def)
  have wf: "spsc_wf ?q" using assms(1) len by (simp add: router_ok_def)
  obtain q where push: "try_push msg ?q = (ok, q)"
    using assms(3) by (auto simp: push_shard_def case_prod_beta Let_def prod_eq_iff split: if_splits)
  then have r': "sr_queues r' = (sr_queues r)[s := q]"
    "fs_shard_queue_drops (sr_stats r') =
       (if ok then fs_shard_queue_drops (sr_stats r) else bump s (fs_shard_queue_drops (sr_stats r)))"
    using assms(3) by (auto simp: push_shard_def Let_def split: if_splits)
  note spec = spsc.push_wf[OF wf, of msg] spsc.push_items[OF wf, of msg] spsc.push_accepts[OF wf, of msg]
  show "router_ok r'"
    using assms(1) r' spec push by (auto simp: router_ok_def dest: set_update_subset_insert[THEN subsetD])
  show "ok \<longleftrightarrow> shard_room r s" using spec(3) push by (simp add: shard_room_def shard_items_def)
  show "shard_items r' t = shard_items r t @ (if t = s \<and> ok then [msg] else [])" if "t < NUM_SHARDS" for t
    using r'(1) spec(2) push len by (auto simp: shard_items_def nth_list_update)
  show "shard_drops r' t = shard_drops r t + (if t = s \<and> \<not> ok then 1 else 0)" if "t < NUM_SHARDS" for t
    using r'(2) len assms(2) by (auto simp: shard_drops_def nth_bump)
  show "shard_room r' t = shard_room r t" if "t < NUM_SHARDS" "t \<noteq> s" for t
    using r'(1) that len by (simp add: shard_room_def shard_items_def)
  show "spsc_cap (sr_queues r' ! t) = spsc_cap (sr_queues r ! t)" if "t < NUM_SHARDS" for t
    using r'(1) spec(1) push len by (auto simp: nth_list_update)
qed

lemma broadcast_loop_spec:
  assumes "router_ok r" "distinct ss" "set ss \<subseteq> {0..<NUM_SHARDS}" "broadcast_loop ss msg res r = (res', r')"
  shows "router_ok r' \<and> res' = (if \<forall>s \<in> set ss. shard_room r s then res else QueueFull) \<and>
    (\<forall>t < NUM_SHARDS. shard_items r' t = shard_items r t @ (if t \<in> set ss \<and> shard_room r t then [msg] else []) \<and>
       shard_drops r' t = shard_drops r t + (if t \<in> set ss \<and> \<not> shard_room r t then 1 else 0) \<and>
       spsc_cap (sr_queues r' ! t) = spsc_cap (sr_queues r ! t))"
  using assms
proof (induction ss arbitrary: r res)
  case Nil
  then show ?case by simp
next
  case (Cons s ss)
  obtain ok r1 where one: "push_shard s msg r = (ok, r1)" by force
  have s: "s < NUM_SHARDS" "s \<notin> set ss" using Cons.prems(2,3) by auto
  note p = push_shard_spec[OF Cons.prems(1) s(1) one]
  have rest: "broadcast_loop ss msg (if ok then res else QueueFull) r1 = (res', r')"
    using Cons.prems(4) one by simp
  have room: "shard_room r1 t = shard_room r t" if "t \<in> set ss" for t
  proof -
    have "t < NUM_SHARDS" "t \<noteq> s" using that s(2) Cons.prems(3) by auto
    then show ?thesis by (rule p(5))
  qed
  have ih: "router_ok r' \<and> res' = (if \<forall>s \<in> set ss. shard_room r1 s then (if ok then res else QueueFull) else QueueFull) \<and>
    (\<forall>t < NUM_SHARDS. shard_items r' t = shard_items r1 t @ (if t \<in> set ss \<and> shard_room r1 t then [msg] else []) \<and>
       shard_drops r' t = shard_drops r1 t + (if t \<in> set ss \<and> \<not> shard_room r1 t then 1 else 0) \<and>
       spsc_cap (sr_queues r' ! t) = spsc_cap (sr_queues r1 ! t))"
    using Cons.IH[OF p(1) _ _ rest] Cons.prems(2,3) by simp
  have "shard_items r' t = shard_items r t @ (if t \<in> set (s # ss) \<and> shard_room r t then [msg] else []) \<and>
       shard_drops r' t = shard_drops r t + (if t \<in> set (s # ss) \<and> \<not> shard_room r t then 1 else 0) \<and>
       spsc_cap (sr_queues r' ! t) = spsc_cap (sr_queues r ! t)" if t: "t < NUM_SHARDS" for t
  proof (cases "t = s")
    case True
    then show ?thesis using ih t p(2) p(3,4,6)[OF t] s(2) by auto
  next
    case False
    then show ?thesis using ih t p(3,4,6)[OF t] room[of t] by auto
  qed
  moreover have "res' = (if \<forall>t \<in> set (s # ss). shard_room r t then res else QueueFull)"
    using ih p(2) room by auto
  ultimately show ?case using ih by blast
qed

lemma route_spec:
  assumes "router_ok r" "route msg r = (res, r')"
  shows "router_ok r' \<and> (res = Ok \<longleftrightarrow> (\<forall>s \<in> targets msg. shard_room r s)) \<and>
    (\<forall>s < NUM_SHARDS.
       shard_items r' s = shard_items r s @ (if s \<in> targets msg \<and> shard_room r s then [msg] else []) \<and>
       shard_drops r' s = shard_drops r s + (if s \<in> targets msg \<and> \<not> shard_room r s then 1 else 0) \<and>
       spsc_cap (sr_queues r' ! s) = spsc_cap (sr_queues r ! s))"
proof (cases "is_admin_message (im_type msg)")
  case True
  then have "broadcast_loop [0..<NUM_SHARDS] msg Ok r = (res, r')"
    using assms(2) by (simp add: route_def broadcast_def)
  from broadcast_loop_spec[OF assms(1) _ _ this] show ?thesis
    using True by (auto simp: targets_def)
next
  case False
  let ?s = "shard_for_locate (im_locate msg)"
  obtain ok where push: "push_shard ?s msg r = (ok, r')" "res = (if ok then Ok else QueueFull)"
    using assms(2) False by (auto simp: route_def split: prod.splits)
  have s: "?s < NUM_SHARDS" by (simp add: shard_for_locate_def NUM_SHARDS_def)
  note p = push_shard_spec[OF assms(1) s push(1)]
  show ?thesis using p(1,2,3,4,6) push(2) False by (auto simp: targets_def)
qed

text \<open>
  \<open>delivers r f r'\<close>: every queue gets the messages \<open>f s\<close> at its end, in order, provided that
  it has room for all of them.
\<close>

definition delivers :: "ShardRouter \<Rightarrow> (nat \<Rightarrow> ItchMsg list) \<Rightarrow> ShardRouter \<Rightarrow> bool" where
  "delivers r f r' \<longleftrightarrow> router_ok r' \<and> (\<forall>s < NUM_SHARDS.
     spsc_cap (sr_queues r' ! s) = spsc_cap (sr_queues r ! s) \<and>
     (length (shard_items r s) + length (f s) \<le> spsc_cap (sr_queues r ! s) \<longrightarrow>
        shard_items r' s = shard_items r s @ f s))"

lemma delivers_refl: "router_ok r \<Longrightarrow> delivers r (\<lambda>_. []) r"
  by (simp add: delivers_def)

lemma delivers_trans:
  assumes "delivers r f r1" "delivers r1 g r2"
  shows "delivers r (\<lambda>s. f s @ g s) r2"
  using assms by (auto simp: delivers_def)

lemma delivers_route:
  assumes "router_ok r"
  shows "delivers r (\<lambda>s. if s \<in> targets msg then [msg] else []) (snd (route msg r))"
proof -
  obtain res r' where r: "route msg r = (res, r')" by force
  show ?thesis using route_spec[OF assms r] r by (auto simp: delivers_def shard_room_def)
qed

lemma delivers_broadcast:
  assumes "router_ok r"
  shows "delivers r (\<lambda>_. [msg]) (snd (broadcast msg r))"
proof -
  obtain res r' where r: "broadcast_loop [0..<NUM_SHARDS] msg Ok r = (res, r')" by force
  show ?thesis using broadcast_loop_spec[OF assms _ _ r] r by (auto simp: delivers_def shard_room_def broadcast_def)
qed

section \<open>Properties\<close>

text \<open>
  A message goes to the queue of shard \<open>locate mod 8\<close>, an administrative one to all
  eight. Every target queue with room gets it at its end, once; for every full target its drop
  counter, and no other, is raised; the result says whether some target was full; the other
  queues keep their contents.
\<close>

theorem route_delivers:
  assumes "router_ok r" "route msg r = (res, r')"
  shows "router_ok r' \<and> (res = Ok \<longleftrightarrow> (\<forall>s \<in> targets msg. shard_room r s)) \<and>
    (\<forall>s < NUM_SHARDS.
       shard_items r' s = shard_items r s @ (if s \<in> targets msg \<and> shard_room r s then [msg] else []) \<and>
       shard_drops r' s = shard_drops r s + (if s \<in> targets msg \<and> \<not> shard_room r s then 1 else 0))"
  using route_spec[OF assms] by blast

lemma router_ok_new:
  "router_ok (ShardRouter_new FeedStats_init t)"
  "s < NUM_SHARDS \<Longrightarrow> shard_items (ShardRouter_new FeedStats_init t) s = []"
  "s < NUM_SHARDS \<Longrightarrow> shard_room (ShardRouter_new FeedStats_init t) s"
proof -
  have "pow2_length (replicate SHARD_QUEUE_DEPTH ItchMsg_init)"
    unfolding pow2_length_def by (intro exI[of _ 18]) (simp add: SHARD_QUEUE_DEPTH_def)
  note q = spsc_new[OF this]
  show "router_ok (ShardRouter_new FeedStats_init t)"
    using q(1) by (simp add: router_ok_def ShardRouter_new_def FeedStats_init_def)
  assume s: "s < NUM_SHARDS"
  then show items: "shard_items (ShardRouter_new FeedStats_init t) s = []"
    using q(2) by (simp add: shard_items_def ShardRouter_new_def)
  show "shard_room (ShardRouter_new FeedStats_init t) s"
    using q(3) s items by (simp add: shard_room_def ShardRouter_new_def SHARD_QUEUE_DEPTH_def)
qed

theorem route_delivers_witness:
  "shard_items (snd (route (ItchMsg_init\<lparr>im_type := OrderDelete, im_locate := 11\<rparr>)
     (ShardRouter_new FeedStats_init 9))) 3 = [ItchMsg_init\<lparr>im_type := OrderDelete, im_locate := 11\<rparr>]"
proof -
  let ?m = "ItchMsg_init\<lparr>im_type := OrderDelete, im_locate := 11\<rparr>" and ?r = "ShardRouter_new FeedStats_init 9"
  obtain res r' where r: "route ?m ?r = (res, r')" by force
  have "3 < NUM_SHARDS" "3 \<in> targets ?m"
    by (simp_all add: targets_def is_admin_message_def shard_for_locate_def NUM_SHARDS_def)
  then show ?thesis using route_delivers[OF router_ok_new(1) r] router_ok_new(2,3)[of 3] r by simp
qed

end
