(* ===== verification/Sequence_Tracking.thy ===== *)
theory Sequence_Tracking
  imports Itch_Prelude
begin

text \<open>
  Sequence numbers and gaps: \<^verbatim>\<open>src/protocol/sequence_tracker.cpp\<close> and
  \<^verbatim>\<open>src/recovery/gap_detector.cpp\<close>. Both are written by the parser thread; the atomics are
  fields of a record and the clock \<^verbatim>\<open>steady_ns()\<close> is an argument.
\<close>

section \<open>SequenceTracker\<close>

record GapInfo =
  gi_start_seq :: u64
  gi_end_seq :: u64
  gi_detected_at_ns :: Timestamp

record SequenceTracker =
  st_seq :: u64
  st_gap_count :: counter
  st_dup_count :: counter
  st_last_gap_start :: u64
  st_last_gap_end :: u64
  st_last_gap_ts :: u64

definition SequenceTracker_new :: "u64 \<Rightarrow> SequenceTracker" where
  "SequenceTracker_new initial =
    \<lparr>st_seq = initial, st_gap_count = 0, st_dup_count = 0, st_last_gap_start = 0,
     st_last_gap_end = 0, st_last_gap_ts = 0\<rparr>"

definition try_advance :: "Timestamp \<Rightarrow> SequenceTracker \<Rightarrow> u64 \<Rightarrow> bool \<times> SequenceTracker" where
  "try_advance now st next_seq =
    (let current = st_seq st; expected = current + 1 in
     if next_seq = expected then (True, st\<lparr>st_seq := next_seq\<rparr>)
     else if expected < next_seq then
       (False, st\<lparr>st_gap_count := st_gap_count st + 1, st_last_gap_start := expected,
                  st_last_gap_end := next_seq - 1, st_last_gap_ts := now, st_seq := next_seq\<rparr>)
     else (False, st\<lparr>st_dup_count := st_dup_count st + 1\<rparr>))"

definition tracker_reset :: "u64 \<Rightarrow> SequenceTracker \<Rightarrow> SequenceTracker" where
  "tracker_reset to st =
    st\<lparr>st_seq := to, st_gap_count := 0, st_dup_count := 0, st_last_gap_start := 0,
       st_last_gap_end := 0, st_last_gap_ts := 0\<rparr>"

definition last_gap :: "SequenceTracker \<Rightarrow> GapInfo" where
  "last_gap st = \<lparr>gi_start_seq = st_last_gap_start st, gi_end_seq = st_last_gap_end st,
                  gi_detected_at_ns = st_last_gap_ts st\<rparr>"

section \<open>GapDetector\<close>

record GapRange =
  gr_start_seq :: u64
  gr_end_seq :: u64
  gr_detected_at_ns :: Timestamp
  gr_recovery_sent :: bool

definition GapRange_init :: GapRange where
  "GapRange_init = \<lparr>gr_start_seq = 0, gr_end_seq = 0, gr_detected_at_ns = 0, gr_recovery_sent = False\<rparr>"

record GapDetector =
  gd_timeout_ns :: u64
  gd_pending :: bool
  gd_gap :: GapRange

definition GapDetector_new :: "u64 \<Rightarrow> GapDetector" where
  "GapDetector_new gap_timeout_ms =
    \<lparr>gd_timeout_ns = gap_timeout_ms * 1000000, gd_pending = False, gd_gap = GapRange_init\<rparr>"

definition on_gap :: "GapInfo \<Rightarrow> GapDetector \<Rightarrow> GapDetector" where
  "on_gap info gd =
    gd\<lparr>gd_gap := \<lparr>gr_start_seq = gi_start_seq info, gr_end_seq = gi_end_seq info,
                 gr_detected_at_ns = gi_detected_at_ns info, gr_recovery_sent = False\<rparr>,
       gd_pending := True\<rparr>"

definition mark_recovered :: "u64 \<Rightarrow> GapDetector \<Rightarrow> GapDetector" where
  "mark_recovered up_to_seq gd =
    (if gd_pending gd \<and> gr_end_seq (gd_gap gd) \<le> up_to_seq
     then gd\<lparr>gd_pending := False, gd_gap := GapRange_init\<rparr> else gd)"

definition mark_recovery_sent :: "GapDetector \<Rightarrow> GapDetector" where
  "mark_recovery_sent gd = gd\<lparr>gd_gap := (gd_gap gd)\<lparr>gr_recovery_sent := True\<rparr>\<rparr>"

definition should_request_recovery :: "Timestamp \<Rightarrow> GapDetector \<Rightarrow> bool" where
  "should_request_recovery now_ns gd =
    (if \<not> gd_pending gd \<or> gr_recovery_sent (gd_gap gd) then False
     else gd_timeout_ns gd \<le> now_ns - gr_detected_at_ns (gd_gap gd))"

section \<open>Accounting for every sequence number\<close>

text \<open>
  What the tracker says about a stream of packets, each with the time it is looked at: the
  numbers it accepts, the ranges it reports as missing, and the duplicates.
\<close>

record TrackerLog =
  tl_accepted :: "nat list"
  tl_missing :: "(nat \<times> nat) list"
  tl_duplicates :: "nat list"

fun run_tracker :: "(Timestamp \<times> u64) list \<Rightarrow> SequenceTracker \<Rightarrow> TrackerLog \<Rightarrow> SequenceTracker \<times> TrackerLog" where
  "run_tracker [] st log = (st, log)"
| "run_tracker ((now, n) # ps) st log =
    (let (ok, st') = try_advance now st n;
         log' = (if ok then log\<lparr>tl_accepted := unat n # tl_accepted log\<rparr>
                 else if st_gap_count st' \<noteq> st_gap_count st
                 then log\<lparr>tl_accepted := unat n # tl_accepted log,
                          tl_missing := (unat (st_last_gap_start st'), unat (st_last_gap_end st')) # tl_missing log\<rparr>
                 else log\<lparr>tl_duplicates := unat n # tl_duplicates log\<rparr>)
     in run_tracker ps st' log')"

definition empty_log :: TrackerLog where
  "empty_log = \<lparr>tl_accepted = [], tl_missing = [], tl_duplicates = []\<rparr>"

definition missing_set :: "TrackerLog \<Rightarrow> nat set" where
  "missing_set log = (\<Union>(a, b) \<in> set (tl_missing log). {a..b})"

lemma missing_set_simps [simp]:
  "missing_set (log\<lparr>tl_accepted := xs\<rparr>) = missing_set log"
  "missing_set (log\<lparr>tl_duplicates := xs\<rparr>) = missing_set log"
  "missing_set (log\<lparr>tl_missing := (a, b) # tl_missing log\<rparr>) = {a..b} \<union> missing_set log"
  by (auto simp: missing_set_def)

text \<open>The log accounts for the numbers after \<open>s\<close> up to \<open>c\<close>.\<close>

definition accounts :: "nat \<Rightarrow> nat \<Rightarrow> TrackerLog \<Rightarrow> bool" where
  "accounts s c log \<longleftrightarrow> s \<le> c \<and> set (tl_accepted log) \<union> missing_set log = {s<..c} \<and>
     set (tl_accepted log) \<inter> missing_set log = {} \<and> distinct (tl_accepted log) \<and>
     (\<forall>n \<in> set (tl_duplicates log). n \<le> c)"

lemma unat_Suc_below:
  assumes "(x :: u64) < -1"
  shows "unat (x + 1) = Suc (unat x)"
proof -
  have "x \<noteq> -1" using assms by auto
  then have "1 + x \<noteq> 0" by (metis add_eq_0_iff)
  then show ?thesis using unatSuc[of x] by (simp add: add.commute)
qed

lemma try_advance_cases:
  assumes "st_seq st < -1"
  obtains (in_order) "unat n = Suc (unat (st_seq st))" "try_advance now st n = (True, st\<lparr>st_seq := n\<rparr>)"
  | (gap) "Suc (unat (st_seq st)) < unat n"
      "try_advance now st n = (False, st\<lparr>st_gap_count := st_gap_count st + 1,
         st_last_gap_start := st_seq st + 1, st_last_gap_end := n - 1, st_last_gap_ts := now, st_seq := n\<rparr>)"
      "unat (st_seq st + 1) = Suc (unat (st_seq st))" "unat (n - 1) = unat n - 1"
  | (duplicate) "unat n \<le> unat (st_seq st)"
      "try_advance now st n = (False, st\<lparr>st_dup_count := st_dup_count st + 1\<rparr>)"
proof -
  note u = unat_Suc_below[OF assms]
  have m: "unat (n - 1) = unat n - 1" if "Suc (unat (st_seq st)) < unat n"
    using that by (subst unat_minus_one) auto
  consider "n = st_seq st + 1" | "st_seq st + 1 < n" "n \<noteq> st_seq st + 1"
    | "\<not> st_seq st + 1 < n" "n \<noteq> st_seq st + 1" by blast
  then show thesis
  proof cases
    case 1
    then show thesis using in_order u by (simp add: try_advance_def)
  next
    case 2
    then show thesis using gap u m by (simp add: try_advance_def word_less_nat_alt)
  next
    case 3
    then have "unat n \<noteq> unat (st_seq st + 1)" by (simp add: word_unat_eq_iff)
    then show thesis using duplicate u 3 by (simp add: try_advance_def word_less_nat_alt)
  qed
qed

lemma accounts_range:
  assumes "accounts s c log"
  shows "x \<in> set (tl_accepted log) \<or> x \<in> missing_set log \<longleftrightarrow> s < x \<and> x \<le> c"
  using assms by (auto simp: accounts_def set_eq_iff)

lemma accounts_accept:
  assumes "accounts s c log"
  shows "accounts s (Suc c) (log\<lparr>tl_accepted := Suc c # tl_accepted log\<rparr>)"
proof -
  note r = accounts_range[OF assms]
  have "Suc c \<notin> set (tl_accepted log)" "Suc c \<notin> missing_set log" using r[of "Suc c"] by auto
  moreover have "insert (Suc c) (set (tl_accepted log) \<union> missing_set log) = {s<..Suc c}"
    using assms by (auto simp: accounts_def)
  ultimately show ?thesis using assms by (auto simp: accounts_def)
qed

lemma accounts_gap:
  assumes "accounts s c log" "Suc c < n"
  shows "accounts s n (log\<lparr>tl_accepted := n # tl_accepted log,
    tl_missing := (Suc c, n - 1) # tl_missing log\<rparr>)"
proof -
  note r = accounts_range[OF assms(1)]
  have 1: "n \<notin> set (tl_accepted log)" "n \<notin> missing_set log" using r[of n] assms(2) by auto
  have 2: "set (tl_accepted log) \<inter> {Suc c..n - 1} = {}"
    by (metis (no_types, lifting) r disjoint_iff atLeastAtMost_iff not_less_eq_eq)
  have 3: "{s<..n} = insert n ({Suc c..n - 1} \<union> {s<..c})"
    using assms by (auto simp: accounts_def)
  have 4: "missing_set (log\<lparr>tl_accepted := xs, tl_missing := (Suc c, n - 1) # tl_missing log\<rparr>) =
      {Suc c..n - 1} \<union> missing_set log" for xs
    by (auto simp: missing_set_def)
  show ?thesis using assms 1 2 unfolding accounts_def 3 4 by auto
qed

lemma accounts_duplicate:
  "accounts s c log \<Longrightarrow> n \<le> c \<Longrightarrow> accounts s c (log\<lparr>tl_duplicates := n # tl_duplicates log\<rparr>)"
  by (auto simp: accounts_def)

lemma accounts_step:
  assumes "st_seq st < -1" "n < -1" "accounts s (unat (st_seq st)) log"
    and "run_tracker [(now, n)] st log = (st', log')"
  shows "st_seq st' < -1" "accounts s (unat (st_seq st')) log'"
    "st_seq st' = max (st_seq st) n"
    "st_gap_count st' - of_nat (length (tl_missing log')) = st_gap_count st - of_nat (length (tl_missing log))"
    "st_dup_count st' - of_nat (length (tl_duplicates log')) = st_dup_count st - of_nat (length (tl_duplicates log))"
proof -
  have "st_seq st' < -1 \<and> accounts s (unat (st_seq st')) log' \<and> st_seq st' = max (st_seq st) n \<and>
    st_gap_count st' - of_nat (length (tl_missing log')) = st_gap_count st - of_nat (length (tl_missing log)) \<and>
    st_dup_count st' - of_nat (length (tl_duplicates log')) = st_dup_count st - of_nat (length (tl_duplicates log))"
    using assms(1)
  proof (cases rule: try_advance_cases[where n = n and now = now])
    case in_order
    have "st_seq st < n" using in_order(1) by (simp add: word_less_nat_alt)
    then show ?thesis
      using in_order assms(2,4) accounts_accept[OF assms(3)] by (auto simp: max_def)
  next
    case gap
    have "st_seq st < n" using gap(1) by (simp add: word_less_nat_alt)
    then show ?thesis
      using gap assms(2,4) accounts_gap[OF assms(3) gap(1)] by (auto simp: max_def)
  next
    case duplicate
    have "n \<le> st_seq st" using duplicate(1) by (simp add: word_le_nat_alt)
    then show ?thesis
      using duplicate assms(1,4) accounts_duplicate[OF assms(3) duplicate(1)] by (auto simp: max_def)
  qed
  then show "st_seq st' < -1" "accounts s (unat (st_seq st')) log'"
    "st_seq st' = max (st_seq st) n"
    "st_gap_count st' - of_nat (length (tl_missing log')) = st_gap_count st - of_nat (length (tl_missing log))"
    "st_dup_count st' - of_nat (length (tl_duplicates log')) = st_dup_count st - of_nat (length (tl_duplicates log))"
    by blast+
qed

lemma run_tracker_Cons:
  "run_tracker (p # ps) st log = (let (st', log') = run_tracker [p] st log in run_tracker ps st' log')"
  by (cases p) (simp add: Let_def case_prod_beta)

lemma run_tracker_accounts:
  assumes "st_seq st < -1" "\<And>now n. (now, n) \<in> set ps \<Longrightarrow> n < -1" "accounts s (unat (st_seq st)) log"
    and "run_tracker ps st log = (st', log')"
  shows "accounts s (unat (st_seq st')) log' \<and> st_seq st' = fold max (map snd ps) (st_seq st) \<and>
    st_gap_count st' - of_nat (length (tl_missing log')) = st_gap_count st - of_nat (length (tl_missing log)) \<and>
    st_dup_count st' - of_nat (length (tl_duplicates log')) = st_dup_count st - of_nat (length (tl_duplicates log))"
  using assms
proof (induction ps arbitrary: st log)
  case Nil
  then show ?case by simp
next
  case (Cons p ps)
  obtain now n where p: "p = (now, n)" by force
  obtain st1 log1 where one: "run_tracker [(now, n)] st log = (st1, log1)" by force
  have rest: "run_tracker ps st1 log1 = (st', log')"
    using Cons.prems(4) by (subst (asm) run_tracker_Cons) (simp add: p one del: run_tracker.simps)
  have "n < -1" by (rule Cons.prems(2)[of now]) (simp add: p)
  note s = accounts_step[OF Cons.prems(1) this Cons.prems(3) one]
  have "accounts s (unat (st_seq st')) log' \<and> st_seq st' = fold max (map snd ps) (st_seq st1) \<and>
    st_gap_count st' - of_nat (length (tl_missing log')) = st_gap_count st1 - of_nat (length (tl_missing log1)) \<and>
    st_dup_count st' - of_nat (length (tl_duplicates log')) = st_dup_count st1 - of_nat (length (tl_duplicates log1))"
    by (rule Cons.IH[OF _ _ _ rest]) (use s Cons.prems(2) in auto)
  then show ?case using s(3-5) by (metis p list.map(2) fold_simps(2) snd_conv max.commute)
qed

section \<open>Properties\<close>

text \<open>
  Property C20. The tracker accounts for every sequence number: after any stream of packets the
  current number is the highest one seen, and every number from the start to it is either
  accepted exactly once or lies in a range reported as missing, never both. Duplicates and
  reordered packets lie at or below the current number; the two counters count the reported
  ranges and the duplicates.
\<close>

theorem tracker_accounts_for_every_sequence:
  assumes "initial < -1" "\<forall>(now, n) \<in> set ps. n < -1"
    and "run_tracker ps (SequenceTracker_new initial) empty_log = (st, log)"
  shows "st_seq st = fold max (map snd ps) initial \<and> accounts (unat initial) (unat (st_seq st)) log \<and>
    st_gap_count st = of_nat (length (tl_missing log)) \<and>
    st_dup_count st = of_nat (length (tl_duplicates log))"
  using run_tracker_accounts[OF _ _ _ assms(3), of "unat initial"] assms(1,2)
  by (fastforce simp: SequenceTracker_new_def accounts_def empty_log_def missing_set_def)

theorem tracker_accounts_for_every_sequence_witness:
  "run_tracker [(0, 1), (7, 5), (8, 3)] (SequenceTracker_new 0) empty_log =
     (\<lparr>st_seq = 5, st_gap_count = 1, st_dup_count = 1, st_last_gap_start = 2, st_last_gap_end = 4,
       st_last_gap_ts = 7\<rparr>,
      \<lparr>tl_accepted = [5, 1], tl_missing = [(2, 4)], tl_duplicates = [3]\<rparr>) \<and>
   accounts 0 5 \<lparr>tl_accepted = [5, 1], tl_missing = [(2, 4)], tl_duplicates = [3]\<rparr>"
proof -
  have r: "run_tracker [(0, 1), (7, 5), (8, 3)] (SequenceTracker_new 0) empty_log =
     (\<lparr>st_seq = 5, st_gap_count = 1, st_dup_count = 1, st_last_gap_start = 2, st_last_gap_end = 4,
       st_last_gap_ts = 7\<rparr>,
      \<lparr>tl_accepted = [5, 1], tl_missing = [(2, 4)], tl_duplicates = [3]\<rparr>)"
    by (simp add: SequenceTracker_new_def empty_log_def try_advance_def)
  have max: "(0 :: u64) < -1 \<and> (1 :: u64) < -1 \<and> (5 :: u64) < -1 \<and> (3 :: u64) < -1" by code_simp
  show ?thesis
    unfolding r using tracker_accounts_for_every_sequence[OF _ _ r] max by (simp add: max_def)
qed

end
