(* ===== verification/Seq_Lock.thy ===== *)
theory Seq_Lock
  imports Itch_Prelude
begin

text \<open>
  The sequence lock of \<^verbatim>\<open>include/concurrency/seqlock.hpp\<close>.

  \<open>seqlock_store\<close> and \<open>seqlock_load\<close> are the operations of a thread that is alone. In
  \<open>lock_step\<close> one writer and one reader run together; the stored object is a list of machine
  words that are copied one at a time, so that a copy can be torn. The sequence number is a
  \<^typ>\<open>32 word\<close>, as in the code.
\<close>

section \<open>The lock\<close>

record 'a SeqLock =
  sl_seq :: u32
  sl_data :: 'a

definition SeqLock_new :: "'a \<Rightarrow> 'a SeqLock" where
  "SeqLock_new x = \<lparr>sl_seq = 0, sl_data = x\<rparr>"

definition seqlock_store :: "'a \<Rightarrow> 'a SeqLock \<Rightarrow> 'a SeqLock" where
  "seqlock_store value l =
    (let seq = sl_seq l; l1 = l\<lparr>sl_seq := seq + 1\<rparr>; l2 = l1\<lparr>sl_data := value\<rparr>
     in l2\<lparr>sl_seq := seq + 2\<rparr>)"

text \<open>A reader that is alone returns at once, or spins on an odd number for ever.\<close>

definition seqlock_load :: "'a SeqLock \<Rightarrow> 'a outcome" where
  "seqlock_load l = (if odd (sl_seq l) then Inl Diverges else Inr (sl_data l))"

section \<open>A writer and a reader\<close>

datatype 'w writer = W_idle | W_data u32 "'w list" nat
datatype 'w reader = R_idle | R_copy u32 "'w list" | R_check u32 "'w list" | R_done "'w list"

text \<open>
  \<open>ls_history\<close> lists the values stored, the initial one first; a store enters it when it takes
  the sequence number. \<open>ls_version\<close> is the number of completed stores, and \<open>ls_start\<close> the one
  at the last load of \<^verbatim>\<open>seq1\<close> by the reader.
\<close>

record 'w lock_state =
  ls_lock :: "'w list SeqLock"
  ls_writer :: "'w writer"
  ls_reader :: "'w reader"
  ls_history :: "'w list list"
  ls_version :: nat
  ls_start :: nat

inductive lock_step :: "'w lock_state \<Rightarrow> 'w lock_state \<Rightarrow> bool" where
  store_begin: "ls_writer s = W_idle \<Longrightarrow> length v = length (sl_data (ls_lock s)) \<Longrightarrow>
    lock_step s (s\<lparr>ls_lock := (ls_lock s)\<lparr>sl_seq := sl_seq (ls_lock s) + 1\<rparr>,
                   ls_writer := W_data (sl_seq (ls_lock s)) v 0, ls_history := ls_history s @ [v]\<rparr>)"
| store_word: "ls_writer s = W_data q v k \<Longrightarrow> k < length v \<Longrightarrow>
    lock_step s (s\<lparr>ls_lock := (ls_lock s)\<lparr>sl_data := (sl_data (ls_lock s))[k := v ! k]\<rparr>,
                   ls_writer := W_data q v (Suc k)\<rparr>)"
| store_end: "ls_writer s = W_data q v (length v) \<Longrightarrow>
    lock_step s (s\<lparr>ls_lock := (ls_lock s)\<lparr>sl_seq := q + 2\<rparr>, ls_writer := W_idle,
                   ls_version := Suc (ls_version s)\<rparr>)"
| load_seq1: "ls_reader s = R_idle \<Longrightarrow>
    lock_step s (s\<lparr>ls_reader := (if odd (sl_seq (ls_lock s)) then R_idle else R_copy (sl_seq (ls_lock s)) []),
                   ls_start := ls_version s\<rparr>)"
| load_word: "ls_reader s = R_copy q ws \<Longrightarrow> length ws < length (sl_data (ls_lock s)) \<Longrightarrow>
    lock_step s (s\<lparr>ls_reader := R_copy q (ws @ [sl_data (ls_lock s) ! length ws])\<rparr>)"
| load_fence: "ls_reader s = R_copy q ws \<Longrightarrow> length ws = length (sl_data (ls_lock s)) \<Longrightarrow>
    lock_step s (s\<lparr>ls_reader := R_check q ws\<rparr>)"
| load_seq2: "ls_reader s = R_check q ws \<Longrightarrow>
    lock_step s (s\<lparr>ls_reader := (if sl_seq (ls_lock s) = q then R_done ws else R_idle)\<rparr>)"
| load_again: "ls_reader s = R_done ws \<Longrightarrow> lock_step s (s\<lparr>ls_reader := R_idle\<rparr>)"

definition lock_init :: "'w list \<Rightarrow> 'w lock_state" where
  "lock_init v = \<lparr>ls_lock = SeqLock_new v, ls_writer = W_idle, ls_reader = R_idle,
     ls_history = [v], ls_version = 0, ls_start = 0\<rparr>"

inductive lock_reachable :: "'w list \<Rightarrow> 'w lock_state \<Rightarrow> bool" for v where
  start: "lock_reachable v (lock_init v)"
| step: "lock_reachable v s \<Longrightarrow> lock_step s s' \<Longrightarrow> lock_reachable v s'"

section \<open>Invariant\<close>

text \<open>The stages of all stores so far: two per completed store, one more while a store runs.\<close>

definition stage :: "'w lock_state \<Rightarrow> nat" where
  "stage s = 2 * ls_version s + (if ls_writer s = W_idle then 0 else 1)"

fun writer_ok :: "'w list list \<Rightarrow> nat \<Rightarrow> 'w list \<Rightarrow> 'w writer \<Rightarrow> bool" where
  "writer_ok H n d W_idle = (length H = Suc n \<and> d = H ! n)"
| "writer_ok H n d (W_data q v k) =
    (length H = n + 2 \<and> v = H ! Suc n \<and> q = of_nat (2 * n) \<and> k \<le> length v \<and> length v = length d \<and>
     take k d = take k v)"

text \<open>
  A copy that was begun at stage \<open>2 * start\<close> holds words of that version as long as the stage
  has not changed.
\<close>

fun reader_ok :: "'w list list \<Rightarrow> nat \<Rightarrow> nat \<Rightarrow> nat \<Rightarrow> 'w reader \<Rightarrow> bool" where
  "reader_ok H len start st (R_copy q ws) =
    (q = of_nat (2 * start) \<and> 2 * start \<le> st \<and> (st = 2 * start \<longrightarrow> ws = take (length ws) (H ! start)))"
| "reader_ok H len start st (R_check q ws) =
    (q = of_nat (2 * start) \<and> 2 * start \<le> st \<and> (st = 2 * start \<longrightarrow> ws = H ! start))"
| "reader_ok H len start st _ = True"

definition lock_inv :: "nat \<Rightarrow> 'w lock_state \<Rightarrow> bool" where
  "lock_inv len s \<longleftrightarrow>
     sl_seq (ls_lock s) = of_nat (stage s) \<and> length (sl_data (ls_lock s)) = len \<and>
     (\<forall>v \<in> set (ls_history s). length v = len) \<and>
     writer_ok (ls_history s) (ls_version s) (sl_data (ls_lock s)) (ls_writer s) \<and>
     ls_start s \<le> ls_version s \<and>
     reader_ok (ls_history s) len (ls_start s) (stage s) (ls_reader s)"

lemma reader_ok_later:
  "reader_ok H len start st r \<Longrightarrow> st < st' \<Longrightarrow> reader_ok (H @ X) len start st' r"
  by (cases r) auto

lemma even_of_nat_u32: "odd (of_nat n :: u32) \<longleftrightarrow> odd n"
  by (simp add: even_word_iff)

lemma writer_ok_length: "writer_ok H n d w \<Longrightarrow> n < length H"
  by (cases w) auto

lemma lock_invD:
  assumes "lock_inv len s"
  shows "sl_seq (ls_lock s) = of_nat (stage s)" "length (sl_data (ls_lock s)) = len"
    "\<And>v. v \<in> set (ls_history s) \<Longrightarrow> length v = len"
    "writer_ok (ls_history s) (ls_version s) (sl_data (ls_lock s)) (ls_writer s)"
    "ls_start s \<le> ls_version s"
    "reader_ok (ls_history s) len (ls_start s) (stage s) (ls_reader s)"
  using assms by (auto simp: lock_inv_def)

lemma lock_inv_store:
  assumes inv: "lock_inv len s" and "ls_writer s = W_idle" "length v = length (sl_data (ls_lock s))"
  shows "lock_inv len (s\<lparr>ls_lock := (ls_lock s)\<lparr>sl_seq := sl_seq (ls_lock s) + 1\<rparr>,
     ls_writer := W_data (sl_seq (ls_lock s)) v 0, ls_history := ls_history s @ [v]\<rparr>)" (is "lock_inv len ?s")
proof -
  note i = lock_invD[OF inv]
  have st: "stage s = 2 * ls_version s" "stage ?s = Suc (stage s)" using assms(2) by (simp_all add: stage_def)
  have H: "length (ls_history s) = Suc (ls_version s)" using i(4) assms(2) by simp
  have "(ls_history s @ [v]) ! Suc (ls_version s) = v" using H by (metis nth_append_length)
  then have "writer_ok (ls_history s @ [v]) (ls_version s) (sl_data (ls_lock s)) (W_data (sl_seq (ls_lock s)) v 0)"
    using i(1) st(1) H assms(3) by simp
  moreover have "reader_ok (ls_history s @ [v]) len (ls_start s) (Suc (stage s)) (ls_reader s)"
    using reader_ok_later[OF i(6)] by simp
  ultimately show ?thesis
    unfolding lock_inv_def st(2) using i(1,2,3,5) assms(3) by (auto simp: add.commute)
qed

lemma lock_inv_step:
  assumes inv: "lock_inv len s" and "lock_step s s'"
  shows "lock_inv len s'"
  using assms(2)
proof (cases rule: lock_step.cases)
  case (store_begin v)
  then show ?thesis using lock_inv_store[OF inv] by simp
next
  case (store_word q v k)
  note i = lock_invD[OF inv]
  have w: "length v = length (sl_data (ls_lock s))" "take k (sl_data (ls_lock s)) = take k v"
    using i(4) unfolding store_word(2) by auto
  have "take (Suc k) ((sl_data (ls_lock s))[k := v ! k]) = take (Suc k) v"
    using w store_word(3) by (simp add: take_Suc_conv_app_nth)
  then show ?thesis
    unfolding lock_inv_def using i store_word by (simp add: stage_def)
next
  case (store_end q v)
  note i = lock_invD[OF inv]
  have st: "stage s = Suc (2 * ls_version s)" "stage s' = Suc (stage s)" using store_end by (simp_all add: stage_def)
  have w: "length (ls_history s) = ls_version s + 2" "v = ls_history s ! Suc (ls_version s)"
    "q = of_nat (2 * ls_version s)" "sl_data (ls_lock s) = v"
    using i(4) unfolding store_end(2) by auto
  have "reader_ok (ls_history s) len (ls_start s) (Suc (stage s)) (ls_reader s)"
    using reader_ok_later[OF i(6), of _ "[]"] by simp
  then show ?thesis
    unfolding lock_inv_def st(2) using i(2,3,5) st(1) w store_end(1) by simp
next
  case load_seq1
  note i = lock_invD[OF inv]
  have "odd (sl_seq (ls_lock s)) \<longleftrightarrow> ls_writer s \<noteq> W_idle"
    using i(1) even_of_nat_u32[of "stage s"] by (simp add: stage_def)
  then show ?thesis
    unfolding lock_inv_def using i load_seq1 by (simp add: stage_def)
next
  case (load_word q ws)
  note i = lock_invD[OF inv]
  have "sl_data (ls_lock s) = ls_history s ! ls_start s" if "stage s = 2 * ls_start s"
  proof (cases "ls_writer s = W_idle")
    case True
    then show ?thesis using that i(4) by (simp add: stage_def)
  next
    case False
    then show ?thesis using that by (simp add: stage_def) presburger
  qed
  then have "reader_ok (ls_history s) len (ls_start s) (stage s) (R_copy q (ws @ [sl_data (ls_lock s) ! length ws]))"
    using i(6) load_word(2,3) by (auto simp: take_Suc_conv_app_nth)
  moreover have "stage s' = stage s" using load_word(1) by (simp add: stage_def)
  ultimately show ?thesis
    unfolding lock_inv_def using i load_word(1) by (simp del: reader_ok.simps)
next
  case (load_fence q ws)
  note i = lock_invD[OF inv]
  have "length (ls_history s ! ls_start s) = len"
    using i(3,5) writer_ok_length[OF i(4)] by simp
  then show ?thesis
    unfolding lock_inv_def using i load_fence by (simp add: stage_def)
next
  case (load_seq2 q ws)
  then show ?thesis unfolding lock_inv_def using lock_invD[OF inv] by (simp add: stage_def)
next
  case (load_again ws)
  then show ?thesis unfolding lock_inv_def using lock_invD[OF inv] by (simp add: stage_def)
qed

lemma lock_reachable_inv: "lock_reachable v s \<Longrightarrow> lock_inv (length v) s"
proof (induction rule: lock_reachable.induct)
  case start
  then show ?case by (simp add: lock_inv_def lock_init_def SeqLock_new_def stage_def)
next
  case (step s s')
  then show ?case using lock_inv_step by blast
qed

section \<open>Properties\<close>

text \<open>
  Property C26. A load never returns a torn value: what it returns is one of the values stored,
  the one that was current when the load took its sequence number, provided that fewer than
  \<open>2 ^ 31\<close> stores complete while it runs, so that the number cannot come round to the same value.
\<close>

theorem seqlock_no_torn_read:
  assumes "lock_reachable v s" "ls_reader s = R_check q ws" "lock_step s s'" "ls_reader s' = R_done ws'"
    and "ls_version s < ls_start s + 2 ^ 31"
  shows "ws' = ls_history s ! ls_start s \<and> ls_start s < length (ls_history s)"
proof -
  note inv = lock_reachable_inv[OF assms(1), unfolded lock_inv_def]
  have q: "q = of_nat (2 * ls_start s)" "2 * ls_start s \<le> stage s"
    "stage s = 2 * ls_start s \<longrightarrow> ws = ls_history s ! ls_start s"
    using inv assms(2) by auto
  from assms(3) have eq: "sl_seq (ls_lock s) = q" "ws' = ws"
    using assms(2,4) by (cases rule: lock_step.cases; auto split: if_splits)+
  have "(of_nat (stage s) :: u32) = of_nat (2 * ls_start s)" using inv eq(1) q(1) by simp
  then have "stage s mod 2 ^ 32 = 2 * ls_start s mod 2 ^ 32"
    by (simp only: word_unat_eq_iff unat_of_nat) simp
  then have "2 ^ 32 dvd stage s - 2 * ls_start s" using q(2) by (metis mod_eq_dvd_iff_nat)
  moreover have "stage s - 2 * ls_start s < 2 ^ 32" using assms(5) by (auto simp: stage_def)
  ultimately have "stage s = 2 * ls_start s" using q(2) by (auto dest: dvd_imp_le)
  moreover have "ls_start s < length (ls_history s)"
    using lock_invD(4,5)[OF lock_reachable_inv[OF assms(1)]] by (auto dest: writer_ok_length)
  ultimately show ?thesis using q(3) eq(2) by simp
qed

theorem seqlock_no_torn_read_witness:
  "\<exists>s s'. lock_reachable [1 :: nat] s \<and> lock_step s s' \<and> ls_reader s' = R_done [1] \<and>
     [1] = ls_history s ! ls_start s"
proof -
  let ?s = "\<lambda>r. (lock_init [1 :: nat])\<lparr>ls_reader := r\<rparr>"
  have init: "?s R_idle = lock_init [1]" by (simp add: lock_init_def)
  have 1: "lock_step (?s R_idle) (?s (R_copy 0 []))"
    using load_seq1[of "?s R_idle"] by (simp add: lock_init_def SeqLock_new_def)
  have 2: "lock_step (?s (R_copy 0 [])) (?s (R_copy 0 [1]))"
    using load_word[of "?s (R_copy 0 [])" 0 "[]"] by (simp add: lock_init_def SeqLock_new_def)
  have 3: "lock_step (?s (R_copy 0 [1])) (?s (R_check 0 [1]))"
    using load_fence[of "?s (R_copy 0 [1])" 0 "[1]"] by (simp add: lock_init_def SeqLock_new_def)
  have 4: "lock_step (?s (R_check 0 [1])) (?s (R_done [1]))"
    using load_seq2[of "?s (R_check 0 [1])" 0 "[1]"] by (simp add: lock_init_def SeqLock_new_def)
  have r: "lock_reachable [1] (?s (R_check 0 [1]))"
    using lock_reachable.step[OF lock_reachable.step[OF lock_reachable.step[OF _ 1] 2] 3]
      lock_reachable.start[of "[1 :: nat]"] init by simp
  have "[1] = ls_history (?s (R_check 0 [1])) ! ls_start (?s (R_check 0 [1]))"
    using seqlock_no_torn_read[OF r _ 4, of 0 "[1]" "[1]"] by (simp add: lock_init_def)
  then show ?thesis using r 4 by (intro exI[of _ "?s (R_check 0 [1])"] exI[of _ "?s (R_done [1])"]) simp
qed

end
