(* ===== verification/Session_Manager.thy ===== *)
theory Session_Manager
  imports Shard_Routing Sequence_Tracking Level2_Book Seq_Lock
begin

text \<open>
  The published quotes, \<^verbatim>\<open>src/orderbook/bbo_publisher.cpp\<close>, and the session state machine,
  \<^verbatim>\<open>src/session/session_manager.cpp\<close>. The subsystems the manager holds references to (tracker,
  directory, publisher, router) are fields of \<open>SessionContext\<close>. An end-of-day callback is an
  opaque number; invoking it appends to the log.
\<close>

section \<open>BboPublisher\<close>

record BboPublisher =
  bp_slots :: "BboSnapshot SeqLock list"

definition BboSnapshot_init :: BboSnapshot where
  "BboSnapshot_init = \<lparr>bb_locate = 0, bb_bid_price = 0, bb_bid_qty = 0, bb_ask_price = 0,
     bb_ask_qty = 0, bb_ts = 0\<rparr>"

definition BboPublisher_new :: "nat \<Rightarrow> BboPublisher" where
  "BboPublisher_new max_symbols = \<lparr>bp_slots = replicate max_symbols (SeqLock_new BboSnapshot_init)\<rparr>"

definition bbo_publish :: "LocateCode \<Rightarrow> BboSnapshot \<Rightarrow> BboPublisher \<Rightarrow> BboPublisher" where
  "bbo_publish loc bbo p =
    (if length (bp_slots p) \<le> unat loc then p
     else p\<lparr>bp_slots := (bp_slots p)[unat loc := seqlock_store bbo (bp_slots p ! unat loc)]\<rparr>)"

definition bbo_read :: "LocateCode \<Rightarrow> BboPublisher \<Rightarrow> BboSnapshot outcome" where
  "bbo_read loc p =
    (if length (bp_slots p) \<le> unat loc then Inr BboSnapshot_init
     else seqlock_load (bp_slots p ! unat loc))"

definition bbo_reset :: "BboPublisher \<Rightarrow> BboPublisher" where
  "bbo_reset p = p\<lparr>bp_slots := map (seqlock_store BboSnapshot_init) (bp_slots p)\<rparr>"

definition bbo_ok :: "BboPublisher \<Rightarrow> bool" where
  "bbo_ok p \<longleftrightarrow> (\<forall>l \<in> set (bp_slots p). even (sl_seq l))"

section \<open>SessionManager\<close>

datatype SessionState = SessionUnknown | PreOpen | Open | Closed

record SessionManager =
  sm_session :: "u8 list"
  sm_state :: SessionState
  sm_eod_archive_enabled :: bool
  sm_eod_callbacks :: "nat list"
  sm_watched_bits :: "u64 list"
  sm_watched_tickers :: "u8 list list"

record SessionContext =
  sc_mgr :: SessionManager
  sc_tracker :: SequenceTracker
  sc_directory :: SymbolDirectory
  sc_bbo :: BboPublisher
  sc_router :: ShardRouter
  sc_eod_log :: "(nat \<times> u8 list) list"

definition MAX_EOD_CALLBACKS :: nat where "MAX_EOD_CALLBACKS = NUM_SHARDS"
definition MAX_WATCHED_TICKERS :: nat where "MAX_WATCHED_TICKERS = 256"

text \<open>The eleven characters of \<^verbatim>\<open>"AUTO_DETECT"\<close>.\<close>

definition AUTO_DETECT :: "u8 list" where
  "AUTO_DETECT = [0x41, 0x55, 0x54, 0x4F, 0x5F, 0x44, 0x45, 0x54, 0x45, 0x43, 0x54]"

definition SessionManager_new :: "u8 list option \<Rightarrow> bool \<Rightarrow> SessionManager" where
  "SessionManager_new initial_session eod_archive_enabled =
    \<lparr>sm_session = (case initial_session of None \<Rightarrow> replicate 11 0
       | Some name \<Rightarrow> if take 11 name = AUTO_DETECT then replicate 11 0
                     else take 10 (name @ replicate 10 0) @ [0]),
     sm_state = SessionUnknown, sm_eod_archive_enabled = eod_archive_enabled, sm_eod_callbacks = [],
     sm_watched_bits = replicate (MAX_LOCATE div 64) 0, sm_watched_tickers = []\<rparr>"

definition register_eod_callback :: "nat \<Rightarrow> SessionManager \<Rightarrow> SessionManager" where
  "register_eod_callback cb m =
    (if length (sm_eod_callbacks m) < MAX_EOD_CALLBACKS
     then m\<lparr>sm_eod_callbacks := sm_eod_callbacks m @ [cb]\<rparr> else m)"

definition add_watched_symbol :: "LocateCode \<Rightarrow> SessionManager \<Rightarrow> SessionManager" where
  "add_watched_symbol loc m =
    (if unat loc < MAX_LOCATE then
       let i = unat (drop_bit 6 loc) in
       m\<lparr>sm_watched_bits := (sm_watched_bits m)[i := sm_watched_bits m ! i OR push_bit (unat (loc AND 63)) 1]\<rparr>
     else m)"

definition add_watched_ticker :: "u8 list \<Rightarrow> SessionManager \<Rightarrow> SessionManager" where
  "add_watched_ticker ticker8 m =
    (if MAX_WATCHED_TICKERS \<le> length (sm_watched_tickers m) then m
     else m\<lparr>sm_watched_tickers := sm_watched_tickers m @ [take 8 ticker8]\<rparr>)"

definition try_resolve_watched :: "LocateCode \<Rightarrow> u8 list \<Rightarrow> SessionManager \<Rightarrow> SessionManager" where
  "try_resolve_watched loc ticker8 m =
    (if sm_watched_tickers m = [] then m
     else if take 8 ticker8 \<in> set (sm_watched_tickers m) then add_watched_symbol loc m else m)"

definition is_warmup_symbol :: "LocateCode \<Rightarrow> SessionManager \<Rightarrow> bool" where
  "is_warmup_symbol loc m =
    (if \<not> sm_eod_archive_enabled m \<or> MAX_LOCATE \<le> unat loc then False
     else drop_bit (unat (loc AND 63)) (sm_watched_bits m ! unat (drop_bit 6 loc)) AND 1 \<noteq> 0)"

definition is_open :: "SessionManager \<Rightarrow> bool" where "is_open m \<longleftrightarrow> sm_state m = Open"
definition is_pre_open :: "SessionManager \<Rightarrow> bool" where "is_pre_open m \<longleftrightarrow> sm_state m = PreOpen"

definition event_code_to_state :: "u8 \<Rightarrow> SessionState" where
  "event_code_to_state code =
    (if code = 0x53 then PreOpen else if code = 0x4F then Open else if code = 0x43 then Open
     else if code = 0x51 then Closed else if code = 0x4D then Closed else if code = 0x45 then Closed
     else SessionUnknown)"

definition session_reset_msg :: ItchMsg where
  "session_reset_msg = ItchMsg_init\<lparr>im_type := InternalSessionReset\<rparr>"

definition reset_session :: "u8 list \<Rightarrow> SessionContext \<Rightarrow> SessionContext" where
  "reset_session new_session_10 c =
    (let m = (sc_mgr c)\<lparr>sm_session := take 10 new_session_10 @ [0]\<rparr>
     in c\<lparr>sc_tracker := tracker_reset 0 (sc_tracker c), sc_directory := directory_reset (sc_directory c),
          sc_bbo := bbo_reset (sc_bbo c), sc_router := snd (broadcast session_reset_msg (sc_router c)),
          sc_mgr := m\<lparr>sm_state := SessionUnknown\<rparr>\<rparr>)"

definition on_eod_archival :: "SessionContext \<Rightarrow> SessionContext" where
  "on_eod_archival c =
    c\<lparr>sc_eod_log := sc_eod_log c @ map (\<lambda>cb. (cb, sm_session (sc_mgr c))) (sm_eod_callbacks (sc_mgr c))\<rparr>"

definition on_system_event :: "ItchMsg \<Rightarrow> u8 list \<Rightarrow> SessionContext \<Rightarrow> SessionContext" where
  "on_system_event msg raw_session_10 c0 =
    (let s = sm_session (sc_mgr c0);
         c = (if take 10 s \<noteq> take 10 raw_session_10 \<and> (s ! 0 \<noteq> 0 \<or> raw_session_10 ! 0 \<noteq> 0)
              then reset_session raw_session_10 c0 else c0);
         new_state = event_code_to_state (im_system_event_code msg) in
     if new_state = SessionUnknown then c
     else let c1 = (if new_state = Closed \<and> sm_eod_archive_enabled (sc_mgr c) then on_eod_archival c else c)
          in c1\<lparr>sc_mgr := (sc_mgr c1)\<lparr>sm_state := new_state\<rparr>\<rparr>)"

section \<open>Published quotes\<close>

lemma seqlock_roundtrip [simp]:
  "even (sl_seq l) \<Longrightarrow> seqlock_load (seqlock_store v l) = Inr v"
  "even (sl_seq l) \<Longrightarrow> even (sl_seq (seqlock_store v l))"
  by (simp_all add: seqlock_load_def seqlock_store_def)

lemma bbo_ok_ops:
  "bbo_ok (BboPublisher_new n)" "bbo_ok p \<Longrightarrow> bbo_ok (bbo_reset p)"
  "bbo_ok p \<Longrightarrow> bbo_ok (bbo_publish loc b p)"
  by (auto simp: bbo_ok_def BboPublisher_new_def SeqLock_new_def bbo_reset_def bbo_publish_def
      dest!: set_update_subset_insert[THEN subsetD])

lemma bbo_read_publish:
  assumes "bbo_ok p" "unat loc < length (bp_slots p)"
  shows "bbo_read loc' (bbo_publish loc b p) = (if loc' = loc then Inr b else bbo_read loc' p)"
  using assms by (auto simp: bbo_read_def bbo_publish_def bbo_ok_def nth_list_update word_unat_eq_iff)

lemma bbo_read_reset: "bbo_ok p \<Longrightarrow> bbo_read loc (bbo_reset p) = Inr BboSnapshot_init"
  by (auto simp: bbo_read_def bbo_reset_def bbo_ok_def)

section \<open>Watched symbols\<close>

definition manager_ok :: "SessionManager \<Rightarrow> bool" where
  "manager_ok m \<longleftrightarrow> length (sm_session m) = 11 \<and> length (sm_watched_bits m) = MAX_LOCATE div 64"

lemma locate_split:
  "unat (drop_bit 6 (loc :: LocateCode)) = unat loc div 64" "unat (loc AND 63) = unat loc mod 64"
proof -
  have "loc AND 63 = take_bit 6 loc" by (simp add: take_bit_eq_mask mask_eq_exp_minus_1)
  then show "unat (loc AND 63) = unat loc mod 64" by (simp add: take_bit_eq_mod unat_mod)
  show "unat (drop_bit 6 loc) = unat loc div 64" by (simp add: drop_bit_eq_div unat_div)
qed

lemma bit_set_one: "k < 64 \<Longrightarrow> bit ((b :: u64) OR push_bit k 1) i = (bit b i \<or> i = k)"
  by (auto simp: bit_or_iff bit_exp_iff)

lemma is_warmup_bit:
  "is_warmup_symbol loc m \<longleftrightarrow>
    sm_eod_archive_enabled m \<and> bit (sm_watched_bits m ! (unat loc div 64)) (unat loc mod 64)"
  using locate_in_range[of loc]
  by (simp add: is_warmup_symbol_def locate_split and_one_eq odd_iff_mod_2_eq_one flip: bit_iff_odd_drop_bit)
    (simp add: bit_iff_odd_drop_bit odd_iff_mod_2_eq_one)

lemma is_warmup_add:
  assumes "manager_ok m"
  shows "is_warmup_symbol loc' (add_watched_symbol loc m) \<longleftrightarrow>
    is_warmup_symbol loc' m \<or> (sm_eod_archive_enabled m \<and> loc' = loc)"
proof -
  let ?i = "unat loc div 64" and ?k = "unat loc mod 64"
  have i: "?i < length (sm_watched_bits m)"
    using assms locate_in_range[of loc] by (simp add: manager_ok_def MAX_LOCATE_def)
  have e: "add_watched_symbol loc m =
      m\<lparr>sm_watched_bits := (sm_watched_bits m)[?i := sm_watched_bits m ! ?i OR push_bit ?k 1]\<rparr>"
    using locate_in_range[of loc] by (simp add: add_watched_symbol_def locate_split Let_def)
  have "loc' = loc \<longleftrightarrow> unat loc' div 64 = ?i \<and> unat loc' mod 64 = ?k"
    by (metis word_unat_eq_iff div_mult_mod_eq)
  then show ?thesis
    unfolding is_warmup_bit e using i bit_set_one[of ?k "sm_watched_bits m ! ?i"]
    by (auto simp: nth_list_update)
qed

section \<open>Properties\<close>

definition context_ok :: "SessionContext \<Rightarrow> bool" where
  "context_ok c \<longleftrightarrow> manager_ok (sc_mgr c) \<and> directory_ok (sc_directory c) \<and> bbo_ok (sc_bbo c) \<and>
     router_ok (sc_router c)"

text \<open>The parts a change of session wipes are as at the start, with the reset sent to the shards.\<close>

definition wiped :: "SessionContext \<Rightarrow> SessionContext \<Rightarrow> bool" where
  "wiped c c' \<longleftrightarrow> sc_tracker c' = tracker_reset 0 (sc_tracker c) \<and>
     (\<forall>loc. lookup loc (sc_directory c') = None \<and> bbo_read loc (sc_bbo c') = Inr BboSnapshot_init) \<and>
     (\<forall>s < NUM_SHARDS. shard_items (sc_router c') s =
        shard_items (sc_router c) s @ (if shard_room (sc_router c) s then [session_reset_msg] else []))"

lemma reset_session_wipes:
  assumes "context_ok c" "length raw = 10"
  shows "wiped c (reset_session raw c)" "context_ok (reset_session raw c)"
    "sm_session (sc_mgr (reset_session raw c)) = raw @ [0]"
    "sm_state (sc_mgr (reset_session raw c)) = SessionUnknown"
    "sm_eod_callbacks (sc_mgr (reset_session raw c)) = sm_eod_callbacks (sc_mgr c)"
    "sm_eod_archive_enabled (sc_mgr (reset_session raw c)) = sm_eod_archive_enabled (sc_mgr c)"
    "sc_eod_log (reset_session raw c) = sc_eod_log c"
proof -
  obtain res r where b: "broadcast session_reset_msg (sc_router c) = (res, r)" by force
  have ok: "router_ok (sc_router c)" using assms(1) by (simp add: context_ok_def)
  note spec = broadcast_loop_spec[OF ok, of "[0..<NUM_SHARDS]" session_reset_msg Ok res r]
  have r: "router_ok r" "\<And>s. s < NUM_SHARDS \<Longrightarrow> shard_items r s = shard_items (sc_router c) s @
      (if shard_room (sc_router c) s then [session_reset_msg] else [])"
    using spec b by (auto simp: broadcast_def)
  show "wiped c (reset_session raw c)"
    using assms(1) r(2) b by (simp add: wiped_def reset_session_def context_ok_def lookup_reset bbo_read_reset)
  show "context_ok (reset_session raw c)"
    using assms r(1) b directory_ok_ops(3) bbo_ok_ops(2)
    by (simp add: context_ok_def reset_session_def manager_ok_def)
qed (use assms in \<open>simp_all add: reset_session_def\<close>)

text \<open>
  Property C25. A system event of a session with a new, non-empty name wipes the session's data (tracker back
  to zero, directory and quotes empty, a reset queued for every shard that has room in its queue), an
  event of the current session leaves them alone. The state follows the event code. An event that
  closes the session, of any of the three codes, first runs every end-of-day callback, with the name
  of the session of the event, when archiving is enabled, and none otherwise.
\<close>

theorem system_event_session:
  assumes "context_ok c" "length raw = 10" "raw ! 0 \<noteq> 0" "c' = on_system_event msg raw c"
  shows "context_ok c' \<and> take 10 (sm_session (sc_mgr c')) = raw \<and>
    (if take 10 (sm_session (sc_mgr c)) = raw
     then sc_tracker c' = sc_tracker c \<and> sc_directory c' = sc_directory c \<and> sc_bbo c' = sc_bbo c \<and>
       sc_router c' = sc_router c
     else wiped c c') \<and>
    sm_state (sc_mgr c') =
      (let st = event_code_to_state (im_system_event_code msg) in
       if st \<noteq> SessionUnknown then st
       else if take 10 (sm_session (sc_mgr c)) = raw then sm_state (sc_mgr c) else SessionUnknown) \<and>
    sc_eod_log c' = sc_eod_log c @
      (if event_code_to_state (im_system_event_code msg) = Closed \<and> sm_eod_archive_enabled (sc_mgr c)
       then map (\<lambda>cb. (cb, sm_session (sc_mgr c'))) (sm_eod_callbacks (sc_mgr c)) else [])"
proof -
  define d where "d = (if take 10 (sm_session (sc_mgr c)) = raw then c else reset_session raw c)"
  let ?st = "event_code_to_state (im_system_event_code msg)"
  have c': "c' = (if ?st = SessionUnknown then d
     else let c1 = (if ?st = Closed \<and> sm_eod_archive_enabled (sc_mgr d) then on_eod_archival d else d)
          in c1\<lparr>sc_mgr := (sc_mgr c1)\<lparr>sm_state := ?st\<rparr>\<rparr>)"
    using assms(2-4) by (simp add: on_system_event_def d_def Let_def)
  note rs = reset_session_wipes[OF assms(1,2)]
  have d: "context_ok d" "take 10 (sm_session (sc_mgr d)) = raw"
    "sm_eod_callbacks (sc_mgr d) = sm_eod_callbacks (sc_mgr c)"
    "sm_eod_archive_enabled (sc_mgr d) = sm_eod_archive_enabled (sc_mgr c)" "sc_eod_log d = sc_eod_log c"
    "sm_state (sc_mgr d) = (if take 10 (sm_session (sc_mgr c)) = raw then sm_state (sc_mgr c) else SessionUnknown)"
    using rs assms(1,2) by (simp_all add: d_def)
  have same: "sc_tracker c' = sc_tracker d" "sc_directory c' = sc_directory d" "sc_bbo c' = sc_bbo d"
    "sc_router c' = sc_router d" "sm_session (sc_mgr c') = sm_session (sc_mgr d)"
    by (simp_all add: c' on_eod_archival_def Let_def)
  have "context_ok c'" using d(1) by (simp add: c' context_ok_def manager_ok_def on_eod_archival_def Let_def)
  moreover have "sm_state (sc_mgr c') = (if ?st \<noteq> SessionUnknown then ?st else sm_state (sc_mgr d))"
    by (simp add: c' Let_def)
  moreover have "sc_eod_log c' = sc_eod_log c @ (if ?st = Closed \<and> sm_eod_archive_enabled (sc_mgr c)
       then map (\<lambda>cb. (cb, sm_session (sc_mgr c'))) (sm_eod_callbacks (sc_mgr c)) else [])"
    using d(3-5) same(5) by (simp add: c' on_eod_archival_def Let_def)
  moreover have "if take 10 (sm_session (sc_mgr c)) = raw then sc_tracker c' = sc_tracker c \<and>
      sc_directory c' = sc_directory c \<and> sc_bbo c' = sc_bbo c \<and> sc_router c' = sc_router c else wiped c c'"
    using same(1-4) rs(1) by (simp add: d_def wiped_def)
  ultimately show ?thesis using d(2,6) same(5) by (simp add: Let_def)
qed

definition fresh_context :: "u64 \<Rightarrow> SessionContext" where
  "fresh_context seq =
    \<lparr>sc_mgr = SessionManager_new (Some AUTO_DETECT) True, sc_tracker = SequenceTracker_new seq,
     sc_directory = SymbolDirectory_new, sc_bbo = BboPublisher_new 4,
     sc_router = ShardRouter_new FeedStats_init 0, sc_eod_log = []\<rparr>"

lemma fresh_context_ok: "context_ok (fresh_context seq)"
  using router_ok_new(1) directory_ok_ops(1) bbo_ok_ops(1)
  by (simp add: context_ok_def fresh_context_def manager_ok_def SessionManager_new_def AUTO_DETECT_def)

theorem system_event_session_witness:
  "wiped (fresh_context 41) (on_system_event (ItchMsg_init\<lparr>im_type := SystemEvent, im_system_event_code := 0x4F\<rparr>)
     (replicate 10 0x31) (fresh_context 41))"
  using system_event_session[OF fresh_context_ok[of 41], of "replicate 10 0x31" _
      "ItchMsg_init\<lparr>im_type := SystemEvent, im_system_event_code := 0x4F\<rparr>"]
  by (simp add: fresh_context_def SessionManager_new_def AUTO_DETECT_def)

end
