(* ===== verification/Latency_Histogram.thy ===== *)
theory Latency_Histogram
  imports Feed_Stats
begin

text \<open>
  The latency histogram: \<^verbatim>\<open>include/monitoring/latency_histogram.hpp\<close> and
  \<^verbatim>\<open>src/monitoring/latency_histogram.cpp\<close>. A histogram has one writer, so the loop that raises
  the maximum is one update. The rank a percentile asks for is an argument of the scan: the
  floating-point product that computes it is not modelled.
\<close>

section \<open>The histogram\<close>

definition LINEAR_BUCKETS :: nat where "LINEAR_BUCKETS = 256"
definition LOG_BUCKETS :: nat where "LOG_BUCKETS = 256"
definition TOTAL_BUCKETS :: nat where "TOTAL_BUCKETS = LINEAR_BUCKETS + LOG_BUCKETS"

lemmas bucket_constants = LINEAR_BUCKETS_def LOG_BUCKETS_def TOTAL_BUCKETS_def

record LatencyHistogram =
  lh_buckets :: "counter list"
  lh_count :: counter
  lh_max :: u64

definition histogram_init :: LatencyHistogram where
  "histogram_init = \<lparr>lh_buckets = replicate TOTAL_BUCKETS 0, lh_count = 0, lh_max = 0\<rparr>"

text \<open>The position of the highest bit set, \<^verbatim>\<open>63 - __builtin_clzll(ns)\<close>.\<close>

fun floor_log2 :: "nat \<Rightarrow> nat" where
  "floor_log2 n = (if n < 2 then 0 else Suc (floor_log2 (n div 2)))"

declare floor_log2.simps [simp del]

definition bucket_for :: "u64 \<Rightarrow> nat" where
  "bucket_for ns =
    (if unat ns < LINEAR_BUCKETS then unat ns
     else let msb = floor_log2 (unat ns) in
       if 32 \<le> msb then TOTAL_BUCKETS - 1
       else let sub = unat (drop_bit (if 3 < msb then msb - 4 else 0) ns AND 0xF);
                octave = msb - 7
            in LINEAR_BUCKETS + octave * 16 + sub)"

definition record_latency :: "u64 \<Rightarrow> LatencyHistogram \<Rightarrow> LatencyHistogram outcome" where
  "record_latency latency_ns h =
    (let b = bucket_for latency_ns in
     if b < length (lh_buckets h)
     then Inr (h\<lparr>lh_buckets := bump b (lh_buckets h), lh_count := lh_count h + 1,
                 lh_max := (if lh_max h < latency_ns then latency_ns else lh_max h)\<rparr>)
     else Inl OutOfBounds)"

definition bucket_lower :: "nat \<Rightarrow> u64" where
  "bucket_lower b =
    (if b < LINEAR_BUCKETS then of_nat b
     else let log_b = b - LINEAR_BUCKETS; octave = log_b div 16; sub = log_b mod 16; msb = octave + 7
          in push_bit msb 1 OR push_bit (msb - 4) (of_nat sub))"

function percentile_scan :: "LatencyHistogram \<Rightarrow> u64 \<Rightarrow> nat \<Rightarrow> u64 \<Rightarrow> u64" where
  "percentile_scan h target i cumulative =
    (if i < TOTAL_BUCKETS then
       let cumulative' = cumulative + lh_buckets h ! i in
       if target < cumulative' then bucket_lower i else percentile_scan h target (i + 1) cumulative'
     else lh_max h)"
  by pat_completeness auto
termination by (relation "measure (\<lambda>(_, _, i, _). TOTAL_BUCKETS - i)") auto

declare percentile_scan.simps [simp del]

definition percentile :: "LatencyHistogram \<Rightarrow> u64 \<Rightarrow> u64" where
  "percentile h target = (if lh_count h = 0 then 0 else percentile_scan h target 0 0)"

definition histogram_reset :: "LatencyHistogram \<Rightarrow> LatencyHistogram" where
  "histogram_reset h =
    h\<lparr>lh_buckets := map (\<lambda>_. 0) (lh_buckets h), lh_count := 0, lh_max := 0\<rparr>"

section \<open>Buckets\<close>

lemma floor_log2_bounds: "0 < n \<Longrightarrow> 2 ^ floor_log2 n \<le> n \<and> n < 2 ^ Suc (floor_log2 n)"
proof (induction n rule: floor_log2.induct)
  case (1 n)
  show ?case
  proof (cases "n < 2")
    case True
    then show ?thesis using 1(2) by (simp add: floor_log2.simps[of n])
  next
    case False
    have "2 ^ floor_log2 (n div 2) \<le> n div 2 \<and> n div 2 < 2 ^ Suc (floor_log2 (n div 2))"
      using 1(1)[OF False] False by simp
    then show ?thesis using False by (simp add: floor_log2.simps[of n]) linarith
  qed
qed

lemma floor_log2_unique: "2 ^ k \<le> n \<Longrightarrow> n < 2 ^ Suc k \<Longrightarrow> floor_log2 n = k"
proof -
  assume a: "2 ^ k \<le> n" "n < 2 ^ Suc k"
  have "0 < n" by (rule less_le_trans[OF _ a(1)]) simp
  from floor_log2_bounds[OF this] a have "2 ^ floor_log2 n < (2 :: nat) ^ Suc k" "(2 :: nat) ^ k < 2 ^ Suc (floor_log2 n)"
    by linarith+
  then have "floor_log2 n < Suc k" "k < Suc (floor_log2 n)"
    by (simp_all only: power_strict_increasing_iff one_less_numeral_iff semiring_norm)
  then show ?thesis by simp
qed

text \<open>The parts of a bucket index above the linear range.\<close>

lemma bucket_for_log:
  assumes "256 \<le> unat ns" "floor_log2 (unat ns) < 32"
  shows "bucket_for ns = 256 + (floor_log2 (unat ns) - 7) * 16 + unat ns div 2 ^ (floor_log2 (unat ns) - 4) mod 16"
    "8 \<le> floor_log2 (unat ns)"
    "unat ns div 2 ^ (floor_log2 (unat ns) - 4) = 16 + unat ns div 2 ^ (floor_log2 (unat ns) - 4) mod 16"
proof -
  let ?n = "unat ns" and ?m = "floor_log2 (unat ns)"
  have b: "2 ^ ?m \<le> ?n" "?n < 2 ^ Suc ?m" using floor_log2_bounds[of ?n] assms(1) by auto
  have "(2 :: nat) ^ 8 < 2 ^ Suc ?m" using b(2) assms(1) by simp
  then have m: "8 < Suc ?m" by (rule power_less_imp_less_exp[rotated]) simp
  then show "8 \<le> ?m" by simp
  have e: "drop_bit k ns AND 0xF = take_bit 4 (drop_bit k ns)" for k
    by (simp add: take_bit_eq_mask mask_eq_exp_minus_1)
  have "unat (drop_bit k ns AND 0xF) = ?n div 2 ^ k mod 16" for k
    unfolding e unsigned_take_bit_eq unsigned_drop_bit_eq using unat_bound[of ns]
    by (simp add: take_bit_eq_mod drop_bit_eq_div)
  then show "bucket_for ns = 256 + (?m - 7) * 16 + ?n div 2 ^ (?m - 4) mod 16"
    using assms m by (simp add: bucket_for_def bucket_constants Let_def)
  have p: "2 ^ ?m = 16 * (2 :: nat) ^ (?m - 4)" "2 ^ Suc ?m = 32 * (2 :: nat) ^ (?m - 4)"
    using m power_add[of "2 :: nat" 4 "?m - 4"] by simp_all
  have "16 \<le> ?n div 2 ^ (?m - 4)" using b(1) p(1) by (simp add: less_eq_div_iff_mult_less_eq)
  moreover have "?n div 2 ^ (?m - 4) < 32" using b(2) p(2) by (simp add: div_less_iff_less_mult)
  ultimately show "?n div 2 ^ (?m - 4) = 16 + ?n div 2 ^ (?m - 4) mod 16"
    using le_mod_geq[of 16 "?n div 2 ^ (?m - 4)"] by simp
qed

lemma sixteen_or:
  assumes "sub < 16"
  shows "(16 :: u64) OR of_nat sub = of_nat (16 + sub)"
proof -
  have "sub = 0 \<or> sub = 1 \<or> sub = 2 \<or> sub = 3 \<or> sub = 4 \<or> sub = 5 \<or> sub = 6 \<or> sub = 7 \<or> sub = 8 \<or>
    sub = 9 \<or> sub = 10 \<or> sub = 11 \<or> sub = 12 \<or> sub = 13 \<or> sub = 14 \<or> sub = 15"
    using assms by presburger
  then show ?thesis by (elim disjE) simp_all
qed

lemma bucket_in_range:
  assumes "unat ns < 2 ^ 23"
  shows "bucket_for ns < TOTAL_BUCKETS"
proof (cases "unat ns < 256")
  case False
  have "(2 :: nat) ^ floor_log2 (unat ns) < 2 ^ 23"
    using floor_log2_bounds[of "unat ns"] False assms by (auto intro: le_less_trans)
  then have m: "floor_log2 (unat ns) < 23" by (rule power_less_imp_less_exp[rotated]) simp
  have f: "256 \<le> unat ns" "floor_log2 (unat ns) < 32" using False m by simp_all
  show ?thesis
    unfolding bucket_for_log(1)[OF f] using m bucket_for_log(2)[OF f] by (simp add: bucket_constants less_Suc_eq_le)
qed (simp add: bucket_for_def bucket_constants)

lemma record_latency_ok:
  assumes "unat ns < 2 ^ 23" "length (lh_buckets h) = TOTAL_BUCKETS"
  shows "\<exists>h'. record_latency ns h = Inr h' \<and> length (lh_buckets h') = TOTAL_BUCKETS"
  using bucket_in_range[OF assms(1)] assms(2) by (simp add: record_latency_def)

text \<open>The lower bound of the bucket of a latency is off by at most one sixteenth of it.\<close>

lemma bucket_lower_close:
  assumes "unat ns < 2 ^ 23"
  shows "bucket_for ns < TOTAL_BUCKETS \<and> unat (bucket_lower (bucket_for ns)) \<le> unat ns \<and>
    16 * (unat ns - unat (bucket_lower (bucket_for ns))) \<le> unat (bucket_lower (bucket_for ns)) \<and>
    (unat ns < 256 \<longrightarrow> unat (bucket_lower (bucket_for ns)) = unat ns)"
proof (cases "unat ns < 256")
  case True
  then show ?thesis
    by (simp add: bucket_for_def bucket_lower_def bucket_constants)
next
  case False
  let ?n = "unat ns" and ?m = "floor_log2 (unat ns)"
  let ?w = "(2 :: nat) ^ (?m - 4)" and ?sub = "unat ns div 2 ^ (floor_log2 (unat ns) - 4) mod 16"
  have b: "2 ^ ?m \<le> ?n" using floor_log2_bounds[of ?n] False by auto
  have "(2 :: nat) ^ ?m < 2 ^ 23" using b assms by linarith
  then have m23: "?m < 23" by (rule power_less_imp_less_exp[rotated]) simp
  have f: "256 \<le> ?n" "?m < 32" using False m23 by simp_all
  note bf = bucket_for_log[OF f]
  have idx: "(bucket_for ns - 256) div 16 = ?m - 7" "(bucket_for ns - 256) mod 16 = ?sub"
    unfolding bf(1) by simp_all
  have lt: "bucket_for ns < 512" unfolding bf(1) using m23 bf(2) by (simp add: less_Suc_eq_le)
  have pb: "(2 :: u64) ^ ?m = push_bit (?m - 4) 16"
    using bf(2) power_add[of "2 :: u64" 4 "?m - 4"] by (simp add: push_bit_eq_mult)
  have "bucket_lower (bucket_for ns) = push_bit (?m - 4) (16 OR of_nat ?sub)"
    using idx bf(1,2) by (simp add: bucket_lower_def bucket_constants Let_def pb push_bit_or)
  also have "\<dots> = push_bit (?m - 4) (of_nat (?n div ?w))"
    using sixteen_or[of ?sub] bf(3) by simp
  also have "\<dots> = of_nat (?n div ?w * ?w)" by (simp add: push_bit_eq_mult)
  finally have "unat (bucket_lower (bucket_for ns)) = (?n div ?w * ?w) mod 2 ^ 64"
    by (simp only: unat_of_nat) simp
  moreover have le: "?n div ?w * ?w \<le> ?n" by simp
  moreover have "?n div ?w * ?w < 2 ^ 64"
  proof (rule le_less_trans[OF le])
    show "?n < 2 ^ 64" using assms by (rule less_trans) simp
  qed
  ultimately have low: "unat (bucket_lower (bucket_for ns)) = ?n div ?w * ?w" by (simp only: mod_less)
  have "?n - ?n div ?w * ?w < ?w" using mod_less_divisor[of ?w ?n] minus_div_mult_eq_mod[of ?n ?w] by simp
  moreover have "16 * ?w \<le> ?n div ?w * ?w" using bf(3) by (metis le_add1 mult_le_mono1)
  ultimately have "16 * (?n - ?n div ?w * ?w) \<le> ?n div ?w * ?w" by linarith
  then show ?thesis unfolding low using lt le False by (simp add: bucket_constants)
qed

text \<open>
  A latency from \<open>2 ^ 23\<close> ns (8.4 ms) up to \<open>2 ^ 32\<close> ns has a bucket index beyond the
  histogram, and recording it writes outside the array.
\<close>

theorem record_out_of_bounds:
  assumes "2 ^ 23 \<le> unat ns" "unat ns < 2 ^ 32" "length (lh_buckets h) = TOTAL_BUCKETS"
  shows "record_latency ns h = Inl OutOfBounds"
proof -
  let ?m = "floor_log2 (unat ns)"
  have b: "2 ^ ?m \<le> unat ns" "unat ns < 2 ^ Suc ?m" using floor_log2_bounds[of "unat ns"] assms(1) by auto
  have "(2 :: nat) ^ ?m < 2 ^ 32" "(2 :: nat) ^ 23 < 2 ^ Suc ?m" using b assms by linarith+
  then have m: "?m < 32" "23 < Suc ?m"
    using power_less_imp_less_exp[of "2 :: nat" ?m 32] power_less_imp_less_exp[of "2 :: nat" 23 "Suc ?m"]
    by (simp_all only: one_less_numeral_iff semiring_norm)
  have "256 \<le> unat ns" using assms(1) by simp
  then have "512 \<le> bucket_for ns" using bucket_for_log(1)[OF _ m(1)] m(2) by simp
  then show ?thesis using assms(3) by (simp add: record_latency_def bucket_constants)
qed

theorem record_out_of_bounds_witness: "record_latency 10000000 histogram_init = Inl OutOfBounds"
  using record_out_of_bounds[of 10000000 histogram_init] by (simp add: histogram_init_def)

section \<open>Percentiles against the sorted sample\<close>

text \<open>A histogram that has recorded the latencies of a list, oldest first.\<close>

fun record_all :: "u64 list \<Rightarrow> LatencyHistogram \<Rightarrow> LatencyHistogram outcome" where
  "record_all [] h = Inr h" |
  "record_all (x # xs) h = (case record_latency x h of Inl e \<Rightarrow> Inl e | Inr h' \<Rightarrow> record_all xs h')"

definition samples_in :: "nat \<Rightarrow> u64 list \<Rightarrow> nat" where
  "samples_in b xs = length (filter (\<lambda>x. bucket_for x = b) xs)"

definition samples_below :: "nat \<Rightarrow> u64 list \<Rightarrow> nat" where
  "samples_below b xs = length (filter (\<lambda>x. bucket_for x < b) xs)"

lemma samples_in_Cons: "samples_in b (x # xs) = (if bucket_for x = b then Suc (samples_in b xs) else samples_in b xs)"
  by (simp add: samples_in_def)

lemma samples_below_0 [simp]: "samples_below 0 xs = 0"
  by (simp add: samples_below_def)

lemma samples_below_Suc: "samples_below (Suc b) xs = samples_below b xs + samples_in b xs"
  unfolding samples_below_def samples_in_def by (induction xs) (auto simp: less_Suc_eq)

lemma samples_below_le: "samples_below b xs \<le> length xs"
  by (simp add: samples_below_def)

lemma bucket_for_mono:
  assumes "a \<le> b" "unat b < 2 ^ 23"
  shows "bucket_for a \<le> bucket_for b"
proof -
  have ab: "unat a \<le> unat b" using assms(1) by (simp add: word_le_nat_alt)
  have m: "floor_log2 (unat x) < 32" if "256 \<le> unat x" "unat x \<le> unat b" for x :: u64
  proof -
    have "(2 :: nat) ^ floor_log2 (unat x) < 2 ^ 32"
      using floor_log2_bounds[of "unat x"] that assms(2) by (auto intro: le_less_trans)
    then show ?thesis by (rule power_less_imp_less_exp[rotated]) simp
  qed
  consider "unat b < 256" | "unat a < 256" "256 \<le> unat b" | "256 \<le> unat a" "256 \<le> unat b" using ab by linarith
  then show ?thesis
  proof cases
    case 3
    note la = bucket_for_log[OF 3(1) m[OF 3(1) ab]] and lb = bucket_for_log[OF 3(2) m[OF 3(2) order_refl]]
    let ?ma = "floor_log2 (unat a)" and ?mb = "floor_log2 (unat b)"
    have "(2 :: nat) ^ ?ma < 2 ^ Suc ?mb"
      using floor_log2_bounds[of "unat a"] floor_log2_bounds[of "unat b"] ab 3 by linarith
    then have "?ma < Suc ?mb" by (rule power_less_imp_less_exp[rotated]) simp
    then consider "?ma < ?mb" | "?ma = ?mb" by linarith
    then show ?thesis
    proof cases
      case 1
      have "unat a div 2 ^ (?ma - 4) mod 16 < 16" by simp
      then show ?thesis unfolding la(1) lb(1) using 1 la(2) by linarith
    next
      case 2
      have "unat a div 2 ^ (?ma - 4) \<le> unat b div 2 ^ (?mb - 4)" unfolding 2 by (rule div_le_mono[OF ab])
      then show ?thesis unfolding la(1) lb(1) using 2 la(3) lb(3) by linarith
    qed
  next
    case 2
    then show ?thesis using bucket_for_log(1)[OF 2(2) m[OF 2(2) order_refl]] by (simp add: bucket_for_def bucket_constants)
  qed (use ab in \<open>simp add: bucket_for_def bucket_constants\<close>)
qed

lemma if_less_max: "(if a < b then b else a) = max a (b :: u64)"
  by (auto simp: max_def)

lemma record_all_ok:
  assumes "\<forall>x\<in>set xs. unat x < 2 ^ 23" "length (lh_buckets h) = TOTAL_BUCKETS"
  shows "\<exists>h'. record_all xs h = Inr h' \<and> length (lh_buckets h') = TOTAL_BUCKETS \<and>
    lh_count h' = lh_count h + of_nat (length xs) \<and> lh_max h' = foldl max (lh_max h) xs \<and>
    (\<forall>b < TOTAL_BUCKETS. lh_buckets h' ! b = lh_buckets h ! b + of_nat (samples_in b xs))"
  using assms
proof (induction xs arbitrary: h)
  case (Cons x xs)
  have r: "bucket_for x < TOTAL_BUCKETS" using Cons.prems(1) by (intro bucket_in_range) simp
  define h1 where "h1 = h\<lparr>lh_buckets := bump (bucket_for x) (lh_buckets h), lh_count := lh_count h + 1,
    lh_max := max (lh_max h) x\<rparr>"
  have h1: "record_latency x h = Inr h1" "length (lh_buckets h1) = TOTAL_BUCKETS"
    "lh_count h1 = lh_count h + 1" "lh_max h1 = max (lh_max h) x" "lh_buckets h1 = bump (bucket_for x) (lh_buckets h)"
    using r Cons.prems(2) by (simp_all add: record_latency_def h1_def if_less_max)
  obtain h' where "record_all xs h1 = Inr h'" "length (lh_buckets h') = TOTAL_BUCKETS"
    "lh_count h' = lh_count h1 + of_nat (length xs)" "lh_max h' = foldl max (lh_max h1) xs"
    "\<forall>b < TOTAL_BUCKETS. lh_buckets h' ! b = lh_buckets h1 ! b + of_nat (samples_in b xs)"
    using Cons.IH[of h1] Cons.prems(1) h1(2) by auto
  then show ?case using h1 r Cons.prems(2) by (simp add: nth_bump samples_in_Cons)
qed (simp add: samples_in_def)

text \<open>The rank of a sample decides how many samples lie in lower buckets.\<close>

lemma samples_below_rank:
  assumes "t < length xs" "\<forall>x\<in>set xs. unat x < 2 ^ 23"
  shows "samples_below b xs \<le> t \<longleftrightarrow> b \<le> bucket_for (sort xs ! t)"
proof -
  let ?ys = "sort xs"
  have len: "length ?ys = length xs" by simp
  have "samples_below b xs = length (filter (\<lambda>x. bucket_for x < b) ?ys)"
    by (simp add: samples_below_def filter_sort)
  then have c: "samples_below b xs = card {i. i < length ?ys \<and> bucket_for (?ys ! i) < b}"
    by (simp only: length_filter_conv_card)
  have mono: "bucket_for (?ys ! i) \<le> bucket_for (?ys ! j)" if "i \<le> j" "j < length xs" for i j
    using that assms(2) nth_mem[of j ?ys] by (intro bucket_for_mono sorted_nth_mono) auto
  show ?thesis
  proof (cases "b \<le> bucket_for (?ys ! t)")
    case True
    have "{i. i < length ?ys \<and> bucket_for (?ys ! i) < b} \<subseteq> {..<t}"
      using True mono[of t] by (fastforce simp: not_less[symmetric])
    from card_mono[OF _ this] show ?thesis using True c by simp
  next
    case False
    have "{..t} \<subseteq> {i. i < length ?ys \<and> bucket_for (?ys ! i) < b}"
      using False mono[of _ t] assms(1) by (auto simp: not_le intro: le_less_trans)
    from card_mono[OF _ this] show ?thesis using False c by simp
  qed
qed

lemma percentile_scan_rank:
  assumes "t < length xs" "\<forall>x\<in>set xs. unat x < 2 ^ 23" "length xs < 2 ^ 64"
    and "\<forall>b < TOTAL_BUCKETS. lh_buckets h ! b = of_nat (samples_in b xs)" "i \<le> bucket_for (sort xs ! t)"
  shows "percentile_scan h (of_nat t) i (of_nat (samples_below i xs)) = bucket_lower (bucket_for (sort xs ! t))"
  using assms(5)
proof (induction "bucket_for (sort xs ! t) - i" arbitrary: i)
  case (0 i)
  have "sort xs ! t \<in> set xs" using nth_mem[of t "sort xs"] assms(1) by simp
  then have "i < TOTAL_BUCKETS" using 0 bucket_in_range[of "sort xs ! t"] assms(2) by auto
  moreover have "t < samples_below (Suc i) xs" using samples_below_rank[OF assms(1,2), of "Suc i"] 0 by auto
  moreover have "samples_below (Suc i) xs < 2 ^ 64" "t < 2 ^ 64"
    using samples_below_le[of "Suc i" xs] assms(1,3) by linarith+
  ultimately show ?case
    using assms(4) 0 by (simp add: percentile_scan.simps[of _ _ i] samples_below_Suc word_less_nat_alt unat_of_nat flip: of_nat_add)
next
  case (Suc d i)
  have "sort xs ! t \<in> set xs" using nth_mem[of t "sort xs"] assms(1) by simp
  then have lt: "i < TOTAL_BUCKETS" using Suc(2) bucket_in_range[of "sort xs ! t"] assms(2) by auto
  moreover have "\<not> t < samples_below (Suc i) xs" using samples_below_rank[OF assms(1,2), of "Suc i"] Suc(2) by auto
  moreover have "samples_below (Suc i) xs < 2 ^ 64" "t < 2 ^ 64"
    using samples_below_le[of "Suc i" xs] assms(1,3) by linarith+
  moreover have "percentile_scan h (of_nat t) (Suc i) (of_nat (samples_below (Suc i) xs)) = bucket_lower (bucket_for (sort xs ! t))"
    using Suc(2) by (intro Suc(1)) auto
  ultimately show ?case
    using assms(4) by (simp add: percentile_scan.simps[of _ _ i] samples_below_Suc word_less_nat_alt unat_of_nat flip: of_nat_add)
qed

text \<open>
  Property C32. After any sequence of latencies below \<open>2 ^ 23\<close> ns (and fewer than \<open>2 ^ 64\<close> of them)
  the histogram answers a percentile query the way the sorted sample does: the scan over the
  buckets returns the lower bound of the bucket of the sample with the rank asked for, which is at
  most that sample and within one sixteenth of it.
\<close>

theorem percentile_of_sorted_sample:
  assumes "\<forall>x\<in>set xs. unat x < 2 ^ 23" "length xs < 2 ^ 64" "t < length xs"
  shows "\<exists>h. record_all xs histogram_init = Inr h \<and> lh_count h = of_nat (length xs) \<and>
    percentile h (of_nat t) = bucket_lower (bucket_for (sort xs ! t)) \<and>
    unat (percentile h (of_nat t)) \<le> unat (sort xs ! t) \<and>
    16 * (unat (sort xs ! t) - unat (percentile h (of_nat t))) \<le> unat (percentile h (of_nat t)) \<and>
    (unat (sort xs ! t) < 256 \<longrightarrow> percentile h (of_nat t) = sort xs ! t)"
proof -
  obtain h where h: "record_all xs histogram_init = Inr h" "lh_count h = of_nat (length xs)"
    "\<forall>b < TOTAL_BUCKETS. lh_buckets h ! b = of_nat (samples_in b xs)"
    using record_all_ok[OF assms(1), of histogram_init] by (auto simp: histogram_init_def)
  have "lh_count h \<noteq> 0" using h(2) assms(2,3) by (auto simp: word_unat_eq_iff unat_of_nat)
  then have p: "percentile h (of_nat t) = bucket_lower (bucket_for (sort xs ! t))"
    using percentile_scan_rank[OF assms(3,1,2) h(3), of 0] by (simp add: percentile_def)
  have "sort xs ! t \<in> set xs" using nth_mem[of t "sort xs"] assms(3) by simp
  then have "unat (sort xs ! t) < 2 ^ 23" using assms(1) by blast
  from bucket_lower_close[OF this] show ?thesis using h p by (auto simp: word_unat_eq_iff)
qed

theorem percentile_of_sorted_sample_witness:
  "\<exists>h. record_all [900, 70, 300, 40, 5000] histogram_init = Inr h \<and> percentile h 4 = bucket_lower (bucket_for 5000)"
proof -
  have "sort [900, 70, 300, 40, 5000 :: u64] = [40, 70, 300, 900, 5000]" by simp
  then show ?thesis using percentile_of_sorted_sample[of "[900, 70, 300, 40, 5000]" 4] by auto
qed

end
