(* ===== verification/Shard_Worker.thy ===== *)
theory Shard_Worker
  imports Book_Properties Session_Manager Latency_Histogram
begin

text \<open>
  The worker of one shard: \<^verbatim>\<open>src/workers/shard_worker.cpp\<close> with the slab of books
  \<^verbatim>\<open>src/orderbook/order_book_pool.cpp\<close>.

  The books of a shard share its order pool, order map and two counters. The session manager
  belongs to the parser thread; \<open>dispatch\<close> reads its state at most once per message, so the
  manager as it is then is an argument, as is the clock.
\<close>

section \<open>OrderBookPool\<close>

definition BOOKS_PER_SHARD :: nat where "BOOKS_PER_SHARD = MAX_LOCATE div NUM_SHARDS"

definition OrderBookPool_new :: "nat \<Rightarrow> Level2Book list" where
  "OrderBookPool_new shard_id =
    map (\<lambda>i. Level2Book_new (of_nat (i * NUM_SHARDS + shard_id))) [0..<BOOKS_PER_SHARD]"

text \<open>The slab index of \<^verbatim>\<open>book(loc)\<close>.\<close>

definition slab_index :: "LocateCode \<Rightarrow> nat" where
  "slab_index loc = unat loc div NUM_SHARDS"

section \<open>ShardWorker\<close>

record ShardWorker =
  sw_shard_id :: nat
  sw_books :: "Level2Book list"
  sw_book_active :: "bool list"
  sw_pool :: OrderPool
  sw_map :: OrderMap
  sw_price_level_drops :: counter
  sw_replaces_inplace :: counter
  sw_bbo :: BboPublisher
  sw_book_lat :: LatencyHistogram

definition ShardWorker_new :: "nat \<Rightarrow> OrderPool \<Rightarrow> OrderMap \<Rightarrow> BboPublisher \<Rightarrow> LatencyHistogram \<Rightarrow> ShardWorker" where
  "ShardWorker_new shard_id pool m bbo lat =
    \<lparr>sw_shard_id = shard_id, sw_books = OrderBookPool_new shard_id,
     sw_book_active = replicate BOOKS_PER_SHARD False, sw_pool = pool, sw_map = m,
     sw_price_level_drops = 0, sw_replaces_inplace = 0, sw_bbo = bbo, sw_book_lat = lat\<rparr>"

text \<open>A book with what it points to, and the worker after an operation of that book.\<close>

definition book_state :: "ShardWorker \<Rightarrow> nat \<Rightarrow> BookState" where
  "book_state w i = \<lparr>bs_book = sw_books w ! i, bs_pool = sw_pool w, bs_map = sw_map w,
     bs_drops = sw_price_level_drops w, bs_inplace = sw_replaces_inplace w\<rparr>"

definition put_book :: "nat \<Rightarrow> BookState \<Rightarrow> ShardWorker \<Rightarrow> ShardWorker" where
  "put_book i st w = w\<lparr>sw_books := (sw_books w)[i := bs_book st], sw_pool := bs_pool st,
     sw_map := bs_map st, sw_price_level_drops := bs_drops st, sw_replaces_inplace := bs_inplace st\<rparr>"

definition activate_book :: "LocateCode \<Rightarrow> ShardWorker \<Rightarrow> ShardWorker" where
  "activate_book loc w =
    (let idx = slab_index loc in
     if \<not> sw_book_active w ! idx
     then w\<lparr>sw_book_active := (sw_book_active w)[idx := True],
            sw_books := (sw_books w)[idx := set_inplace_ctr (set_drop_ctr (sw_books w ! idx))]\<rparr>
     else w)"

definition clear_all_books :: "ShardWorker \<Rightarrow> ShardWorker" where
  "clear_all_books w =
    w\<lparr>sw_books := map (\<lambda>(active, b). if active then book_clear b else b) (zip (sw_book_active w) (sw_books w)),
      sw_book_active := map (\<lambda>_. False) (sw_book_active w)\<rparr>"

text \<open>The handler of an order message; the other types have none.\<close>

definition book_handler :: "ItchMsg \<Rightarrow> (BookState \<Rightarrow> BookState outcome) option" where
  "book_handler msg =
    (case im_type msg of
       AddOrder \<Rightarrow> Some (\<lambda>st. on_add_order st msg)
     | AddOrderMPID \<Rightarrow> Some (\<lambda>st. on_add_order st msg)
     | OrderExecuted \<Rightarrow> Some (\<lambda>st. on_order_executed st msg)
     | OrderExecutedPrice \<Rightarrow> Some (\<lambda>st. on_order_executed_price st msg)
     | OrderCancel \<Rightarrow> Some (\<lambda>st. on_order_cancel st msg)
     | OrderDelete \<Rightarrow> Some (\<lambda>st. on_order_delete st msg)
     | OrderReplace \<Rightarrow> Some (\<lambda>st. on_order_replace st msg)
     | _ \<Rightarrow> None)"

definition record_book_latency :: "Timestamp \<Rightarrow> ItchMsg \<Rightarrow> ShardWorker \<Rightarrow> ShardWorker outcome" where
  "record_book_latency after msg w =
    (if 0 < im_recv_timestamp msg \<and> im_recv_timestamp msg \<le> after
     then andthen (record_latency (after - im_recv_timestamp msg) (sw_book_lat w)) (\<lambda>h.
            Inr (w\<lparr>sw_book_lat := h\<rparr>))
     else Inr w)"

definition dispatch :: "SessionManager \<Rightarrow> Timestamp \<Rightarrow> ItchMsg \<Rightarrow> ShardWorker \<Rightarrow> ShardWorker outcome" where
  "dispatch mgr after msg w =
    (let idx = slab_index (im_locate msg) in
     if im_type msg = InternalSessionReset then
       let w1 = clear_all_books w
       in Inr (w1\<lparr>sw_pool := pool_reset (sw_pool w1), sw_map := map_reset (sw_map w1)\<rparr>)
     else if im_type msg = StockDirectory then
       if sm_state mgr = Open then Inr (activate_book (im_locate msg) w)
       else if sm_state mgr = PreOpen \<and> is_warmup_symbol (im_locate msg) mgr
       then Inr (activate_book (im_locate msg) w)
       else Inr w
     else if im_type msg = StockTradingAction then
       if sw_book_active w ! idx
       then Inr (put_book idx (on_trading_action (book_state w idx) msg) w)
       else Inr w
     else if \<not> is_open mgr then Inr w
     else if \<not> sw_book_active w ! idx \<and> im_type msg \<noteq> AddOrder \<and> im_type msg \<noteq> AddOrderMPID then Inr w
     else
       let w1 = (if sw_book_active w ! idx then w else activate_book (im_locate msg) w) in
       case book_handler msg of
         None \<Rightarrow> Inr w1
       | Some h \<Rightarrow>
           andthen (h (book_state w1 idx)) (\<lambda>st.
             let w2 = put_book idx st w1;
                 bbo = (get_bbo (bs_book st))\<lparr>bb_ts := im_timestamp msg\<rparr>;
                 w3 = w2\<lparr>sw_bbo := bbo_publish (im_locate msg) bbo (sw_bbo w2)\<rparr>
             in record_book_latency after msg w3))"

section \<open>Invariant\<close>

definition worker_ok :: "ShardWorker \<Rightarrow> bool" where
  "worker_ok w \<longleftrightarrow> sw_shard_id w < NUM_SHARDS \<and> length (sw_books w) = BOOKS_PER_SHARD \<and>
     length (sw_book_active w) = BOOKS_PER_SHARD \<and> bbo_ok (sw_bbo w) \<and>
     (\<forall>i < BOOKS_PER_SHARD. book_wf (sw_books w ! i) \<and>
        lb_locate (sw_books w ! i) = of_nat (i * NUM_SHARDS + sw_shard_id w))"

lemma slab_index_bound: "slab_index loc < BOOKS_PER_SHARD"
  using unat_bound[of loc] by (simp add: slab_index_def BOOKS_PER_SHARD_def MAX_LOCATE_def NUM_SHARDS_def)

lemma slab_index_inverse:
  "shard_for_locate loc = s \<Longrightarrow> (of_nat (slab_index loc * NUM_SHARDS + s) :: LocateCode) = loc"
  by (rule word_unat_eq_iff[THEN iffD2])
    (use unat_bound[of loc] in \<open>auto simp: slab_index_def shard_for_locate_def unat_of_nat
       simp del: of_nat_add of_nat_mult\<close>)

lemma set_side_locate [simp]: "lb_locate (set_side b side L c) = lb_locate b"
  by (simp add: set_side_def)

lemma place_order_locate: "place_order st idx ref p q s = Inr st' \<Longrightarrow> lb_locate (bs_book st') = lb_locate (bs_book st)"
  by (auto simp: place_order_def Let_def split: prod.splits if_splits)

lemma new_order_locate: "new_order st ref p q s = Inr st' \<Longrightarrow> lb_locate (bs_book st') = lb_locate (bs_book st)"
  by (auto simp: new_order_def split: prod.splits option.splits dest!: place_order_locate)

lemma drop_order_locate: "drop_order st idx ref = Inr st' \<Longrightarrow> lb_locate (bs_book st') = lb_locate (bs_book st)"
  by (erule drop_order_InrE) simp

lemma reduce_qty_locate: "reduce_qty st ref q = Inr st' \<Longrightarrow> lb_locate (bs_book st') = lb_locate (bs_book st)"
  by (auto simp: reduce_qty_def Let_def split: if_splits dest!: drop_order_locate)

lemma replace_locate: "on_order_replace st msg = Inr st' \<Longrightarrow> lb_locate (bs_book st') = lb_locate (bs_book st)"
  by (auto simp: on_order_replace_def Let_def split: if_splits dest!: drop_order_locate new_order_locate)

lemma book_step_locate: "book_step st st' \<Longrightarrow> lb_locate (bs_book st') = lb_locate (bs_book st)"
proof (induction rule: book_step.induct)
  case (delete st msg st')
  then show ?case by (auto simp: on_order_delete_def split: if_splits dest: drop_order_locate)
qed (auto simp: on_add_order_def Let_def on_order_executed_def on_order_executed_price_def
    on_order_cancel_def on_trading_action_def book_clear_def
    dest: new_order_locate reduce_qty_locate replace_locate)

lemma book_handler_step:
  assumes "book_handler msg = Some h" "h st = Inr st'"
  shows "book_step st st'"
  using assms by (auto simp: book_handler_def split: MessageType.splits intro: book_step.intros)

text \<open>The books other than that of the message stay, and the invariant holds.\<close>

definition worker_step :: "nat \<Rightarrow> ShardWorker \<Rightarrow> ShardWorker \<Rightarrow> bool" where
  "worker_step i w w' \<longleftrightarrow> worker_ok w' \<and> sw_shard_id w' = sw_shard_id w \<and>
     (\<forall>j < BOOKS_PER_SHARD. j \<noteq> i \<longrightarrow> sw_books w' ! j = sw_books w ! j \<and> sw_book_active w' ! j = sw_book_active w ! j)"

lemma worker_step_put:
  assumes "worker_ok w" "i < BOOKS_PER_SHARD" "book_step (book_state w i) st"
  shows "worker_step i w (put_book i st w)"
proof -
  have "book_wf (bs_book st)" "lb_locate (bs_book st) = lb_locate (sw_books w ! i)"
    using book_wf_step[OF assms(3)] book_step_locate[OF assms(3)] assms(1,2)
    by (simp_all add: book_state_def worker_ok_def)
  then show ?thesis
    using assms(1,2) by (auto simp: worker_step_def worker_ok_def put_book_def nth_list_update)
qed

lemma worker_step_activate:
  assumes "worker_ok w"
  shows "worker_step (slab_index loc) w (activate_book loc w)"
  using assms slab_index_bound[of loc]
  by (auto simp: worker_step_def worker_ok_def activate_book_def nth_list_update Let_def
      set_drop_ctr_def set_inplace_ctr_def book_wf_def)

lemma worker_step_trans: "worker_step i w w' \<Longrightarrow> worker_step i w' w'' \<Longrightarrow> worker_step i w w''"
  by (auto simp: worker_step_def)

lemma worker_step_refl: "worker_ok w \<Longrightarrow> worker_step i w w"
  by (simp add: worker_step_def)

lemma worker_step_bbo: "worker_step i w w' \<Longrightarrow> bbo_ok p \<Longrightarrow> worker_step i w (w'\<lparr>sw_bbo := p\<rparr>)"
  by (simp add: worker_step_def worker_ok_def)

lemma record_book_latency_keeps:
  "record_book_latency after msg w = Inr w' \<Longrightarrow> \<exists>h. w' = w\<lparr>sw_book_lat := h\<rparr>"
  by (auto simp: record_book_latency_def split: if_splits intro: exI[of _ "sw_book_lat w"])

lemma worker_ok_new:
  assumes "s < NUM_SHARDS" "bbo_ok bbo"
  shows "worker_ok (ShardWorker_new s pool m bbo lat)"
  using assms book_wf_initial
  by (simp add: worker_ok_def ShardWorker_new_def OrderBookPool_new_def) (simp add: Level2Book_new_def)

section \<open>Properties\<close>

lemma activate_bbo [simp]: "sw_bbo (activate_book loc w) = sw_bbo w"
  by (simp add: activate_book_def Let_def)

lemma put_book_fields [simp]:
  "sw_bbo (put_book i st w) = sw_bbo w" "sw_books (put_book i st w) = (sw_books w)[i := bs_book st]"
  by (simp_all add: put_book_def)

lemma worker_step_ok: "worker_step i w w' \<Longrightarrow> worker_ok w'"
  by (simp add: worker_step_def)

lemma worker_step_lat: "worker_step i w w' \<Longrightarrow> worker_step i w (w'\<lparr>sw_book_lat := h\<rparr>)"
  by (simp add: worker_step_def worker_ok_def)

text \<open>The path of an order message of an open session.\<close>

lemma dispatch_order:
  assumes "worker_ok w" "book_handler msg = Some h" "is_open mgr"
    "sw_book_active w ! slab_index (im_locate msg) \<or> im_type msg = AddOrder \<or> im_type msg = AddOrderMPID"
    "dispatch mgr after msg w = Inr w'"
  shows "worker_step (slab_index (im_locate msg)) w w' \<and>
    sw_bbo w' = bbo_publish (im_locate msg)
      ((get_bbo (sw_books w' ! slab_index (im_locate msg)))\<lparr>bb_ts := im_timestamp msg\<rparr>) (sw_bbo w)"
proof -
  let ?i = "slab_index (im_locate msg)"
  define w1 where "w1 = (if sw_book_active w ! ?i then w else activate_book (im_locate msg) w)"
  have t: "im_type msg \<noteq> InternalSessionReset" "im_type msg \<noteq> StockDirectory" "im_type msg \<noteq> StockTradingAction"
    using assms(2) by (auto simp: book_handler_def)
  have "andthen (h (book_state w1 ?i)) (\<lambda>st.
      record_book_latency after msg ((put_book ?i st w1)\<lparr>sw_bbo := bbo_publish (im_locate msg)
        ((get_bbo (bs_book st))\<lparr>bb_ts := im_timestamp msg\<rparr>) (sw_bbo w)\<rparr>)) = Inr w'"
    using assms(2-5) t by (auto simp: dispatch_def w1_def Let_def)
  then obtain st lat where h: "h (book_state w1 ?i) = Inr st"
    and w': "w' = (put_book ?i st w1)\<lparr>sw_bbo := bbo_publish (im_locate msg)
      ((get_bbo (bs_book st))\<lparr>bb_ts := im_timestamp msg\<rparr>) (sw_bbo w), sw_book_lat := lat\<rparr>"
    by (auto dest!: record_book_latency_keeps)
  have s1: "worker_step ?i w w1"
    using assms(1) by (simp add: w1_def worker_step_refl worker_step_activate)
  have s2: "worker_step ?i w (put_book ?i st w1)"
    using worker_step_trans[OF s1 worker_step_put[OF worker_step_ok[OF s1] slab_index_bound
          book_handler_step[OF assms(2) h]]] .
  have "?i < length (sw_books w1)"
    using worker_step_ok[OF s1] slab_index_bound[of "im_locate msg"] by (simp add: worker_ok_def)
  moreover have "bbo_ok (sw_bbo w)" using assms(1) by (simp add: worker_ok_def)
  ultimately show ?thesis
    using worker_step_lat[OF worker_step_bbo[OF s2]] bbo_ok_ops(3) by (simp add: w')
qed

text \<open>
  Property C14. A message other than a session reset, dispatched without a fault to the worker of its own
  shard, changes the book of its locate code only and keeps every book of the shard well formed and
  under its own code. Outside an open session an order message changes nothing; in an open one, when
  the book is in use or the message adds an order, which puts it into use, readers of the symbol's
  slot (if its code has one) get the best bid and offer of the updated book, under the locate code
  and the timestamp of the message.
\<close>

theorem dispatch_updates_own_book:
  assumes "worker_ok w" "shard_for_locate (im_locate msg) = sw_shard_id w"
    "im_type msg \<noteq> InternalSessionReset" "dispatch mgr after msg w = Inr w'"
  shows "worker_step (slab_index (im_locate msg)) w w' \<and>
    (book_handler msg \<noteq> None \<and> \<not> is_open mgr \<longrightarrow> w' = w) \<and>
    (book_handler msg \<noteq> None \<and> is_open mgr \<and> unat (im_locate msg) < length (bp_slots (sw_bbo w)) \<and>
       (sw_book_active w ! slab_index (im_locate msg) \<or> im_type msg = AddOrder \<or> im_type msg = AddOrderMPID)
     \<longrightarrow> bbo_read (im_locate msg) (sw_bbo w') =
           Inr ((get_bbo (sw_books w' ! slab_index (im_locate msg)))
             \<lparr>bb_locate := im_locate msg, bb_ts := im_timestamp msg\<rparr>))"
proof -
  let ?i = "slab_index (im_locate msg)"
  let ?ready = "book_handler msg \<noteq> None \<and> is_open mgr \<and>
    (sw_book_active w ! ?i \<or> im_type msg = AddOrder \<or> im_type msg = AddOrderMPID)"
  have closed: "book_handler msg \<noteq> None \<and> \<not> is_open mgr \<longrightarrow> w' = w"
    using assms(3,4) by (auto simp: dispatch_def book_handler_def Let_def split: MessageType.splits)
  show ?thesis
  proof (cases ?ready)
    case True
    then obtain h where "book_handler msg = Some h" by blast
    then have d: "worker_step ?i w w'" "sw_bbo w' = bbo_publish (im_locate msg)
      ((get_bbo (sw_books w' ! ?i))\<lparr>bb_ts := im_timestamp msg\<rparr>) (sw_bbo w)"
      using dispatch_order[OF assms(1) _ _ _ assms(4)] True by simp_all
    have "lb_locate (sw_books w' ! ?i) = im_locate msg"
      using d(1) slab_index_bound[of "im_locate msg"] slab_index_inverse[OF assms(2)]
      by (simp add: worker_step_def worker_ok_def del: of_nat_add of_nat_mult)
    then have "(get_bbo (sw_books w' ! ?i))\<lparr>bb_locate := im_locate msg, bb_ts := im_timestamp msg\<rparr> =
        (get_bbo (sw_books w' ! ?i))\<lparr>bb_ts := im_timestamp msg\<rparr>"
      by (simp add: get_bbo_def)
    then show ?thesis using d True assms(1) by (simp add: bbo_read_publish worker_ok_def)
  next
    case False
    then have "w' = w \<or> w' = activate_book (im_locate msg) w \<or>
        w' = put_book ?i (on_trading_action (book_state w ?i) msg) w"
      using assms(3,4) by (auto simp: dispatch_def Let_def split: if_splits option.splits)
    then have "worker_step ?i w w'"
      using worker_step_refl worker_step_activate worker_step_put slab_index_bound assms(1)
        book_step.action by metis
    then show ?thesis using closed False by blast
  qed
qed

text \<open>A worker of shard 1 with small tables, in an open session.\<close>

definition small_worker :: ShardWorker where
  "small_worker = ShardWorker_new 1 (OrderPool_new 2 [zero_order, zero_order]) (OrderMap_new 4)
     (BboPublisher_new 4) histogram_init"

definition open_manager :: SessionManager where
  "open_manager = (SessionManager_new (Some AUTO_DETECT) True)\<lparr>sm_state := Open\<rparr>"

lemma small_worker_ok: "worker_ok small_worker" "sw_shard_id small_worker = 1"
    "\<not> sw_book_active small_worker ! 0" "length (bp_slots (sw_bbo small_worker)) = 4"
  using worker_ok_new[OF _ bbo_ok_ops(1)]
  by (simp_all add: small_worker_def NUM_SHARDS_def) (simp_all add: ShardWorker_new_def BOOKS_PER_SHARD_def
      MAX_LOCATE_def NUM_SHARDS_def BboPublisher_new_def)

lemma small_worker_state: "book_state (activate_book 1 small_worker) 0 = fresh_state 1 [zero_order, zero_order] 4"
  by (simp add: book_state_def activate_book_def small_worker_def ShardWorker_new_def slab_index_def
      fresh_state_def OrderBookPool_new_def BOOKS_PER_SHARD_def MAX_LOCATE_def NUM_SHARDS_def numeral_2_eq_2)

theorem dispatch_updates_own_book_witness:
  "\<exists>w'. dispatch open_manager 0 ((add_msg 7 Buy 100 10)\<lparr>im_locate := 1, im_timestamp := 5\<rparr>) small_worker = Inr w' \<and>
    bbo_read 1 (sw_bbo w') = Inr ((get_bbo (sw_books w' ! 0))\<lparr>bb_locate := 1, bb_ts := 5\<rparr>)"
proof -
  let ?m = "(add_msg 7 Buy 100 10)\<lparr>im_locate := 1, im_timestamp := 5\<rparr>"
  obtain st where "on_add_order (fresh_state 1 [zero_order, zero_order] 4) (add_msg 7 Buy 100 10) = Inr st"
    by (rule one_order_state)
  then have "on_add_order (fresh_state 1 [zero_order, zero_order] 4) ?m = Inr st"
    by (simp add: on_add_order_def)
  then obtain w' where w': "dispatch open_manager 0 ?m small_worker = Inr w'"
    using small_worker_ok(3) small_worker_state
    by (simp add: dispatch_def book_handler_def is_open_def open_manager_def record_book_latency_def
        msg_defs slab_index_def NUM_SHARDS_def)
  moreover have "bbo_read 1 (sw_bbo w') = Inr ((get_bbo (sw_books w' ! 0))\<lparr>bb_locate := 1, bb_ts := 5\<rparr>)"
    using dispatch_updates_own_book[OF small_worker_ok(1) _ _ w'] small_worker_ok
    by (simp add: book_handler_def is_open_def open_manager_def msg_defs slab_index_def NUM_SHARDS_def
        shard_for_locate_def)
  ultimately show ?thesis by blast
qed

text \<open>
  Property C27. The router appends a trading action to the queue of every shard that has room,
  whatever its locate code, and the worker does not check whose it is: in each other shard the
  action changes the status of the active book at the same slab index, which is the book of
  another symbol.
\<close>

theorem trading_action_hits_other_symbol:
  assumes "router_ok r" "route msg r = (res, r')" "worker_ok w" "im_type msg = StockTradingAction"
    "shard_for_locate (im_locate msg) \<noteq> sw_shard_id w" "sw_book_active w ! slab_index (im_locate msg)"
  shows "(\<forall>s < NUM_SHARDS. shard_room r s \<longrightarrow> shard_items r' s = shard_items r s @ [msg]) \<and>
    sw_shard_id w < NUM_SHARDS \<and> (\<exists>w'. dispatch mgr after msg w = Inr w' \<and>
      lb_locate (sw_books w' ! slab_index (im_locate msg)) \<noteq> im_locate msg \<and>
      lb_status (sw_books w' ! slab_index (im_locate msg)) =
        trading_status_of (ta_trading_state (im_trading_action msg)))"
proof -
  let ?i = "slab_index (im_locate msg)"
  have i: "?i < BOOKS_PER_SHARD" by (rule slab_index_bound)
  have "unat (of_nat (?i * NUM_SHARDS + sw_shard_id w) :: LocateCode) = ?i * NUM_SHARDS + sw_shard_id w"
    using assms(3) i by (simp add: unat_of_nat worker_ok_def BOOKS_PER_SHARD_def MAX_LOCATE_def NUM_SHARDS_def
        del: of_nat_add of_nat_mult)
  then have "(of_nat (?i * NUM_SHARDS + sw_shard_id w) :: LocateCode) \<noteq> im_locate msg"
    using assms(3,5) by (auto simp: shard_for_locate_def worker_ok_def simp del: of_nat_add of_nat_mult)
  then have "\<exists>w'. dispatch mgr after msg w = Inr w' \<and> lb_locate (sw_books w' ! ?i) \<noteq> im_locate msg \<and>
      lb_status (sw_books w' ! ?i) = trading_status_of (ta_trading_state (im_trading_action msg))"
    using assms(3,4,6) i by (simp add: dispatch_def on_trading_action_def book_state_def worker_ok_def
        Let_def del: of_nat_add of_nat_mult)
  moreover have "s \<in> targets msg" if "s < NUM_SHARDS" for s
    using that assms(4) by (simp add: targets_def is_admin_message_def)
  ultimately show ?thesis
    using route_spec[OF assms(1,2)] assms(3) by (simp add: worker_ok_def)
qed

theorem trading_action_hits_other_symbol_witness:
  "\<exists>res r' w'. route (ItchMsg_init\<lparr>im_type := StockTradingAction, im_locate := 2\<rparr>)
      (ShardRouter_new FeedStats_init 0) = (res, r') \<and>
    shard_items r' 1 = [ItchMsg_init\<lparr>im_type := StockTradingAction, im_locate := 2\<rparr>] \<and>
    dispatch open_manager 0 (ItchMsg_init\<lparr>im_type := StockTradingAction, im_locate := 2\<rparr>)
      (activate_book 1 small_worker) = Inr w' \<and> lb_locate (sw_books w' ! 0) \<noteq> 2"
proof -
  let ?w = "activate_book 1 small_worker"
  let ?m = "ItchMsg_init\<lparr>im_type := StockTradingAction, im_locate := 2\<rparr>"
  have "worker_ok ?w" "sw_shard_id ?w = 1" "sw_book_active ?w ! 0"
    using worker_step_activate[OF small_worker_ok(1), of 1] small_worker_ok(2)
    by (simp_all add: worker_step_def) (simp add: activate_book_def small_worker_def ShardWorker_new_def
      slab_index_def BOOKS_PER_SHARD_def MAX_LOCATE_def NUM_SHARDS_def)
  moreover obtain res r' where "route ?m (ShardRouter_new FeedStats_init 0) = (res, r')" by force
  ultimately show ?thesis
    using trading_action_hits_other_symbol[of "ShardRouter_new FeedStats_init 0" ?m res r' ?w open_manager 0]
      router_ok_new(1)[of 0] router_ok_new(2,3)[of 1 0]
    by (auto simp: shard_for_locate_def NUM_SHARDS_def slab_index_def)
qed

end
