(* ===== verification/Itch_Parser.thy ===== *)
theory Itch_Parser
  imports Itch_Messages
begin

text \<open>
  From a UDP payload to messages: \<^verbatim>\<open>include/protocol/moldudp64.hpp\<close>,
  \<^verbatim>\<open>src/protocol/moldudp64_parser.cpp\<close> and \<^verbatim>\<open>src/protocol/itch_parser.cpp\<close>.

  A pointer is an address; memory is total, so the model also says what the code reads when
  it reads past a message. The array \<^verbatim>\<open>out_buf\<close> is the list of the messages counted so far:
  a slot whose message is refused is written again or never read by a caller.
\<close>

section \<open>MoldUDP64\<close>

record MoldUDP64Header =
  mh_session :: "u8 list"
  mh_sequence :: u64
  mh_message_count :: u16

definition sizeof_MoldUDP64Header :: nat where "sizeof_MoldUDP64Header = 20"
definition sizeof_MoldUDP64MessageBlock :: nat where "sizeof_MoldUDP64MessageBlock = 2"

text \<open>
  The header as the accessors \<^verbatim>\<open>get_sequence\<close> and \<^verbatim>\<open>get_message_count\<close> read it: the host is
  little-endian, so a loaded and byte-swapped integer is the big-endian value of its bytes.
\<close>

definition read_header :: "mem \<Rightarrow> nat \<Rightarrow> MoldUDP64Header" where
  "read_header d p =
    \<lparr>mh_session = copy_bytes d p 10, mh_sequence = be64 d (p + 10),
     mh_message_count = be16 d (p + 18)\<rparr>"

definition is_heartbeat :: "MoldUDP64Header \<Rightarrow> bool" where
  "is_heartbeat h \<longleftrightarrow> mh_message_count h = MOLDUDP64_HEARTBEAT"

definition get_length :: "mem \<Rightarrow> nat \<Rightarrow> nat" where
  "get_length d p = unat (be16 d p)"

record ParseResult =
  pr_header :: MoldUDP64Header
  pr_messages_begin :: nat
  pr_messages_length :: nat
  pr_valid :: bool

text \<open>A result that is not valid has a header of indeterminate bytes; no caller reads it.\<close>

definition ParseResult_init :: ParseResult where
  "ParseResult_init =
    \<lparr>pr_header = \<lparr>mh_session = zero_chars 10, mh_sequence = 0, mh_message_count = 0\<rparr>,
     pr_messages_begin = 0, pr_messages_length = 0, pr_valid = False\<rparr>"

definition mold_parse :: "mem \<Rightarrow> nat \<Rightarrow> nat \<Rightarrow> ParseResult" where
  "mold_parse d data len =
    (if len < sizeof_MoldUDP64Header then ParseResult_init
     else let result = ParseResult_init\<lparr>pr_header := read_header d data\<rparr>
          in if is_heartbeat (pr_header result) then result\<lparr>pr_valid := True\<rparr>
             else result\<lparr>pr_messages_begin := data + sizeof_MoldUDP64Header,
                         pr_messages_length := len - sizeof_MoldUDP64Header,
                         pr_valid := True\<rparr>)"

section \<open>One message\<close>

text \<open>The price of a message, \<^verbatim>\<open>static_cast<Price>(wire::be32(...))\<close>, is never negative.\<close>

definition price_at :: "mem \<Rightarrow> nat \<Rightarrow> Price" where
  "price_at d p = uint (be32 d p)"

text \<open>The switch over the message type, in two halves; the second one from the order cancel on.\<close>

definition parse_body_rest :: "ItchMsg \<Rightarrow> mem \<Rightarrow> nat \<Rightarrow> nat \<Rightarrow> bool \<times> ItchMsg" where
  "parse_body_rest msg d p len =
    (case im_type msg of
       OrderCancel \<Rightarrow>
         if len < sizeof WireOrderCancel then (False, msg)
         else let off = (\<lambda>f. p + offset WireOrderCancel f)
              in (True, msg\<lparr>im_order_cancel :=
                   \<lparr>oc_ref = be64 d (off ''order_ref''),
                    oc_cancelled_shares = be32 d (off ''cancelled_shares'')\<rparr>\<rparr>)
     | OrderDelete \<Rightarrow>
         if len < sizeof WireOrderDelete then (False, msg)
         else (True, msg\<lparr>im_order_delete_ref := be64 d (p + offset WireOrderDelete ''order_ref'')\<rparr>)
     | OrderReplace \<Rightarrow>
         if len < sizeof WireOrderReplace then (False, msg)
         else let off = (\<lambda>f. p + offset WireOrderReplace f)
              in (True, msg\<lparr>im_order_replace :=
                   \<lparr>or_orig_ref = be64 d (off ''orig_order_ref''),
                    or_new_ref = be64 d (off ''new_order_ref''),
                    or_new_shares = be32 d (off ''new_shares''),
                    or_new_price = price_at d (off ''new_price'')\<rparr>\<rparr>)
     | Trade \<Rightarrow>
         if len < sizeof WireTrade then (False, msg)
         else let off = (\<lambda>f. p + offset WireTrade f)
              in (True, msg\<lparr>im_trade :=
                   \<lparr>tr_ref = be64 d (off ''order_ref''),
                    tr_side = side_of_char (d (off ''buy_sell'')),
                    tr_shares = be32 d (off ''shares''),
                    tr_price = price_at d (off ''price''),
                    tr_stock = copy_bytes d (off ''stock'') 8,
                    tr_match_number = be64 d (off ''match_number'')\<rparr>\<rparr>)
     | CrossTrade \<Rightarrow>
         if len < sizeof WireCrossTrade then (False, msg)
         else let off = (\<lambda>f. p + offset WireCrossTrade f)
              in (True, msg\<lparr>im_cross_trade :=
                   \<lparr>ct_shares = be64 d (off ''shares''),
                    ct_cross_price = price_at d (off ''cross_price''),
                    ct_stock = copy_bytes d (off ''stock'') 8,
                    ct_match_number = be64 d (off ''match_number''),
                    ct_cross_type = d (off ''cross_type'')\<rparr>\<rparr>)
     | BrokenTrade \<Rightarrow>
         if len < sizeof WireBrokenTrade then (False, msg)
         else (True, msg\<lparr>im_broken_trade_match_number :=
                 be64 d (p + offset WireBrokenTrade ''match_number'')\<rparr>)
     | NOII \<Rightarrow>
         if len < sizeof WireNOII then (False, msg)
         else let off = (\<lambda>f. p + offset WireNOII f)
              in (True, msg\<lparr>im_noii :=
                   \<lparr>no_paired_shares = be64 d (off ''paired_shares''),
                    no_imbalance_shares = be64 d (off ''imbalance_shares''),
                    no_imbalance_direction = d (off ''imbalance_direction''),
                    no_stock = copy_bytes d (off ''stock'') 8,
                    no_far_price = price_at d (off ''far_price''),
                    no_near_price = price_at d (off ''near_price''),
                    no_current_ref_price = price_at d (off ''current_ref_price''),
                    no_cross_type = d (off ''cross_type''),
                    no_price_variation_indicator = d (off ''price_variation_indicator'')\<rparr>\<rparr>)
     | RPIIndicator \<Rightarrow>
         if len < sizeof WireRPIIndicator then (False, msg)
         else let off = (\<lambda>f. p + offset WireRPIIndicator f)
              in (True, msg\<lparr>im_rpi_stock := copy_bytes d (off ''stock'') 8,
                            im_rpi_interest_flag := d (off ''interest_flag'')\<rparr>)
     | _ \<Rightarrow> (False, msg))"

definition parse_body :: "ItchMsg \<Rightarrow> mem \<Rightarrow> nat \<Rightarrow> nat \<Rightarrow> bool \<times> ItchMsg" where
  "parse_body msg d p len =
    (case im_type msg of
       SystemEvent \<Rightarrow>
         if len < sizeof WireSystemEvent then (False, msg)
         else (True, msg\<lparr>im_system_event_code := d (p + offset WireSystemEvent ''event_code'')\<rparr>)
     | StockDirectory \<Rightarrow>
         if len < sizeof WireStockDirectory then (False, msg)
         else let off = (\<lambda>f. p + offset WireStockDirectory f)
              in (True, msg\<lparr>im_stock_directory :=
                   \<lparr>sd_stock = copy_bytes d (off ''stock'') 8,
                    sd_market_category = d (off ''market_category''),
                    sd_round_lot_size = be32 d (off ''round_lot_size''),
                    sd_financial_status = d (off ''financial_status''),
                    sd_authenticity = d (off ''authenticity'')\<rparr>\<rparr>)
     | StockTradingAction \<Rightarrow>
         if len < sizeof WireStockTradingAction then (False, msg)
         else let off = (\<lambda>f. p + offset WireStockTradingAction f)
              in (True, msg\<lparr>im_trading_action :=
                   \<lparr>ta_stock = copy_bytes d (off ''stock'') 8,
                    ta_trading_state = d (off ''trading_state''),
                    ta_reason = copy_bytes d (off ''reason'') 4\<rparr>\<rparr>)
     | RegSHO \<Rightarrow>
         if len < sizeof WireRegSHO then (False, msg)
         else let off = (\<lambda>f. p + offset WireRegSHO f)
              in (True, msg\<lparr>im_reg_sho_stock := copy_bytes d (off ''stock'') 8,
                            im_reg_sho_action := d (off ''reg_sho_action'')\<rparr>)
     | MarketParticipant \<Rightarrow> (True, msg)
     | MWCBDecline \<Rightarrow> (True, msg)
     | MWCBStatus \<Rightarrow> (True, msg)
     | IPOQuotingPeriod \<Rightarrow> (True, msg)
     | LULDAuctionCollar \<Rightarrow> (True, msg)
     | OperationalHalt \<Rightarrow> (True, msg)
     | AddOrder \<Rightarrow>
         if len < sizeof WireAddOrder then (False, msg)
         else let off = (\<lambda>f. p + offset WireAddOrder f)
              in (True, msg\<lparr>im_add_order :=
                   \<lparr>ao_ref = be64 d (off ''order_ref''),
                    ao_side = side_of_char (d (off ''buy_sell'')),
                    ao_price = price_at d (off ''price''),
                    ao_shares = be32 d (off ''shares''),
                    ao_stock = copy_bytes d (off ''stock'') 8,
                    ao_attribution = zero_chars 4\<rparr>\<rparr>)
     | AddOrderMPID \<Rightarrow>
         if len < sizeof WireAddOrderMPID then (False, msg)
         else let off = (\<lambda>f. p + offset WireAddOrderMPID f)
              in (True, msg\<lparr>im_add_order :=
                   \<lparr>ao_ref = be64 d (off ''order_ref''),
                    ao_side = side_of_char (d (off ''buy_sell'')),
                    ao_price = price_at d (off ''price''),
                    ao_shares = be32 d (off ''shares''),
                    ao_stock = copy_bytes d (off ''stock'') 8,
                    ao_attribution = copy_bytes d (off ''attribution'') 4\<rparr>\<rparr>)
     | OrderExecuted \<Rightarrow>
         if len < sizeof WireOrderExecuted then (False, msg)
         else let off = (\<lambda>f. p + offset WireOrderExecuted f)
              in (True, msg\<lparr>im_order_executed :=
                   \<lparr>oe_ref = be64 d (off ''order_ref''),
                    oe_executed_shares = be32 d (off ''executed_shares''),
                    oe_match_number = be64 d (off ''match_number'')\<rparr>\<rparr>)
     | OrderExecutedPrice \<Rightarrow>
         if len < sizeof WireOrderExecutedPrice then (False, msg)
         else let off = (\<lambda>f. p + offset WireOrderExecutedPrice f)
              in (True, msg\<lparr>im_order_executed_price :=
                   \<lparr>op_ref = be64 d (off ''order_ref''),
                    op_executed_shares = be32 d (off ''executed_shares''),
                    op_match_number = be64 d (off ''match_number''),
                    op_price = price_at d (off ''execution_price''),
                    op_printable = (d (off ''printable'') = 0x59)\<rparr>\<rparr>)
     | _ \<Rightarrow> parse_body_rest msg d p len)"

text \<open>
  The payload pointer of a message block is never null, so of the first test only the
  length is left. The locate code is read before any length is known to cover it.
\<close>

definition parse_message :: "ItchMsg \<Rightarrow> mem \<Rightarrow> nat \<Rightarrow> nat \<Rightarrow> bool \<times> ItchMsg" where
  "parse_message msg d p len =
    (if len < 1 then (False, msg)
     else let msg1 = msg\<lparr>im_type := message_type_of_char (d (p + kOffType)),
                         im_locate := be16 d (p + kOffLocate)\<rparr>;
              msg2 = (if kOffPayload \<le> len
                      then msg1\<lparr>im_timestamp := be48 d (p + kOffTimestamp)\<rparr> else msg1)
          in parse_body msg2 d p len)"

section \<open>One packet\<close>

function parse_loop ::
  "mem \<Rightarrow> Timestamp \<Rightarrow> nat \<Rightarrow> nat \<Rightarrow> ItchMsg list \<Rightarrow> int \<Rightarrow> ItchMsg list" where
  "parse_loop d recv_ts ptr remaining out max_msgs =
    (if 0 < remaining \<and> int (length out) < max_msgs then
       if remaining < sizeof_MoldUDP64MessageBlock then out
       else let msg_len = get_length d ptr in
         if msg_len = 0 then out
         else if remaining - sizeof_MoldUDP64MessageBlock < msg_len then out
         else let (ok, msg) = parse_message (ItchMsg_init\<lparr>im_recv_timestamp := recv_ts\<rparr>) d
                                (ptr + sizeof_MoldUDP64MessageBlock) msg_len
              in parse_loop d recv_ts (ptr + (sizeof_MoldUDP64MessageBlock + msg_len))
                   (remaining - (sizeof_MoldUDP64MessageBlock + msg_len))
                   (if ok then out @ [msg] else out) max_msgs
     else out)"
  by pat_completeness auto
termination
  by (relation "measure (\<lambda>(_, _, _, remaining, _, _). remaining)")
    (auto simp: sizeof_MoldUDP64MessageBlock_def)

declare parse_loop.simps [simp del]

definition itch_parse :: "mem \<Rightarrow> Timestamp \<Rightarrow> ParseResult \<Rightarrow> int \<Rightarrow> ItchMsg list" where
  "itch_parse d recv_ts mold_result max_msgs =
    (if \<not> pr_valid mold_result \<or> max_msgs \<le> 0 then []
     else parse_loop d recv_ts (pr_messages_begin mold_result) (pr_messages_length mold_result)
            [] max_msgs)"

section \<open>Locality\<close>

text \<open>Two stretches of memory with the same bytes.\<close>

definition agree :: "mem \<Rightarrow> nat \<Rightarrow> mem \<Rightarrow> nat \<Rightarrow> nat \<Rightarrow> bool" where
  "agree d p d' p' len \<longleftrightarrow> (\<forall>i < len. d (p + i) = d' (p' + i))"

lemma agree_byte: "agree d p d' p' len \<Longrightarrow> k < len \<Longrightarrow> d (p + k) = d' (p' + k)"
  by (simp add: agree_def)

lemma agree_be16:
  assumes "agree d p d' p' len" "k + 2 \<le> len"
  shows "be16 d (p + k) = be16 d' (p' + k)"
  using agree_byte[OF assms(1), of k] agree_byte[OF assms(1), of "k + 1"] assms(2)
  by (simp add: be16_def)

lemma agree_be32:
  assumes "agree d p d' p' len" "k + 4 \<le> len"
  shows "be32 d (p + k) = be32 d' (p' + k)"
proof -
  have "d (p + k + i) = d' (p' + k + i)" if "i < 4" for i
    using agree_byte[OF assms(1), of "k + i"] assms(2) that by (simp add: add.assoc)
  from this[of 0] this[of 1] this[of 2] this[of 3] show ?thesis by (simp add: be32_def)
qed

lemma agree_be48:
  assumes "agree d p d' p' len" "k + 6 \<le> len"
  shows "be48 d (p + k) = be48 d' (p' + k)"
proof -
  have "d (p + k + i) = d' (p' + k + i)" if "i < 6" for i
    using agree_byte[OF assms(1), of "k + i"] assms(2) that by (simp add: add.assoc)
  from this[of 0] this[of 1] this[of 2] this[of 3] this[of 4] this[of 5]
  show ?thesis by (simp add: be48_def)
qed

lemma agree_be64:
  assumes "agree d p d' p' len" "k + 8 \<le> len"
  shows "be64 d (p + k) = be64 d' (p' + k)"
proof -
  have "d (p + k + i) = d' (p' + k + i)" if "i < 8" for i
    using agree_byte[OF assms(1), of "k + i"] assms(2) that by (simp add: add.assoc)
  from this[of 0] this[of 1] this[of 2] this[of 3] this[of 4] this[of 5] this[of 6] this[of 7]
  show ?thesis by (simp add: be64_def)
qed

lemma agree_copy:
  assumes "agree d p d' p' len" "k + n \<le> len"
  shows "copy_bytes d (p + k) n = copy_bytes d' (p' + k) n"
  using agree_byte[OF assms(1)] assms(2) unfolding copy_bytes_def
  by (intro map_cong refl) (simp add: add.assoc)

lemmas agree_reads = agree_byte agree_be32 agree_be64 agree_copy

lemma offsets [wire_simps]:
  "offset WireSystemEvent ''event_code'' = 11"
  "offset WireStockDirectory ''stock'' = 11" "offset WireStockDirectory ''market_category'' = 19"
  "offset WireStockDirectory ''round_lot_size'' = 21"
  "offset WireStockDirectory ''financial_status'' = 20"
  "offset WireStockDirectory ''authenticity'' = 29"
  "offset WireStockTradingAction ''stock'' = 11"
  "offset WireStockTradingAction ''trading_state'' = 19"
  "offset WireStockTradingAction ''reason'' = 21"
  "offset WireRegSHO ''stock'' = 11" "offset WireRegSHO ''reg_sho_action'' = 19"
  "offset WireAddOrder ''order_ref'' = 11" "offset WireAddOrder ''buy_sell'' = 19"
  "offset WireAddOrder ''shares'' = 20" "offset WireAddOrder ''stock'' = 24"
  "offset WireAddOrder ''price'' = 32"
  "offset WireAddOrderMPID ''order_ref'' = 11" "offset WireAddOrderMPID ''buy_sell'' = 19"
  "offset WireAddOrderMPID ''shares'' = 20" "offset WireAddOrderMPID ''stock'' = 24"
  "offset WireAddOrderMPID ''price'' = 32" "offset WireAddOrderMPID ''attribution'' = 36"
  "offset WireOrderExecuted ''order_ref'' = 11" "offset WireOrderExecuted ''executed_shares'' = 19"
  "offset WireOrderExecuted ''match_number'' = 23"
  "offset WireOrderExecutedPrice ''order_ref'' = 11"
  "offset WireOrderExecutedPrice ''executed_shares'' = 19"
  "offset WireOrderExecutedPrice ''match_number'' = 23"
  "offset WireOrderExecutedPrice ''printable'' = 31"
  "offset WireOrderExecutedPrice ''execution_price'' = 32"
  "offset WireOrderCancel ''order_ref'' = 11" "offset WireOrderCancel ''cancelled_shares'' = 19"
  "offset WireOrderDelete ''order_ref'' = 11"
  "offset WireOrderReplace ''orig_order_ref'' = 11" "offset WireOrderReplace ''new_order_ref'' = 19"
  "offset WireOrderReplace ''new_shares'' = 27" "offset WireOrderReplace ''new_price'' = 31"
  by (simp_all add: wire_structs)

lemma offsets_trades [wire_simps]:
  "offset WireTrade ''order_ref'' = 11" "offset WireTrade ''buy_sell'' = 19"
  "offset WireTrade ''shares'' = 20" "offset WireTrade ''stock'' = 24" "offset WireTrade ''price'' = 32"
  "offset WireTrade ''match_number'' = 36"
  "offset WireCrossTrade ''shares'' = 11" "offset WireCrossTrade ''stock'' = 19"
  "offset WireCrossTrade ''cross_price'' = 27" "offset WireCrossTrade ''match_number'' = 31"
  "offset WireCrossTrade ''cross_type'' = 39"
  "offset WireBrokenTrade ''match_number'' = 11"
  "offset WireNOII ''paired_shares'' = 11" "offset WireNOII ''imbalance_shares'' = 19"
  "offset WireNOII ''imbalance_direction'' = 27" "offset WireNOII ''stock'' = 28"
  "offset WireNOII ''far_price'' = 36" "offset WireNOII ''near_price'' = 40"
  "offset WireNOII ''current_ref_price'' = 44" "offset WireNOII ''cross_type'' = 48"
  "offset WireNOII ''price_variation_indicator'' = 49"
  "offset WireRPIIndicator ''stock'' = 11" "offset WireRPIIndicator ''interest_flag'' = 19"
  by (simp_all add: wire_structs)

lemma parse_body_local:
  assumes "agree d p d' p' len"
  shows "parse_body msg d p len = parse_body msg d' p' len"
  by (cases "im_type msg")
    (simp_all add: parse_body_def parse_body_rest_def wire_simps price_at_def Let_def agree_reads[OF assms])

text \<open>
  From three bytes on, a message is parsed from its own bytes alone, wherever they lie.
\<close>

lemma parse_message_local:
  assumes "agree d p d' p' len" "3 \<le> len"
  shows "parse_message msg d p len = parse_message msg d' p' len"
proof -
  have "d p = d' p'" "be16 d (Suc p) = be16 d' (Suc p')"
    using agree_byte[OF assms(1), of 0] agree_be16[OF assms(1), of 1] assms(2) by simp_all
  then show ?thesis
    using assms(2) parse_body_local[OF assms(1)]
    by (simp add: parse_message_def header_offsets agree_be48[OF assms(1)] Let_def)
qed

section \<open>What a parsed message can be\<close>

fun wire_type :: "MessageType \<Rightarrow> bool" where
  "wire_type Unknown = False"
| "wire_type InternalSessionReset = False"
| "wire_type (OtherType c) = False"
| "wire_type t = True"

lemma parse_body_True:
  assumes "parse_body msg d p len = (True, m)"
  shows "wire_type (im_type m) \<and> im_type m = im_type msg \<and> im_locate m = im_locate msg \<and>
    im_recv_timestamp m = im_recv_timestamp msg \<and> im_timestamp m = im_timestamp msg"
  using assms by (cases "im_type msg") (auto simp: parse_body_def parse_body_rest_def Let_def split: if_splits)

lemma parse_message_True:
  assumes "parse_message msg d p len = (True, m)"
  shows "wire_type (im_type m) \<and> im_type m = message_type_of_char (d p) \<and>
    im_recv_timestamp m = im_recv_timestamp msg \<and> im_locate m = be16 d (p + 1) \<and> 1 \<le> len"
  using assms by (auto simp: parse_message_def header_offsets Let_def split: if_splits
      dest!: parse_body_True)

text \<open>A rest of a packet that holds no complete message block.\<close>

definition incomplete :: "mem \<Rightarrow> nat \<Rightarrow> nat \<Rightarrow> bool" where
  "incomplete d p n \<longleftrightarrow> n < 2 \<or> get_length d p = 0 \<or> n - 2 < get_length d p"

lemma parse_loop_unfold:
  "parse_loop d ts ptr remaining out max_msgs =
    (if 0 < remaining \<and> int (length out) < max_msgs \<and> \<not> incomplete d ptr remaining
     then let r = parse_message (ItchMsg_init\<lparr>im_recv_timestamp := ts\<rparr>) d (ptr + 2) (get_length d ptr)
          in parse_loop d ts (ptr + (2 + get_length d ptr)) (remaining - (2 + get_length d ptr))
               (if fst r then out @ [snd r] else out) max_msgs
     else out)"
  by (subst parse_loop.simps)
    (auto simp: incomplete_def sizeof_MoldUDP64MessageBlock_def Let_def case_prod_beta')

lemma parse_loop_all:
  assumes P: "\<And>p len m. parse_message (ItchMsg_init\<lparr>im_recv_timestamp := ts\<rparr>) d p len = (True, m) \<Longrightarrow> Q m"
  shows "(\<And>m. m \<in> set out \<Longrightarrow> Q m) \<Longrightarrow> m \<in> set (parse_loop d ts ptr remaining out max_msgs) \<Longrightarrow> Q m"
proof (induction remaining arbitrary: ptr out rule: less_induct)
  case (less remaining)
  let ?r = "parse_message (ItchMsg_init\<lparr>im_recv_timestamp := ts\<rparr>) d (ptr + 2) (get_length d ptr)"
  let ?out = "if fst ?r then out @ [snd ?r] else out"
  have out: "Q x" if "x \<in> set ?out" for x
    using that less.prems(1) P[of "ptr + 2" "get_length d ptr" "snd ?r"]
    by (auto split: if_splits simp: prod_eq_iff)
  let ?go = "0 < remaining \<and> int (length out) < max_msgs \<and> \<not> incomplete d ptr remaining"
  show ?case
  proof (cases ?go)
    case True
    have "m \<in> set (parse_loop d ts (ptr + (2 + get_length d ptr)) (remaining - (2 + get_length d ptr))
        ?out max_msgs)"
      using less.prems(2) True unfolding parse_loop_unfold[of d ts ptr remaining out] Let_def by simp
    then show ?thesis by (rule less.IH[rotated 2]) (use True out in simp_all)
  next
    case False
    then have "m \<in> set out"
      using less.prems(2) unfolding parse_loop_unfold[of d ts ptr remaining out] by auto
    then show ?thesis by (rule less.prems(1))
  qed
qed

lemma parse_loop_length:
  "int (length out) \<le> max_msgs \<Longrightarrow>
   int (length (parse_loop d ts ptr remaining out max_msgs)) \<le> max_msgs"
proof (induction remaining arbitrary: ptr out rule: less_induct)
  case (less remaining)
  show ?case
    using less.prems less.IH[of "remaining - (2 + get_length d ptr)"]
    by (subst parse_loop_unfold) (auto simp: Let_def)
qed

section \<open>Framing\<close>

definition frame :: "u8 list \<Rightarrow> u8 list" where
  "frame bs = enc_be 2 (of_nat (length bs) :: u16) @ bs"

definition mem_of :: "u8 list \<Rightarrow> mem" where
  "mem_of bs i = (if i < length bs then bs ! i else 0)"

text \<open>A message parsed from its own bytes.\<close>

definition parse_alone :: "Timestamp \<Rightarrow> u8 list \<Rightarrow> bool \<times> ItchMsg" where
  "parse_alone ts bs =
    parse_message (ItchMsg_init\<lparr>im_recv_timestamp := ts\<rparr>) (mem_of bs) 0 (length bs)"

definition parse_each :: "Timestamp \<Rightarrow> u8 list list \<Rightarrow> ItchMsg list" where
  "parse_each ts bss = map snd (filter fst (map (parse_alone ts) bss))"

lemma length_frame [simp]: "length (frame bs) = 2 + length bs"
  by (simp add: frame_def)

lemma agree_mem_of: "holds_at d p bs \<Longrightarrow> agree d p (mem_of bs) 0 (length bs)"
  by (simp add: agree_def holds_at_def mem_of_def)

lemma parse_loop_frames:
  assumes "holds_at d p (concat (map frame bss))"
    and "\<And>bs. bs \<in> set bss \<Longrightarrow> 3 \<le> length bs \<and> length bs < 65536"
    and "int (length out + length bss) \<le> max_msgs"
    and "incomplete d (p + length (concat (map frame bss))) n"
  shows "parse_loop d ts p (length (concat (map frame bss)) + n) out max_msgs = out @ parse_each ts bss"
  using assms
proof (induction bss arbitrary: p out)
  case Nil
  then show ?case by (subst parse_loop_unfold) (simp add: parse_each_def)
next
  case (Cons bs bss)
  let ?rest = "length (concat (map frame bss)) + n"
  have bs: "3 \<le> length bs" "length bs < 65536" using Cons.prems(2) by auto
  then have "bs \<noteq> []" by auto
  have h: "holds_at d p (enc_be 2 (of_nat (length bs) :: u16))" "holds_at d (p + 2) bs"
    "holds_at d (p + (2 + length bs)) (concat (map frame bss))"
    using Cons.prems(1) by (simp_all add: holds_at_append add.assoc) (simp_all add: frame_def holds_at_append)
  have len: "get_length d p = length bs"
    using be16_enc[OF h(1)] bs(2) by (simp add: get_length_def unat_of_nat_small)
  have one: "parse_message (ItchMsg_init\<lparr>im_recv_timestamp := ts\<rparr>) d (p + 2) (length bs) =
      parse_alone ts bs"
    unfolding parse_alone_def by (rule parse_message_local[OF agree_mem_of[OF h(2)] bs(1)])
  obtain ok msg where r: "parse_alone ts bs = (ok, msg)" by force
  have "parse_loop d ts p (length (concat (map frame (bs # bss))) + n) out max_msgs =
      parse_loop d ts (p + (2 + length bs)) ?rest (if ok then out @ [msg] else out) max_msgs"
    using Cons.prems(3) bs one r \<open>bs \<noteq> []\<close>
    by (subst parse_loop_unfold) (simp add: incomplete_def len Let_def)
  also have "\<dots> = (if ok then out @ [msg] else out) @ parse_each ts bss"
    by (rule Cons.IH[OF h(3)]) (use Cons.prems in \<open>auto simp: add.assoc\<close>)
  finally show ?case using r by (simp add: parse_each_def)
qed

section \<open>Encoding of the order messages\<close>

text \<open>The messages that change the orders of a book, of all seven types, as the exchange sends them.\<close>

record WireHead =
  wh_locate :: LocateCode
  wh_tracking :: u16
  wh_timestamp :: Timestamp

datatype OrderMsg =
    OAdd (oa_ref: OrderId) (oa_side: u8) (oa_shares: Qty) (oa_stock: "u8 list") (oa_price: u32)
  | OAddMPID OrderId u8 Qty "u8 list" u32 "u8 list"
  | OExecuted OrderId Qty u64
  | OExecutedPrice OrderId Qty u64 u8 u32
  | OCancel OrderId Qty
  | ODelete OrderId
  | OReplace OrderId OrderId Qty u32

definition enc_head :: "u8 \<Rightarrow> WireHead \<Rightarrow> u8 list" where
  "enc_head t h = t # enc_be 2 (wh_locate h) @ enc_be 2 (wh_tracking h) @ enc_be 6 (wh_timestamp h)"

fun enc_order :: "WireHead \<Rightarrow> OrderMsg \<Rightarrow> u8 list" where
  "enc_order h (OAdd ref side shares stock price) =
    enc_head 0x41 h @ enc_be 8 ref @ [side] @ enc_be 4 shares @ stock @ enc_be 4 price"
| "enc_order h (OAddMPID ref side shares stock price attribution) =
    enc_head 0x46 h @ enc_be 8 ref @ [side] @ enc_be 4 shares @ stock @ enc_be 4 price @ attribution"
| "enc_order h (OExecuted ref shares match_number) =
    enc_head 0x45 h @ enc_be 8 ref @ enc_be 4 shares @ enc_be 8 match_number"
| "enc_order h (OExecutedPrice ref shares match_number printable price) =
    enc_head 0x43 h @ enc_be 8 ref @ enc_be 4 shares @ enc_be 8 match_number @ [printable] @ enc_be 4 price"
| "enc_order h (OCancel ref shares) = enc_head 0x58 h @ enc_be 8 ref @ enc_be 4 shares"
| "enc_order h (ODelete ref) = enc_head 0x44 h @ enc_be 8 ref"
| "enc_order h (OReplace orig new shares price) =
    enc_head 0x55 h @ enc_be 8 orig @ enc_be 8 new @ enc_be 4 shares @ enc_be 4 price"

fun wf_order :: "OrderMsg \<Rightarrow> bool" where
  "wf_order (OAdd ref side shares stock price) = (length stock = 8)"
| "wf_order (OAddMPID ref side shares stock price attribution) = (length stock = 8 \<and> length attribution = 4)"
| "wf_order _ = True"

definition head_msg :: "Timestamp \<Rightarrow> MessageType \<Rightarrow> WireHead \<Rightarrow> ItchMsg" where
  "head_msg recv_ts t h = ItchMsg_init\<lparr>im_type := t, im_locate := wh_locate h,
     im_timestamp := wh_timestamp h, im_recv_timestamp := recv_ts\<rparr>"

fun dec_order :: "Timestamp \<Rightarrow> WireHead \<Rightarrow> OrderMsg \<Rightarrow> ItchMsg" where
  "dec_order ts h (OAdd ref side shares stock price) =
    (head_msg ts AddOrder h)\<lparr>im_add_order := \<lparr>ao_ref = ref, ao_side = side_of_char side,
       ao_price = uint price, ao_shares = shares, ao_stock = stock, ao_attribution = zero_chars 4\<rparr>\<rparr>"
| "dec_order ts h (OAddMPID ref side shares stock price attribution) =
    (head_msg ts AddOrderMPID h)\<lparr>im_add_order := \<lparr>ao_ref = ref, ao_side = side_of_char side,
       ao_price = uint price, ao_shares = shares, ao_stock = stock, ao_attribution = attribution\<rparr>\<rparr>"
| "dec_order ts h (OExecuted ref shares match_number) =
    (head_msg ts OrderExecuted h)\<lparr>im_order_executed := \<lparr>oe_ref = ref, oe_executed_shares = shares,
       oe_match_number = match_number\<rparr>\<rparr>"
| "dec_order ts h (OExecutedPrice ref shares match_number printable price) =
    (head_msg ts OrderExecutedPrice h)\<lparr>im_order_executed_price := \<lparr>op_ref = ref, op_executed_shares = shares,
       op_match_number = match_number, op_price = uint price, op_printable = (printable = 0x59)\<rparr>\<rparr>"
| "dec_order ts h (OCancel ref shares) =
    (head_msg ts OrderCancel h)\<lparr>im_order_cancel := \<lparr>oc_ref = ref, oc_cancelled_shares = shares\<rparr>\<rparr>"
| "dec_order ts h (ODelete ref) = (head_msg ts OrderDelete h)\<lparr>im_order_delete_ref := ref\<rparr>"
| "dec_order ts h (OReplace orig new shares price) =
    (head_msg ts OrderReplace h)\<lparr>im_order_replace := \<lparr>or_orig_ref = orig, or_new_ref = new,
       or_new_shares = shares, or_new_price = uint price\<rparr>\<rparr>"

lemma length_enc_head [simp]: "length (enc_head t h) = 11"
  by (simp add: enc_head_def)

lemma holds_mem_of: "holds_at (mem_of bs) 0 bs"
  by (simp add: holds_at_def mem_of_def)

lemma head_at:
  assumes "holds_at d 0 (enc_head t h)"
  shows "d 0 = t" "be16 d 1 = wh_locate h" "be48 d 5 = take_bit 48 (wh_timestamp h)"
proof -
  have "holds_at d 1 (enc_be 2 (wh_locate h))" "holds_at d 5 (enc_be 6 (wh_timestamp h))" "d 0 = t"
    using assms by (simp_all add: enc_head_def holds_at_Cons holds_at_append eval_nat_numeral)
  then show "d 0 = t" "be16 d 1 = wh_locate h" "be48 d 5 = take_bit 48 (wh_timestamp h)"
    by (simp_all add: be16_enc be48_enc)
qed

lemma parse_message_head:
  assumes "holds_at d 0 (enc_head t h)" "take_bit 48 (wh_timestamp h) = wh_timestamp h" "11 \<le> len"
  shows "parse_message (ItchMsg_init\<lparr>im_recv_timestamp := ts\<rparr>) d 0 len =
    parse_body (head_msg ts (message_type_of_char t) h) d 0 len"
  using head_at[OF assms(1)] assms(2,3)
  by (simp add: parse_message_def header_offsets head_msg_def ItchMsg_init_def)

lemma parse_enc_order:
  assumes "wf_order m" "take_bit 48 (wh_timestamp h) = wh_timestamp h"
  shows "parse_alone ts (enc_order h m) = (True, dec_order ts h m)"
proof -
  let ?d = "mem_of (enc_order h m)"
  note all = holds_mem_of[of "enc_order h m"]
  show ?thesis
  proof (cases m)
    case (OAdd ref side shares stock price)
    have st: "length stock = 8" using assms(1) OAdd by simp
    have h: "holds_at ?d 0 (enc_head 0x41 h)" "holds_at ?d 11 (enc_be 8 ref)" "?d 19 = side"
      "holds_at ?d 20 (enc_be 4 shares)" "holds_at ?d 24 stock" "holds_at ?d 32 (enc_be 4 price)"
      using all st by (simp_all add: OAdd holds_at_append holds_at_Cons)
    show ?thesis
      using parse_message_head[OF h(1) assms(2), of 36 ts] h st copy_bytes_holds[OF h(5)]
      by (simp add: parse_alone_def parse_body_def parse_body_rest_def OAdd head_msg_def message_type_of_char_def
          wire_simps price_at_def be64_enc be32_enc Let_def)
  next
    case (OAddMPID ref side shares stock price attr)
    have st: "length stock = 8" "length attr = 4" using assms(1) OAddMPID by simp_all
    have h: "holds_at ?d 0 (enc_head 0x46 h)" "holds_at ?d 11 (enc_be 8 ref)" "?d 19 = side"
      "holds_at ?d 20 (enc_be 4 shares)" "holds_at ?d 24 stock" "holds_at ?d 32 (enc_be 4 price)"
      "holds_at ?d 36 attr"
      using all st by (simp_all add: OAddMPID holds_at_append holds_at_Cons)
    show ?thesis
      using parse_message_head[OF h(1) assms(2), of 40 ts] h st copy_bytes_holds[OF h(5)] copy_bytes_holds[OF h(7)]
      by (simp add: parse_alone_def parse_body_def parse_body_rest_def OAddMPID head_msg_def message_type_of_char_def
          wire_simps price_at_def be64_enc be32_enc Let_def)
  next
    case (OExecutedPrice ref shares mn printable price)
    have h: "holds_at ?d 0 (enc_head 0x43 h)" "holds_at ?d 11 (enc_be 8 ref)" "holds_at ?d 19 (enc_be 4 shares)"
      "holds_at ?d 23 (enc_be 8 mn)" "?d 31 = printable" "holds_at ?d 32 (enc_be 4 price)"
      using all by (simp_all add: OExecutedPrice holds_at_append holds_at_Cons)
    show ?thesis
      using parse_message_head[OF h(1) assms(2), of 36 ts] h
      by (simp add: parse_alone_def parse_body_def parse_body_rest_def OExecutedPrice head_msg_def message_type_of_char_def
          wire_simps price_at_def be64_enc be32_enc Let_def)
  next
    case (OExecuted ref shares mn)
    have h: "holds_at ?d 0 (enc_head 0x45 h)" "holds_at ?d 11 (enc_be 8 ref)"
      "holds_at ?d 19 (enc_be 4 shares)" "holds_at ?d 23 (enc_be 8 mn)"
      using all by (simp_all add: OExecuted holds_at_append holds_at_Cons)
    show ?thesis
      using parse_message_head[OF h(1) assms(2), of 31 ts] h
      by (simp add: parse_alone_def parse_body_def parse_body_rest_def OExecuted head_msg_def message_type_of_char_def
          wire_simps be64_enc be32_enc Let_def)
  next
    case (OCancel ref shares)
    have h: "holds_at ?d 0 (enc_head 0x58 h)" "holds_at ?d 11 (enc_be 8 ref)"
      "holds_at ?d 19 (enc_be 4 shares)"
      using all by (simp_all add: OCancel holds_at_append holds_at_Cons)
    show ?thesis
      using parse_message_head[OF h(1) assms(2), of 23 ts] h
      by (simp add: parse_alone_def parse_body_def parse_body_rest_def OCancel head_msg_def message_type_of_char_def
          wire_simps be64_enc be32_enc Let_def)
  next
    case (ODelete ref)
    have h: "holds_at ?d 0 (enc_head 0x44 h)" "holds_at ?d 11 (enc_be 8 ref)"
      using all by (simp_all add: ODelete holds_at_append holds_at_Cons)
    show ?thesis
      using parse_message_head[OF h(1) assms(2), of 19 ts] h
      by (simp add: parse_alone_def parse_body_def parse_body_rest_def ODelete head_msg_def message_type_of_char_def
          wire_simps be64_enc Let_def)
  next
    case (OReplace orig new shares price)
    have h: "holds_at ?d 0 (enc_head 0x55 h)" "holds_at ?d 11 (enc_be 8 orig)"
      "holds_at ?d 19 (enc_be 8 new)" "holds_at ?d 27 (enc_be 4 shares)"
      "holds_at ?d 31 (enc_be 4 price)"
      using all by (simp_all add: OReplace holds_at_append holds_at_Cons)
    show ?thesis
      using parse_message_head[OF h(1) assms(2), of 35 ts] h
      by (simp add: parse_alone_def parse_body_def parse_body_rest_def OReplace head_msg_def message_type_of_char_def
          wire_simps price_at_def be64_enc be32_enc Let_def)
  qed
qed

lemma length_enc_order: "wf_order m \<Longrightarrow> 19 \<le> length (enc_order h m) \<and> length (enc_order h m) \<le> 40"
  by (cases m) simp_all

text \<open>The packet of a session, a sequence number and a list of message blocks.\<close>

definition enc_packet :: "u8 list \<Rightarrow> u64 \<Rightarrow> u8 list list \<Rightarrow> u8 list" where
  "enc_packet session seq bss =
    session @ enc_be 8 seq @ enc_be 2 (of_nat (length bss) :: u16) @ concat (map frame bss)"

lemma mold_parse_enc:
  assumes "length session = 10" "length bss < 65535" "holds_at d p (enc_packet session seq bss)"
  shows "mold_parse d p (length (enc_packet session seq bss)) =
    \<lparr>pr_header = \<lparr>mh_session = session, mh_sequence = seq, mh_message_count = of_nat (length bss)\<rparr>,
     pr_messages_begin = p + 20, pr_messages_length = length (concat (map frame bss)),
     pr_valid = True\<rparr>"
    "holds_at d (p + 20) (concat (map frame bss))"
proof -
  have h: "holds_at d p session" "holds_at d (p + 10) (enc_be 8 seq)"
    "holds_at d (p + 18) (enc_be 2 (of_nat (length bss) :: u16))"
    "holds_at d (p + 20) (concat (map frame bss))"
    using assms(1,3) by (simp_all add: enc_packet_def holds_at_append add.assoc add.commute[of 20])
  show "holds_at d (p + 20) (concat (map frame bss))" by (rule h(4))
  have "(of_nat (length bss) :: u16) \<noteq> 0xFFFF"
  proof
    assume "(of_nat (length bss) :: u16) = 0xFFFF"
    then have "unat (of_nat (length bss) :: u16) = unat (0xFFFF :: u16)" by simp
    then show False using assms(2) unat_of_nat_small[where 'a = 16, of "length bss"] by simp
  qed
  then show "mold_parse d p (length (enc_packet session seq bss)) =
    \<lparr>pr_header = \<lparr>mh_session = session, mh_sequence = seq, mh_message_count = of_nat (length bss)\<rparr>,
     pr_messages_begin = p + 20, pr_messages_length = length (concat (map frame bss)),
     pr_valid = True\<rparr>"
    using h(1-3) assms(1) copy_bytes_holds[OF h(1)]
    by (simp add: mold_parse_def sizeof_MoldUDP64Header_def enc_packet_def ParseResult_init_def
        read_header_def is_heartbeat_def MOLDUDP64_HEARTBEAT_def be64_enc be16_enc Let_def)
qed

lemma parse_orders:
  assumes "length session = 10" "length ms < 65535" "int (length ms) \<le> max_msgs" "0 < max_msgs"
    and "\<forall>(h, m) \<in> set ms. wf_order m \<and> take_bit 48 (wh_timestamp h) = wh_timestamp h"
    and "pkt = enc_packet session seq (map (\<lambda>(h, m). enc_order h m) ms)" "holds_at d p pkt"
  shows "itch_parse d ts (mold_parse d p (length pkt)) max_msgs = map (\<lambda>(h, m). dec_order ts h m) ms"
proof -
  let ?bss = "map (\<lambda>(h, m). enc_order h m) ms"
  have len: "length ?bss < 65535" using assms(2) by simp
  note mp = mold_parse_enc[OF assms(1) len, of d p seq, folded assms(6), OF assms(7)]
  have bss: "3 \<le> length bs \<and> length bs < 65536" if b: "bs \<in> set ?bss" for bs
  proof -
    obtain h m where "bs = enc_order h m" "wf_order m" using b assms(5) by auto
    then show ?thesis using length_enc_order[of m h] by simp
  qed
  have "parse_loop d ts (p + 20) (length (concat (map frame ?bss)) + 0) [] max_msgs =
      [] @ parse_each ts ?bss"
    by (rule parse_loop_frames[OF mp(2) bss]) (use assms(3) in \<open>simp_all add: incomplete_def\<close>)
  then have "itch_parse d ts (mold_parse d p (length pkt)) max_msgs = parse_each ts ?bss"
    using assms(4) by (simp add: mp(1) itch_parse_def)
  also have "\<dots> = map (\<lambda>(h, m). dec_order ts h m) ms"
    using assms(5) by (induction ms) (auto simp: parse_each_def parse_enc_order)
  finally show ?thesis .
qed

section \<open>Properties\<close>

text \<open>
  Property C11. A MoldUDP64 packet of order messages (add with and without attribution, executed
  with and without price, cancel, delete, replace) encoded as the exchange does, placed anywhere in memory, is parsed back to exactly these
  messages, in order, with every field, when the buffer has room for them.
\<close>

theorem parse_order_packet:
  assumes "length session = 10" "length ms < 65535" "int (length ms) \<le> max_msgs" "0 < max_msgs"
    and "\<forall>(h, m) \<in> set ms. wf_order m \<and> take_bit 48 (wh_timestamp h) = wh_timestamp h"
    and "pkt = enc_packet session seq (map (\<lambda>(h, m). enc_order h m) ms)" "holds_at d p pkt"
  shows "itch_parse d ts (mold_parse d p (length pkt)) max_msgs = map (\<lambda>(h, m). dec_order ts h m) ms"
  by (rule parse_orders[OF assms])

theorem parse_order_packet_witness:
  "\<exists>pkt. pkt = enc_packet (replicate 10 0x20) 5
      [enc_order \<lparr>wh_locate = 3, wh_tracking = 0, wh_timestamp = 9\<rparr>
         (OAddMPID 7 0x42 10 (replicate 8 0x41) 100 (replicate 4 0x42)),
       enc_order \<lparr>wh_locate = 3, wh_tracking = 0, wh_timestamp = 10\<rparr> (OExecutedPrice 7 4 1 0x59 99)] \<and>
    itch_parse (mem_of pkt) 1 (mold_parse (mem_of pkt) 0 (length pkt)) 128 =
      [dec_order 1 \<lparr>wh_locate = 3, wh_tracking = 0, wh_timestamp = 9\<rparr>
         (OAddMPID 7 0x42 10 (replicate 8 0x41) 100 (replicate 4 0x42)),
       dec_order 1 \<lparr>wh_locate = 3, wh_tracking = 0, wh_timestamp = 10\<rparr> (OExecutedPrice 7 4 1 0x59 99)]"
  using parse_order_packet[of "replicate 10 0x20"
      "[(\<lparr>wh_locate = 3, wh_tracking = 0, wh_timestamp = 9\<rparr>, OAddMPID 7 0x42 10 (replicate 8 0x41) 100 (replicate 4 0x42)),
        (\<lparr>wh_locate = 3, wh_tracking = 0, wh_timestamp = 10\<rparr>, OExecutedPrice 7 4 1 0x59 99)]" 128 _ 5, OF _ _ _ _ _ refl]
    holds_mem_of by (simp del: dec_order.simps enc_order.simps)

text \<open>
  The message blocks of a packet are parsed independently: the result is the
  list of the blocks that parse on their own, in order, whatever bytes lie around them, and a
  truncated or empty last block ends the packet without a message. Blocks are at least three
  bytes long, so that the locate code is inside them.
\<close>

theorem parse_blocks_independent:
  assumes "holds_at d p (concat (map frame bss))"
    and "\<forall>bs \<in> set bss. 3 \<le> length bs \<and> length bs < 65536"
    and "int (length bss) \<le> max_msgs"
    and "incomplete d (p + length (concat (map frame bss))) n"
  shows "parse_loop d ts p (length (concat (map frame bss)) + n) [] max_msgs = parse_each ts bss"
  using parse_loop_frames[OF assms(1), of "[]" max_msgs n ts] assms(2-4) by simp

theorem parse_blocks_independent_witness:
  "parse_loop (mem_of (frame [0x4C, 0, 1] @ [0, 9])) 1 0 7 [] 4 = parse_each 1 [[0x4C, 0, 1]]"
proof -
  let ?d = "mem_of (frame [0x4C, 0, 1] @ [0, 9])"
  have h: "holds_at ?d 0 (frame [0x4C, 0, 1])" "holds_at ?d 5 [0, 9]"
    using holds_mem_of[of "frame [0x4C, 0, 1] @ [0, 9]"] by (simp_all add: holds_at_append)
  note h(1)
  moreover have "incomplete ?d 5 2"
    using h(2) by (simp add: incomplete_def get_length_def be16_def holds_at_Cons)
  ultimately show ?thesis
    using parse_blocks_independent[of ?d 0 "[[0x4C, 0, 1]]" 4 2 1] by simp
qed

text \<open>
  Property C18. The parser never writes more messages than the buffer holds; every message it
  yields has a type of the ITCH protocol, never the internal session reset, and the receive
  time stamp of the packet. A packet that is too short or a heartbeat yields none.
\<close>

theorem parse_output_bounded:
  fixes d :: mem and p len :: nat and max_msgs :: int
  defines "r \<equiv> mold_parse d p len"
  shows "int (length (itch_parse d ts r max_msgs)) \<le> max 0 max_msgs \<and>
    list_all (\<lambda>m. wire_type (im_type m) \<and> im_recv_timestamp m = ts) (itch_parse d ts r max_msgs) \<and>
    (if len < 20 \<or> be16 d (p + 18) = 0xFFFF then itch_parse d ts r max_msgs = [] else True)"
proof -
  have "wire_type (im_type m) \<and> im_recv_timestamp m = ts"
    if "m \<in> set (itch_parse d ts r max_msgs)" for m
    using that parse_loop_all[where out = "[]" and Q = "\<lambda>m. wire_type (im_type m) \<and> im_recv_timestamp m = ts"
        and d = d and ts = ts] parse_message_True
    by (fastforce simp: itch_parse_def split: if_splits)
  moreover have "itch_parse d ts r max_msgs = []" if "len < 20 \<or> be16 d (p + 18) = 0xFFFF"
    using that by (auto simp: itch_parse_def r_def mold_parse_def sizeof_MoldUDP64Header_def
        ParseResult_init_def is_heartbeat_def read_header_def MOLDUDP64_HEARTBEAT_def
        parse_loop.simps[of _ _ _ 0] Let_def)
  moreover have "int (length (itch_parse d ts r max_msgs)) \<le> max 0 max_msgs"
    using parse_loop_length[of "[]" max_msgs] by (auto simp: itch_parse_def)
  ultimately show ?thesis by (simp add: list_all_iff)
qed

text \<open>
  Property C19. A one-byte message of a type that is accepted without a length check is read
  past its end: with the same packet bytes, the locate code of the message depends on what
  lies after the packet.
\<close>

theorem parse_reads_past_packet:
  "\<exists>d d'. agree d 0 d' 0 (length (enc_packet (replicate 10 0x20) 1 [[0x4C]])) \<and>
    holds_at d 0 (enc_packet (replicate 10 0x20) 1 [[0x4C]]) \<and>
    itch_parse d ts (mold_parse d 0 (length (enc_packet (replicate 10 0x20) 1 [[0x4C]]))) 128 \<noteq>
    itch_parse d' ts (mold_parse d' 0 (length (enc_packet (replicate 10 0x20) 1 [[0x4C]]))) 128"
proof -
  let ?pkt = "enc_packet (replicate 10 0x20) 1 [[0x4C]]"
  let ?d = "mem_of ?pkt" and ?d' = "(mem_of ?pkt)(23 := 1)"
  have len: "length ?pkt = 23" by (simp add: enc_packet_def)
  have ag: "agree ?d 0 ?d' 0 (length ?pkt)" by (simp add: agree_def len)
  have run: "itch_parse d ts (mold_parse d 0 (length ?pkt)) 128 =
      [ItchMsg_init\<lparr>im_recv_timestamp := ts, im_type := MarketParticipant, im_locate := be16 d 23\<rparr>]"
    if h: "holds_at d 0 ?pkt" for d
  proof -
    note mp = mold_parse_enc[OF _ _ h]
    have fr: "holds_at d 20 (frame [0x4C])" using mp(2) by simp
    have "get_length d 20 = 1" "d 22 = 0x4C"
      using be16_enc[of d 20 1] fr by (simp_all add: frame_def holds_at_append holds_at_Cons get_length_def)
    then show ?thesis
      using mp(1) by (simp add: itch_parse_def parse_loop_unfold[of _ _ 20] parse_loop.simps[of _ _ _ 0]
          incomplete_def parse_message_def parse_body_def parse_body_rest_def header_offsets message_type_of_char_def
          ItchMsg_init_def Let_def)
  qed
  have h: "holds_at ?d 0 ?pkt" "holds_at ?d' 0 ?pkt"
    using holds_mem_of[of ?pkt] by (auto simp: holds_at_def len)
  have "be16 ?d 23 \<noteq> be16 ?d' 23" by (simp add: be16_def mem_of_def len)
  then have "itch_parse ?d ts (mold_parse ?d 0 (length ?pkt)) 128 \<noteq>
      itch_parse ?d' ts (mold_parse ?d' 0 (length ?pkt)) 128"
    unfolding run[OF h(1)] run[OF h(2)] by (simp add: ItchMsg_init_def)
  then show ?thesis using ag h(1) by blast
qed

end
