(* ===== verification/Packet_Ring.thy ===== *)
theory Packet_Ring
  imports Spsc_Queue Feed_Stats
begin

text \<open>
  The packet rings: \<^verbatim>\<open>include/network/packet_ring.hpp\<close>, \<^verbatim>\<open>include/network/packet.hpp\<close>, the
  receiver loop \<^verbatim>\<open>src/workers/receiver_thread.cpp\<close> and the part of
  \<^verbatim>\<open>src/network/socket_receiver.cpp\<close> that fills a packet.

  A slot index is a \<^typ>\<open>16 word\<close>, so that \<^verbatim>\<open>++write_slot_\<close> wraps as in the code. What the
  kernel returns for one \<^verbatim>\<open>recvmsg\<close> is an argument.
\<close>

section \<open>Slots and rings\<close>

text \<open>
  \<^verbatim>\<open>PacketSlot\<close> lays out its fields at 0 (\<^verbatim>\<open>data\<close>), 1500 (\<^verbatim>\<open>length\<close>), 1502 (\<^verbatim>\<open>pad0\<close>), 1504
  (\<^verbatim>\<open>pad1\<close>) and, aligned to eight bytes, 1512 (\<^verbatim>\<open>recv_ts\<close>). \<open>ps_pads\<close> is the eight bytes from
  1502 on, where the packed \<^verbatim>\<open>RawPacket\<close> has its time stamp.
\<close>

record PacketSlot =
  ps_data :: "u8 list"
  ps_length :: u16
  ps_pads :: u64
  ps_recv_ts :: Timestamp

definition PacketSlot_init :: PacketSlot where
  "PacketSlot_init = \<lparr>ps_data = replicate MAX_UDP_PAYLOAD 0, ps_length = 0, ps_pads = 0, ps_recv_ts = 0\<rparr>"

text \<open>A null \<^verbatim>\<open>buffer\<close> is the empty list: every access through it faults.\<close>

record ZeroCopyRing =
  zr_buffer :: "PacketSlot list"
  zr_queue :: "u16 SpscQueue"
  zr_recovery_slots :: "PacketSlot list"
  zr_recovery_queue :: "u16 SpscQueue"
  zr_recovery_write :: u16

definition ZeroCopyRing_new :: "bool \<Rightarrow> ZeroCopyRing" where
  "ZeroCopyRing_new has_buffer =
    \<lparr>zr_buffer = (if has_buffer then replicate PACKET_RING_DEPTH PacketSlot_init else []),
     zr_queue = SpscQueue_new (replicate PACKET_RING_DEPTH 0),
     zr_recovery_slots = replicate RECOVERY_RING_DEPTH PacketSlot_init,
     zr_recovery_queue = SpscQueue_new (replicate RECOVERY_RING_DEPTH 0),
     zr_recovery_write = 0\<rparr>"

text \<open>The index \<^verbatim>\<open>idx & static_cast<uint16_t>(PACKET_RING_DEPTH - 1)\<close> of \<^verbatim>\<open>claim\<close> and \<^verbatim>\<open>slot\<close>.\<close>

definition slot_index :: "u16 \<Rightarrow> nat" where
  "slot_index idx = unat (idx AND (of_nat PACKET_RING_DEPTH - 1))"

definition slot :: "ZeroCopyRing \<Rightarrow> u16 \<Rightarrow> PacketSlot outcome" where
  "slot ring idx = elem_at (zr_buffer ring) (slot_index idx)"

definition publish :: "u16 \<Rightarrow> ZeroCopyRing \<Rightarrow> bool \<times> ZeroCopyRing" where
  "publish idx ring = (let (ok, q) = try_push idx (zr_queue ring) in (ok, ring\<lparr>zr_queue := q\<rparr>))"

definition consume :: "ZeroCopyRing \<Rightarrow> u16 option \<times> ZeroCopyRing" where
  "consume ring = (let (r, q) = try_pop (zr_queue ring) in (r, ring\<lparr>zr_queue := q\<rparr>))"

definition recovery_index :: "u16 \<Rightarrow> u16" where
  "recovery_index idx = idx AND (of_nat RECOVERY_RING_DEPTH - 1)"

text \<open>
  \<^verbatim>\<open>memcpy(s.data, data, len)\<close>: a length above the size of the slot writes outside it.
\<close>

definition fill_data :: "u8 list \<Rightarrow> u8 list \<Rightarrow> nat \<Rightarrow> u8 list" where
  "fill_data old data len = take len data @ drop len old"

definition inject_recovered_packet ::
  "u8 list \<Rightarrow> u16 \<Rightarrow> Timestamp \<Rightarrow> FeedStats \<Rightarrow> ZeroCopyRing \<Rightarrow> (bool \<times> FeedStats \<times> ZeroCopyRing) outcome" where
  "inject_recovered_packet data len recv_ts stats ring =
    (let drop_it = (\<lambda>r. (False, stats\<lparr>fs_recovery_drops := fs_recovery_drops stats + 1\<rparr>, r)) in
     if of_nat RECOVERY_RING_DEPTH \<le> size_approx (zr_recovery_queue ring) then Inr (drop_it ring)
     else if MAX_UDP_PAYLOAD < unat len then Inl OutOfBounds
     else let slot_idx = recovery_index (zr_recovery_write ring);
              s = zr_recovery_slots ring ! unat slot_idx;
              s' = s\<lparr>ps_length := len, ps_recv_ts := recv_ts,
                     ps_data := fill_data (ps_data s) data (unat len)\<rparr>;
              (ok, q) = try_push slot_idx (zr_recovery_queue ring);
              ring' = ring\<lparr>zr_recovery_slots := (zr_recovery_slots ring)[unat slot_idx := s'],
                           zr_recovery_queue := q\<rparr>
          in if \<not> ok then Inr (drop_it ring')
             else Inr (True, stats\<lparr>fs_recovered_packets := fs_recovered_packets stats + 1\<rparr>,
                       ring'\<lparr>zr_recovery_write := zr_recovery_write ring + 1\<rparr>))"

definition consume_recovered :: "ZeroCopyRing \<Rightarrow> u16 option \<times> ZeroCopyRing" where
  "consume_recovered ring =
    (let (r, q) = try_pop (zr_recovery_queue ring) in (r, ring\<lparr>zr_recovery_queue := q\<rparr>))"

definition recovery_slot :: "ZeroCopyRing \<Rightarrow> u16 \<Rightarrow> PacketSlot" where
  "recovery_slot ring idx = zr_recovery_slots ring ! unat (recovery_index idx)"

section \<open>The receiver\<close>

text \<open>
  One \<^verbatim>\<open>recvmsg\<close>: no packet, an error, or the bytes of a datagram (at most the size of the
  buffer) with the hardware time stamp when the driver gives one.
\<close>

datatype recvmsg_result = Again | Failed | Datagram "u8 list" "Timestamp option"

record ReceiverThread =
  rt_ring :: ZeroCopyRing
  rt_stats :: FeedStats
  rt_pkts_received :: counter
  rt_pkts_dropped :: counter
  rt_write_slot :: u16

text \<open>
  \<^verbatim>\<open>SocketReceiver::recv\<close> through the cast of the slot to a \<^verbatim>\<open>RawPacket\<close>: the data and the
  length land in the fields of the same name, the time stamp in the padding.
\<close>

definition sock_recv :: "recvmsg_result \<Rightarrow> Timestamp \<Rightarrow> PacketSlot \<Rightarrow> int \<times> PacketSlot" where
  "sock_recv r now s =
    (case r of Again \<Rightarrow> (0, s) | Failed \<Rightarrow> (-1, s)
     | Datagram bytes hw \<Rightarrow>
         (int (length bytes),
          s\<lparr>ps_data := fill_data (ps_data s) bytes (length bytes), ps_length := of_nat (length bytes),
            ps_pads := (case hw of None \<Rightarrow> now | Some t \<Rightarrow> if t = 0 then now else t)\<rparr>))"

definition receiver_step :: "recvmsg_result \<Rightarrow> Timestamp \<Rightarrow> ReceiverThread \<Rightarrow> ReceiverThread outcome" where
  "receiver_step r now rt =
    (let ring = rt_ring rt; i = slot_index (rt_write_slot rt) in
     andthen (elem_at (zr_buffer ring) i) (\<lambda>s.
       let (n, s') = sock_recv r now s;
           ring1 = ring\<lparr>zr_buffer := (zr_buffer ring)[i := s']\<rparr> in
       if 0 < n then
         let ring2 = ring1\<lparr>zr_buffer := (zr_buffer ring1)[i := s'\<lparr>ps_length := of_int n\<rparr>]\<rparr>;
             (ok, ring3) = publish (rt_write_slot rt) ring2 in
         if \<not> ok then
           Inr (rt\<lparr>rt_ring := ring3, rt_pkts_dropped := rt_pkts_dropped rt + 1,
                   rt_stats := (rt_stats rt)\<lparr>fs_packets_dropped := fs_packets_dropped (rt_stats rt) + 1\<rparr>\<rparr>)
         else
           Inr (rt\<lparr>rt_ring := ring3, rt_pkts_received := rt_pkts_received rt + 1,
                   rt_stats := (rt_stats rt)\<lparr>fs_packets_received := fs_packets_received (rt_stats rt) + 1\<rparr>,
                   rt_write_slot := rt_write_slot rt + 1\<rparr>)
       else Inr (rt\<lparr>rt_ring := ring1\<rparr>)))"

section \<open>Windows of a cyclic array\<close>

text \<open>The elements number \<open>R\<close> to \<open>W\<close> of a stream kept in a cyclic array.\<close>

definition window :: "'a list \<Rightarrow> nat \<Rightarrow> nat \<Rightarrow> 'a list" where
  "window xs R W = map (\<lambda>k. xs ! (k mod length xs)) [R..<W]"

lemma length_window [simp]: "length (window xs R W) = W - R"
  by (simp add: window_def)

lemma window_store:
  assumes "W - R < length xs" "R \<le> W"
  shows "window (xs[W mod length xs := s]) R (Suc W) = window xs R W @ [s]"
proof -
  have len: "W mod length xs < length xs" using assms(1) by (intro mod_less_divisor) linarith
  have "xs[W mod length xs := s] ! (k mod length xs) = xs ! (k mod length xs)" if "k \<in> set [R..<W]" for k
  proof -
    have "k mod length xs \<noteq> W mod length xs" by (rule mod_window_neq) (use that assms(1) in auto)
    then show ?thesis by simp
  qed
  then show ?thesis using assms(2) len by (simp add: window_def)
qed

lemma window_store_full:
  assumes "W = R + length xs" "xs \<noteq> []"
  shows "window (xs[W mod length xs := s]) R W = s # tl (window xs R W)"
proof -
  have idx: "W mod length xs = R mod length xs" using assms(1) by simp
  have len: "R mod length xs < length xs" using assms(2) by (intro mod_less_divisor) auto
  have "xs[R mod length xs := s] ! (k mod length xs) = xs ! (k mod length xs)"
    if "k \<in> set [Suc R..<W]" for k
  proof -
    have "R mod length xs \<noteq> k mod length xs" by (rule mod_window_neq) (use that assms(1) in auto)
    then show ?thesis by simp
  qed
  moreover have "R < W" using assms by (simp add: length_greater_0_conv)
  ultimately show ?thesis using len by (simp add: window_def idx upt_conv_Cons)
qed

lemma window_pop: "R < W \<Longrightarrow> window xs R W = xs ! (R mod length xs) # window xs (Suc R) W"
  by (simp add: window_def upt_conv_Cons)

section \<open>Invariant of the rings\<close>

lemma slot_index_of_nat: "slot_index (of_nat k) = k mod PACKET_RING_DEPTH"
proof -
  have mask: "(of_nat PACKET_RING_DEPTH - 1 :: u16) = mask 16"
    by (simp add: PACKET_RING_DEPTH_def mask_eq_exp_minus_1)
  have "unat (take_bit 16 (of_nat k :: u16)) = k mod 65536"
    by (simp add: unsigned_take_bit_eq unsigned_of_nat take_bit_take_bit)
      (simp add: take_bit_eq_mod)
  then show ?thesis
    by (simp add: slot_index_def mask flip: take_bit_eq_mask) (simp add: PACKET_RING_DEPTH_def)
qed

lemma recovery_index_of_nat:
  "recovery_index (of_nat k) = of_nat (k mod RECOVERY_RING_DEPTH)"
  "unat (recovery_index (of_nat k)) = k mod RECOVERY_RING_DEPTH"
proof -
  have mask: "(of_nat RECOVERY_RING_DEPTH - 1 :: u16) = mask 10"
    by (simp add: RECOVERY_RING_DEPTH_def mask_eq_exp_minus_1)
  have "unat (take_bit 10 (of_nat k :: u16)) = k mod 1024"
    by (simp add: unsigned_take_bit_eq unsigned_of_nat take_bit_take_bit)
      (simp add: take_bit_eq_mod)
  then show u: "unat (recovery_index (of_nat k)) = k mod RECOVERY_RING_DEPTH"
    by (simp add: recovery_index_def mask flip: take_bit_eq_mask) (simp add: RECOVERY_RING_DEPTH_def)
  show "recovery_index (of_nat k) = of_nat (k mod RECOVERY_RING_DEPTH)"
    by (simp add: word_unat_eq_iff u unat_of_nat RECOVERY_RING_DEPTH_def)
qed

text \<open>
  \<open>live_at ring R W\<close>: packets \<open>R\<close> to \<open>W\<close> of the receiver's stream are queued;
  \<open>recovery_at\<close> is the same for the recovery path.
\<close>

definition live_at :: "ZeroCopyRing \<Rightarrow> nat \<Rightarrow> nat \<Rightarrow> bool" where
  "live_at ring R W \<longleftrightarrow> R \<le> W \<and> W - R \<le> PACKET_RING_DEPTH \<and> length (zr_buffer ring) = PACKET_RING_DEPTH \<and>
     spsc_wf (zr_queue ring) \<and> spsc_cap (zr_queue ring) = PACKET_RING_DEPTH \<and>
     contents (zr_queue ring) = map of_nat [R..<W]"

definition live_inv :: "ReceiverThread \<Rightarrow> bool" where
  "live_inv rt \<longleftrightarrow> (\<exists>R W. live_at (rt_ring rt) R W \<and> rt_write_slot rt = of_nat W)"

definition recovery_at :: "ZeroCopyRing \<Rightarrow> nat \<Rightarrow> nat \<Rightarrow> bool" where
  "recovery_at ring R W \<longleftrightarrow> R \<le> W \<and> W - R \<le> RECOVERY_RING_DEPTH \<and>
     length (zr_recovery_slots ring) = RECOVERY_RING_DEPTH \<and>
     spsc_wf (zr_recovery_queue ring) \<and> spsc_cap (zr_recovery_queue ring) = RECOVERY_RING_DEPTH \<and>
     contents (zr_recovery_queue ring) = map (\<lambda>k. of_nat (k mod RECOVERY_RING_DEPTH)) [R..<W] \<and>
     zr_recovery_write ring = of_nat W"

definition recovery_inv :: "ZeroCopyRing \<Rightarrow> bool" where
  "recovery_inv ring \<longleftrightarrow> (\<exists>R W. recovery_at ring R W)"

text \<open>The packets that wait, as the consumer will find them.\<close>

definition pending :: "ZeroCopyRing \<Rightarrow> PacketSlot list" where
  "pending ring = map (\<lambda>i. zr_buffer ring ! slot_index i) (contents (zr_queue ring))"

definition pending_recovered :: "ZeroCopyRing \<Rightarrow> PacketSlot list" where
  "pending_recovered ring = map (recovery_slot ring) (contents (zr_recovery_queue ring))"

lemma pending_window: "live_at ring R W \<Longrightarrow> pending ring = window (zr_buffer ring) R W"
  by (simp add: live_at_def pending_def window_def slot_index_of_nat)

lemma pending_recovered_window:
  assumes "recovery_at ring R W"
  shows "pending_recovered ring = window (zr_recovery_slots ring) R W"
proof -
  have "k mod RECOVERY_RING_DEPTH mod RECOVERY_RING_DEPTH = k mod RECOVERY_RING_DEPTH" for k by simp
  then show ?thesis
    using assms by (simp add: recovery_at_def pending_recovered_def recovery_slot_def window_def
        recovery_index_of_nat(2))
qed

lemma pow2_replicate: "k < 64 \<Longrightarrow> n = 2 ^ k \<Longrightarrow> pow2_length (replicate n x)"
  by (auto simp: pow2_length_def)

lemma depth_pow2:
  "pow2_length (replicate PACKET_RING_DEPTH x)" "pow2_length (replicate RECOVERY_RING_DEPTH y)"
  using pow2_replicate[of 16 PACKET_RING_DEPTH x] pow2_replicate[of 10 RECOVERY_RING_DEPTH y]
  by (simp_all add: PACKET_RING_DEPTH_def RECOVERY_RING_DEPTH_def)

lemma new_ring_inv:
  "live_at (ZeroCopyRing_new True) 0 0" "recovery_at (ZeroCopyRing_new b) 0 0"
  by (simp_all add: live_at_def recovery_at_def ZeroCopyRing_new_def spsc_new[OF depth_pow2(1)]
      spsc_new[OF depth_pow2(2)])

section \<open>One packet\<close>

definition slot_with :: "PacketSlot \<Rightarrow> u8 list \<Rightarrow> u64 \<Rightarrow> PacketSlot" where
  "slot_with s bytes pads = s\<lparr>ps_data := fill_data (ps_data s) bytes (length bytes),
     ps_pads := pads, ps_length := of_nat (length bytes)\<rparr>"

text \<open>The receiver after a packet was queued, and after one was dropped.\<close>

definition rt_received :: "ReceiverThread \<Rightarrow> ZeroCopyRing \<Rightarrow> nat \<Rightarrow> ReceiverThread" where
  "rt_received rt ring W = rt\<lparr>rt_ring := ring, rt_pkts_received := rt_pkts_received rt + 1,
     rt_stats := (rt_stats rt)\<lparr>fs_packets_received := fs_packets_received (rt_stats rt) + 1\<rparr>,
     rt_write_slot := of_nat (Suc W)\<rparr>"

definition rt_dropped :: "ReceiverThread \<Rightarrow> ZeroCopyRing \<Rightarrow> ReceiverThread" where
  "rt_dropped rt ring = rt\<lparr>rt_ring := ring, rt_pkts_dropped := rt_pkts_dropped rt + 1,
     rt_stats := (rt_stats rt)\<lparr>fs_packets_dropped := fs_packets_dropped (rt_stats rt) + 1\<rparr>\<rparr>"

lemma rt_received_simps [simp]:
  "rt_ring (rt_received rt ring W) = ring" "rt_write_slot (rt_received rt ring W) = of_nat (Suc W)"
  "fs_packets_received (rt_stats (rt_received rt ring W)) = fs_packets_received (rt_stats rt) + 1"
  by (simp_all add: rt_received_def)

lemma receiver_step_datagram:
  assumes "live_at (rt_ring rt) R W" "rt_write_slot rt = of_nat W" "0 < length bytes"
  obtains pads ring where
    "receiver_step (Datagram bytes hw) now rt = Inr (
       if W - R < PACKET_RING_DEPTH then rt_received rt ring W else rt_dropped rt ring)"
    "live_at ring R (if W - R < PACKET_RING_DEPTH then Suc W else W)"
    "zr_buffer ring = (zr_buffer (rt_ring rt))[W mod PACKET_RING_DEPTH :=
       slot_with (zr_buffer (rt_ring rt) ! (W mod PACKET_RING_DEPTH)) bytes pads]"
proof -
  let ?ring = "rt_ring rt" and ?i = "W mod PACKET_RING_DEPTH" and ?q = "zr_queue (rt_ring rt)"
  note inv = assms(1)[unfolded live_at_def]
  have pos: "0 < PACKET_RING_DEPTH" by (simp add: PACKET_RING_DEPTH_def)
  have i: "slot_index (rt_write_slot rt) = ?i" "?i < length (zr_buffer ?ring)"
    using assms(2) inv pos by (simp_all add: slot_index_of_nat)
  define pads where "pads = (case hw of None \<Rightarrow> now | Some t \<Rightarrow> if t = 0 then now else t)"
  define s' where "s' = slot_with (zr_buffer ?ring ! ?i) bytes pads"
  define ring where "ring = ?ring\<lparr>zr_buffer := (zr_buffer ?ring)[?i := s'],
    zr_queue := snd (try_push (of_nat W) ?q)\<rparr>"
  have wf: "spsc_wf ?q" using inv by simp
  have ok: "fst (try_push (of_nat W) ?q) \<longleftrightarrow> W - R < PACKET_RING_DEPTH"
    using spsc.push_accepts[OF wf] inv by simp
  have step: "receiver_step (Datagram bytes hw) now rt = Inr (
       if W - R < PACKET_RING_DEPTH then rt_received rt ring W else rt_dropped rt ring)"
    using i assms(2,3) ok
    by (simp add: rt_received_def rt_dropped_def receiver_step_def elem_at_def sock_recv_def publish_def ring_def s'_def slot_with_def
        pads_def case_prod_beta add.commute Let_def)
  have "live_at ring R (if W - R < PACKET_RING_DEPTH then Suc W else W)"
    using inv spsc.push_wf[OF wf, of "of_nat W"] spsc.push_items[OF wf, of "of_nat W"] ok
    by (auto simp: live_at_def ring_def)
  then show thesis using step that[of ring pads] by (simp add: ring_def s'_def)
qed

lemma receiver_step_room:
  assumes "live_at (rt_ring rt) R W" "rt_write_slot rt = of_nat W" "0 < length bytes"
    and "W - R < PACKET_RING_DEPTH"
  obtains pads ring where "receiver_step (Datagram bytes hw) now rt = Inr (rt_received rt ring W)"
    "live_at ring R (Suc W)"
    "zr_buffer ring = (zr_buffer (rt_ring rt))[W mod PACKET_RING_DEPTH :=
       slot_with (zr_buffer (rt_ring rt) ! (W mod PACKET_RING_DEPTH)) bytes pads]"
  by (rule receiver_step_datagram[OF assms(1-3), of hw now]) (use that assms(4) in simp)

lemma receiver_step_full:
  assumes "live_at (rt_ring rt) R W" "rt_write_slot rt = of_nat W" "0 < length bytes"
    and "W - R = PACKET_RING_DEPTH"
  obtains pads ring where "receiver_step (Datagram bytes hw) now rt = Inr (rt_dropped rt ring)"
    "live_at ring R W"
    "zr_buffer ring = (zr_buffer (rt_ring rt))[W mod PACKET_RING_DEPTH :=
       slot_with (zr_buffer (rt_ring rt) ! (W mod PACKET_RING_DEPTH)) bytes pads]"
  by (rule receiver_step_datagram[OF assms(1-3), of hw now]) (use that assms(4) in simp)

lemma spsc_size:
  assumes "spsc_wf q"
  shows "unat (size_approx q) = length (contents q)"
  using assms by (simp add: contents_def)

lemma consume_live:
  assumes "live_at ring R W" "R < W"
  obtains ring' where "consume ring = (Some (of_nat R), ring')" "live_at ring' (Suc R) W"
    "zr_buffer ring' = zr_buffer ring"
proof -
  let ?q = "zr_queue ring"
  note inv = assms(1)[unfolded live_at_def]
  have wf: "spsc_wf ?q" using inv by simp
  have items: "contents ?q = of_nat R # map of_nat [Suc R..<W]" using inv assms(2) by (simp add: upt_conv_Cons)
  have "consume ring = (Some (of_nat R), ring\<lparr>zr_queue := snd (try_pop ?q)\<rparr>)"
    using spsc.pop_result[OF wf] items by (simp add: consume_def case_prod_beta)
  moreover have "live_at (ring\<lparr>zr_queue := snd (try_pop ?q)\<rparr>) (Suc R) W"
  proof -
    have "contents (snd (try_pop ?q)) = map of_nat [Suc R..<W]"
      unfolding spsc.pop_items[OF wf] items by simp
    then show ?thesis using inv assms(2) spsc.pop_wf[OF wf] by (auto simp: live_at_def)
  qed
  ultimately show thesis using that by simp
qed

lemma live_invI: "live_at ring R W \<Longrightarrow> rt_ring rt = ring \<Longrightarrow> rt_write_slot rt = of_nat W \<Longrightarrow> live_inv rt"
  by (auto simp: live_inv_def)

section \<open>Properties\<close>

text \<open>
  While the ring has room, a received datagram joins the end of the packets that
  wait, with its bytes and length, and leaves the others as they are; consuming takes the oldest.
  The index counter wraps without confusing two slots.
\<close>

theorem receiver_appends_packet:
  assumes "live_inv rt" "0 < length bytes" "length bytes \<le> MAX_UDP_PAYLOAD"
    and "length (pending (rt_ring rt)) < PACKET_RING_DEPTH"
  shows "\<exists>rt' s. receiver_step (Datagram bytes hw) now rt = Inr rt' \<and> live_inv rt' \<and>
    pending (rt_ring rt') = pending (rt_ring rt) @ [s] \<and> take (length bytes) (ps_data s) = bytes \<and>
    unat (ps_length s) = length bytes \<and>
    fs_packets_received (rt_stats rt') = fs_packets_received (rt_stats rt) + 1 \<and>
    (\<exists>i ring. consume (rt_ring rt') = (Some i, ring) \<and> slot ring i = Inr (hd (pending (rt_ring rt'))) \<and>
       live_inv (rt'\<lparr>rt_ring := ring\<rparr>) \<and> pending ring = tl (pending (rt_ring rt')))"
proof -
  obtain R W where at: "live_at (rt_ring rt) R W" "rt_write_slot rt = of_nat W"
    using assms(1) by (auto simp: live_inv_def)
  let ?n = PACKET_RING_DEPTH
  have room: "W - R < ?n" "R \<le> W" "length (zr_buffer (rt_ring rt)) = ?n"
    using assms(4) at(1) by (simp_all add: pending_window[OF at(1)] live_at_def)
  obtain pads ring where step:
    "receiver_step (Datagram bytes hw) now rt = Inr (rt_received rt ring W)" "live_at ring R (Suc W)"
    "zr_buffer ring = (zr_buffer (rt_ring rt))[W mod ?n := slot_with (zr_buffer (rt_ring rt) ! (W mod ?n)) bytes pads]"
    by (rule receiver_step_room[OF at assms(2) room(1), of hw now])
  let ?s = "slot_with (zr_buffer (rt_ring rt) ! (W mod ?n)) bytes pads"
  have pend: "pending ring = pending (rt_ring rt) @ [?s]"
    unfolding pending_window[OF at(1)] pending_window[OF step(2)] step(3)
    using window_store[of W R "zr_buffer (rt_ring rt)" ?s] room by simp
  obtain ring' where c: "consume ring = (Some (of_nat R), ring')" "live_at ring' (Suc R) (Suc W)"
    "zr_buffer ring' = zr_buffer ring"
    using consume_live[OF step(2)] room(2) by auto
  have len: "length (zr_buffer ring) = ?n" using step(2) by (simp add: live_at_def)
  have R: "R < Suc W" using room(2) by simp
  have popped: "pending ring = zr_buffer ring ! (R mod ?n) # pending ring'"
    unfolding pending_window[OF step(2)] pending_window[OF c(2)] c(3) using window_pop[OF R, of "zr_buffer ring"] len by simp
  have slot: "slot ring' (of_nat R) = Inr (zr_buffer ring ! (R mod ?n))"
    using len c(3) by (simp add: slot_def elem_at_def slot_index_of_nat PACKET_RING_DEPTH_def)
  have "unat (ps_length ?s) = length bytes" "take (length bytes) (ps_data ?s) = bytes"
    using assms(3) by (simp_all add: slot_with_def fill_data_def unat_of_nat MAX_UDP_PAYLOAD_def)
  moreover have inv: "live_inv (rt_received rt ring W)" "live_inv ((rt_received rt ring W)\<lparr>rt_ring := ring'\<rparr>)"
    using live_invI[OF step(2), of "rt_received rt ring W"]
      live_invI[OF c(2), of "(rt_received rt ring W)\<lparr>rt_ring := ring'\<rparr>"]
    by (simp_all add: rt_received_def)
  moreover have "\<exists>i ring''. consume ring = (Some i, ring'') \<and> slot ring'' i = Inr (hd (pending ring)) \<and>
      live_inv ((rt_received rt ring W)\<lparr>rt_ring := ring''\<rparr>) \<and> pending ring'' = tl (pending ring)"
    using c(1) slot popped inv(2) by (intro exI[of _ "of_nat R"] exI[of _ ring']) simp
  ultimately show ?thesis
    using step(1) pend by (intro exI[of _ "rt_received rt ring W"] exI[of _ ?s]) simp
qed

theorem receiver_appends_packet_witness:
  "\<exists>rt'. receiver_step (Datagram [1, 2, 3] None) 5
     \<lparr>rt_ring = ZeroCopyRing_new True, rt_stats = FeedStats_init, rt_pkts_received = 0,
      rt_pkts_dropped = 0, rt_write_slot = 0\<rparr> = Inr rt' \<and> length (pending (rt_ring rt')) = 1"
proof -
  let ?rt = "\<lparr>rt_ring = ZeroCopyRing_new True, rt_stats = FeedStats_init, rt_pkts_received = 0,
      rt_pkts_dropped = 0, rt_write_slot = 0\<rparr>"
  have "live_inv ?rt" using new_ring_inv(1) unfolding live_inv_def by (intro exI[of _ 0]) simp
  moreover have "pending (rt_ring ?rt) = []" using pending_window[OF new_ring_inv(1)] by (simp add: window_def)
  ultimately show ?thesis
    using receiver_appends_packet[of ?rt "[1, 2, 3]" None 5]
    by (auto simp: PACKET_RING_DEPTH_def MAX_UDP_PAYLOAD_def)
qed

text \<open>
  Property C24. When the ring is full, the receiver has already written the datagram into the
  slot of the oldest waiting packet before it finds the queue full: the drop is counted, and
  the oldest packet that waits is replaced by the one that was dropped.
\<close>

theorem receiver_full_overwrites_oldest:
  assumes "live_inv rt" "0 < length bytes" "length bytes \<le> MAX_UDP_PAYLOAD"
    and "length (pending (rt_ring rt)) = PACKET_RING_DEPTH"
  shows "\<exists>rt' s. receiver_step (Datagram bytes hw) now rt = Inr rt' \<and>
    fs_packets_dropped (rt_stats rt') = fs_packets_dropped (rt_stats rt) + 1 \<and>
    pending (rt_ring rt') = s # tl (pending (rt_ring rt)) \<and> take (length bytes) (ps_data s) = bytes \<and>
    unat (ps_length s) = length bytes"
proof -
  obtain R W where at: "live_at (rt_ring rt) R W" "rt_write_slot rt = of_nat W"
    using assms(1) by (auto simp: live_inv_def)
  let ?n = PACKET_RING_DEPTH
  have full: "W - R = ?n" "length (zr_buffer (rt_ring rt)) = ?n" "0 < ?n"
    using assms(4) at(1) by (simp_all add: pending_window[OF at(1)] live_at_def PACKET_RING_DEPTH_def)
  obtain pads ring where step:
    "receiver_step (Datagram bytes hw) now rt = Inr (rt_dropped rt ring)" "live_at ring R W"
    "zr_buffer ring = (zr_buffer (rt_ring rt))[W mod ?n := slot_with (zr_buffer (rt_ring rt) ! (W mod ?n)) bytes pads]"
    by (rule receiver_step_full[OF at assms(2) full(1), of hw now])
  let ?s = "slot_with (zr_buffer (rt_ring rt) ! (W mod ?n)) bytes pads"
  have W: "W = R + length (zr_buffer (rt_ring rt))" "zr_buffer (rt_ring rt) \<noteq> []" using full at(1) by (auto simp: live_at_def)
  have "pending ring = ?s # tl (pending (rt_ring rt))"
    unfolding pending_window[OF at(1)] pending_window[OF step(2)] step(3)
    using window_store_full[OF W, of ?s] full(2) by simp
  moreover have "unat (ps_length ?s) = length bytes" "take (length bytes) (ps_data ?s) = bytes"
    using assms(3) by (simp_all add: slot_with_def fill_data_def unat_of_nat MAX_UDP_PAYLOAD_def)
  ultimately show ?thesis
    using step(1) by (intro exI[of _ "rt_dropped rt ring"] exI[of _ ?s]) (simp add: rt_dropped_def)
qed

lemma ring_can_fill:
  "n \<le> PACKET_RING_DEPTH \<Longrightarrow> \<exists>rt :: ReceiverThread. live_at (rt_ring rt) 0 n \<and> rt_write_slot rt = of_nat n"
proof (induction n)
  case 0
  show ?case
    by (rule exI[of _ "\<lparr>rt_ring = ZeroCopyRing_new True, rt_stats = FeedStats_init, rt_pkts_received = 0,
      rt_pkts_dropped = 0, rt_write_slot = 0\<rparr>"]) (simp add: new_ring_inv)
next
  case (Suc n)
  then obtain rt :: ReceiverThread where at: "live_at (rt_ring rt) 0 n" "rt_write_slot rt = of_nat n" by auto
  obtain ring where "live_at ring 0 (Suc n)"
    by (rule receiver_step_room[OF at, of "[0]" None 0]) (use Suc.prems in auto)
  then show ?case by (intro exI[of _ "rt_received rt ring n"]) (simp add: rt_received_def)
qed

theorem receiver_full_overwrites_oldest_witness:
  "\<exists>(rt :: ReceiverThread) rt' s. length (pending (rt_ring rt)) = PACKET_RING_DEPTH \<and>
     receiver_step (Datagram [7] None) 0 rt = Inr rt' \<and>
     pending (rt_ring rt') = s # tl (pending (rt_ring rt)) \<and> take 1 (ps_data s) = [7]"
proof -
  obtain rt :: ReceiverThread where at: "live_at (rt_ring rt) 0 PACKET_RING_DEPTH" "rt_write_slot rt = of_nat PACKET_RING_DEPTH"
    using ring_can_fill[of PACKET_RING_DEPTH] by auto
  have "live_inv rt" using at unfolding live_inv_def by blast
  moreover have full: "length (pending (rt_ring rt)) = PACKET_RING_DEPTH" by (simp add: pending_window[OF at(1)])
  ultimately obtain rt' s where "receiver_step (Datagram [7] None) 0 rt = Inr rt'"
    "pending (rt_ring rt') = s # tl (pending (rt_ring rt))" "take 1 (ps_data s) = [7]"
    using receiver_full_overwrites_oldest[of rt "[7]" None 0] by (auto simp: MAX_UDP_PAYLOAD_def)
  then show ?thesis using full by blast
qed

text \<open>
  A recovered packet joins the end of the recovered packets that wait, with its
  bytes, length and time stamp, and leaves the others as they are; when 1024 wait it is dropped
  and counted, and nothing else changes.
\<close>

theorem inject_appends_recovered:
  assumes "recovery_inv ring" "unat len = length data" "length data \<le> MAX_UDP_PAYLOAD"
  shows "\<exists>ok stats' ring'. inject_recovered_packet data len ts stats ring = Inr (ok, stats', ring') \<and>
    recovery_inv ring' \<and> (ok \<longleftrightarrow> length (pending_recovered ring) < RECOVERY_RING_DEPTH) \<and>
    (if ok then \<exists>s. pending_recovered ring' = pending_recovered ring @ [s] \<and>
         take (length data) (ps_data s) = data \<and> ps_length s = len \<and> ps_recv_ts s = ts \<and>
         fs_recovered_packets stats' = fs_recovered_packets stats + 1
     else ring' = ring \<and> fs_recovery_drops stats' = fs_recovery_drops stats + 1)"
proof -
  obtain R W where at: "recovery_at ring R W" using assms(1) by (auto simp: recovery_inv_def)
  note inv = at[unfolded recovery_at_def]
  let ?n = RECOVERY_RING_DEPTH and ?q = "zr_recovery_queue ring"
  have wf: "spsc_wf ?q" using inv by simp
  have n: "?n = 1024" "unat (of_nat ?n :: u64) = ?n" by (simp_all add: RECOVERY_RING_DEPTH_def)
  have pend: "length (pending_recovered ring) = W - R" by (simp add: pending_recovered_window[OF at])
  have size: "unat (size_approx ?q) = W - R" using spsc_size[OF wf] inv by simp
  have chk: "of_nat ?n \<le> size_approx ?q \<longleftrightarrow> \<not> W - R < ?n" using size n(2) by (simp add: word_le_nat_alt not_less)
  show ?thesis
  proof (cases "W - R < ?n")
    case False
    then show ?thesis
      using chk assms(1) pend by (intro exI[of _ False]) (simp add: inject_recovered_packet_def)
  next
    case True
    let ?i = "W mod ?n" and ?idx = "recovery_index (zr_recovery_write ring)"
    let ?s = "zr_recovery_slots ring ! ?i"
    let ?s' = "?s\<lparr>ps_length := len, ps_recv_ts := ts, ps_data := fill_data (ps_data ?s) data (unat len)\<rparr>"
    let ?ring' = "ring\<lparr>zr_recovery_slots := (zr_recovery_slots ring)[?i := ?s'],
      zr_recovery_queue := snd (try_push ?idx ?q), zr_recovery_write := zr_recovery_write ring + 1\<rparr>"
    have idx: "unat ?idx = ?i" "?idx = of_nat ?i" using inv recovery_index_of_nat[of W] by auto
    have ok: "fst (try_push ?idx ?q)" using spsc.push_accepts[OF wf] inv True by simp
    have step: "inject_recovered_packet data len ts stats ring =
        Inr (True, stats\<lparr>fs_recovered_packets := fs_recovered_packets stats + 1\<rparr>, ?ring')"
      using chk True ok assms(2,3) idx(1) by (simp add: inject_recovered_packet_def case_prod_beta Let_def)
    have at': "recovery_at ?ring' R (Suc W)"
      using inv True spsc.push_wf[OF wf, of ?idx] spsc.push_items[OF wf, of ?idx] ok idx(2)
      by (auto simp: recovery_at_def)
    have "pending_recovered ?ring' = pending_recovered ring @ [?s']"
      unfolding pending_recovered_window[OF at] pending_recovered_window[OF at']
      using window_store[of W R "zr_recovery_slots ring" ?s'] True inv by simp
    moreover have "take (length data) (ps_data ?s') = data" using assms(2) by (simp add: fill_data_def)
    moreover have "recovery_inv ?ring'" using at' unfolding recovery_inv_def by blast
    ultimately show ?thesis using step True pend by (intro exI conjI) (auto intro!: exI[of _ ?s'])
  qed
qed

theorem inject_appends_recovered_witness:
  "\<exists>stats' ring'. inject_recovered_packet [1, 2] 2 9 FeedStats_init (ZeroCopyRing_new False) =
     Inr (True, stats', ring') \<and> length (pending_recovered ring') = 1"
proof -
  have "recovery_inv (ZeroCopyRing_new False)" using new_ring_inv(2) unfolding recovery_inv_def by blast
  moreover have "pending_recovered (ZeroCopyRing_new False) = []"
    using pending_recovered_window[OF new_ring_inv(2)] by (simp add: window_def)
  ultimately show ?thesis
    using inject_appends_recovered[of "ZeroCopyRing_new False" 2 "[1, 2]" 9 FeedStats_init]
    by (auto simp: RECOVERY_RING_DEPTH_def MAX_UDP_PAYLOAD_def)
qed

end
