(* ===== verification/Feed_Merger.thy ===== *)
theory Feed_Merger
  imports Packet_Ring Itch_Messages
begin

text \<open>
  Merging the A and B feeds: \<^verbatim>\<open>include/workers/feed_merger.hpp\<close> and
  \<^verbatim>\<open>src/workers/feed_merger.cpp\<close>. The window's advance loop is a partial function: whether it
  ends depends on the sequence number. The clock readings of one loop iteration are arguments.
\<close>

section \<open>DedupWindow\<close>

record DedupWindow =
  dw_base :: u64
  dw_bits0 :: u64
  dw_bits1 :: u64

definition DedupWindow_new :: DedupWindow where
  "DedupWindow_new = \<lparr>dw_base = 0, dw_bits0 = 0, dw_bits1 = 0\<rparr>"

partial_function (option) advance_window :: "u64 \<Rightarrow> DedupWindow \<Rightarrow> DedupWindow option" where
  "advance_window seq w =
    (if dw_base w + of_nat DEDUP_WINDOW_SIZE \<le> seq
     then advance_window seq (w\<lparr>dw_bits0 := dw_bits1 w, dw_bits1 := 0, dw_base := dw_base w + 64\<rparr>)
     else Some w)"

definition check_and_mark :: "u64 \<Rightarrow> DedupWindow \<Rightarrow> (bool \<times> DedupWindow) outcome" where
  "check_and_mark seq w0 =
    (if seq < dw_base w0 then Inr (False, w0)
     else andthen (of_loop (advance_window seq w0)) (\<lambda>w.
       let off = seq - dw_base w; word = drop_bit 6 off; m = push_bit (unat (off AND 63)) 1 in
       if word = 0 then
         if dw_bits0 w AND m \<noteq> 0 then Inr (False, w)
         else Inr (True, w\<lparr>dw_bits0 := dw_bits0 w OR m\<rparr>)
       else if word = 1 then
         if dw_bits1 w AND m \<noteq> 0 then Inr (False, w)
         else Inr (True, w\<lparr>dw_bits1 := dw_bits1 w OR m\<rparr>)
       else Inl OutOfBounds))"

definition dedup_reset :: "DedupWindow \<Rightarrow> DedupWindow" where
  "dedup_reset w = \<lparr>dw_base = 0, dw_bits0 = 0, dw_bits1 = 0\<rparr>"

section \<open>FeedMerger\<close>

datatype FeedSource = Primary | Secondary | Recovery

record MergedSlot =
  ms_slot_idx :: u16
  ms_source :: FeedSource

record FeedMerger =
  fm_primary_ring :: ZeroCopyRing
  fm_secondary_ring :: ZeroCopyRing
  fm_merged_queue :: "MergedSlot SpscQueue"
  fm_stats :: FeedStats
  fm_failover_timeout_ns :: u64
  fm_dedup :: DedupWindow
  fm_primary_last_ts :: Timestamp
  fm_last_failover_log_ts :: Timestamp
  fm_failed_over :: bool
  fm_secondary_enabled :: bool
  fm_slot_counter :: u32

definition FAILOVER_CHECK_INTERVAL :: u32 where "FAILOVER_CHECK_INTERVAL = 4096"

definition FeedMerger_new ::
  "ZeroCopyRing \<Rightarrow> ZeroCopyRing \<Rightarrow> MergedSlot SpscQueue \<Rightarrow> FeedStats \<Rightarrow> u64 \<Rightarrow> FeedMerger" where
  "FeedMerger_new primary secondary merged stats failover_timeout_ms =
    \<lparr>fm_primary_ring = primary, fm_secondary_ring = secondary, fm_merged_queue = merged,
     fm_stats = stats, fm_failover_timeout_ns = failover_timeout_ms * 1000000,
     fm_dedup = DedupWindow_new, fm_primary_last_ts = 0, fm_last_failover_log_ts = 0,
     fm_failed_over = False, fm_secondary_enabled = False, fm_slot_counter = 0\<rparr>"

text \<open>The bytes of a slot as memory at address 0.\<close>

definition slot_mem :: "PacketSlot \<Rightarrow> mem" where
  "slot_mem s i = (if i < length (ps_data s) then ps_data s ! i else 0)"

definition peek_sequence :: "PacketSlot \<Rightarrow> u64" where
  "peek_sequence s = (if ps_length s < 20 then 0 else be64 (slot_mem s) 10)"

definition peek_msg_count :: "PacketSlot \<Rightarrow> u16" where
  "peek_msg_count s = be16 (slot_mem s) 18"

definition forward :: "MergedSlot \<Rightarrow> FeedMerger \<Rightarrow> FeedMerger" where
  "forward ms fm =
    (let (ok, q) = try_push ms (fm_merged_queue fm); fm1 = fm\<lparr>fm_merged_queue := q\<rparr> in
     if \<not> ok then fm1\<lparr>fm_stats := (fm_stats fm)\<lparr>fs_merged_drops := fs_merged_drops (fm_stats fm) + 1\<rparr>\<rparr>
     else fm1)"

definition handle_live_slot ::
  "Timestamp \<Rightarrow> u16 \<Rightarrow> FeedSource \<Rightarrow> FeedMerger \<Rightarrow> FeedMerger outcome" where
  "handle_live_slot now slot_idx source fm =
    andthen (slot (if source = Primary then fm_primary_ring fm else fm_secondary_ring fm) slot_idx) (\<lambda>s.
      let fm1 = (if source = Primary
                 then fm\<lparr>fm_primary_last_ts := (if ps_recv_ts s \<noteq> 0 then ps_recv_ts s else now),
                         fm_failed_over := False\<rparr>
                 else fm\<lparr>fm_stats := (fm_stats fm)\<lparr>fs_secondary_packets := fs_secondary_packets (fm_stats fm) + 1\<rparr>\<rparr>);
          seq = peek_sequence s; ms = \<lparr>ms_slot_idx = slot_idx, ms_source = source\<rparr> in
      if seq = 0 then Inr (forward ms fm1)
      else if peek_msg_count s = MOLDUDP64_HEARTBEAT then Inr (forward ms fm1)
      else andthen (check_and_mark seq (fm_dedup fm1)) (\<lambda>(fresh, w).
        let fm2 = fm1\<lparr>fm_dedup := w\<rparr> in
        if \<not> fresh
        then Inr (fm2\<lparr>fm_stats := (fm_stats fm2)\<lparr>fs_dedup_drops := fs_dedup_drops (fm_stats fm2) + 1\<rparr>\<rparr>)
        else Inr (forward ms fm2)))"

definition check_failover :: "Timestamp \<Rightarrow> FeedMerger \<Rightarrow> FeedMerger" where
  "check_failover now fm =
    (if \<not> fm_failed_over fm then
       if 0 < fm_primary_last_ts fm \<and> fm_failover_timeout_ns fm < now - fm_primary_last_ts fm
       then fm\<lparr>fm_failed_over := True, fm_last_failover_log_ts := now,
               fm_stats := (fm_stats fm)\<lparr>fs_feed_failover_count := fs_feed_failover_count (fm_stats fm) + 1\<rparr>\<rparr>
       else fm
     else if 1000000000 \<le> now - fm_last_failover_log_ts fm
          then fm\<lparr>fm_last_failover_log_ts := now\<rparr> else fm)"

text \<open>The start of \<^verbatim>\<open>run\<close> and one iteration of its loop.\<close>

definition merger_start :: "Timestamp \<Rightarrow> FeedMerger \<Rightarrow> FeedMerger" where
  "merger_start now fm =
    fm\<lparr>fm_secondary_enabled := (zr_buffer (fm_secondary_ring fm) \<noteq> []), fm_primary_last_ts := now\<rparr>"

definition poll_live :: "Timestamp \<Rightarrow> FeedSource \<Rightarrow> FeedMerger \<Rightarrow> FeedMerger outcome" where
  "poll_live now source fm =
    (if source = Primary then
       let (r, ring) = consume (fm_primary_ring fm); fm1 = fm\<lparr>fm_primary_ring := ring\<rparr> in
       case r of None \<Rightarrow> Inr fm1 | Some pidx \<Rightarrow> handle_live_slot now pidx Primary fm1
     else
       let (r, ring) = consume (fm_secondary_ring fm); fm1 = fm\<lparr>fm_secondary_ring := ring\<rparr> in
       case r of None \<Rightarrow> Inr fm1 | Some sidx \<Rightarrow> handle_live_slot now sidx Secondary fm1)"

definition merger_iteration :: "Timestamp \<Rightarrow> Timestamp \<Rightarrow> FeedMerger \<Rightarrow> FeedMerger outcome" where
  "merger_iteration now_slot now_check fm =
    (let (rec, ring) = consume_recovered (fm_primary_ring fm); fm0 = fm\<lparr>fm_primary_ring := ring\<rparr> in
     case rec of
       Some rec_idx \<Rightarrow> Inr (forward \<lparr>ms_slot_idx = rec_idx, ms_source = Recovery\<rparr> fm0)
     | None \<Rightarrow>
         andthen (poll_live now_slot Primary fm0) (\<lambda>fm1.
         andthen (if fm_secondary_enabled fm1 then poll_live now_slot Secondary fm1 else Inr fm1) (\<lambda>fm2.
           let fm3 = fm2\<lparr>fm_slot_counter := fm_slot_counter fm2 + 1\<rparr> in
           if FAILOVER_CHECK_INTERVAL \<le> fm_slot_counter fm3 then
             let fm4 = fm3\<lparr>fm_slot_counter := 0\<rparr> in
             Inr (if fm_secondary_enabled fm4 then check_failover now_check fm4 else fm4)
           else Inr fm3)))"

section \<open>What the window remembers\<close>

definition window_ok :: "DedupWindow \<Rightarrow> bool" where
  "window_ok w \<longleftrightarrow> 64 dvd unat (dw_base w) \<and> unat (dw_base w) + 192 \<le> 2 ^ 64"

text \<open>The sequence numbers marked in the two words.\<close>

definition seen :: "DedupWindow \<Rightarrow> nat set" where
  "seen w = {n. unat (dw_base w) \<le> n \<and>
     (let k = n - unat (dw_base w) in
      k < 64 \<and> bit (dw_bits0 w) k \<or> 64 \<le> k \<and> k < 128 \<and> bit (dw_bits1 w) (k - 64))}"

definition shift_window :: "DedupWindow \<Rightarrow> DedupWindow" where
  "shift_window w = w\<lparr>dw_bits0 := dw_bits1 w, dw_bits1 := 0, dw_base := dw_base w + 64\<rparr>"

lemma unat_add_small: "unat (a :: u64) + k < 2 ^ 64 \<Longrightarrow> unat (a + of_nat k) = unat a + k"
  by (simp add: unat_word_ariths unat_of_nat)

lemma base_step:
  assumes "window_ok w"
  shows "unat (dw_base w + 64) = unat (dw_base w) + 64"
    "unat (dw_base w + of_nat DEDUP_WINDOW_SIZE) = unat (dw_base w) + 128"
  using unat_add_small[of "dw_base w" 64] unat_add_small[of "dw_base w" 128] assms
  by (simp_all add: window_ok_def DEDUP_WINDOW_SIZE_def)

lemma seen_shift:
  assumes "window_ok w"
  shows "seen (shift_window w) = {n \<in> seen w. unat (dw_base w) + 64 \<le> n}"
  using base_step(1)[OF assms] by (auto simp: seen_def shift_window_def Let_def)

lemma advance_window_ends:
  assumes "window_ok w" "unat (dw_base w) \<le> unat seq" "unat seq + 64 < 2 ^ 64"
  shows "\<exists>w'. advance_window seq w = Some w' \<and> window_ok w' \<and> unat (dw_base w) \<le> unat (dw_base w') \<and>
    unat (dw_base w') \<le> unat seq \<and> unat seq < unat (dw_base w') + 128 \<and>
    (dw_base w' = dw_base w \<or> unat (dw_base w') + 64 \<le> unat seq) \<and>
    seen w' = {n \<in> seen w. unat (dw_base w') \<le> n}"
  using assms(1,2)
proof (induction "unat seq - unat (dw_base w)" arbitrary: w rule: less_induct)
  case less
  note b = base_step[OF less.prems(1)]
  show ?case
  proof (cases "unat (dw_base w) + 128 \<le> unat seq")
    case False
    have "advance_window seq w = Some w"
      using False b(2) by (subst advance_window.simps) (simp add: word_le_nat_alt)
    moreover have "seen w = {n \<in> seen w. unat (dw_base w) \<le> n}" by (auto simp: seen_def)
    ultimately show ?thesis using False less.prems by auto
  next
    case True
    let ?w = "shift_window w"
    have base: "unat (dw_base ?w) = unat (dw_base w) + 64" using b(1) by (simp add: shift_window_def)
    have "64 dvd unat (dw_base ?w)" using less.prems(1) base by (simp add: window_ok_def)
    moreover have "unat (dw_base ?w) + 192 \<le> 2 ^ 64"
    proof -
      obtain q where q: "unat (dw_base w) = 64 * q" using less.prems(1) by (auto simp: window_ok_def)
      have "64 * q + 192 < 2 ^ 64" using True assms(3) q by linarith
      then show ?thesis using base q by simp
    qed
    ultimately have ok: "window_ok ?w" by (simp add: window_ok_def)
    have adv: "advance_window seq w = advance_window seq ?w"
      using True b(2) by (subst advance_window.simps) (simp add: word_le_nat_alt shift_window_def)
    have "unat seq - unat (dw_base ?w) < unat seq - unat (dw_base w)" "unat (dw_base ?w) \<le> unat seq"
      using base True by linarith+
    from less.hyps[OF this(1) ok this(2)]
    obtain w' where w': "advance_window seq ?w = Some w'" "window_ok w'" "unat (dw_base ?w) \<le> unat (dw_base w')"
      "unat (dw_base w') \<le> unat seq" "unat seq < unat (dw_base w') + 128"
      "dw_base w' = dw_base ?w \<or> unat (dw_base w') + 64 \<le> unat seq"
      "seen w' = {n \<in> seen ?w. unat (dw_base w') \<le> n}"
      by blast
    have "seen w' = {n \<in> seen w. unat (dw_base w') \<le> n}"
      unfolding w'(7) seen_shift[OF less.prems(1)] using w'(3) base by auto
    moreover have "unat (dw_base w) \<le> unat (dw_base w')" "unat (dw_base w') + 64 \<le> unat seq"
      using w'(3,6) base True by auto
    ultimately show ?thesis using adv w'(1,2,4,5) by simp
  qed
qed

lemma test_mark: "((b :: u64) AND 2 ^ k \<noteq> 0) = bit b k"
  using and_exp_eq_0_iff_not_bit[of b k] by simp

lemma bit_mark: "k < 64 \<Longrightarrow> bit ((b :: u64) OR 2 ^ k) i = (bit b i \<or> i = k)"
  by (auto simp: bit_or_iff bit_exp_iff)

lemma check_and_mark_old:
  "unat seq < unat (dw_base w) \<Longrightarrow> check_and_mark seq w = Inr (False, w)"
  by (simp add: check_and_mark_def word_less_nat_alt)

lemma check_and_mark_new:
  assumes "window_ok w" "unat (dw_base w) \<le> unat seq" "unat seq + 64 < 2 ^ 64"
  shows "\<exists>w'. check_and_mark seq w = Inr (unat seq \<notin> seen w, w') \<and> window_ok w' \<and>
    (dw_base w' = dw_base w \<or> unat (dw_base w') + 64 \<le> unat seq) \<and> unat (dw_base w) \<le> unat (dw_base w') \<and>
    seen w' = insert (unat seq) {n \<in> seen w. unat (dw_base w') \<le> n}"
proof -
  obtain v where v: "advance_window seq w = Some v" "window_ok v" "unat (dw_base w) \<le> unat (dw_base v)"
    "unat (dw_base v) \<le> unat seq" "unat seq < unat (dw_base v) + 128"
    "dw_base v = dw_base w \<or> unat (dw_base v) + 64 \<le> unat seq"
    "seen v = {n \<in> seen w. unat (dw_base v) \<le> n}"
    using advance_window_ends[OF assms] by blast
  define k where "k = unat seq - unat (dw_base v)"
  let ?off = "seq - dw_base v"
  have off: "unat ?off = k" unfolding k_def using v(4) by (simp add: unat_sub word_le_nat_alt)
  have k: "k < 128" using v(4,5) by (simp add: k_def)
  have word: "unat (drop_bit 6 ?off) = k div 64" by (simp add: drop_bit_eq_div unat_div off)
  have low: "unat (?off AND 63) = k mod 64"
  proof -
    have "?off AND 63 = take_bit 6 ?off" by (simp add: take_bit_eq_mask mask_eq_exp_minus_1)
    then show ?thesis by (simp add: take_bit_eq_mod unat_mod off)
  qed
  have w0: "drop_bit 6 ?off = 0 \<longleftrightarrow> k < 64" using word by (simp add: word_unat_eq_iff) linarith
  have w1: "drop_bit 6 ?off = 1 \<longleftrightarrow> 64 \<le> k" using word k by (simp add: word_unat_eq_iff) linarith
  have old: "\<not> seq < dw_base w" using assms(2) by (simp add: word_less_nat_alt)
  have seen: "unat seq \<in> seen w \<longleftrightarrow> (if k < 64 then bit (dw_bits0 v) k else bit (dw_bits1 v) (k - 64))"
  proof -
    have "unat seq \<in> seen w \<longleftrightarrow> unat seq \<in> seen v" using v(4) by (simp add: v(7))
    also have "\<dots> \<longleftrightarrow> (if k < 64 then bit (dw_bits0 v) k else bit (dw_bits1 v) (k - 64))"
      using v(4) k by (simp add: seen_def Let_def k_def)
    finally show ?thesis .
  qed
  show ?thesis
  proof (cases "k < 64")
    case True
    let ?v = "v\<lparr>dw_bits0 := dw_bits0 v OR 2 ^ k\<rparr>"
    have run: "check_and_mark seq w = Inr (unat seq \<notin> seen w, if unat seq \<in> seen w then v else ?v)"
      using old v(1) True w0 low seen test_mark[of "dw_bits0 v" k]
      by (simp add: check_and_mark_def Let_def)
    have "seen ?v = insert (unat seq) (seen v)"
      using True v(4) bit_mark[OF True, of "dw_bits0 v"] by (auto simp: seen_def k_def Let_def)
    then show ?thesis
      using run v(2,3,4,6,7) seen True unfolding window_ok_def by (auto simp: insert_absorb)
  next
    case False
    let ?v = "v\<lparr>dw_bits1 := dw_bits1 v OR 2 ^ (k - 64)\<rparr>"
    have m: "k mod 64 = k - 64" using False k by (simp add: mod_if)
    have run: "check_and_mark seq w = Inr (unat seq \<notin> seen w, if unat seq \<in> seen w then v else ?v)"
      using old v(1) False w0 w1 low seen test_mark[of "dw_bits1 v" "k - 64"]
      by (simp add: check_and_mark_def Let_def m)
    have "k - 64 < 64" using k False by simp
    note mark = bit_mark[OF this, of "dw_bits1 v"]
    have "seen ?v = insert (unat seq) (seen v)"
      using False k v(4) mark by (auto simp: seen_def k_def Let_def)
    then show ?thesis
      using run v(2,3,4,6,7) seen False unfolding window_ok_def by (auto simp: insert_absorb)
  qed
qed

lemma window_ok_new: "window_ok DedupWindow_new" "seen DedupWindow_new = {}"
  by (auto simp: window_ok_def DedupWindow_new_def seen_def Let_def)

text \<open>From \<open>2 ^ 64 - 64\<close> on no window of two words fits, and the loop never ends.\<close>

lemma advance_window_diverges:
  assumes "64 dvd unat (dw_base w)" "2 ^ 64 \<le> unat seq + 64"
  shows "advance_window seq w = None"
proof -
  have none: "\<not> 64 dvd unat (dw_base x)" if "advance_window seq x = Some y" for x y
  proof -
    have "2 ^ 64 \<le> unat seq + 64 \<longrightarrow> \<not> 64 dvd unat (dw_base x)"
    proof (rule advance_window.raw_induct[OF _ that])
      fix f :: "u64 \<Rightarrow> DedupWindow \<Rightarrow> DedupWindow option" and s v u
      assume hyp: "\<And>s' v' u'. f s' v' = Some u' \<Longrightarrow> 2 ^ 64 \<le> unat s' + 64 \<longrightarrow> \<not> 64 dvd unat (dw_base v')"
        and run: "(if dw_base v + of_nat DEDUP_WINDOW_SIZE \<le> s
          then f s (v\<lparr>dw_bits0 := dw_bits1 v, dw_bits1 := 0, dw_base := dw_base v + 64\<rparr>) else Some v) = Some u"
      show "2 ^ 64 \<le> unat s + 64 \<longrightarrow> \<not> 64 dvd unat (dw_base v)"
      proof (intro impI notI)
        assume s: "2 ^ 64 \<le> unat s + 64" and dvd: "64 dvd unat (dw_base v)"
        have d: "64 dvd (2 ^ 64 :: nat)" by simp
        have e: "unat (dw_base v + 64) = (unat (dw_base v) + 64) mod 2 ^ 64"
          "unat (dw_base v + of_nat DEDUP_WINDOW_SIZE) = (unat (dw_base v) + 128) mod 2 ^ 64"
          by (simp_all add: unat_word_ariths DEDUP_WINDOW_SIZE_def)
        have dvd1: "64 dvd unat (dw_base v + 64)" unfolding e using dvd d by (simp add: dvd_mod)
        have "64 dvd unat (dw_base v + of_nat DEDUP_WINDOW_SIZE)" unfolding e using dvd d by (simp add: dvd_mod)
        then obtain q where q: "unat (dw_base v + of_nat DEDUP_WINDOW_SIZE) = 64 * q" by auto
        have "64 * q < 2 ^ 64" using unat_bound[of "dw_base v + of_nat DEDUP_WINDOW_SIZE"] q by simp
        then have "64 * q \<le> unat s" using s by simp
        then have "dw_base v + of_nat DEDUP_WINDOW_SIZE \<le> s" by (simp add: word_le_nat_alt q)
        then have "f s (v\<lparr>dw_bits0 := dw_bits1 v, dw_bits1 := 0, dw_base := dw_base v + 64\<rparr>) = Some u"
          using run by simp
        from hyp[OF this] show False using s dvd1 by simp
      qed
    qed
    then show ?thesis using assms(2) by simp
  qed
  show ?thesis using none[of w] assms(1) by (cases "advance_window seq w") auto
qed

section \<open>Streams of sequence numbers\<close>

fun run_dedup :: "u64 list \<Rightarrow> DedupWindow \<Rightarrow> (bool list \<times> DedupWindow) outcome" where
  "run_dedup [] w = Inr ([], w)"
| "run_dedup (n # ns) w =
    andthen (check_and_mark n w) (\<lambda>(ok, w').
      andthen (run_dedup ns w') (\<lambda>(oks, w''). Inr (ok # oks, w'')))"

text \<open>The numbers the window has let through, out of which it remembers those from its base on.\<close>

definition remembers :: "DedupWindow \<Rightarrow> nat set \<Rightarrow> bool" where
  "remembers w F \<longleftrightarrow> window_ok w \<and> seen w = {n \<in> F. unat (dw_base w) \<le> n} \<and>
     (dw_base w = 0 \<or> (\<exists>m \<in> F. unat (dw_base w) + 64 \<le> m))"

lemma remembers_step:
  assumes "remembers w F" "unat seq + 64 < 2 ^ 64"
  shows "\<exists>ok w'. check_and_mark seq w = Inr (ok, w') \<and>
    remembers w' (if ok then insert (unat seq) F else F) \<and>
    (ok \<longrightarrow> unat seq \<notin> F) \<and> (\<not> ok \<longrightarrow> unat seq \<in> F \<or> (\<exists>m \<in> F. unat seq + 64 < m))"
proof (cases "unat seq < unat (dw_base w)")
  case True
  then have "\<exists>m \<in> F. unat seq + 64 < m" using assms(1) by (force simp: remembers_def)
  then show ?thesis using check_and_mark_old[OF True] assms(1) by (intro exI[of _ False]) simp
next
  case False
  have r: "window_ok w" "seen w = {n \<in> F. unat (dw_base w) \<le> n}"
    "dw_base w = 0 \<or> (\<exists>m \<in> F. unat (dw_base w) + 64 \<le> m)"
    using assms(1) by (auto simp: remembers_def)
  obtain w' where w': "check_and_mark seq w = Inr (unat seq \<notin> seen w, w')" "window_ok w'"
    "dw_base w' = dw_base w \<or> unat (dw_base w') + 64 \<le> unat seq" "unat (dw_base w) \<le> unat (dw_base w')"
    "seen w' = insert (unat seq) {n \<in> seen w. unat (dw_base w') \<le> n}"
    using check_and_mark_new[OF r(1) _ assms(2)] False by auto
  have mem: "unat seq \<in> seen w \<longleftrightarrow> unat seq \<in> F" using r(2) False by simp
  let ?F = "insert (unat seq) F"
  have base: "unat (dw_base w') \<le> unat seq" using w'(3) False by auto
  have "remembers w' ?F"
    unfolding remembers_def w'(5) r(2) using w'(2,3,4) r(3) base by auto
  moreover have "?F = F" if "unat seq \<in> F" using that by auto
  ultimately show ?thesis using w'(1) mem by (cases "unat seq \<in> F") auto
qed

lemma run_dedup_remembers:
  assumes "remembers w F" "\<And>n. n \<in> set ns \<Longrightarrow> unat n + 64 < 2 ^ 64"
  shows "\<exists>oks w'. run_dedup ns w = Inr (oks, w') \<and> length oks = length ns \<and>
    distinct (map fst (filter snd (zip ns oks))) \<and>
    (\<forall>n \<in> set (map fst (filter snd (zip ns oks))). unat n \<notin> F) \<and>
    (\<forall>i < length ns. \<not> oks ! i \<longrightarrow> unat (ns ! i) \<in> F \<or> (\<exists>m \<in> F. unat (ns ! i) + 64 < m) \<or>
       (\<exists>j < i. oks ! j \<and> (ns ! j = ns ! i \<or> unat (ns ! i) + 64 < unat (ns ! j))))"
  using assms
proof (induction ns arbitrary: w F)
  case Nil
  then show ?case by simp
next
  case (Cons n ns)
  obtain ok w1 where one: "check_and_mark n w = Inr (ok, w1)"
    "remembers w1 (if ok then insert (unat n) F else F)" "ok \<longrightarrow> unat n \<notin> F"
    "\<not> ok \<longrightarrow> unat n \<in> F \<or> (\<exists>m \<in> F. unat n + 64 < m)"
    using remembers_step[OF Cons.prems(1), of n] Cons.prems(2) by auto
  let ?F = "if ok then insert (unat n) F else F"
  obtain oks w' where rest: "run_dedup ns w1 = Inr (oks, w')" "length oks = length ns"
    "distinct (map fst (filter snd (zip ns oks)))"
    "\<forall>m \<in> set (map fst (filter snd (zip ns oks))). unat m \<notin> ?F"
    "\<forall>i < length ns. \<not> oks ! i \<longrightarrow> unat (ns ! i) \<in> ?F \<or> (\<exists>m \<in> ?F. unat (ns ! i) + 64 < m) \<or>
       (\<exists>j < i. oks ! j \<and> (ns ! j = ns ! i \<or> unat (ns ! i) + 64 < unat (ns ! j)))"
    using Cons.IH[OF one(2)] Cons.prems(2) by (auto 0 4)
  have run: "run_dedup (n # ns) w = Inr (ok # oks, w')" using one(1) rest(1) by simp
  have dist: "distinct (map fst (filter snd (zip (n # ns) (ok # oks))))"
    using rest(3,4) by (cases ok) force+
  have fresh: "\<forall>m \<in> set (map fst (filter snd (zip (n # ns) (ok # oks)))). unat m \<notin> F"
    using rest(4) one(3) by (cases ok) auto
  have late: "unat ((n # ns) ! i) \<in> F \<or> (\<exists>m \<in> F. unat ((n # ns) ! i) + 64 < m) \<or>
       (\<exists>j < i. (ok # oks) ! j \<and> ((n # ns) ! j = (n # ns) ! i \<or>
          unat ((n # ns) ! i) + 64 < unat ((n # ns) ! j)))"
    if "i < length (n # ns)" "\<not> (ok # oks) ! i" for i
  proof (cases i)
    case 0
    then show ?thesis using one(4) that by simp
  next
    case (Suc k)
    then have k: "k < length ns" "\<not> oks ! k" using that by simp_all
    consider (old) "unat (ns ! k) \<in> ?F \<or> (\<exists>m \<in> ?F. unat (ns ! k) + 64 < m)"
      | (later) j where "j < k" "oks ! j" "ns ! j = ns ! k \<or> unat (ns ! k) + 64 < unat (ns ! j)"
      using rest(5) k by blast
    then show ?thesis
    proof cases
      case old
      then have "unat (ns ! k) \<in> F \<or> (\<exists>m \<in> F. unat (ns ! k) + 64 < m) \<or>
          (ok \<and> (n = ns ! k \<or> unat (ns ! k) + 64 < unat n))"
        by (cases ok) (auto simp: word_unat_eq_iff)
      then show ?thesis using Suc by (auto intro!: exI[of _ 0])
    next
      case later
      then show ?thesis using Suc by (intro disjI2 exI[of _ "Suc j"]) auto
    qed
  qed
  show ?case
    by (intro exI[of _ "ok # oks"] exI[of _ w'] conjI run dist fresh allI impI late) (simp_all add: rest(2))
qed

section \<open>The merger on a stream of slots\<close>

text \<open>What the merger hands on is what \<open>forward\<close> appends to the merged queue.\<close>

definition merged_ok :: "FeedMerger \<Rightarrow> bool" where
  "merged_ok fm \<longleftrightarrow> spsc_wf (fm_merged_queue fm)"

definition merged :: "FeedMerger \<Rightarrow> MergedSlot list" where
  "merged fm = contents (fm_merged_queue fm)"

lemma forward_room:
  assumes "merged_ok fm" "length (merged fm) < spsc_cap (fm_merged_queue fm)"
  shows "merged (forward ms fm) = merged fm @ [ms]" "merged_ok (forward ms fm)"
    "fm_stats (forward ms fm) = fm_stats fm" "fm_dedup (forward ms fm) = fm_dedup fm"
    "fm_primary_ring (forward ms fm) = fm_primary_ring fm"
    "fm_secondary_ring (forward ms fm) = fm_secondary_ring fm"
  using assms spsc.push_items[of "fm_merged_queue fm" ms] spsc.push_accepts[of "fm_merged_queue fm" ms]
    spsc.push_wf[of "fm_merged_queue fm" ms]
  by (simp_all add: forward_def merged_def merged_ok_def case_prod_beta Let_def)

lemma forward_failed_over [simp]: "fm_failed_over (forward ms fm) = fm_failed_over fm"
  by (simp add: forward_def case_prod_beta Let_def)

lemma forward_full:
  assumes "merged_ok fm" "length (merged fm) = spsc_cap (fm_merged_queue fm)"
  shows "merged (forward ms fm) = merged fm" "merged_ok (forward ms fm)"
    "fs_merged_drops (fm_stats (forward ms fm)) = fs_merged_drops (fm_stats fm) + 1"
  using assms spsc.push_items[of "fm_merged_queue fm" ms] spsc.push_accepts[of "fm_merged_queue fm" ms]
    spsc.push_wf[of "fm_merged_queue fm" ms]
  by (simp_all add: forward_def merged_def merged_ok_def case_prod_beta Let_def)

text \<open>A data packet: long enough for a header, with a sequence number, and no heartbeat.\<close>

definition data_packet :: "PacketSlot \<Rightarrow> bool" where
  "data_packet s \<longleftrightarrow> peek_sequence s \<noteq> 0 \<and> peek_msg_count s \<noteq> MOLDUDP64_HEARTBEAT"

definition source_ring :: "FeedSource \<Rightarrow> FeedMerger \<Rightarrow> ZeroCopyRing" where
  "source_ring source fm = (if source = Primary then fm_primary_ring fm else fm_secondary_ring fm)"

section \<open>Properties\<close>

text \<open>
  Property C22. The window lets every sequence number through at most once: in any stream of
  numbers below \<open>2 ^ 64 - 64\<close> every check ends, the numbers let through are distinct, and a
  number that is refused was let through before, or one that is more than 64 ahead of it was.
\<close>

theorem dedup_forwards_once:
  assumes "\<forall>n \<in> set ns. unat n + 64 < 2 ^ 64"
  shows "\<exists>oks w. run_dedup ns DedupWindow_new = Inr (oks, w) \<and> length oks = length ns \<and>
    distinct (map fst (filter snd (zip ns oks))) \<and>
    (\<forall>i < length ns. \<not> oks ! i \<longrightarrow>
       (\<exists>j < i. oks ! j \<and> (ns ! j = ns ! i \<or> unat (ns ! i) + 64 < unat (ns ! j))))"
proof -
  have "remembers DedupWindow_new {}"
    using window_ok_new by (simp add: remembers_def DedupWindow_new_def)
  from run_dedup_remembers[OF this, of ns] assms show ?thesis by auto
qed

theorem dedup_forwards_once_witness:
  "\<exists>oks w. run_dedup [5, 5, 300, 6] DedupWindow_new = Inr (oks, w) \<and>
     distinct (map fst (filter snd (zip [5, 5, 300, 6 :: u64] oks)))"
  using dedup_forwards_once[of "[5, 5, 300, 6]"] by auto

text \<open>
  Property C23. A sequence number of \<open>2 ^ 64 - 64\<close> or more makes the check loop for ever, whatever
  has been seen before: one datagram with such a number stops the merger.
\<close>

theorem dedup_diverges:
  assumes "window_ok w" "2 ^ 64 \<le> unat seq + 64"
  shows "check_and_mark seq w = Inl Diverges"
proof -
  have "\<not> seq < dw_base w" using assms by (simp add: window_ok_def word_less_nat_alt)
  then show ?thesis
    using advance_window_diverges[OF _ assms(2), of w] assms(1)
    by (simp add: check_and_mark_def window_ok_def)
qed

theorem dedup_diverges_witness:
  "check_and_mark 0xFFFFFFFFFFFFFFFF DedupWindow_new = Inl Diverges"
  using dedup_diverges[OF window_ok_new(1), of "0xFFFFFFFFFFFFFFFF"] by simp

lemma live_slot_cases:
  assumes "source \<in> {Primary, Secondary}" "slot (source_ring source fm) idx = Inr s"
    and "merged_ok fm" "length (merged fm) < spsc_cap (fm_merged_queue fm)"
    and "window_ok (fm_dedup fm)" "unat (peek_sequence s) + 64 < 2 ^ 64"
  shows "\<exists>fm'. handle_live_slot now idx source fm = Inr fm' \<and> merged_ok fm' \<and>
    (if data_packet s then
       \<exists>ok w. check_and_mark (peek_sequence s) (fm_dedup fm) = Inr (ok, w) \<and> fm_dedup fm' = w \<and>
         merged fm' = merged fm @ (if ok then [\<lparr>ms_slot_idx = idx, ms_source = source\<rparr>] else []) \<and>
         fs_dedup_drops (fm_stats fm') = fs_dedup_drops (fm_stats fm) + (if ok then 0 else 1)
     else merged fm' = merged fm @ [\<lparr>ms_slot_idx = idx, ms_source = source\<rparr>] \<and>
       fm_dedup fm' = fm_dedup fm)"
proof -
  let ?ms = "\<lparr>ms_slot_idx = idx, ms_source = source\<rparr>"
  define fm1 where "fm1 = (if source = Primary
     then fm\<lparr>fm_primary_last_ts := (if ps_recv_ts s \<noteq> 0 then ps_recv_ts s else now), fm_failed_over := False\<rparr>
     else fm\<lparr>fm_stats := (fm_stats fm)\<lparr>fs_secondary_packets := fs_secondary_packets (fm_stats fm) + 1\<rparr>\<rparr>)"
  have same: "merged fm1 = merged fm" "merged_ok fm1" "fm_merged_queue fm1 = fm_merged_queue fm"
    "fm_dedup fm1 = fm_dedup fm" "fs_dedup_drops (fm_stats fm1) = fs_dedup_drops (fm_stats fm)"
    using assms(3) by (auto simp: fm1_def merged_def merged_ok_def)
  have room: "length (merged fm1) < spsc_cap (fm_merged_queue fm1)" using same assms(4) by simp
  obtain ok w where cm: "check_and_mark (peek_sequence s) (fm_dedup fm) = Inr (ok, w)"
    using check_and_mark_old[of "peek_sequence s" "fm_dedup fm"] check_and_mark_new[OF assms(5) _ assms(6)]
    by (cases "unat (peek_sequence s) < unat (dw_base (fm_dedup fm))") auto
  have run: "handle_live_slot now idx source fm =
    (if data_packet s
     then (if ok then Inr (forward ?ms (fm1\<lparr>fm_dedup := w\<rparr>))
           else Inr (fm1\<lparr>fm_dedup := w, fm_stats := (fm_stats fm1)\<lparr>fs_dedup_drops := fs_dedup_drops (fm_stats fm1) + 1\<rparr>\<rparr>))
     else Inr (forward ?ms fm1))"
    using assms(2) cm same(4)
    by (auto simp: handle_live_slot_def source_ring_def data_packet_def fm1_def[symmetric] Let_def)
  let ?fm2 = "fm1\<lparr>fm_dedup := w\<rparr>"
  have m2: "merged_ok ?fm2" "length (merged ?fm2) < spsc_cap (fm_merged_queue ?fm2)" "merged ?fm2 = merged fm"
    using same room by (simp_all add: merged_ok_def merged_def)
  show ?thesis
    using run cm same forward_room[OF same(2) room] forward_room[OF m2(1,2)] m2
    by (auto simp: merged_ok_def merged_def)
qed

text \<open>
  A data packet of either live feed is handed to the parser exactly when the window
  lets its sequence number through; otherwise it is counted as a duplicate and nothing is handed
  on. Short packets and heartbeats are always handed on and leave the window as it is. The
  merged queue is assumed to have room.
\<close>

theorem live_slot_forwarding:
  assumes "source \<in> {Primary, Secondary}" "slot (source_ring source fm) idx = Inr s"
    and "merged_ok fm" "length (merged fm) < spsc_cap (fm_merged_queue fm)"
    and "window_ok (fm_dedup fm)" "unat (peek_sequence s) + 64 < 2 ^ 64"
  shows "\<exists>fm'. handle_live_slot now idx source fm = Inr fm' \<and> merged_ok fm' \<and>
    (if data_packet s then
       \<exists>ok w. check_and_mark (peek_sequence s) (fm_dedup fm) = Inr (ok, w) \<and> fm_dedup fm' = w \<and>
         merged fm' = merged fm @ (if ok then [\<lparr>ms_slot_idx = idx, ms_source = source\<rparr>] else []) \<and>
         fs_dedup_drops (fm_stats fm') = fs_dedup_drops (fm_stats fm) + (if ok then 0 else 1)
     else merged fm' = merged fm @ [\<lparr>ms_slot_idx = idx, ms_source = source\<rparr>] \<and>
       fm_dedup fm' = fm_dedup fm)"
  using live_slot_cases[OF assms] .

theorem live_slot_forwarding_witness:
  "\<exists>fm'. handle_live_slot 9 0 Primary (FeedMerger_new (ZeroCopyRing_new True) (ZeroCopyRing_new False)
      (SpscQueue_new (replicate MERGED_QUEUE_DEPTH \<lparr>ms_slot_idx = 0, ms_source = Primary\<rparr>)) FeedStats_init 50) = Inr fm' \<and>
    merged fm' = [\<lparr>ms_slot_idx = 0, ms_source = Primary\<rparr>]"
proof -
  let ?q = "SpscQueue_new (replicate MERGED_QUEUE_DEPTH \<lparr>ms_slot_idx = 0, ms_source = Primary\<rparr>)"
  let ?fm = "FeedMerger_new (ZeroCopyRing_new True) (ZeroCopyRing_new False) ?q FeedStats_init 50"
  note q = spsc_new[OF depth_pow2(1)[folded MERGED_QUEUE_DEPTH_def], of "\<lparr>ms_slot_idx = 0, ms_source = Primary\<rparr>"]
  have s: "slot (source_ring Primary ?fm) 0 = Inr PacketSlot_init"
    by (simp add: slot_def source_ring_def FeedMerger_new_def ZeroCopyRing_new_def elem_at_def slot_index_def
        PACKET_RING_DEPTH_def)
  have m: "merged_ok ?fm" "merged ?fm = []" "0 < spsc_cap (fm_merged_queue ?fm)" "window_ok (fm_dedup ?fm)"
    using q window_ok_new(1) by (simp_all add: merged_ok_def merged_def FeedMerger_new_def itch_constants)
  have p: "peek_sequence PacketSlot_init = 0" by (simp add: peek_sequence_def PacketSlot_init_def)
  then have "\<not> data_packet PacketSlot_init" by (simp add: data_packet_def)
  then show ?thesis
    using live_slot_forwarding[OF _ s m(1) _ m(4), of 9] m(2,3) p by auto
qed

text \<open>
  Recovered packets come first: while one waits, an iteration hands on the oldest
  of them and touches neither live ring, nor the window, nor the failover state.
\<close>

theorem recovery_has_priority:
  assumes "spsc_wf (zr_recovery_queue (fm_primary_ring fm))"
    and "contents (zr_recovery_queue (fm_primary_ring fm)) = idx # rest"
    and "merged_ok fm" "length (merged fm) < spsc_cap (fm_merged_queue fm)"
  shows "\<exists>fm'. merger_iteration now_slot now_check fm = Inr fm' \<and>
    merged fm' = merged fm @ [\<lparr>ms_slot_idx = idx, ms_source = Recovery\<rparr>] \<and>
    contents (zr_recovery_queue (fm_primary_ring fm')) = rest \<and>
    zr_queue (fm_primary_ring fm') = zr_queue (fm_primary_ring fm) \<and>
    fm_secondary_ring fm' = fm_secondary_ring fm \<and> fm_dedup fm' = fm_dedup fm \<and>
    fm_failed_over fm' = fm_failed_over fm"
proof -
  let ?q = "zr_recovery_queue (fm_primary_ring fm)"
  let ?fm0 = "fm\<lparr>fm_primary_ring := (fm_primary_ring fm)\<lparr>zr_recovery_queue := snd (try_pop ?q)\<rparr>\<rparr>"
  have it: "merger_iteration now_slot now_check fm = Inr (forward \<lparr>ms_slot_idx = idx, ms_source = Recovery\<rparr> ?fm0)"
    using spsc.pop_result[OF assms(1)] assms(2)
    by (simp add: merger_iteration_def consume_recovered_def case_prod_beta)
  have room: "merged_ok ?fm0" "length (merged ?fm0) < spsc_cap (fm_merged_queue ?fm0)" "merged ?fm0 = merged fm"
    using assms(3,4) by (simp_all add: merged_ok_def merged_def)
  show ?thesis
    unfolding it using forward_room[OF room(1,2)] room(3) spsc.pop_items[OF assms(1)] assms(2) by simp
qed

theorem recovery_has_priority_witness:
  "\<exists>fm fm'. merger_iteration 0 0 fm = Inr fm' \<and> merged fm' = [\<lparr>ms_slot_idx = 3, ms_source = Recovery\<rparr>]"
proof -
  let ?ms = "\<lparr>ms_slot_idx = 0, ms_source = Primary\<rparr>"
  let ?q = "SpscQueue_new (replicate MERGED_QUEUE_DEPTH ?ms)"
  let ?r = "SpscQueue_new (replicate RECOVERY_RING_DEPTH (0 :: u16))"
  let ?ring = "(ZeroCopyRing_new False)\<lparr>zr_recovery_queue := snd (try_push 3 ?r)\<rparr>"
  let ?fm = "FeedMerger_new ?ring (ZeroCopyRing_new False) ?q FeedStats_init 50"
  note q = spsc_new[OF depth_pow2(1)[folded MERGED_QUEUE_DEPTH_def], of ?ms]
  note r = spsc_new[OF depth_pow2(2), of "0 :: u16"]
  have m: "merged_ok ?fm" "merged ?fm = []" "0 < spsc_cap (fm_merged_queue ?fm)"
    using q by (simp_all add: merged_ok_def merged_def FeedMerger_new_def itch_constants)
  have "fst (try_push 3 ?r)" using spsc.push_accepts[OF r(1)] r(2,3) by (simp add: RECOVERY_RING_DEPTH_def)
  then have "spsc_wf (zr_recovery_queue (fm_primary_ring ?fm))" "contents (zr_recovery_queue (fm_primary_ring ?fm)) = [3]"
    using spsc.push_wf[OF r(1), of 3] spsc.push_items[OF r(1), of 3] r(2) by (simp_all add: FeedMerger_new_def)
  from recovery_has_priority[OF this m(1), of 0 0] show ?thesis using m(2,3) by auto
qed

lemma primary_slot_ends_failover:
  assumes "handle_live_slot t idx Primary fm = Inr fm'"
  shows "\<not> fm_failed_over fm'"
proof -
  obtain s where "slot (fm_primary_ring fm) idx = Inr s"
    using assms by (auto simp: handle_live_slot_def)
  with assms show ?thesis
    by (cases "check_and_mark (peek_sequence s) (fm_dedup fm)")
      (auto simp: handle_live_slot_def Let_def simp del: andthen_eq_Inr split: if_splits)
qed

text \<open>
  The failover state follows the primary feed: a check declares the primary lost
  exactly when nothing has come from it for longer than the timeout, counts that once, and the
  next slot of the primary feed ends it.
\<close>

theorem failover_follows_primary:
  assumes "0 < fm_primary_last_ts fm"
  shows "(fm_failed_over (check_failover now fm) \<longleftrightarrow>
      fm_failed_over fm \<or> fm_failover_timeout_ns fm < now - fm_primary_last_ts fm) \<and>
    fs_feed_failover_count (fm_stats (check_failover now fm)) = fs_feed_failover_count (fm_stats fm) +
      (if \<not> fm_failed_over fm \<and> fm_failover_timeout_ns fm < now - fm_primary_last_ts fm then 1 else 0) \<and>
    (handle_live_slot t idx Primary fm = Inr fm' \<longrightarrow> \<not> fm_failed_over fm')"
  using assms primary_slot_ends_failover[of t idx fm fm'] by (simp add: check_failover_def)

theorem failover_follows_primary_witness:
  "fm_failed_over (check_failover 900000001
     ((FeedMerger_new (ZeroCopyRing_new True) (ZeroCopyRing_new True) (SpscQueue_new []) FeedStats_init 50)
        \<lparr>fm_primary_last_ts := 1\<rparr>))"
  using failover_follows_primary[of "(FeedMerger_new (ZeroCopyRing_new True) (ZeroCopyRing_new True)
      (SpscQueue_new []) FeedStats_init 50)\<lparr>fm_primary_last_ts := 1\<rparr>" 900000001]
  by (simp add: FeedMerger_new_def)

text \<open>
  Property C39. A packet without messages (message count 0) is handled as data, not as a heartbeat,
  and marks its sequence number as seen. The packet that then brings the messages from this
  number on, which is what an exchange sends after such a packet, is taken for its duplicate:
  it is counted as one and never reaches the parser.
\<close>

theorem empty_packet_hides_data:
  assumes "slot (fm_primary_ring fm) i = Inr e" "slot (fm_primary_ring fm) j = Inr s" "peek_msg_count e = 0"
    "data_packet s" "peek_sequence e = peek_sequence s" "unat (peek_sequence s) + 64 < 2 ^ 64"
    "window_ok (fm_dedup fm)" "unat (dw_base (fm_dedup fm)) \<le> unat (peek_sequence s)" "unat (peek_sequence s) \<notin> seen (fm_dedup fm)"
    "merged_ok fm" "Suc (length (merged fm)) < spsc_cap (fm_merged_queue fm)"
  shows "\<exists>fm1 fm2. handle_live_slot t1 i Primary fm = Inr fm1 \<and> handle_live_slot t2 j Primary fm1 = Inr fm2 \<and>
    merged fm1 = merged fm @ [\<lparr>ms_slot_idx = i, ms_source = Primary\<rparr>] \<and> merged fm2 = merged fm1 \<and>
    fs_dedup_drops (fm_stats fm2) = fs_dedup_drops (fm_stats fm) + 1"
proof -
  let ?seq = "peek_sequence s"
  have e: "data_packet e" using assms(3-5) by (simp add: data_packet_def MOLDUDP64_HEARTBEAT_def)
  obtain w where w: "check_and_mark ?seq (fm_dedup fm) = Inr (True, w)" "window_ok w" "unat ?seq \<in> seen w"
    "unat (dw_base w) \<le> unat ?seq"
    using check_and_mark_new[OF assms(7,8,6)] assms(8,9) by auto
  have "length (merged fm) < spsc_cap (fm_merged_queue fm)" "source_ring Primary fm = fm_primary_ring fm"
    using assms(11) by (simp_all add: source_ring_def)
  with live_slot_cases[of Primary fm i e t1] assms(1,5,6,7,10) e w(1)
  obtain fm1 where f1: "handle_live_slot t1 i Primary fm = Inr fm1" "merged_ok fm1" "fm_dedup fm1 = w"
    "merged fm1 = merged fm @ [\<lparr>ms_slot_idx = i, ms_source = Primary\<rparr>]"
    "fs_dedup_drops (fm_stats fm1) = fs_dedup_drops (fm_stats fm)"
    by auto
  have keep: "fm_primary_ring fm1 = fm_primary_ring fm" "spsc_cap (fm_merged_queue fm1) = spsc_cap (fm_merged_queue fm)"
    using f1(1) assms(1,5) e w(1) assms(10)
    by (auto simp: handle_live_slot_def data_packet_def forward_def case_prod_beta merged_ok_def spsc.push_wf Let_def)
  obtain v where v: "check_and_mark ?seq w = Inr (False, v)"
    using check_and_mark_new[OF w(2,4) assms(6)] w(3) by auto
  have "slot (source_ring Primary fm1) j = Inr s" "length (merged fm1) < spsc_cap (fm_merged_queue fm1)"
    using assms(2,11) keep f1(4) by (simp_all add: source_ring_def)
  with live_slot_cases[of Primary fm1 j s t2] f1(2,3) w(2) assms(4,6) v
  obtain fm2 where "handle_live_slot t2 j Primary fm1 = Inr fm2" "merged fm2 = merged fm1"
    "fs_dedup_drops (fm_stats fm2) = fs_dedup_drops (fm_stats fm1) + 1"
    by auto
  then show ?thesis using f1 by auto
qed

text \<open>A ring with an empty packet and a packet with one message under the same number.\<close>

definition packet_slot :: "u16 \<Rightarrow> PacketSlot" where
  "packet_slot count = PacketSlot_init\<lparr>ps_length := 20, ps_data := replicate 10 0x31 @ enc_be 8 (5 :: u64) @ enc_be 2 count\<rparr>"

lemma packet_slot_peek: "peek_sequence (packet_slot n) = 5" "peek_msg_count (packet_slot n) = n"
proof -
  let ?bs = "replicate 10 0x31 @ enc_be 8 (5 :: u64) @ enc_be 2 n"
  have d: "slot_mem (packet_slot n) = (\<lambda>i. if i < length ?bs then ?bs ! i else 0)"
    by (simp add: fun_eq_iff slot_mem_def packet_slot_def)
  have "holds_at (slot_mem (packet_slot n)) 0 ?bs" unfolding d by (simp add: holds_at_def)
  then have "holds_at (slot_mem (packet_slot n)) 10 (enc_be 8 (5 :: u64))" "holds_at (slot_mem (packet_slot n)) 18 (enc_be 2 n)"
    by (simp_all add: holds_at_append)
  then show "peek_sequence (packet_slot n) = 5" "peek_msg_count (packet_slot n) = n"
    by (simp_all add: peek_sequence_def peek_msg_count_def be64_enc be16_enc packet_slot_def)
qed

theorem empty_packet_hides_data_witness:
  "\<exists>fm fm1 fm2. handle_live_slot 0 0 Primary fm = Inr fm1 \<and> handle_live_slot 0 1 Primary fm1 = Inr fm2 \<and> length (merged fm2) = 1"
proof -
  let ?ms = "\<lparr>ms_slot_idx = 0, ms_source = Primary\<rparr>"
  let ?ring = "(ZeroCopyRing_new True)\<lparr>zr_buffer := (replicate PACKET_RING_DEPTH PacketSlot_init)[0 := packet_slot 0, 1 := packet_slot 1]\<rparr>"
  let ?fm = "FeedMerger_new ?ring (ZeroCopyRing_new False) (SpscQueue_new (replicate MERGED_QUEUE_DEPTH ?ms)) FeedStats_init 50"
  note q = spsc_new[OF depth_pow2(1)[folded MERGED_QUEUE_DEPTH_def], of ?ms]
  have idx: "slot_index 0 = 0" "slot_index 1 = 1"
    using slot_index_of_nat[of 0] slot_index_of_nat[of 1] by (simp_all add: PACKET_RING_DEPTH_def)
  have s: "slot (fm_primary_ring ?fm) 0 = Inr (packet_slot 0)" "slot (fm_primary_ring ?fm) 1 = Inr (packet_slot 1)"
    using idx by (simp_all add: slot_def elem_at_def FeedMerger_new_def PACKET_RING_DEPTH_def)
  have w: "window_ok (fm_dedup ?fm)" "dw_base (fm_dedup ?fm) = 0" "seen (fm_dedup ?fm) = {}"
    using window_ok_new by (simp_all add: FeedMerger_new_def DedupWindow_new_def)
  have m: "merged_ok ?fm" "merged ?fm = []" "Suc 0 < spsc_cap (fm_merged_queue ?fm)"
    using q by (simp_all add: merged_ok_def merged_def FeedMerger_new_def itch_constants)
  have d: "data_packet (packet_slot 1)" by (simp add: data_packet_def packet_slot_peek MOLDUDP64_HEARTBEAT_def)
  have "peek_sequence (packet_slot 0) = peek_sequence (packet_slot 1)" "unat (peek_sequence (packet_slot 1)) + 64 < 2 ^ 64"
    by (simp_all add: packet_slot_peek)
  from empty_packet_hides_data[OF s packet_slot_peek(2) d this w(1), of 0 0] w m
  obtain fm1 fm2 where "handle_live_slot 0 0 Primary ?fm = Inr fm1" "handle_live_slot 0 1 Primary fm1 = Inr fm2" "length (merged fm2) = 1"
    by auto
  then show ?thesis by blast
qed

end
