(* ===== verification/Host_Bytes.thy ===== *)
theory Host_Bytes
  imports Itch_Prelude
begin

text \<open>
  Integers as the program writes them to files: the bytes of the host, least significant first
  (the supported platforms are little-endian).
\<close>

definition le_bytes :: "nat \<Rightarrow> 'a::len word \<Rightarrow> u8 list" where
  "le_bytes n x = map (\<lambda>i. ucast (drop_bit (8 * i) x)) [0..<n]"

primrec le_word :: "u8 list \<Rightarrow> 'a::len word" where
  "le_word [] = 0"
| "le_word (b # bs) = ucast b OR push_bit 8 (le_word bs)"

lemma length_le_bytes [simp]: "length (le_bytes n x) = n"
  by (simp add: le_bytes_def)

lemma bit_le_word:
  "bit (le_word bs :: 'a::len word) i \<longleftrightarrow>
    i < LENGTH('a) \<and> i div 8 < length bs \<and> bit (bs ! (i div 8)) (i mod 8)"
proof (induction bs arbitrary: i)
  case Nil
  then show ?case by simp
next
  case (Cons b bs)
  have b: "bit b i \<Longrightarrow> i < 8" using bit_imp_le_length[of b i] by simp
  show ?case
  proof (cases "i < 8")
    case True
    then show ?thesis by (auto simp: bit_or_iff bit_push_bit_iff bit_unsigned_iff)
  next
    case False
    then have "i div 8 = Suc ((i - 8) div 8)" "i mod 8 = (i - 8) mod 8"
      by (simp_all add: le_div_geq le_mod_geq)
    then show ?thesis using False b Cons[of "i - 8"] by (auto simp: bit_or_iff bit_push_bit_iff bit_unsigned_iff)
  qed
qed

text \<open>Reading back what was written.\<close>

lemma le_word_bytes [simp]:
  assumes "LENGTH('a) \<le> 8 * n"
  shows "le_word (le_bytes n (x :: 'a::len word)) = x"
proof (rule bit_word_eqI)
  fix i assume i: "i < LENGTH('a)"
  then have "i div 8 < n" using assms by (simp add: less_mult_imp_div_less mult.commute)
  then show "bit (le_word (le_bytes n x) :: 'a word) i = bit x i"
    using i by (simp add: bit_le_word le_bytes_def bit_unsigned_iff bit_drop_bit_eq)
qed

end
