(* ===== verification/Persistent_Sequence.thy ===== *)
theory Persistent_Sequence
  imports Host_Bytes Spsc_Queue "HOL-Library.Sublist"
begin

text \<open>
  The durable record of the last sequence number, \<^verbatim>\<open>src/recovery/persistent_sequence.cpp\<close>.

  The disk is the content of the state file and of the temporary file beside it; what the
  system calls return is an argument (\<open>SaveCalls\<close>). \<open>save_trace\<close> lists the disk after each
  call that changes it, so that a process that dies in between is covered.
\<close>

section \<open>Records and files\<close>

record LoadedSeq =
  ld_seq :: u64
  ld_session :: "u8 list"

definition LoadedSeq_init :: LoadedSeq where
  "LoadedSeq_init = \<lparr>ld_seq = 0, ld_session = replicate 10 0\<rparr>"

record SeqRecord =
  qr_seq :: u64
  qr_session :: "u8 list"
  qr_pad :: "u8 list"

record Disk =
  dk_path :: "u8 list option"
  dk_tmp :: "u8 list option"

text \<open>\<^verbatim>\<open>"ITCS"\<close>.\<close>

definition persist_magic :: "u8 list" where "persist_magic = [0x49, 0x54, 0x43, 0x53]"

definition PersistRecord_bytes :: "u64 \<Rightarrow> u8 list \<Rightarrow> u8 list" where
  "PersistRecord_bytes seq session_10 =
    persist_magic @ take 10 session_10 @ le_bytes 2 (1 :: u16) @ le_bytes 8 seq"

text \<open>The argument is what \<^verbatim>\<open>open\<close> and \<^verbatim>\<open>read\<close> gave: no file, or the bytes read.\<close>

definition load :: "u8 list option \<Rightarrow> LoadedSeq" where
  "load file =
    (case file of None \<Rightarrow> LoadedSeq_init
     | Some rec \<Rightarrow>
         if length rec \<noteq> 24 then LoadedSeq_init
         else if take 4 rec \<noteq> persist_magic then LoadedSeq_init
         else \<lparr>ld_seq = le_word (drop 16 rec), ld_session = take 10 (drop 4 rec)\<rparr>)"

definition read_file :: "Disk \<Rightarrow> u8 list option" where
  "read_file d = map_option (take 24) (dk_path d)"

record SaveCalls =
  sv_open :: bool
  sv_written :: int
  sv_rename :: bool

definition save_trace :: "SaveCalls \<Rightarrow> u64 \<Rightarrow> u8 list \<Rightarrow> Disk \<Rightarrow> Disk list" where
  "save_trace k seq session_10 d =
    (let rec = PersistRecord_bytes seq session_10;
         opened = d\<lparr>dk_tmp := Some []\<rparr>;
         written = d\<lparr>dk_tmp := Some (take (nat (sv_written k)) rec)\<rparr> in
     if \<not> sv_open k then []
     else if sv_written k \<noteq> int (length rec) then [opened, written]
     else if \<not> sv_rename k then [opened, written]
     else [opened, written, \<lparr>dk_path = dk_tmp written, dk_tmp = None\<rparr>])"

definition save_sync :: "SaveCalls \<Rightarrow> u64 \<Rightarrow> u8 list \<Rightarrow> Disk \<Rightarrow> Disk" where
  "save_sync k seq session_10 d = last (d # save_trace k seq session_10 d)"

section \<open>Queue and writer\<close>

record PersistentSequence =
  ps_queue :: "SeqRecord SpscQueue"
  ps_disk :: Disk

definition SeqRecord_init :: SeqRecord where
  "SeqRecord_init = \<lparr>qr_seq = 0, qr_session = replicate 10 0, qr_pad = replicate 6 0\<rparr>"

definition PersistentSequence_new :: "Disk \<Rightarrow> PersistentSequence" where
  "PersistentSequence_new d = \<lparr>ps_queue = SpscQueue_new (replicate 2 SeqRecord_init), ps_disk = d\<rparr>"

definition enqueue :: "u64 \<Rightarrow> u8 list \<Rightarrow> PersistentSequence \<Rightarrow> PersistentSequence" where
  "enqueue seq session_10 ps =
    ps\<lparr>ps_queue := snd (try_push (SeqRecord_init\<lparr>qr_seq := seq, qr_session := take 10 session_10\<rparr>) (ps_queue ps))\<rparr>"

text \<open>
  One \<^verbatim>\<open>try_pop\<close> with its \<^verbatim>\<open>save_sync\<close>. The writer's \<^verbatim>\<open>run\<close> repeats it, in the inner loop as in
  the outer one, and \<^verbatim>\<open>stop\<close> does it once more after the thread has ended.
\<close>

definition pop_and_save :: "SaveCalls \<Rightarrow> PersistentSequence \<Rightarrow> PersistentSequence" where
  "pop_and_save k ps =
    (case try_pop (ps_queue ps) of
       (None, q) \<Rightarrow> ps\<lparr>ps_queue := q\<rparr>
     | (Some r, q) \<Rightarrow> \<lparr>ps_queue = q, ps_disk = save_sync k (qr_seq r) (qr_session r) (ps_disk ps)\<rparr>)"

definition persist_stop :: "bool \<Rightarrow> SaveCalls \<Rightarrow> PersistentSequence \<Rightarrow> PersistentSequence" where
  "persist_stop running k ps = (if \<not> running then ps else pop_and_save k ps)"

text \<open>The parser's calls and the writer's iterations in the order they happen.\<close>

datatype PersistEvent = Enqueue u64 "u8 list" | Write SaveCalls

primrec persist_event :: "PersistEvent \<Rightarrow> PersistentSequence \<Rightarrow> PersistentSequence" where
  "persist_event (Enqueue seq session_10) = enqueue seq session_10"
| "persist_event (Write k) = pop_and_save k"

definition persist_run :: "PersistEvent list \<Rightarrow> PersistentSequence \<Rightarrow> PersistentSequence" where
  "persist_run evs ps = fold persist_event evs ps"

section \<open>Round trip\<close>

lemma length_record [simp]: "length s = 10 \<Longrightarrow> length (PersistRecord_bytes seq s) = 24"
  by (simp add: PersistRecord_bytes_def persist_magic_def)

lemma load_record:
  assumes "length s = 10"
  shows "load (Some (PersistRecord_bytes seq s)) = \<lparr>ld_seq = seq, ld_session = s\<rparr>"
  using assms by (simp add: load_def) (simp add: PersistRecord_bytes_def persist_magic_def)

definition save_ok :: "SaveCalls \<Rightarrow> bool" where
  "save_ok k \<longleftrightarrow> sv_open k \<and> sv_written k = 24 \<and> sv_rename k"

lemma load_save_sync:
  assumes "length s = 10"
  shows "load (read_file (save_sync k seq s d)) =
    (if save_ok k then \<lparr>ld_seq = seq, ld_session = s\<rparr> else load (read_file d))"
  using load_record[OF assms, of seq] assms
  by (simp add: save_sync_def save_trace_def save_ok_def Let_def read_file_def)

lemma load_save_trace:
  assumes "length s = 10" "d' \<in> set (save_trace k seq s d)"
  shows "load (read_file d') = load (read_file d) \<or> load (read_file d') = \<lparr>ld_seq = seq, ld_session = s\<rparr>"
  using assms load_record[OF assms(1), of seq]
  by (auto simp: save_trace_def Let_def read_file_def split: if_splits)

text \<open>A save leaves the state file as it was or with the whole record.\<close>

lemma save_sync_path:
  assumes "length s = 10"
  shows "dk_path (save_sync k seq s d) = dk_path d \<or> dk_path (save_sync k seq s d) = Some (PersistRecord_bytes seq s)"
  using assms by (simp add: save_sync_def save_trace_def Let_def)

section \<open>Runs\<close>

definition persist_ok :: "PersistentSequence \<Rightarrow> bool" where
  "persist_ok ps \<longleftrightarrow> spsc_wf (ps_queue ps) \<and> (\<forall>r \<in> set (contents (ps_queue ps)). length (qr_session r) = 10)"

definition loaded_of :: "SeqRecord \<Rightarrow> LoadedSeq" where
  "loaded_of r = \<lparr>ld_seq = qr_seq r, ld_session = qr_session r\<rparr>"

definition queued :: "PersistEvent \<Rightarrow> SeqRecord list" where
  "queued e = (case e of Enqueue seq s \<Rightarrow> [SeqRecord_init\<lparr>qr_seq := seq, qr_session := s\<rparr>] | Write k \<Rightarrow> [])"

text \<open>The records an event saves, and the disks a run goes through.\<close>

definition saved :: "PersistEvent \<Rightarrow> PersistentSequence \<Rightarrow> SeqRecord list" where
  "saved e ps = (case e of Enqueue seq s \<Rightarrow> []
     | Write k \<Rightarrow> if save_ok k then take 1 (contents (ps_queue ps)) else [])"

fun persist_log :: "PersistEvent list \<Rightarrow> PersistentSequence \<Rightarrow> SeqRecord list" where
  "persist_log [] ps = []"
| "persist_log (e # es) ps = saved e ps @ persist_log es (persist_event e ps)"

definition event_disks :: "PersistEvent \<Rightarrow> PersistentSequence \<Rightarrow> Disk list" where
  "event_disks e ps = (case e of Enqueue seq s \<Rightarrow> []
     | Write k \<Rightarrow> (case contents (ps_queue ps) of [] \<Rightarrow> []
         | r # _ \<Rightarrow> save_trace k (qr_seq r) (qr_session r) (ps_disk ps)))"

fun persist_disks :: "PersistEvent list \<Rightarrow> PersistentSequence \<Rightarrow> Disk list" where
  "persist_disks [] ps = [ps_disk ps]"
| "persist_disks (e # es) ps = ps_disk ps # event_disks e ps @ persist_disks es (persist_event e ps)"

definition event_ok :: "PersistEvent \<Rightarrow> bool" where
  "event_ok e = (case e of Enqueue seq s \<Rightarrow> length s = 10 | Write k \<Rightarrow> True)"

lemma subseq_set: "subseq xs ys \<Longrightarrow> set xs \<subseteq> set ys"
  by (induction rule: list_emb.induct) auto

lemma pop_and_save_empty:
  assumes "spsc_wf (ps_queue ps)" "contents (ps_queue ps) = []"
  shows "ps_disk (pop_and_save k ps) = ps_disk ps" "contents (ps_queue (pop_and_save k ps)) = []"
    "spsc_wf (ps_queue (pop_and_save k ps))"
  using spsc.pop_result[OF assms(1)] spsc.pop_items[OF assms(1)] spsc.pop_wf[OF assms(1)] assms(2)
  by (auto simp: pop_and_save_def split: prod.splits option.splits)

lemma pop_and_save_Cons:
  assumes "spsc_wf (ps_queue ps)" "contents (ps_queue ps) = r # rs"
  shows "ps_disk (pop_and_save k ps) = save_sync k (qr_seq r) (qr_session r) (ps_disk ps)"
    "contents (ps_queue (pop_and_save k ps)) = rs" "spsc_wf (ps_queue (pop_and_save k ps))"
  using spsc.pop_result[OF assms(1)] spsc.pop_items[OF assms(1)] spsc.pop_wf[OF assms(1)] assms(2)
  by (auto simp: pop_and_save_def split: prod.splits option.splits)

lemma enqueue_items:
  assumes "spsc_wf (ps_queue ps)" "length s = 10"
  shows "ps_disk (enqueue seq s ps) = ps_disk ps" "spsc_wf (ps_queue (enqueue seq s ps))"
    "contents (ps_queue (enqueue seq s ps)) \<in>
       {contents (ps_queue ps), contents (ps_queue ps) @ queued (Enqueue seq s)}"
  using spsc.push_items[OF assms(1)] spsc.push_wf[OF assms(1)] assms(2)
  by (auto simp: enqueue_def queued_def)

text \<open>What one write of the writer leaves in the state file.\<close>

lemma pop_and_save_path:
  assumes "persist_ok ps"
  shows "dk_path (ps_disk (pop_and_save k ps)) = dk_path (ps_disk ps) \<or>
    (\<exists>r \<in> set (contents (ps_queue ps)). length (qr_session r) = 10 \<and>
       dk_path (ps_disk (pop_and_save k ps)) = Some (PersistRecord_bytes (qr_seq r) (qr_session r)))"
proof (cases "contents (ps_queue ps)")
  case Nil
  then show ?thesis using assms pop_and_save_empty(1) by (simp add: persist_ok_def)
next
  case (Cons r rs)
  then have "ps_disk (pop_and_save k ps) = save_sync k (qr_seq r) (qr_session r) (ps_disk ps)" "length (qr_session r) = 10"
    using assms pop_and_save_Cons(1) by (auto simp: persist_ok_def)
  then show ?thesis using save_sync_path Cons by (metis list.set_intros(1))
qed

text \<open>One event: what is saved comes first in the queue, what is queued comes last or is dropped.\<close>

lemma persist_event_spec:
  assumes "persist_ok ps" "event_ok e"
  defines "ps' \<equiv> persist_event e ps"
  shows "persist_ok ps'"
    "subseq (saved e ps @ contents (ps_queue ps')) (contents (ps_queue ps) @ queued e)"
    "load (read_file (ps_disk ps')) = last (load (read_file (ps_disk ps)) # map loaded_of (saved e ps))"
    "d \<in> set (event_disks e ps) \<Longrightarrow> load (read_file d) = load (read_file (ps_disk ps)) \<or>
       load (read_file d) \<in> loaded_of ` set (contents (ps_queue ps))"
proof -
  have wf: "spsc_wf (ps_queue ps)" and len: "\<And>r. r \<in> set (contents (ps_queue ps)) \<Longrightarrow> length (qr_session r) = 10"
    using assms(1) by (auto simp: persist_ok_def)
  have "persist_ok ps' \<and> subseq (saved e ps @ contents (ps_queue ps')) (contents (ps_queue ps) @ queued e) \<and>
    load (read_file (ps_disk ps')) = last (load (read_file (ps_disk ps)) # map loaded_of (saved e ps)) \<and>
    (\<forall>d \<in> set (event_disks e ps). load (read_file d) = load (read_file (ps_disk ps)) \<or>
       load (read_file d) \<in> loaded_of ` set (contents (ps_queue ps)))"
  proof (cases e)
    case (Enqueue seq s)
    have s: "length s = 10" using assms(2) Enqueue by (simp add: event_ok_def)
    note q = enqueue_items[OF wf s, of seq]
    then show ?thesis using len s Enqueue
      by (auto simp: ps'_def saved_def event_disks_def persist_ok_def queued_def)
  next
    case (Write k)
    show ?thesis
    proof (cases "contents (ps_queue ps)")
      case Nil
      then show ?thesis using pop_and_save_empty[OF wf Nil, of k] Write
        by (simp add: ps'_def saved_def event_disks_def persist_ok_def)
    next
      case (Cons r rs)
      have r: "length (qr_session r) = 10" using len Cons by simp
      note p = pop_and_save_Cons[OF wf Cons, of k]
      have "subseq rs (r # rs)" by (simp add: list_emb_Cons)
      then show ?thesis
        using p len Cons Write load_save_sync[OF r, of k "qr_seq r" "ps_disk ps"]
          load_save_trace[OF r, of _ k "qr_seq r" "ps_disk ps"]
        by (auto simp: ps'_def saved_def event_disks_def persist_ok_def queued_def loaded_of_def)
    qed
  qed
  then show "persist_ok ps'"
    "subseq (saved e ps @ contents (ps_queue ps')) (contents (ps_queue ps) @ queued e)"
    "load (read_file (ps_disk ps')) = last (load (read_file (ps_disk ps)) # map loaded_of (saved e ps))"
    "d \<in> set (event_disks e ps) \<Longrightarrow> load (read_file d) = load (read_file (ps_disk ps)) \<or>
       load (read_file d) \<in> loaded_of ` set (contents (ps_queue ps))"
    by blast+
qed

lemma persist_run_Cons [simp]: "persist_run (e # es) ps = persist_run es (persist_event e ps)"
  by (simp add: persist_run_def)

lemma persist_run_Nil [simp]: "persist_run [] ps = ps"
  by (simp add: persist_run_def)

lemma persist_run_spec:
  assumes "persist_ok ps" "\<forall>e \<in> set evs. event_ok e"
  shows "persist_ok (persist_run evs ps) \<and>
    load (read_file (ps_disk (persist_run evs ps))) =
      last (load (read_file (ps_disk ps)) # map loaded_of (persist_log evs ps)) \<and>
    subseq (persist_log evs ps @ contents (ps_queue (persist_run evs ps)))
      (contents (ps_queue ps) @ concat (map queued evs))"
  using assms
proof (induction evs arbitrary: ps)
  case Nil
  then show ?case by simp
next
  case (Cons e es)
  let ?ps = "persist_event e ps"
  have e: "event_ok e" and es: "\<forall>e \<in> set es. event_ok e" using Cons.prems(2) by simp_all
  note s = persist_event_spec[OF Cons.prems(1) e]
  note ih = Cons.IH[OF s(1) es]
  have "subseq (saved e ps @ persist_log es ?ps @ contents (ps_queue (persist_run es ?ps)))
      (saved e ps @ contents (ps_queue ?ps) @ concat (map queued es))"
    using ih by (simp add: subseq_append')
  moreover have "subseq (saved e ps @ contents (ps_queue ?ps) @ concat (map queued es))
      (contents (ps_queue ps) @ queued e @ concat (map queued es))"
    using list_emb_append_mono[OF s(2), of "concat (map queued es)" "concat (map queued es)"] by simp
  ultimately have "subseq (saved e ps @ persist_log es ?ps @ contents (ps_queue (persist_run es ?ps)))
      (contents (ps_queue ps) @ queued e @ concat (map queued es))"
    using subseq_order.order_trans by blast
  then show ?case using ih s(3) by (auto simp: last_append)
qed

lemma persist_disks_spec:
  assumes "persist_ok ps" "\<forall>e \<in> set evs. event_ok e" "d \<in> set (persist_disks evs ps)"
  shows "load (read_file d) = load (read_file (ps_disk ps)) \<or>
    load (read_file d) \<in> loaded_of ` set (contents (ps_queue ps) @ concat (map queued evs))"
  using assms
proof (induction evs arbitrary: ps)
  case Nil
  then show ?case by simp
next
  case (Cons e es)
  let ?ps = "persist_event e ps"
  have e: "event_ok e" and es: "\<forall>e \<in> set es. event_ok e" using Cons.prems(2) by simp_all
  note s = persist_event_spec[OF Cons.prems(1) e]
  have sub: "set (saved e ps) \<union> set (contents (ps_queue ?ps)) \<subseteq> set (contents (ps_queue ps)) \<union> set (queued e)"
    using subseq_set[OF s(2)] by auto
  consider "d = ps_disk ps" | "d \<in> set (event_disks e ps)" | "d \<in> set (persist_disks es ?ps)"
    using Cons.prems(3) by auto
  then show ?case
  proof cases
    case 3
    from Cons.IH[OF s(1) es 3] s(3) sub show ?thesis
      by (cases "saved e ps" rule: rev_cases) (auto simp: last_map)
  qed (use s(4) in auto)
qed

section \<open>Properties\<close>

text \<open>
  Property C28. Whatever the system calls return and however the parser's calls and the writer's
  interleave, the saved records are the queued ones in their order, less those dropped on a full
  queue or by a failed call, and the state file loads as the last record saved. Also in between
  two system calls of a save the file loads as one of the queued records (or as what it held
  before): never as a mixture.
\<close>

theorem persist_roundtrip:
  assumes "persist_ok ps" "\<forall>e \<in> set evs. event_ok e"
  shows "load (read_file (ps_disk (persist_run evs ps))) =
      last (load (read_file (ps_disk ps)) # map loaded_of (persist_log evs ps)) \<and>
    subseq (persist_log evs ps @ contents (ps_queue (persist_run evs ps)))
      (contents (ps_queue ps) @ concat (map queued evs)) \<and>
    (\<forall>d \<in> set (persist_disks evs ps). load (read_file d) = load (read_file (ps_disk ps)) \<or>
       load (read_file d) \<in> loaded_of ` set (contents (ps_queue ps) @ concat (map queued evs)))"
  using persist_run_spec[OF assms] persist_disks_spec[OF assms] by blast

lemma pow2_two: "pow2_length (replicate 2 x)"
  by (auto simp: pow2_length_def intro!: exI[of _ 1])

lemma persist_ok_new: "persist_ok (PersistentSequence_new d)" "contents (ps_queue (PersistentSequence_new d)) = []"
  using spsc_new[OF pow2_two, of SeqRecord_init] by (simp_all add: persist_ok_def PersistentSequence_new_def)

lemma enqueue_room:
  assumes "persist_ok ps" "length (contents (ps_queue ps)) < spsc_cap (ps_queue ps)" "length s = 10"
  shows "contents (ps_queue (enqueue seq s ps)) =
      contents (ps_queue ps) @ [SeqRecord_init\<lparr>qr_seq := seq, qr_session := s\<rparr>]"
    "persist_ok (enqueue seq s ps)" "spsc_cap (ps_queue (enqueue seq s ps)) = spsc_cap (ps_queue ps)"
proof -
  have wf: "spsc_wf (ps_queue ps)" using assms(1) by (simp add: persist_ok_def)
  note q = spsc.push_accepts[OF wf] spsc.push_items[OF wf] spsc.push_wf[OF wf]
  show "contents (ps_queue (enqueue seq s ps)) =
      contents (ps_queue ps) @ [SeqRecord_init\<lparr>qr_seq := seq, qr_session := s\<rparr>]"
    "persist_ok (enqueue seq s ps)" "spsc_cap (ps_queue (enqueue seq s ps)) = spsc_cap (ps_queue ps)"
    using q assms by (auto simp: enqueue_def persist_ok_def)
qed

text \<open>A new object with one record queued.\<close>

definition blank_disk :: Disk where "blank_disk = \<lparr>dk_path = None, dk_tmp = None\<rparr>"

lemma persist_one:
  fixes seq :: u64 and d :: Disk
  assumes "length s = 10"
  defines "ps \<equiv> enqueue seq s (PersistentSequence_new d)"
  shows "contents (ps_queue ps) = [SeqRecord_init\<lparr>qr_seq := seq, qr_session := s\<rparr>]"
    "persist_ok ps" "spsc_cap (ps_queue ps) = 2"
proof -
  have "spsc_cap (ps_queue (PersistentSequence_new d)) = 2"
    using spsc_new(3)[OF pow2_two] by (simp add: PersistentSequence_new_def)
  then show "contents (ps_queue ps) = [SeqRecord_init\<lparr>qr_seq := seq, qr_session := s\<rparr>]"
    "persist_ok ps" "spsc_cap (ps_queue ps) = 2"
    using enqueue_room[OF persist_ok_new(1), of d s seq] assms(1) persist_ok_new(2)[of d] by (simp_all add: ps_def)
qed

definition good_calls :: SaveCalls where
  "good_calls = \<lparr>sv_open = True, sv_written = 24, sv_rename = True\<rparr>"

theorem persist_roundtrip_witness:
  "load (read_file (ps_disk (persist_run [Enqueue 41 (replicate 10 0x31), Write good_calls]
     (PersistentSequence_new blank_disk)))) = \<lparr>ld_seq = 41, ld_session = replicate 10 0x31\<rparr>"
  using persist_roundtrip[OF persist_ok_new(1), of "[Enqueue 41 (replicate 10 0x31), Write good_calls]" blank_disk]
    persist_one(1)[of "replicate 10 0x31" 41 blank_disk]
  by (simp add: event_ok_def saved_def save_ok_def good_calls_def loaded_of_def)

text \<open>
  \<^verbatim>\<open>stop\<close> saves one record. When both slots of the queue are taken, the file is left
  with the older one and the last sequence number is lost.
\<close>

theorem stop_loses_newest:
  assumes "persist_ok ps" "contents (ps_queue ps) = [r1, r2]" "save_ok k"
  shows "load (read_file (ps_disk (persist_stop True k ps))) = loaded_of r1 \<and>
    contents (ps_queue (persist_stop True k ps)) = [r2]"
proof -
  have "length (qr_session r1) = 10" using assms(1,2) by (auto simp: persist_ok_def)
  then show ?thesis
    using pop_and_save_Cons[OF _ assms(2), of k] assms(1,3)
    by (simp add: persist_stop_def persist_ok_def load_save_sync loaded_of_def)
qed

theorem stop_loses_newest_witness:
  "ld_seq (load (read_file (ps_disk (persist_stop True good_calls (enqueue 8 (replicate 10 0x31)
     (enqueue 7 (replicate 10 0x31) (PersistentSequence_new blank_disk))))))) = 7"
proof -
  let ?s = "replicate 10 0x31 :: u8 list"
  let ?p1 = "enqueue 7 ?s (PersistentSequence_new blank_disk)"
  have s: "length ?s = 10" by simp
  note e1 = persist_one[OF s, of 7 blank_disk]
  have "contents (ps_queue (enqueue 8 ?s ?p1)) =
      [SeqRecord_init\<lparr>qr_seq := 7, qr_session := ?s\<rparr>, SeqRecord_init\<lparr>qr_seq := 8, qr_session := ?s\<rparr>]"
    "persist_ok (enqueue 8 ?s ?p1)"
    using enqueue_room(1,2)[OF e1(2), of ?s 8] e1 s by simp_all
  from stop_loses_newest[OF this(2,1), of good_calls] show ?thesis
    by (simp add: save_ok_def good_calls_def loaded_of_def)
qed

end
