(* ===== verification/Parser_Thread.thy ===== *)
theory Parser_Thread
  imports Session_Manager Itch_Parser Feed_Merger Persistent_Sequence Latency_Histogram
begin

text \<open>
  The parser thread, \<^verbatim>\<open>src/workers/parser_thread.cpp\<close>: from a merged slot to the queues of the
  shards, through the sequence tracker, the gap detector, the durable sequence record and the
  session manager. The counters of \<^verbatim>\<open>FeedStats\<close> are those the router holds too. The clock
  \<^verbatim>\<open>steady_ns()\<close> is an argument: \<open>now\<close> for the tracker, \<open>clock i\<close> for message \<open>i\<close> of the packet.
\<close>

section \<open>State\<close>

record ParserThread =
  pt_primary_ring :: ZeroCopyRing
  pt_secondary_ring :: ZeroCopyRing
  pt_merged_queue :: "MergedSlot SpscQueue"
  pt_ctx :: SessionContext
  pt_gap_detector :: GapDetector
  pt_persist_seq :: PersistentSequence
  pt_parse_lat :: LatencyHistogram
  pt_packet_count :: u32

definition MAX_MSGS_PER_PACKET :: int where "MAX_MSGS_PER_PACKET = 128"

text \<open>\<^verbatim>\<open>static_cast<uint8_t>(type)\<close>.\<close>

definition type_char :: "MessageType \<Rightarrow> u8" where
  "type_char t =
    (case t of SystemEvent \<Rightarrow> 0x53 | StockDirectory \<Rightarrow> 0x52 | StockTradingAction \<Rightarrow> 0x48 | RegSHO \<Rightarrow> 0x59
     | MarketParticipant \<Rightarrow> 0x4C | MWCBDecline \<Rightarrow> 0x56 | MWCBStatus \<Rightarrow> 0x57 | IPOQuotingPeriod \<Rightarrow> 0x4B
     | LULDAuctionCollar \<Rightarrow> 0x4A | OperationalHalt \<Rightarrow> 0x68 | AddOrder \<Rightarrow> 0x41 | AddOrderMPID \<Rightarrow> 0x46
     | OrderExecuted \<Rightarrow> 0x45 | OrderExecutedPrice \<Rightarrow> 0x43 | OrderCancel \<Rightarrow> 0x58 | OrderDelete \<Rightarrow> 0x44
     | OrderReplace \<Rightarrow> 0x55 | Trade \<Rightarrow> 0x50 | CrossTrade \<Rightarrow> 0x51 | BrokenTrade \<Rightarrow> 0x42 | NOII \<Rightarrow> 0x49
     | RPIIndicator \<Rightarrow> 0x4E | Unknown \<Rightarrow> 0x3F | InternalSessionReset \<Rightarrow> 0x01 | OtherType c \<Rightarrow> c)"

definition upd_stats :: "(FeedStats \<Rightarrow> FeedStats) \<Rightarrow> SessionContext \<Rightarrow> SessionContext" where
  "upd_stats f c = c\<lparr>sc_router := (sc_router c)\<lparr>sr_stats := f (sr_stats (sc_router c))\<rparr>\<rparr>"

section \<open>One packet\<close>

definition resolve :: "MergedSlot \<Rightarrow> ParserThread \<Rightarrow> PacketSlot outcome" where
  "resolve ms pt =
    (case ms_source ms of
       Primary \<Rightarrow> slot (pt_primary_ring pt) (ms_slot_idx ms)
     | Secondary \<Rightarrow> slot (pt_secondary_ring pt) (ms_slot_idx ms)
     | Recovery \<Rightarrow> Inr (recovery_slot (pt_primary_ring pt) (ms_slot_idx ms)))"

definition track_sequence :: "Timestamp \<Rightarrow> u64 \<Rightarrow> u8 list \<Rightarrow> ParserThread \<Rightarrow> ParserThread" where
  "track_sequence now seq session pt =
    (let (in_order, tr) = try_advance now (sc_tracker (pt_ctx pt)) seq;
         pt1 = pt\<lparr>pt_ctx := (pt_ctx pt)\<lparr>sc_tracker := tr\<rparr>\<rparr> in
     if in_order then
       pt1\<lparr>pt_persist_seq := enqueue seq session (pt_persist_seq pt1),
           pt_gap_detector := mark_recovered seq (pt_gap_detector pt1)\<rparr>
     else if 0 < st_gap_count tr then
       pt1\<lparr>pt_gap_detector := on_gap (last_gap tr) (pt_gap_detector pt1),
           pt_ctx := upd_stats (\<lambda>s. s\<lparr>fs_sequence_gaps := fs_sequence_gaps s + 1\<rparr>) (pt_ctx pt1)\<rparr>
     else
       pt1\<lparr>pt_ctx := upd_stats (\<lambda>s. s\<lparr>fs_sequence_dups := fs_sequence_dups s + 1\<rparr>) (pt_ctx pt1)\<rparr>)"

definition record_parse_latency :: "Timestamp \<Rightarrow> Timestamp \<Rightarrow> ParserThread \<Rightarrow> ParserThread outcome" where
  "record_parse_latency parse_ts recv_ts pt =
    (if 0 < recv_ts \<and> recv_ts \<le> parse_ts
     then andthen (record_latency (parse_ts - recv_ts) (pt_parse_lat pt)) (\<lambda>h. Inr (pt\<lparr>pt_parse_lat := h\<rparr>))
     else Inr pt)"

text \<open>The session manager before the router, then the counters.\<close>

definition route_msg :: "u8 list \<Rightarrow> ItchMsg \<Rightarrow> SessionContext \<Rightarrow> SessionContext" where
  "route_msg session msg c =
    (let c1 = (if im_type msg = SystemEvent then on_system_event msg session c else c);
         c2 = (if im_type msg = StockDirectory
               then c1\<lparr>sc_mgr := try_resolve_watched (im_locate msg) (sd_stock (im_stock_directory msg)) (sc_mgr c1)\<rparr>
               else c1);
         c3 = c2\<lparr>sc_router := snd (route msg (sc_router c2))\<rparr>
     in upd_stats (\<lambda>s. s\<lparr>fs_messages_parsed := fs_messages_parsed s + 1,
          fs_msg_type_count := bump (unat (type_char (im_type msg))) (fs_msg_type_count s)\<rparr>) c3)"

fun route_loop ::
  "(nat \<Rightarrow> Timestamp) \<Rightarrow> Timestamp \<Rightarrow> u8 list \<Rightarrow> nat \<Rightarrow> ItchMsg list \<Rightarrow> ParserThread \<Rightarrow> ParserThread outcome" where
  "route_loop clock recv_ts session i [] pt = Inr pt"
| "route_loop clock recv_ts session i (msg # msgs) pt =
    andthen (record_parse_latency (clock i) recv_ts pt) (\<lambda>pt1.
      route_loop clock recv_ts session (i + 1) msgs (pt1\<lparr>pt_ctx := route_msg session msg (pt_ctx pt1)\<rparr>))"

definition process_slot ::
  "Timestamp \<Rightarrow> (nat \<Rightarrow> Timestamp) \<Rightarrow> PacketSlot \<Rightarrow> ParserThread \<Rightarrow> ParserThread outcome" where
  "process_slot now clock s pt =
    (let mold = mold_parse (slot_mem s) 0 (unat (ps_length s)) in
     if \<not> pr_valid mold then Inr pt
     else if is_heartbeat (pr_header mold) then Inr pt
     else let seq = mh_sequence (pr_header mold); session = mh_session (pr_header mold);
              pt1 = track_sequence now seq session pt;
              msgs = itch_parse (slot_mem s) (ps_recv_ts s) mold MAX_MSGS_PER_PACKET
          in route_loop clock (ps_recv_ts s) session 0 msgs pt1)"

text \<open>
  One iteration of \<^verbatim>\<open>run\<close>. The yield under back-pressure changes no state; the result says
  whether it happens.
\<close>

definition parser_iteration ::
  "Timestamp \<Rightarrow> (nat \<Rightarrow> Timestamp) \<Rightarrow> ParserThread \<Rightarrow> (bool \<times> ParserThread) outcome" where
  "parser_iteration now clock pt =
    (case try_pop (pt_merged_queue pt) of
       (None, q) \<Rightarrow> Inr (False, pt\<lparr>pt_merged_queue := q\<rparr>)
     | (Some ms, q) \<Rightarrow>
         let pt0 = pt\<lparr>pt_merged_queue := q\<rparr> in
         andthen (resolve ms pt0) (\<lambda>s.
         andthen (process_slot now clock s pt0) (\<lambda>pt1.
           let n = pt_packet_count pt1 + 1 in
           if 100 \<le> n
           then Inr (list_ex (\<lambda>sh. shard_pressure_high sh (sc_router (pt_ctx pt1))) [0..<NUM_SHARDS],
                     pt1\<lparr>pt_packet_count := 0\<rparr>)
           else Inr (False, pt1\<lparr>pt_packet_count := n\<rparr>))))"

section \<open>Routing\<close>

lemma type_char_inverse: "message_type_of_char c = t \<Longrightarrow> type_char t = c"
  by (auto simp: message_type_of_char_def type_char_def split: if_splits)

text \<open>Whether a system event under the name \<open>raw\<close> changes the session \<open>cur\<close>.\<close>

definition session_changed :: "u8 list \<Rightarrow> u8 list \<Rightarrow> bool" where
  "session_changed cur raw \<longleftrightarrow> cur \<noteq> raw \<and> (cur ! 0 \<noteq> 0 \<or> raw ! 0 \<noteq> 0)"

text \<open>What shard \<open>s\<close> gets for the messages of a packet: a reset before a system event that changes the session.\<close>

fun shard_stream :: "nat \<Rightarrow> u8 list \<Rightarrow> u8 list \<Rightarrow> ItchMsg list \<Rightarrow> ItchMsg list" where
  "shard_stream s cur raw [] = []"
| "shard_stream s cur raw (m # ms) =
    (let changed = im_type m = SystemEvent \<and> session_changed cur raw in
     (if changed then [session_reset_msg] else []) @ (if s \<in> targets m then [m] else []) @
     shard_stream s (if changed then raw else cur) raw ms)"

lemma upd_stats_fields [simp]:
  "sc_mgr (upd_stats f c) = sc_mgr c" "sc_tracker (upd_stats f c) = sc_tracker c"
  "sc_directory (upd_stats f c) = sc_directory c" "sc_bbo (upd_stats f c) = sc_bbo c"
  "sc_router (upd_stats f c) = (sc_router c)\<lparr>sr_stats := f (sr_stats (sc_router c))\<rparr>"
  by (simp_all add: upd_stats_def)

lemma delivers_stats:
  assumes "delivers r f r'" "fs_shard_queue_drops st = fs_shard_queue_drops (sr_stats r')"
  shows "delivers r f (r'\<lparr>sr_stats := st\<rparr>)"
  using assms by (simp add: delivers_def router_ok_def shard_items_def)

definition cur_session :: "SessionContext \<Rightarrow> u8 list" where
  "cur_session c = take 10 (sm_session (sc_mgr c))"

lemma manager_ok_resolve: "manager_ok m \<Longrightarrow> manager_ok (try_resolve_watched loc t m)"
  "sm_session (try_resolve_watched loc t m) = sm_session m"
  by (simp_all add: manager_ok_def try_resolve_watched_def add_watched_symbol_def Let_def)

lemma system_event_step:
  fixes msg :: ItchMsg
  assumes "context_ok c" "length raw = 10"
  defines "c' \<equiv> on_system_event msg raw c"
  shows "context_ok c'" "cur_session c' = (if session_changed (cur_session c) raw then raw else cur_session c)"
    "delivers (sc_router c) (\<lambda>_. if session_changed (cur_session c) raw then [session_reset_msg] else []) (sc_router c')"
proof -
  define d where "d = (if session_changed (cur_session c) raw then reset_session raw c else c)"
  have ch: "session_changed (cur_session c) raw \<longleftrightarrow> take 10 (sm_session (sc_mgr c)) \<noteq> take 10 raw \<and>
      (sm_session (sc_mgr c) ! 0 \<noteq> 0 \<or> raw ! 0 \<noteq> 0)"
    using assms(1,2) by (simp add: session_changed_def cur_session_def)
  have c': "sc_router c' = sc_router d" "sm_session (sc_mgr c') = sm_session (sc_mgr d)"
    "context_ok c' = context_ok d"
    by (auto simp: c'_def on_system_event_def Let_def d_def ch on_eod_archival_def context_ok_def manager_ok_def)
  note rs = reset_session_wipes(2,3)[OF assms(1,2)]
  show "context_ok c'" using c'(3) rs(1) assms(1) by (simp add: d_def)
  show "cur_session c' = (if session_changed (cur_session c) raw then raw else cur_session c)"
    using c'(2) rs(2) assms(2) by (simp add: d_def cur_session_def)
  have r: "router_ok (sc_router c)" using assms(1) by (simp add: context_ok_def)
  show "delivers (sc_router c) (\<lambda>_. if session_changed (cur_session c) raw then [session_reset_msg] else []) (sc_router c')"
    using delivers_broadcast[OF r] delivers_refl[OF r] by (simp add: c'(1) d_def reset_session_def Let_def)
qed

lemma route_msg_step:
  fixes m :: ItchMsg
  assumes "context_ok c" "length raw = 10"
  defines "c' \<equiv> route_msg raw m c"
  defines "changed \<equiv> im_type m = SystemEvent \<and> session_changed (cur_session c) raw"
  shows "context_ok c'" "cur_session c' = (if changed then raw else cur_session c)"
    "delivers (sc_router c) (\<lambda>s. (if changed then [session_reset_msg] else []) @ (if s \<in> targets m then [m] else []))
       (sc_router c')"
proof -
  define c1 where "c1 = (if im_type m = SystemEvent then on_system_event m raw c else c)"
  have r: "router_ok (sc_router c)" using assms(1) by (simp add: context_ok_def)
  have c1: "context_ok c1" "cur_session c1 = (if changed then raw else cur_session c)"
    "delivers (sc_router c) (\<lambda>_. if changed then [session_reset_msg] else []) (sc_router c1)"
    using system_event_step[OF assms(1,2), of m] delivers_refl[OF r] assms(1) by (simp_all add: c1_def changed_def)
  have r1: "router_ok (sc_router c1)" using c1(1) by (simp add: context_ok_def)
  have d: "delivers (sc_router c1) (\<lambda>s. if s \<in> targets m then [m] else []) (sc_router c')"
    unfolding c'_def route_msg_def Let_def c1_def[symmetric]
    by (cases "im_type m = StockDirectory") (simp_all add: delivers_stats[OF delivers_route[OF r1]])
  show "delivers (sc_router c) (\<lambda>s. (if changed then [session_reset_msg] else []) @ (if s \<in> targets m then [m] else []))
       (sc_router c')" by (rule delivers_trans[OF c1(3) d])
  have r': "router_ok (sc_router c')" using d by (simp add: delivers_def)
  have f: "sc_directory c' = sc_directory c1" "sc_bbo c' = sc_bbo c1"
    "manager_ok (sc_mgr c')" "sm_session (sc_mgr c') = sm_session (sc_mgr c1)"
    using c1(1) manager_ok_resolve unfolding c'_def route_msg_def Let_def c1_def[symmetric] context_ok_def
    by simp_all
  show "context_ok c'" using c1(1) r' f by (simp add: context_ok_def)
  show "cur_session c' = (if changed then raw else cur_session c)" using c1(2) f(4) by (simp add: cur_session_def)
qed

lemma route_loop_step:
  assumes "context_ok (pt_ctx pt)" "length raw = 10" "route_loop clock ts raw i msgs pt = Inr pt'"
  shows "context_ok (pt_ctx pt') \<and> delivers (sc_router (pt_ctx pt))
    (\<lambda>s. shard_stream s (cur_session (pt_ctx pt)) raw msgs) (sc_router (pt_ctx pt'))"
  using assms
proof (induction msgs arbitrary: i pt)
  case Nil
  then show ?case by (simp add: delivers_refl context_ok_def)
next
  case (Cons m ms)
  obtain pt1 where pt1: "record_parse_latency (clock i) ts pt = Inr pt1"
    "route_loop clock ts raw (i + 1) ms (pt1\<lparr>pt_ctx := route_msg raw m (pt_ctx pt1)\<rparr>) = Inr pt'"
    using Cons.prems(3) by auto
  have c: "pt_ctx pt1 = pt_ctx pt"
    using pt1(1) by (auto simp: record_parse_latency_def split: if_splits)
  note s = route_msg_step[OF Cons.prems(1,2), of m]
  from Cons.IH[of "pt1\<lparr>pt_ctx := route_msg raw m (pt_ctx pt1)\<rparr>" "i + 1"] s pt1(2) Cons.prems(2) c
  show ?case by (auto simp: Let_def dest: delivers_trans[OF s(3)])
qed

section \<open>Sequence numbers\<close>

lemma track_sequence_ctx:
  "sc_mgr (pt_ctx (track_sequence now seq raw pt)) = sc_mgr (pt_ctx pt)"
  "sr_queues (sc_router (pt_ctx (track_sequence now seq raw pt))) = sr_queues (sc_router (pt_ctx pt))"
  "sc_tracker (pt_ctx (track_sequence now seq raw pt)) = snd (try_advance now (sc_tracker (pt_ctx pt)) seq)"
  "context_ok (pt_ctx (track_sequence now seq raw pt)) = context_ok (pt_ctx pt)"
  by (auto simp: track_sequence_def Let_def context_ok_def router_ok_def split: prod.splits)

section \<open>Properties\<close>

text \<open>The latencies of the messages of a packet are in the range of the histogram.\<close>

definition latencies_ok :: "(nat \<Rightarrow> Timestamp) \<Rightarrow> Timestamp \<Rightarrow> bool" where
  "latencies_ok clock ts \<longleftrightarrow> ts = 0 \<or> (\<forall>i. ts \<le> clock i \<longrightarrow> unat (clock i - ts) < 2 ^ 23)"

lemma record_parse_latency_ok:
  assumes "latencies_ok clock ts" "length (lh_buckets (pt_parse_lat pt)) = TOTAL_BUCKETS"
  obtains h where "record_parse_latency (clock i) ts pt = Inr (pt\<lparr>pt_parse_lat := h\<rparr>)"
    "length (lh_buckets h) = TOTAL_BUCKETS"
proof (cases "0 < ts \<and> ts \<le> clock i")
  case True
  then have "unat (clock i - ts) < 2 ^ 23" using assms(1) by (auto simp: latencies_ok_def)
  from record_latency_ok[OF this assms(2)] show thesis
    using True that by (auto simp: record_parse_latency_def)
next
  case False
  then show thesis using that[of "pt_parse_lat pt"] assms(2) by (auto simp: record_parse_latency_def)
qed

lemma route_loop_total:
  assumes "latencies_ok clock ts" "length (lh_buckets (pt_parse_lat pt)) = TOTAL_BUCKETS"
  shows "\<exists>pt'. route_loop clock ts raw i msgs pt = Inr pt'"
  using assms(2)
proof (induction msgs arbitrary: i pt)
  case (Cons m ms)
  obtain h where h: "record_parse_latency (clock i) ts pt = Inr (pt\<lparr>pt_parse_lat := h\<rparr>)"
    "length (lh_buckets h) = TOTAL_BUCKETS"
    using record_parse_latency_ok[OF assms(1) Cons.prems] by blast
  then show ?case
    using Cons.IH[of "pt\<lparr>pt_parse_lat := h, pt_ctx := route_msg raw m (pt_ctx pt)\<rparr>" "i + 1"] by simp
qed simp

lemma track_sequence_lat [simp]: "pt_parse_lat (track_sequence now seq raw pt) = pt_parse_lat pt"
  by (auto simp: track_sequence_def Let_def split: prod.splits)

lemma process_slot_data:
  assumes "20 \<le> unat (ps_length s)" "be16 (slot_mem s) 18 \<noteq> 0xFFFF"
  shows "process_slot now clock s pt =
    route_loop clock (ps_recv_ts s) (copy_bytes (slot_mem s) 0 10) 0
      (itch_parse (slot_mem s) (ps_recv_ts s) (mold_parse (slot_mem s) 0 (unat (ps_length s))) MAX_MSGS_PER_PACKET)
      (track_sequence now (be64 (slot_mem s) 10) (copy_bytes (slot_mem s) 0 10) pt)"
  using assms by (simp add: process_slot_def mold_parse_def sizeof_MoldUDP64Header_def is_heartbeat_def
      read_header_def MOLDUDP64_HEARTBEAT_def Let_def)

lemma process_slot_stream:
  fixes s pt
  defines "raw \<equiv> copy_bytes (slot_mem s) 0 10"
    and "msgs \<equiv> itch_parse (slot_mem s) (ps_recv_ts s) (mold_parse (slot_mem s) 0 (unat (ps_length s))) MAX_MSGS_PER_PACKET"
    and "r \<equiv> sc_router (pt_ctx pt)" and "cur \<equiv> cur_session (pt_ctx pt)"
  assumes "context_ok (pt_ctx pt)" "length (lh_buckets (pt_parse_lat pt)) = TOTAL_BUCKETS"
    "20 \<le> unat (ps_length s)" "be16 (slot_mem s) 18 \<noteq> 0xFFFF" "latencies_ok clock (ps_recv_ts s)"
  shows "\<exists>pt'. process_slot now clock s pt = Inr pt' \<and> context_ok (pt_ctx pt') \<and>
    (\<forall>sh < NUM_SHARDS. length (shard_items r sh) + length (shard_stream sh cur raw msgs) \<le> spsc_cap (sr_queues r ! sh) \<longrightarrow>
       shard_items (sc_router (pt_ctx pt')) sh = shard_items r sh @ shard_stream sh cur raw msgs)"
proof -
  let ?pt = "track_sequence now (be64 (slot_mem s) 10) raw pt"
  obtain pt' where run: "route_loop clock (ps_recv_ts s) raw 0 msgs ?pt = Inr pt'"
    using route_loop_total[OF assms(9), of ?pt raw 0 msgs] assms(6) by auto
  have ok: "context_ok (pt_ctx ?pt)" using assms(5) by (simp add: track_sequence_ctx)
  have len: "length raw = 10" by (simp add: raw_def copy_bytes_def)
  have same: "cur_session (pt_ctx ?pt) = cur" "sr_queues (sc_router (pt_ctx ?pt)) = sr_queues r"
    by (simp_all add: cur_session_def track_sequence_ctx cur_def r_def)
  have "process_slot now clock s pt = Inr pt'"
    using process_slot_data[OF assms(7,8)] run by (simp add: raw_def msgs_def)
  then show ?thesis
    using route_loop_step[OF ok len run] same by (auto simp: delivers_def shard_items_def)
qed

text \<open>
  A data packet is processed without a fault as long as the latencies fit the
  histogram. Every shard's queue grows by exactly the parsed messages that concern the shard, in
  the order of the packet (order messages of its locate codes, all administrative messages);
  where a system event starts a new session the shard gets the reset first. This holds whatever
  the sequence number says, for every shard whose queue has the room.
\<close>

theorem process_slot_routes:
  fixes s pt
  defines "raw \<equiv> copy_bytes (slot_mem s) 0 10"
    and "msgs \<equiv> itch_parse (slot_mem s) (ps_recv_ts s) (mold_parse (slot_mem s) 0 (unat (ps_length s))) MAX_MSGS_PER_PACKET"
    and "r \<equiv> sc_router (pt_ctx pt)" and "cur \<equiv> cur_session (pt_ctx pt)"
  assumes "context_ok (pt_ctx pt)" "length (lh_buckets (pt_parse_lat pt)) = TOTAL_BUCKETS"
    "20 \<le> unat (ps_length s)" "be16 (slot_mem s) 18 \<noteq> 0xFFFF" "latencies_ok clock (ps_recv_ts s)"
  shows "\<exists>pt'. process_slot now clock s pt = Inr pt' \<and> context_ok (pt_ctx pt') \<and>
    (\<forall>sh < NUM_SHARDS. length (shard_items r sh) + length (shard_stream sh cur raw msgs) \<le> spsc_cap (sr_queues r ! sh) \<longrightarrow>
       shard_items (sc_router (pt_ctx pt')) sh = shard_items r sh @ shard_stream sh cur raw msgs)"
  using process_slot_stream[OF assms(5-9)] unfolding raw_def msgs_def r_def cur_def .

text \<open>A packet with one deletion, for locate code 3, and a parser for it.\<close>

definition small_packet :: "u8 list" where
  "small_packet = enc_packet (replicate 10 0x31) 1
     [enc_order \<lparr>wh_locate = 3, wh_tracking = 0, wh_timestamp = 9\<rparr> (ODelete 7)]"

definition small_slot :: PacketSlot where
  "small_slot = PacketSlot_init\<lparr>ps_length := of_nat (length small_packet), ps_data := small_packet\<rparr>"

definition small_parser :: ParserThread where
  "small_parser = \<lparr>pt_primary_ring = ZeroCopyRing_new True, pt_secondary_ring = ZeroCopyRing_new False,
     pt_merged_queue = SpscQueue_new [], pt_ctx = fresh_context 0, pt_gap_detector = GapDetector_new 500,
     pt_persist_seq = PersistentSequence_new blank_disk, pt_parse_lat = histogram_init, pt_packet_count = 0\<rparr>"

lemma slot_mem_of: "slot_mem s = mem_of (ps_data s)"
  by (simp add: fun_eq_iff slot_mem_def mem_of_def)

text \<open>A slot that holds an encoded packet is a data packet, parsed as the packet is.\<close>

lemma slot_packet:
  assumes "length session = 10" "length ms < 65535" "int (length ms) \<le> MAX_MSGS_PER_PACKET"
    and "\<forall>(h, m) \<in> set ms. wf_order m \<and> take_bit 48 (wh_timestamp h) = wh_timestamp h"
    and "pkt = enc_packet session seq (map (\<lambda>(h, m). enc_order h m) ms)" "prefix pkt (ps_data s)"
    and "unat (ps_length s) = length pkt"
  shows "itch_parse (slot_mem s) ts (mold_parse (slot_mem s) 0 (unat (ps_length s))) MAX_MSGS_PER_PACKET =
      map (\<lambda>(h, m). dec_order ts h m) ms"
    "20 \<le> unat (ps_length s)" "be16 (slot_mem s) 18 \<noteq> 0xFFFF"
    "copy_bytes (slot_mem s) 0 10 = session" "be64 (slot_mem s) 10 = seq"
proof -
  obtain rest where "ps_data s = pkt @ rest" using assms(6) by (auto simp: prefix_def)
  then have h: "holds_at (slot_mem s) 0 pkt"
    using holds_mem_of[of "pkt @ rest"] by (simp add: slot_mem_of holds_at_append)
  show "itch_parse (slot_mem s) ts (mold_parse (slot_mem s) 0 (unat (ps_length s))) MAX_MSGS_PER_PACKET =
      map (\<lambda>(h, m). dec_order ts h m) ms"
    unfolding assms(7) by (rule parse_orders[OF assms(1-3) _ assms(4,5) h]) (simp add: MAX_MSGS_PER_PACKET_def)
  show len: "20 \<le> unat (ps_length s)" using assms(1,5,7) by (simp add: enc_packet_def)
  have "mold_parse (slot_mem s) 0 (length pkt) =
    \<lparr>pr_header = \<lparr>mh_session = session, mh_sequence = seq, mh_message_count = of_nat (length ms)\<rparr>,
     pr_messages_begin = 20, pr_messages_length = length (concat (map frame (map (\<lambda>(h, m). enc_order h m) ms))),
     pr_valid = True\<rparr>"
    using mold_parse_enc(1)[of session "map (\<lambda>(h, m). enc_order h m) ms" "slot_mem s" 0 seq] assms(1,2,5) h by simp
  then show "be16 (slot_mem s) 18 \<noteq> 0xFFFF" "copy_bytes (slot_mem s) 0 10 = session" "be64 (slot_mem s) 10 = seq"
    using len assms(7) by (auto simp: mold_parse_def sizeof_MoldUDP64Header_def is_heartbeat_def
        read_header_def MOLDUDP64_HEARTBEAT_def ParseResult_init_def Let_def split: if_splits)
qed

lemma small_slot_parse:
  "itch_parse (slot_mem small_slot) 0 (mold_parse (slot_mem small_slot) 0 (unat (ps_length small_slot)))
     MAX_MSGS_PER_PACKET = [dec_order 0 \<lparr>wh_locate = 3, wh_tracking = 0, wh_timestamp = 9\<rparr> (ODelete 7)]"
  "20 \<le> unat (ps_length small_slot)" "be16 (slot_mem small_slot) 18 \<noteq> 0xFFFF"
proof -
  have "length small_packet = 41" by (simp add: small_packet_def enc_packet_def)
  then have "unat (ps_length small_slot) = length small_packet" by (simp add: small_slot_def)
  with slot_packet[where s = small_slot and pkt = small_packet and session = "replicate 10 0x31" and seq = 1
      and ms = "[(\<lparr>wh_locate = 3, wh_tracking = 0, wh_timestamp = 9\<rparr>, ODelete 7)]"]
  show "itch_parse (slot_mem small_slot) 0 (mold_parse (slot_mem small_slot) 0 (unat (ps_length small_slot)))
     MAX_MSGS_PER_PACKET = [dec_order 0 \<lparr>wh_locate = 3, wh_tracking = 0, wh_timestamp = 9\<rparr> (ODelete 7)]"
    "20 \<le> unat (ps_length small_slot)" "be16 (slot_mem small_slot) 18 \<noteq> 0xFFFF"
    by (simp_all add: small_packet_def small_slot_def MAX_MSGS_PER_PACKET_def)
qed

theorem process_slot_routes_witness:
  "\<exists>pt'. process_slot 0 (\<lambda>_. 0) small_slot small_parser = Inr pt' \<and> shard_items (sc_router (pt_ctx pt')) 3 =
     [dec_order 0 \<lparr>wh_locate = 3, wh_tracking = 0, wh_timestamp = 9\<rparr> (ODelete 7)]"
proof -
  have s: "3 < NUM_SHARDS" by (simp add: NUM_SHARDS_def)
  have r: "sc_router (pt_ctx small_parser) = ShardRouter_new FeedStats_init 0" "ps_recv_ts small_slot = 0"
    "context_ok (pt_ctx small_parser)" "length (lh_buckets (pt_parse_lat small_parser)) = TOTAL_BUCKETS"
    "latencies_ok (\<lambda>_. 0) 0"
    using fresh_context_ok[of 0] by (simp_all add: small_parser_def fresh_context_def small_slot_def
        PacketSlot_init_def histogram_init_def latencies_ok_def)
  have cap: "Suc 0 \<le> spsc_cap (sr_queues (ShardRouter_new FeedStats_init 0) ! 3)"
    using router_ok_new(2,3)[OF s, of 0] by (simp add: shard_room_def)
  let ?m = "dec_order 0 \<lparr>wh_locate = 3, wh_tracking = 0, wh_timestamp = 9\<rparr> (ODelete 7)"
  have stream: "shard_stream 3 cur raw [?m] = [?m]" for cur raw
    by (simp add: head_msg_def targets_def is_admin_message_def shard_for_locate_def NUM_SHARDS_def)
  obtain pt' where "process_slot 0 (\<lambda>_. 0) small_slot small_parser = Inr pt'"
    "length (shard_items (sc_router (pt_ctx small_parser)) 3) + length [?m] \<le>
       spsc_cap (sr_queues (sc_router (pt_ctx small_parser)) ! 3) \<longrightarrow>
     shard_items (sc_router (pt_ctx pt')) 3 = shard_items (sc_router (pt_ctx small_parser)) 3 @ [?m]"
    using process_slot_routes[OF r(3,4) small_slot_parse(2,3), of "\<lambda>_. 0" 0] r(2,5) s
    unfolding small_slot_parse(1) r(2) by (metis stream)
  then show ?thesis using router_ok_new(2)[OF s, of 0] cap r(1) by auto
qed

text \<open>
  Once a gap has been seen, every packet with an old sequence number, and so every
  retransmitted packet that fills the gap, is handled as a gap: the last gap is raised again as
  not yet requested, ready for another request as soon as its first detection is older than the
  timeout, and the packet is counted as a gap instead of a duplicate.
\<close>

theorem recovered_packet_reopens_gap:
  assumes "0 < st_gap_count (sc_tracker (pt_ctx pt))" "unat seq \<le> unat (st_seq (sc_tracker (pt_ctx pt)))"
    "st_seq (sc_tracker (pt_ctx pt)) < -1" "pt' = track_sequence now seq raw pt"
  shows "gd_pending (pt_gap_detector pt') \<and>
    gr_start_seq (gd_gap (pt_gap_detector pt')) = st_last_gap_start (sc_tracker (pt_ctx pt)) \<and>
    gr_end_seq (gd_gap (pt_gap_detector pt')) = st_last_gap_end (sc_tracker (pt_ctx pt)) \<and>
    (should_request_recovery t (pt_gap_detector pt') \<longleftrightarrow>
       gd_timeout_ns (pt_gap_detector pt) \<le> t - st_last_gap_ts (sc_tracker (pt_ctx pt))) \<and>
    fs_sequence_gaps (sr_stats (sc_router (pt_ctx pt'))) = fs_sequence_gaps (sr_stats (sc_router (pt_ctx pt))) + 1 \<and>
    fs_sequence_dups (sr_stats (sc_router (pt_ctx pt'))) = fs_sequence_dups (sr_stats (sc_router (pt_ctx pt)))"
  using assms(1,2,4)
  by (cases rule: try_advance_cases[OF assms(3), of seq now])
    (simp_all add: track_sequence_def on_gap_def last_gap_def should_request_recovery_def Let_def)

theorem recovered_packet_reopens_gap_witness:
  "should_request_recovery 500000000 (pt_gap_detector (track_sequence 9 2 (replicate 10 0x31)
     (track_sequence 0 4 (replicate 10 0x31) small_parser)))"
proof -
  let ?pt = "track_sequence 0 4 (replicate 10 0x31) small_parser"
  have t: "sc_tracker (pt_ctx ?pt) = (SequenceTracker_new 0)\<lparr>st_gap_count := 1, st_last_gap_start := 1,
      st_last_gap_end := 3, st_last_gap_ts := 0, st_seq := 4\<rparr>" "gd_timeout_ns (pt_gap_detector ?pt) = 500000000"
    by (simp_all add: track_sequence_def small_parser_def fresh_context_def try_advance_def on_gap_def
        SequenceTracker_new_def GapDetector_new_def Let_def)
  have "0 < st_gap_count (sc_tracker (pt_ctx ?pt))" "unat (2 :: u64) \<le> unat (st_seq (sc_tracker (pt_ctx ?pt)))"
    "st_seq (sc_tracker (pt_ctx ?pt)) < -1"
    by (simp_all add: t(1))
  from recovered_packet_reopens_gap[OF this refl, of 9 "replicate 10 0x31" 500000000] show ?thesis
    by (simp add: t SequenceTracker_new_def)
qed

text \<open>
  A jump in the sequence numbers raises the range that is missing, and the very next
  packet of the live feed withdraws it: the tracker goes on from the packet after the gap, so an
  in-order advance past the end of the gap is no sign that the missing packets arrived. After it
  no recovery is requested for them, whatever the time.
\<close>

theorem gap_withdrawn_unrecovered:
  assumes "Suc (unat (st_seq (sc_tracker (pt_ctx pt)))) < unat seq" "st_seq (sc_tracker (pt_ctx pt)) < -1" "seq < -1"
    "st_gap_count (sc_tracker (pt_ctx pt)) < -1" "pt1 = track_sequence now seq raw pt" "pt2 = track_sequence now' (seq + 1) raw' pt1"
  shows "gd_pending (pt_gap_detector pt1) \<and>
    gr_start_seq (gd_gap (pt_gap_detector pt1)) = st_seq (sc_tracker (pt_ctx pt)) + 1 \<and>
    gr_end_seq (gd_gap (pt_gap_detector pt1)) = seq - 1 \<and>
    \<not> gd_pending (pt_gap_detector pt2) \<and> \<not> should_request_recovery t (pt_gap_detector pt2)"
proof -
  have "unat (st_gap_count (sc_tracker (pt_ctx pt)) + 1) \<noteq> 0" using unat_Suc_below[OF assms(4)] by simp
  then have g: "0 < st_gap_count (sc_tracker (pt_ctx pt)) + 1" by (metis unat_0 word_gt_0)
  have t: "try_advance now (sc_tracker (pt_ctx pt)) seq = (False, (sc_tracker (pt_ctx pt))
      \<lparr>st_gap_count := st_gap_count (sc_tracker (pt_ctx pt)) + 1,
       st_last_gap_start := st_seq (sc_tracker (pt_ctx pt)) + 1, st_last_gap_end := seq - 1,
       st_last_gap_ts := now, st_seq := seq\<rparr>)"
    using assms(1) by (cases rule: try_advance_cases[OF assms(2), of seq now]) simp_all
  have "unat (seq - 1) = unat seq - 1" using assms(1) by (subst unat_minus_one) auto
  then have le: "seq - 1 \<le> seq + 1" using unat_Suc_below[OF assms(3)] by (simp add: word_le_nat_alt)
  have p1: "pt_gap_detector pt1 = on_gap \<lparr>gi_start_seq = st_seq (sc_tracker (pt_ctx pt)) + 1,
      gi_end_seq = seq - 1, gi_detected_at_ns = now\<rparr> (pt_gap_detector pt)" "st_seq (sc_tracker (pt_ctx pt1)) = seq"
    using g by (simp_all add: assms(5) track_sequence_def t last_gap_def)
  then have p2: "pt_gap_detector pt2 = mark_recovered (seq + 1) (pt_gap_detector pt1)"
    by (simp add: assms(6) track_sequence_def try_advance_def Let_def)
  show ?thesis
    using le by (simp add: p2 mark_recovered_def should_request_recovery_def) (simp add: p1 on_gap_def)
qed

theorem gap_withdrawn_unrecovered_witness:
  "\<not> should_request_recovery 900000000 (pt_gap_detector (track_sequence 9 5 (replicate 10 0x31)
     (track_sequence 0 4 (replicate 10 0x31) small_parser)))"
proof -
  have t: "sc_tracker (pt_ctx small_parser) = SequenceTracker_new 0"
    by (simp add: small_parser_def fresh_context_def)
  have "Suc (unat (st_seq (sc_tracker (pt_ctx small_parser)))) < unat (4 :: u64)"
    "st_seq (sc_tracker (pt_ctx small_parser)) < -1" "(4 :: u64) < -1"
    "st_gap_count (sc_tracker (pt_ctx small_parser)) < -1"
    by (simp_all add: t SequenceTracker_new_def word_gt_0)
  from gap_withdrawn_unrecovered[OF this refl refl]
  show ?thesis by simp
qed

text \<open>Order messages change neither the tracker, the gap detector and the durable record nor the count of gaps.\<close>

definition gap_count_of :: "ParserThread \<Rightarrow> counter" where
  "gap_count_of pt = fs_sequence_gaps (sr_stats (sc_router (pt_ctx pt)))"

definition same_sequencing :: "ParserThread \<Rightarrow> ParserThread \<Rightarrow> bool" where
  "same_sequencing pt pt' \<longleftrightarrow> sc_tracker (pt_ctx pt') = sc_tracker (pt_ctx pt) \<and>
    pt_gap_detector pt' = pt_gap_detector pt \<and> pt_persist_seq pt' = pt_persist_seq pt \<and>
    gap_count_of pt' = gap_count_of pt"

lemma route_gaps: "fs_sequence_gaps (sr_stats (snd (route m r))) = fs_sequence_gaps (sr_stats r)"
  if "\<not> is_admin_message (im_type m)"
  using that by (auto simp: route_def push_shard_def Let_def split: prod.splits)

lemma route_loop_sequencing:
  assumes "latencies_ok clock ts" "length (lh_buckets (pt_parse_lat pt)) = TOTAL_BUCKETS"
    "\<forall>m \<in> set msgs. \<not> is_admin_message (im_type m)"
  shows "\<exists>pt'. route_loop clock ts raw i msgs pt = Inr pt' \<and> same_sequencing pt pt' \<and>
    length (lh_buckets (pt_parse_lat pt')) = TOTAL_BUCKETS"
  using assms(2,3)
proof (induction msgs arbitrary: i pt)
  case (Cons m ms)
  obtain h where h: "record_parse_latency (clock i) ts pt = Inr (pt\<lparr>pt_parse_lat := h\<rparr>)"
    "length (lh_buckets h) = TOTAL_BUCKETS"
    using record_parse_latency_ok[OF assms(1) Cons.prems(1)] by blast
  have m: "\<not> is_admin_message (im_type m)" using Cons.prems(2) by simp
  then have t: "im_type m \<noteq> SystemEvent" "im_type m \<noteq> StockDirectory" by (auto simp: is_admin_message_def)
  let ?pt = "pt\<lparr>pt_parse_lat := h, pt_ctx := route_msg raw m (pt_ctx pt)\<rparr>"
  have "same_sequencing pt ?pt"
    using t by (simp add: same_sequencing_def gap_count_of_def route_msg_def Let_def route_gaps[OF m])
  then show ?case
    using Cons.IH[of ?pt "i + 1"] h Cons.prems(2) by (auto simp: same_sequencing_def)
qed (simp add: same_sequencing_def)

lemma dec_order_not_admin: "\<not> is_admin_message (im_type (dec_order ts h m))"
  by (cases m) (simp_all add: head_msg_def is_admin_message_def)

text \<open>A slot that holds the packet of a session, a sequence number and order messages.\<close>

definition slot_has_packet :: "PacketSlot \<Rightarrow> u8 list \<Rightarrow> u64 \<Rightarrow> (WireHead \<times> OrderMsg) list \<Rightarrow> bool" where
  "slot_has_packet s session seq ms \<longleftrightarrow> length session = 10 \<and> int (length ms) \<le> MAX_MSGS_PER_PACKET \<and>
    (\<forall>(h, m) \<in> set ms. wf_order m \<and> take_bit 48 (wh_timestamp h) = wh_timestamp h) \<and>
    (let pkt = enc_packet session seq (map (\<lambda>(h, m). enc_order h m) ms)
     in prefix pkt (ps_data s) \<and> unat (ps_length s) = length pkt)"

lemma process_slot_orders:
  assumes "slot_has_packet s session seq ms" "length (lh_buckets (pt_parse_lat pt)) = TOTAL_BUCKETS"
    "latencies_ok clock (ps_recv_ts s)"
  shows "\<exists>pt'. process_slot now clock s pt = Inr pt' \<and> same_sequencing (track_sequence now seq session pt) pt' \<and>
    length (lh_buckets (pt_parse_lat pt')) = TOTAL_BUCKETS"
proof -
  have "length ms < 65535" using assms(1) by (simp add: slot_has_packet_def MAX_MSGS_PER_PACKET_def)
  then have p: "process_slot now clock s pt = route_loop clock (ps_recv_ts s) session 0
      (map (\<lambda>(h, m). dec_order (ps_recv_ts s) h m) ms) (track_sequence now seq session pt)"
    using slot_packet(1)[where session = session and seq = seq and s = s and ts = "ps_recv_ts s", OF _ _ _ _ refl]
      slot_packet(2-5)[where session = session and seq = seq and s = s, OF _ _ _ _ refl] assms(1)
    by (simp add: slot_has_packet_def Let_def process_slot_data)
  have "\<forall>m \<in> set (map (\<lambda>(h, m). dec_order (ps_recv_ts s) h m) ms). \<not> is_admin_message (im_type m)"
    by (auto simp: dec_order_not_admin)
  then show ?thesis unfolding p by (rule route_loop_sequencing[OF assms(3), rotated]) (simp add: assms(2))
qed

lemma expected_number:
  assumes "unat seq = unat (st_seq tr) + 1"
  shows "try_advance now tr seq = (True, tr\<lparr>st_seq := seq\<rparr>)"
proof -
  have "(of_nat (unat seq) :: u64) = of_nat (unat (st_seq tr) + 1)" by (simp only: assms)
  then show ?thesis by (simp add: try_advance_def)
qed

lemma skipped_number:
  assumes "st_seq (sc_tracker (pt_ctx pt)) = q" "2 \<le> n" "unat q + n < 2 ^ 64"
    "st_gap_count (sc_tracker (pt_ctx pt)) < -1" "pt' = track_sequence now (q + of_nat n) raw pt"
  shows "gd_pending (pt_gap_detector pt')" "unat (gr_start_seq (gd_gap (pt_gap_detector pt'))) = unat q + 1"
    "unat (gr_end_seq (gd_gap (pt_gap_detector pt'))) = unat q + n - 1"
    "should_request_recovery t (pt_gap_detector pt') \<longleftrightarrow> gd_timeout_ns (pt_gap_detector pt) \<le> t - now"
    "gap_count_of pt' = gap_count_of pt + 1" "pt_persist_seq pt' = pt_persist_seq pt"
proof -
  have u: "unat (q + of_nat n) = unat q + n" by (rule unat_add_small[OF assms(3)])
  have lt: "st_seq (sc_tracker (pt_ctx pt)) < -1" using assms(1-3)
    by (auto simp: word_order.not_eq_extremum[symmetric] unsigned_minus_1_eq_mask mask_eq_exp_minus_1)
  have "unat (st_gap_count (sc_tracker (pt_ctx pt)) + 1) \<noteq> 0" using unat_Suc_below[OF assms(4)] by simp
  then have g: "0 < st_gap_count (sc_tracker (pt_ctx pt)) + 1" by (metis unat_0 word_gt_0)
  note jump = try_advance_cases[OF lt, of "q + of_nat n" now]
  show "gd_pending (pt_gap_detector pt')" "unat (gr_start_seq (gd_gap (pt_gap_detector pt'))) = unat q + 1"
    "unat (gr_end_seq (gd_gap (pt_gap_detector pt'))) = unat q + n - 1"
    "should_request_recovery t (pt_gap_detector pt') \<longleftrightarrow> gd_timeout_ns (pt_gap_detector pt) \<le> t - now"
    "gap_count_of pt' = gap_count_of pt + 1" "pt_persist_seq pt' = pt_persist_seq pt"
    using g u assms(1,2) unfolding assms(5)
    by (cases rule: jump; simp add: track_sequence_def on_gap_def last_gap_def should_request_recovery_def
        gap_count_of_def Let_def)+
qed

text \<open>
  Property C40. The tracker counts packets where the exchange counts messages. The parser gets two
  packets of the wire one after the other: the one it expects, with number \<open>seq\<close> and \<open>n \<ge> 2\<close>
  messages, and the next one of the session, which has number \<open>seq + n\<close> because the messages are
  numbered. It processes both; the first raises no gap, and although nothing is missing the second
  is counted as one: the gap detector holds the range \<open>seq + 1\<close> to \<open>seq + n - 1\<close>, which the first
  packet has delivered, and asks for it as soon as the timeout is over, and the durable record
  does not advance to the second packet.
\<close>

theorem multi_message_packets_raise_gap:
  assumes "slot_has_packet s1 session seq ms1" "slot_has_packet s2 session (seq + of_nat (length ms1)) ms2" "2 \<le> length ms1"
    "unat seq = unat (st_seq (sc_tracker (pt_ctx pt))) + 1" "unat seq + length ms1 < 2 ^ 64"
    "st_gap_count (sc_tracker (pt_ctx pt)) < -1" "length (lh_buckets (pt_parse_lat pt)) = TOTAL_BUCKETS"
    "latencies_ok clock1 (ps_recv_ts s1)" "latencies_ok clock2 (ps_recv_ts s2)"
  shows "\<exists>pt1 pt2. process_slot now1 clock1 s1 pt = Inr pt1 \<and> process_slot now2 clock2 s2 pt1 = Inr pt2 \<and>
    gap_count_of pt1 = gap_count_of pt \<and> gap_count_of pt2 = gap_count_of pt1 + 1 \<and>
    gd_pending (pt_gap_detector pt2) \<and> unat (gr_start_seq (gd_gap (pt_gap_detector pt2))) = unat seq + 1 \<and>
    unat (gr_end_seq (gd_gap (pt_gap_detector pt2))) = unat seq + length ms1 - 1 \<and>
    (\<forall>t. should_request_recovery t (pt_gap_detector pt2) \<longleftrightarrow> gd_timeout_ns (pt_gap_detector pt) \<le> t - now2) \<and>
    pt_persist_seq pt2 = pt_persist_seq pt1"
proof -
  let ?t = "sc_tracker (pt_ctx pt)" and ?q = "seq + of_nat (length ms1)"
  obtain pt1 where 1: "process_slot now1 clock1 s1 pt = Inr pt1"
    "same_sequencing (track_sequence now1 seq session pt) pt1" "length (lh_buckets (pt_parse_lat pt1)) = TOTAL_BUCKETS"
    using process_slot_orders[OF assms(1,7,8)] by blast
  obtain pt2 where 2: "process_slot now2 clock2 s2 pt1 = Inr pt2"
    "same_sequencing (track_sequence now2 ?q session pt1) pt2"
    using process_slot_orders[OF assms(2) 1(3) assms(9)] by blast
  have first: "st_seq (sc_tracker (pt_ctx pt1)) = seq" "gap_count_of pt1 = gap_count_of pt"
    "st_gap_count (sc_tracker (pt_ctx pt1)) = st_gap_count ?t"
    "gd_timeout_ns (pt_gap_detector pt1) = gd_timeout_ns (pt_gap_detector pt)"
    using 1(2) expected_number[OF assms(4)]
    by (simp_all add: same_sequencing_def gap_count_of_def track_sequence_def mark_recovered_def Let_def)
  have "st_gap_count (sc_tracker (pt_ctx pt1)) < -1" using first(3) assms(6) by simp
  note gap = skipped_number[where now = now2 and raw = session, OF first(1) assms(3,5) this refl]
  from 2(2) have "pt_gap_detector pt2 = pt_gap_detector (track_sequence now2 ?q session pt1)"
    "pt_persist_seq pt2 = pt_persist_seq (track_sequence now2 ?q session pt1)"
    "gap_count_of pt2 = gap_count_of (track_sequence now2 ?q session pt1)"
    by (simp_all add: same_sequencing_def)
  with gap show ?thesis using 1(1) 2(1) first(2,4) by auto
qed

text \<open>Two packets of the session, the first with two messages.\<close>

definition two_deletes :: "(WireHead \<times> OrderMsg) list" where
  "two_deletes = [(\<lparr>wh_locate = 3, wh_tracking = 0, wh_timestamp = 9\<rparr>, ODelete 7),
     (\<lparr>wh_locate = 3, wh_tracking = 0, wh_timestamp = 9\<rparr>, ODelete 8)]"

definition delete_slot :: "u64 \<Rightarrow> PacketSlot" where
  "delete_slot seq = (let pkt = enc_packet (replicate 10 0x31) seq (map (\<lambda>(h, m). enc_order h m) two_deletes)
     in PacketSlot_init\<lparr>ps_length := of_nat (length pkt), ps_data := pkt\<rparr>)"

lemma delete_slot_packet: "slot_has_packet (delete_slot seq) (replicate 10 0x31) seq two_deletes"
  by (simp add: slot_has_packet_def delete_slot_def two_deletes_def enc_packet_def MAX_MSGS_PER_PACKET_def Let_def)

theorem multi_message_packets_raise_gap_witness:
  "\<exists>pt1 pt2. process_slot 0 (\<lambda>_. 0) (delete_slot 1) small_parser = Inr pt1 \<and>
    process_slot 9 (\<lambda>_. 9) (delete_slot 3) pt1 = Inr pt2 \<and> gap_count_of pt2 = gap_count_of pt1 + 1 \<and>
    should_request_recovery 900000000 (pt_gap_detector pt2)"
proof -
  have p: "st_seq (sc_tracker (pt_ctx small_parser)) = 0" "st_gap_count (sc_tracker (pt_ctx small_parser)) = 0"
    "length (lh_buckets (pt_parse_lat small_parser)) = TOTAL_BUCKETS"
    "gd_timeout_ns (pt_gap_detector small_parser) = 500000000" "ps_recv_ts (delete_slot q) = 0" for q
    by (simp_all add: small_parser_def fresh_context_def SequenceTracker_new_def histogram_init_def
        GapDetector_new_def delete_slot_def PacketSlot_init_def Let_def)
  have "slot_has_packet (delete_slot 3) (replicate 10 0x31) (1 + of_nat (length two_deletes)) two_deletes"
    using delete_slot_packet[of 3] by (simp add: two_deletes_def)
  from multi_message_packets_raise_gap[OF delete_slot_packet[of 1] this, of small_parser "\<lambda>_. 0" "\<lambda>_. 9" 0 9]
  show ?thesis using p by (auto simp: two_deletes_def latencies_ok_def word_gt_0)
qed

end
