(* ===== verification/Retransmit_Client.thy ===== *)
theory Retransmit_Client
  imports Itch_Messages
begin

text \<open>
  The TCP client of the retransmission server, \<^verbatim>\<open>src/recovery/retransmit_client.cpp\<close>, with the
  SoupBinTCP login of \<^verbatim>\<open>NasdaqLoginHandler\<close>.

  What the system calls return is an argument: a list of the results of the successive \<^verbatim>\<open>send\<close>
  or \<^verbatim>\<open>recv\<close> calls. A blocking call for which the list has no result never returns, which is
  \<open>Diverges\<close>. C strings are lists without the terminating zero.
\<close>

section \<open>Blocking transfers\<close>

datatype send_result = SendIntr | SendError | Sent nat

datatype recv_result = RecvIntr | RecvAgain | RecvError | Received "u8 list"

text \<open>The bytes that went out, whether all did, and the results left over.\<close>

fun write_all :: "send_result list \<Rightarrow> u8 list \<Rightarrow> (bool \<times> u8 list \<times> send_result list) outcome" where
  "write_all rs [] = Inr (True, [], rs)"
| "write_all [] (b # bs) = Inl Diverges"
| "write_all (SendIntr # rs) (b # bs) = write_all rs (b # bs)"
| "write_all (SendError # rs) (b # bs) = Inr (False, [], rs)"
| "write_all (Sent n # rs) (b # bs) =
    andthen (write_all rs (drop n (b # bs))) (\<lambda>(ok, out, rs'). Inr (ok, take n (b # bs) @ out, rs'))"

text \<open>
  A timeout of the socket shows as \<open>RecvAgain\<close>. \<open>Received []\<close> is a closed connection; \<^verbatim>\<open>recv\<close>
  delivers at most the bytes asked for.
\<close>

fun read_all :: "recv_result list \<Rightarrow> nat \<Rightarrow> (u8 list option \<times> recv_result list) outcome" where
  "read_all rs 0 = Inr (Some [], rs)"
| "read_all [] (Suc n) = Inl Diverges"
| "read_all (RecvIntr # rs) (Suc n) = read_all rs (Suc n)"
| "read_all (RecvAgain # rs) (Suc n) = Inr (None, rs)"
| "read_all (RecvError # rs) (Suc n) = Inr (None, rs)"
| "read_all (Received bs # rs) (Suc n) =
    (if bs = [] then Inr (None, rs)
     else let got = take (Suc n) bs in
       andthen (read_all rs (Suc n - length got)) (\<lambda>(more, rs').
         Inr (map_option (\<lambda>m. got @ m) more, rs')))"

section \<open>Login\<close>

definition pad_copy :: "nat \<Rightarrow> u8 list \<Rightarrow> u8 \<Rightarrow> u8 list" where
  "pad_copy dst_len src fill = take dst_len src @ replicate (dst_len - length src) fill"

definition login_request :: "u8 list \<Rightarrow> u8 list \<Rightarrow> u8 list option \<Rightarrow> u8 list" where
  "login_request username password session_10 =
    [0x00, 62] @ [0x4C] @ pad_copy 6 username 0x20 @ pad_copy 10 password 0x20 @
    (case session_10 of Some s \<Rightarrow> take 10 s | None \<Rightarrow> replicate 10 0x20) @
    [0x31] @ replicate 19 0x20 @ replicate 15 0"

datatype LoginResult = Accepted | Rejected | LoginError

definition recv_response :: "recv_result list \<Rightarrow> (LoginResult \<times> recv_result list) outcome" where
  "recv_response rs0 =
    andthen (read_all rs0 2) (\<lambda>(len_buf, rs1).
      case len_buf of None \<Rightarrow> Inr (LoginError, rs1)
      | Some lb \<Rightarrow>
          let payload_len = push_bit 8 (ucast (lb ! 0)) OR (ucast (lb ! 1) :: u16) in
          if payload_len = 0 \<or> 64 < payload_len then Inr (LoginError, rs1)
          else andthen (read_all rs1 (unat payload_len)) (\<lambda>(payload, rs2).
            case payload of None \<Rightarrow> Inr (LoginError, rs2)
            | Some p \<Rightarrow>
                if p ! 0 = 0x41 then Inr (Accepted, rs2)
                else if p ! 0 = 0x4A then Inr (Rejected, rs2)
                else Inr (LoginError, rs2)))"

definition login ::
  "send_result list \<Rightarrow> recv_result list \<Rightarrow> u8 list \<Rightarrow> u8 list \<Rightarrow> u8 list option \<Rightarrow> (bool \<times> u8 list) outcome" where
  "login srs rrs username password session_10 =
    andthen (write_all srs (login_request username password session_10)) (\<lambda>(ok, out, _).
      if \<not> ok then Inr (False, out)
      else andthen (recv_response rrs) (\<lambda>(res, _). Inr (res = Accepted, out)))"

section \<open>RetransmitClient\<close>

record RetransmitCredentials =
  rc_username :: "u8 list"
  rc_password :: "u8 list"
  rc_require_login :: bool

text \<open>\<open>rx_out\<close> collects the bytes sent on the connection, send by send.\<close>

record RetransmitClient =
  rx_connected :: bool
  rx_primary_addr :: "u8 list"
  rx_primary_port :: u16
  rx_secondary_addr :: "u8 list"
  rx_secondary_port :: u16
  rx_creds :: RetransmitCredentials
  rx_out :: "u8 list list"

definition RetransmitClient_new ::
  "u8 list \<Rightarrow> u16 \<Rightarrow> u8 list \<Rightarrow> u16 \<Rightarrow> RetransmitCredentials \<Rightarrow> RetransmitClient" where
  "RetransmitClient_new paddr pport saddr sport creds =
    \<lparr>rx_connected = False, rx_primary_addr = paddr, rx_primary_port = pport, rx_secondary_addr = saddr,
     rx_secondary_port = sport, rx_creds = creds, rx_out = []\<rparr>"

text \<open>The results of the calls that set up one connection.\<close>

record ConnectCalls =
  cc_socket :: bool
  cc_address :: bool
  cc_connect :: bool
  cc_sends :: "send_result list"
  cc_recvs :: "recv_result list"

text \<open>\<open>Exited\<close>: a login that fails ends the process with \<^verbatim>\<open>exit(1)\<close>.\<close>

datatype ConnectResult = Connected | NotConnected | Exited

definition connect_to :: "ConnectCalls \<Rightarrow> RetransmitClient \<Rightarrow> (ConnectResult \<times> RetransmitClient) outcome" where
  "connect_to k c =
    (if \<not> cc_socket k then Inr (NotConnected, c\<lparr>rx_connected := False\<rparr>)
     else if \<not> cc_address k then Inr (NotConnected, c\<lparr>rx_connected := False\<rparr>)
     else if \<not> cc_connect k then Inr (NotConnected, c\<lparr>rx_connected := False\<rparr>)
     else if rc_require_login (rx_creds c) then
       andthen (login (cc_sends k) (cc_recvs k) (rc_username (rx_creds c)) (rc_password (rx_creds c)) None)
         (\<lambda>(ok, out). let c1 = c\<lparr>rx_out := rx_out c @ [out]\<rparr> in
           if ok then Inr (Connected, c1\<lparr>rx_connected := True\<rparr>) else Inr (Exited, c1\<lparr>rx_connected := False\<rparr>))
     else Inr (Connected, c\<lparr>rx_connected := True\<rparr>))"

text \<open>\<open>kp\<close> and \<open>ks\<close> are the calls for the primary and the secondary endpoint.\<close>

definition connect :: "ConnectCalls \<Rightarrow> ConnectCalls \<Rightarrow> RetransmitClient \<Rightarrow> (ConnectResult \<times> RetransmitClient) outcome" where
  "connect kp ks c =
    andthen (connect_to kp c) (\<lambda>(res, c1).
      case res of Connected \<Rightarrow> Inr (Connected, c1) | Exited \<Rightarrow> Inr (Exited, c1)
      | NotConnected \<Rightarrow>
          if rx_secondary_addr c1 \<noteq> [] \<and> rx_secondary_port c1 \<noteq> 0 then connect_to ks c1
          else Inr (NotConnected, c1))"

definition request_bytes :: "u8 list \<Rightarrow> u64 \<Rightarrow> u16 \<Rightarrow> u8 list" where
  "request_bytes session_10 start_seq cnt =
    take 10 session_10 @ map (\<lambda>i. ucast (drop_bit (8 * (7 - i)) start_seq)) [0..<8] @
    [ucast (drop_bit 8 cnt), ucast cnt]"

text \<open>One \<^verbatim>\<open>send\<close> on the non-blocking socket, with its result.\<close>

definition request :: "send_result \<Rightarrow> u8 list \<Rightarrow> u64 \<Rightarrow> u16 \<Rightarrow> RetransmitClient \<Rightarrow> bool \<times> RetransmitClient" where
  "request r session_10 start_seq cnt c =
    (if \<not> rx_connected c then (False, c)
     else let buf = request_bytes session_10 start_seq cnt in
       case r of
         Sent n \<Rightarrow> (n = length buf, c\<lparr>rx_out := rx_out c @ [take n buf]\<rparr>)
       | _ \<Rightarrow> (False, c))"

definition disconnect :: "RetransmitClient \<Rightarrow> RetransmitClient" where
  "disconnect c = c\<lparr>rx_connected := False\<rparr>"

text \<open>The packet read, if any, and the return value: none is 0, an error is -1.\<close>

definition client_recv :: "recv_result \<Rightarrow> RetransmitClient \<Rightarrow> int \<times> u8 list \<times> RetransmitClient" where
  "client_recv r c =
    (if \<not> rx_connected c then (-1, [], c)
     else case r of
       RecvAgain \<Rightarrow> (0, [], c)
     | RecvIntr \<Rightarrow> (-1, [], c)
     | RecvError \<Rightarrow> (-1, [], c)
     | Received bs \<Rightarrow>
         let data = take MAX_UDP_PAYLOAD bs in
         if data = [] then (-1, [], disconnect c) else (int (length data), data, c))"

section \<open>Transfers and layout\<close>

text \<open>Whatever partial sends the kernel makes, what goes out is a prefix, the whole on success.\<close>

lemma write_all_prefix:
  "write_all rs bs = Inr (ok, out, rs') \<Longrightarrow> (if ok then out = bs else \<exists>n. out = take n bs)"
proof (induction rs bs arbitrary: ok out rs' rule: write_all.induct)
  case (4 rs b bs)
  then show ?case by (auto intro: exI[of _ 0])
next
  case (5 n rs b bs)
  obtain out' where o: "write_all rs (drop n (b # bs)) = Inr (ok, out', rs')" "out = take n (b # bs) @ out'"
    using 5(2) by auto
  have "if ok then out' = drop n (b # bs) else \<exists>m. out' = take m (drop n (b # bs))"
    by (rule 5(1)[OF o(1)])
  then show ?case
    using o(2) append_take_drop_id[of n "b # bs"] by (auto simp flip: take_add split: if_splits)
qed auto

lemma read_all_length: "read_all rs n = Inr (Some bs, rs') \<Longrightarrow> length bs = n"
proof (induction rs n arbitrary: bs rs' rule: read_all.induct)
  case (6 data rs n)
  show ?case
  proof (cases "data = []")
    case False
    then obtain m where m: "read_all rs (Suc n - length (take (Suc n) data)) = Inr (Some m, rs')"
      "bs = take (Suc n) data @ m"
      using 6(2) by (auto simp: Let_def)
    from 6(1)[OF False refl m(1)] m(2) show ?thesis by simp
  qed (use 6(2) in simp)
qed auto

lemma length_pad_copy [simp]: "length (pad_copy n src fill) = n"
  by (simp add: pad_copy_def)

lemma request_bytes_enc: "request_bytes s q n = take 10 s @ enc_be 8 q @ enc_be 2 n"
  by (simp add: request_bytes_def enc_be_def upt_rec)

end
