(* ===== verification/Recovery_Thread.thy ===== *)
theory Recovery_Thread
  imports Retransmit_Client Packet_Ring Sequence_Tracking
begin

text \<open>
  The recovery thread, \<^verbatim>\<open>src/workers/recovery_thread.cpp\<close>: it polls the gap detector, requests
  the missing packets and puts what comes back into the recovery ring. The clock and the results
  of the system calls are arguments; \<open>None\<close> is a process ended by \<^verbatim>\<open>exit(1)\<close>.
\<close>

section \<open>RecoveryThread\<close>

record RecoveryThread =
  rv_gap_detector :: GapDetector
  rv_inject_ring :: ZeroCopyRing
  rv_stats :: FeedStats
  rv_snapshot_interval_sec :: u32
  rv_session :: "u8 list"
  rv_client :: RetransmitClient
  rv_last_snapshot_ts :: Timestamp

definition RecoveryThread_new ::
  "GapDetector \<Rightarrow> ZeroCopyRing \<Rightarrow> RetransmitClient \<Rightarrow> u32 \<Rightarrow> u8 list option \<Rightarrow> FeedStats \<Rightarrow> RecoveryThread" where
  "RecoveryThread_new gd ring client snapshot_interval_sec session stats =
    \<lparr>rv_gap_detector = gd, rv_inject_ring = ring, rv_stats = stats,
     rv_snapshot_interval_sec = snapshot_interval_sec,
     rv_session = (case session of None \<Rightarrow> replicate 11 0
       | Some s \<Rightarrow> take 10 s @ replicate (11 - min 10 (length s)) 0),
     rv_client = client, rv_last_snapshot_ts = 0\<rparr>"

text \<open>The count of a request, cut to 16 bits.\<close>

definition request_count :: "GapRange \<Rightarrow> u16" where
  "request_count gap =
    (let cnt = gr_end_seq gap - gr_start_seq gap + 1
     in ucast (if 0xFFFF < cnt then 0xFFFF else cnt))"

definition handle_recovery ::
  "Timestamp \<Rightarrow> ConnectCalls \<Rightarrow> ConnectCalls \<Rightarrow> send_result \<Rightarrow> RecoveryThread \<Rightarrow> RecoveryThread option outcome" where
  "handle_recovery now kp ks r rv =
    (if \<not> gd_pending (rv_gap_detector rv) then Inr (Some rv)
     else if \<not> should_request_recovery now (rv_gap_detector rv) then Inr (Some rv)
     else let gap = gd_gap (rv_gap_detector rv) in
       andthen (if rx_connected (rv_client rv) then Inr (Connected, rv_client rv) else connect kp ks (rv_client rv))
         (\<lambda>(res, c1).
           case res of
             Exited \<Rightarrow> Inr None
           | NotConnected \<Rightarrow> Inr (Some (rv\<lparr>rv_client := c1\<rparr>))
           | Connected \<Rightarrow>
               let (_, c2) = request r (rv_session rv) (gr_start_seq gap) (request_count gap) c1
               in Inr (Some (rv\<lparr>rv_client := c2,
                                rv_gap_detector := mark_recovery_sent (rv_gap_detector rv)\<rparr>))))"

text \<open>
  The loop of \<^verbatim>\<open>recv_retransmitted\<close> with the results of its \<^verbatim>\<open>recv\<close> calls and their times. A list
  that ends is a socket with nothing more to read.
\<close>

fun recv_loop :: "nat \<Rightarrow> (recv_result \<times> Timestamp) list \<Rightarrow> RecoveryThread \<Rightarrow> RecoveryThread outcome" where
  "recv_loop 0 rs rv = Inr rv"
| "recv_loop (Suc i) [] rv = Inr rv"
| "recv_loop (Suc i) ((r, now) # rs) rv =
    (let (n, data, c) = client_recv r (rv_client rv); rv1 = rv\<lparr>rv_client := c\<rparr> in
     if n \<le> 0 then Inr rv1
     else andthen (inject_recovered_packet data (of_int n) now (rv_stats rv1) (rv_inject_ring rv1))
       (\<lambda>(_, stats, ring). recv_loop i rs (rv1\<lparr>rv_stats := stats, rv_inject_ring := ring\<rparr>)))"

definition recv_retransmitted :: "(recv_result \<times> Timestamp) list \<Rightarrow> RecoveryThread \<Rightarrow> RecoveryThread outcome" where
  "recv_retransmitted rs rv = (if \<not> rx_connected (rv_client rv) then Inr rv else recv_loop 64 rs rv)"

text \<open>One iteration of \<^verbatim>\<open>run\<close>; the snapshot interval only resets its timer and logs.\<close>

definition recovery_iteration ::
  "Timestamp \<Rightarrow> ConnectCalls \<Rightarrow> ConnectCalls \<Rightarrow> send_result \<Rightarrow> (recv_result \<times> Timestamp) list \<Rightarrow> Timestamp \<Rightarrow>
     RecoveryThread \<Rightarrow> RecoveryThread option outcome" where
  "recovery_iteration now kp ks r rs now2 rv =
    andthen (handle_recovery now kp ks r rv) (\<lambda>res.
      case res of None \<Rightarrow> Inr None
      | Some rv1 \<Rightarrow>
          andthen (recv_retransmitted rs rv1) (\<lambda>rv2.
            Inr (Some (if ucast (rv_snapshot_interval_sec rv2) * 1000000000 < now2 - rv_last_snapshot_ts rv2
                       then rv2\<lparr>rv_last_snapshot_ts := now2\<rparr> else rv2))))"

section \<open>Requests\<close>

lemma request_fields:
  fixes q :: u64 and n :: u16
  assumes "10 \<le> length s"
  defines "d \<equiv> \<lambda>i. request_bytes s q n ! i"
  shows "length (request_bytes s q n) = 20" "take 10 (request_bytes s q n) = take 10 s"
    "be64 d 10 = q" "be16 d 18 = n"
proof -
  note e = request_bytes_enc[of s q n]
  show len: "length (request_bytes s q n) = 20" and "take 10 (request_bytes s q n) = take 10 s"
    using assms(1) by (simp_all add: e)
  have "holds_at d 0 (take 10 s @ enc_be 8 q @ enc_be 2 n)" by (simp add: holds_at_def d_def e)
  then have "holds_at d 10 (enc_be 8 q)" "holds_at d 18 (enc_be 2 n)"
    using assms(1) by (simp_all add: holds_at_append)
  then show "be64 d 10 = q" "be16 d 18 = n" by (simp_all add: be64_enc be16_enc)
qed

lemma request_count_value:
  assumes "gr_end_seq gap - gr_start_seq gap < -1"
  shows "unat (request_count gap) = min (unat (gr_end_seq gap - gr_start_seq gap) + 1) 65535"
proof -
  let ?d = "gr_end_seq gap - gr_start_seq gap"
  have u: "unat (?d + 1) = Suc (unat ?d)" by (rule unat_Suc_below[OF assms])
  show ?thesis
  proof (cases "0xFFFF < ?d + 1")
    case True
    then have "0xFFFF < Suc (unat ?d)" using u by (simp add: word_less_nat_alt)
    then show ?thesis using True by (simp add: request_count_def Let_def)
  next
    case False
    then have "Suc (unat ?d) \<le> 0xFFFF" using u by (simp add: word_less_nat_alt)
    moreover from this have "unat (ucast (?d + 1) :: u16) = Suc (unat ?d)"
      using u by (simp add: unsigned_ucast_eq take_bit_eq_mod)
    ultimately show ?thesis using False by (simp add: request_count_def Let_def)
  qed
qed

lemma handle_recovery_quiet:
  "gr_recovery_sent (gd_gap (rv_gap_detector rv)) \<Longrightarrow> handle_recovery now kp ks r rv = Inr (Some rv)"
  by (simp add: handle_recovery_def should_request_recovery_def)

section \<open>Properties\<close>

text \<open>
  Property C29. When a gap has been pending for the timeout and the client is connected, one
  request goes out: twenty bytes, with the session, the first missing number and the number of
  missing packets, but at most 65535. From then on no further request is sent for this gap
  however often the thread polls; the rest of a larger gap is not requested, and a request that
  the kernel did not take (any result of \<^verbatim>\<open>send\<close>) is not repeated.
\<close>

theorem recovery_requests_once:
  fixes rv
  defines "gap \<equiv> gd_gap (rv_gap_detector rv)"
  assumes "should_request_recovery now (rv_gap_detector rv)" "rx_connected (rv_client rv)"
    "10 \<le> length (rv_session rv)" "gr_end_seq gap - gr_start_seq gap < -1"
  shows "\<exists>rv' buf. handle_recovery now kp ks r rv = Inr (Some rv') \<and>
    rx_out (rv_client rv') = rx_out (rv_client rv) @ (case r of Sent n \<Rightarrow> [take n buf] | _ \<Rightarrow> []) \<and>
    length buf = 20 \<and> take 10 buf = take 10 (rv_session rv) \<and> be64 (\<lambda>i. buf ! i) 10 = gr_start_seq gap \<and>
    unat (be16 (\<lambda>i. buf ! i) 18) = min (unat (gr_end_seq gap - gr_start_seq gap) + 1) 65535 \<and>
    (\<forall>now' kp' ks' r'. handle_recovery now' kp' ks' r' rv' = Inr (Some rv'))"
proof -
  let ?buf = "request_bytes (rv_session rv) (gr_start_seq gap) (request_count gap)"
  obtain ok c where c: "request r (rv_session rv) (gr_start_seq gap) (request_count gap) (rv_client rv) = (ok, c)"
    by force
  let ?rv = "rv\<lparr>rv_client := c, rv_gap_detector := mark_recovery_sent (rv_gap_detector rv)\<rparr>"
  have "gd_pending (rv_gap_detector rv)" using assms(2) by (auto simp: should_request_recovery_def split: if_splits)
  then have "handle_recovery now kp ks r rv = Inr (Some ?rv)"
    using assms(2,3) c by (simp add: handle_recovery_def gap_def Let_def)
  moreover have "rx_out c = rx_out (rv_client rv) @ (case r of Sent n \<Rightarrow> [take n ?buf] | _ \<Rightarrow> [])"
    using c assms(3) by (auto simp: request_def Let_def split: send_result.splits)
  moreover have "handle_recovery now' kp' ks' r' ?rv = Inr (Some ?rv)" for now' kp' ks' r'
    by (rule handle_recovery_quiet) (simp add: mark_recovery_sent_def)
  ultimately show ?thesis
    using request_fields[OF assms(4), of "gr_start_seq gap" "request_count gap"] request_count_value[OF assms(5)]
    by (intro exI[of _ ?rv] exI[of _ ?buf]) simp
qed

definition no_calls :: ConnectCalls where
  "no_calls = \<lparr>cc_socket = False, cc_address = False, cc_connect = False, cc_sends = [], cc_recvs = []\<rparr>"

definition small_recovery :: RecoveryThread where
  "small_recovery = RecoveryThread_new
     (on_gap \<lparr>gi_start_seq = 5, gi_end_seq = 7, gi_detected_at_ns = 0\<rparr> (GapDetector_new 500))
     (ZeroCopyRing_new True)
     ((RetransmitClient_new [] 0 [] 0 \<lparr>rc_username = [], rc_password = [], rc_require_login = False\<rparr>)\<lparr>rx_connected := True\<rparr>)
     60 (Some (replicate 10 0x31)) FeedStats_init"

theorem recovery_requests_once_witness:
  "\<exists>rv' buf. handle_recovery 500000000 no_calls no_calls (Sent 20) small_recovery = Inr (Some rv') \<and>
     rx_out (rv_client rv') = [take 20 buf] \<and> be64 (\<lambda>i. buf ! i) 10 = 5 \<and> unat (be16 (\<lambda>i. buf ! i) 18) = 3"
proof -
  let ?gap = "gd_gap (rv_gap_detector small_recovery)"
  have g: "gr_start_seq ?gap = 5" "gr_end_seq ?gap = 7"
    by (simp_all add: small_recovery_def RecoveryThread_new_def on_gap_def)
  have "should_request_recovery 500000000 (rv_gap_detector small_recovery)" "rx_connected (rv_client small_recovery)"
    "10 \<le> length (rv_session small_recovery)" "gr_end_seq ?gap - gr_start_seq ?gap < -1" "rx_out (rv_client small_recovery) = []"
    unfolding g by (simp_all add: small_recovery_def RecoveryThread_new_def should_request_recovery_def on_gap_def
        GapDetector_new_def RetransmitClient_new_def)
  from recovery_requests_once[OF this(1-4), of no_calls no_calls "Sent 20"] this(5) g show ?thesis by auto
qed

end
