(* ===== verification/Host_Text.thy ===== *)
theory Host_Text
  imports Itch_Prelude
begin

text \<open>
  Text as the program writes it: character bytes, decimal numbers (\<^verbatim>\<open>std::to_string\<close> and the
  conversions of \<^verbatim>\<open>printf\<close>) and their inverse \<^verbatim>\<open>atoi\<close>. A conversion with a width pads with
  spaces, on the right for the flag \<^verbatim>\<open>-\<close>.
\<close>

section \<open>Characters and numbers\<close>

definition bytes_of :: "string \<Rightarrow> u8 list" where "bytes_of s = map of_char s"

text \<open>\<^verbatim>\<open>std::to_string\<close>, \<^verbatim>\<open>%lu\<close> and \<^verbatim>\<open>%u\<close>.\<close>

fun decimal :: "nat \<Rightarrow> u8 list" where
  "decimal n = (if n < 10 then [of_nat (48 + n)] else decimal (n div 10) @ [of_nat (48 + n mod 10)])"

declare decimal.simps [simp del]

definition pad_right :: "nat \<Rightarrow> u8 list \<Rightarrow> u8 list" where
  "pad_right n s = s @ replicate (n - length s) 0x20"

definition pad_left :: "nat \<Rightarrow> u8 list \<Rightarrow> u8 list" where
  "pad_left n s = replicate (n - length s) 0x20 @ s"

text \<open>
  \<^verbatim>\<open>%8.4f\<close> of \<^verbatim>\<open>price / 10000.0\<close> for a price that is not negative. The quotient as a \<^verbatim>\<open>double\<close> is
  closer to the exact one than half of the last digit printed for every price of the wire format,
  so the digits are those of the exact quotient.
\<close>

definition digits4 :: "nat \<Rightarrow> u8 list" where
  "digits4 n = [of_nat (48 + n div 1000 mod 10), of_nat (48 + n div 100 mod 10), of_nat (48 + n div 10 mod 10),
     of_nat (48 + n mod 10)]"

definition fixed4 :: "int \<Rightarrow> u8 list" where
  "fixed4 price = pad_left 8 (decimal (nat price div 10000) @ [0x2E] @ digits4 (nat price mod 10000))"

text \<open>\<^verbatim>\<open>%.8s\<close>: at most eight characters, up to a zero byte.\<close>

definition str8 :: "u8 list \<Rightarrow> u8 list" where
  "str8 s = takeWhile (\<lambda>c. c \<noteq> 0) (take 8 s)"

section \<open>Reading numbers\<close>

definition is_digit :: "u8 \<Rightarrow> bool" where "is_digit c \<longleftrightarrow> 48 \<le> unat c \<and> unat c \<le> 57"

definition digits_value :: "u8 list \<Rightarrow> nat" where
  "digits_value s = foldl (\<lambda>n c. 10 * n + (unat c - 48)) 0 s"

text \<open>\<^verbatim>\<open>atoi\<close> on a string: blanks, a sign, and the digits that follow.\<close>

definition atoi :: "u8 list \<Rightarrow> int" where
  "atoi s =
    (let t = dropWhile (\<lambda>c. c = 0x20 \<or> 9 \<le> unat c \<and> unat c \<le> 13) s;
         neg = (t \<noteq> [] \<and> hd t = 0x2D);
         u = (if t \<noteq> [] \<and> (hd t = 0x2D \<or> hd t = 0x2B) then tl t else t);
         v = int (digits_value (takeWhile is_digit u))
     in if neg then - v else v)"

section \<open>Round trip\<close>

lemma digit_of_nat: "n < 10 \<Longrightarrow> unat (of_nat (48 + n) :: u8) = 48 + n" "n < 10 \<Longrightarrow> is_digit (of_nat (48 + n))"
proof -
  show u: "unat (of_nat (48 + n) :: u8) = 48 + n" if "n < 10"
    using that by (subst unat_of_nat_small) simp_all
  show "is_digit (of_nat (48 + n))" if "n < 10" unfolding is_digit_def u[OF that] using that by simp
qed

lemma decimal_digits: "c \<in> set (decimal n) \<Longrightarrow> is_digit c"
proof (induction n rule: decimal.induct)
  case (1 n)
  show ?case
  proof (cases "n < 10")
    case True
    then show ?thesis using "1.prems" digit_of_nat(2)[of n] by (simp add: decimal.simps[of n] del: of_nat_add)
  next
    case False
    then have "c \<in> set (decimal (n div 10)) \<or> c = of_nat (48 + n mod 10)"
      using "1.prems" by (auto simp: decimal.simps[of n] simp del: of_nat_add)
    then show ?thesis using "1.IH"[OF False] digit_of_nat(2)[of "n mod 10"] by auto
  qed
qed

lemma decimal_value: "digits_value (decimal n) = n"
proof (induction n rule: decimal.induct)
  case (1 n)
  show ?case
  proof (cases "n < 10")
    case True
    then show ?thesis using digit_of_nat(1)[of n] by (simp add: decimal.simps[of n] digits_value_def del: of_nat_add)
  next
    case False
    then show ?thesis
      using "1.IH"[OF False] digit_of_nat(1)[of "n mod 10"]
      by (simp add: decimal.simps[of n] digits_value_def del: of_nat_add)
  qed
qed

lemma decimal_not_Nil [simp]: "decimal n \<noteq> []"
  by (simp add: decimal.simps[of n])

lemma takeWhile_decimal: "r = [] \<or> \<not> is_digit (hd r) \<Longrightarrow> takeWhile is_digit (decimal n @ r) = decimal n"
  using decimal_digits[of _ n] by (cases r) (auto simp: takeWhile_append2)

text \<open>What \<^verbatim>\<open>atoi\<close> reads of a printed number that something other than a digit follows.\<close>

lemma atoi_decimal:
  assumes "r = [] \<or> \<not> is_digit (hd r)"
  shows "atoi (decimal n @ r) = int n"
proof -
  obtain c cs where c: "decimal n = c # cs" by (cases "decimal n") simp_all
  then have d: "is_digit c" using decimal_digits[of c n] by simp
  then have ne: "\<not> (c = 0x20 \<or> 9 \<le> unat c \<and> unat c \<le> 13)" "c \<noteq> 0x2D" "c \<noteq> 0x2B" by (auto simp: is_digit_def)
  have "dropWhile (\<lambda>c. c = 0x20 \<or> 9 \<le> unat c \<and> unat c \<le> 13) (decimal n @ r) = decimal n @ r"
    unfolding c using ne(1) by auto
  moreover have "hd (decimal n @ r) = c" by (simp add: c)
  ultimately show ?thesis
    unfolding atoi_def using ne(2,3) takeWhile_decimal[OF assms, of n] decimal_value[of n] by (simp add: Let_def)
qed

text \<open>A printed number and what follows it determine each other.\<close>

lemma decimal_append_inject:
  assumes "decimal a @ r = decimal b @ s" "r = [] \<or> \<not> is_digit (hd r)" "s = [] \<or> \<not> is_digit (hd s)"
  shows "a = b \<and> r = s"
proof -
  have "decimal a = decimal b" using assms takeWhile_decimal by metis
  then show ?thesis using assms(1) decimal_value by (metis append_same_eq same_append_eq)
qed

end
