(* ===== verification/Book_Snapshot.thy ===== *)
theory Book_Snapshot
  imports Host_Bytes Host_Text Level2_Book
begin

text \<open>
  Book snapshots: \<^verbatim>\<open>Level2Book::serialize_snapshot\<close> and \<^verbatim>\<open>restore_snapshot\<close> of
  \<^verbatim>\<open>src/orderbook/level2_book.cpp\<close>, and the files of \<^verbatim>\<open>src/recovery/book_snapshot.cpp\<close>.

  Paths and file contents are byte lists and the file system is a map; whether a file can be
  opened for writing or renamed, and what of the bytes handed to \<^verbatim>\<open>fwrite\<close> and \<^verbatim>\<open>fprintf\<close> reaches it,
  are arguments (\<open>FileCalls\<close>), as is the clock; the code looks at no result of these two calls. Session names
  have no zero bytes (a path would end there).
\<close>

section \<open>Levels and books as bytes\<close>

definition sizeof_PriceLevel :: nat where "sizeof_PriceLevel = 64"

text \<open>The memory of a \<^verbatim>\<open>PriceLevel\<close>: its padding is zero from its construction on.\<close>

definition level_bytes :: "PriceLevel \<Rightarrow> u8 list" where
  "level_bytes l = le_bytes 8 (word_of_int (pl_price l) :: u64) @ le_bytes 4 (pl_total_qty l) @
     le_bytes 4 (pl_order_count l) @ le_bytes 4 (of_nat (pl_head l) :: u32) @
     le_bytes 4 (of_nat (pl_tail l) :: u32) @ replicate 40 0"

definition level_of_bytes :: "u8 list \<Rightarrow> PriceLevel" where
  "level_of_bytes bs = \<lparr>pl_price = sint (le_word (take 8 bs) :: u64), pl_total_qty = le_word (take 4 (drop 8 bs)),
     pl_order_count = le_word (take 4 (drop 12 bs)), pl_head = unat (le_word (take 4 (drop 16 bs)) :: u32),
     pl_tail = unat (le_word (take 4 (drop 20 bs)) :: u32)\<rparr>"

definition kHeaderSize :: nat where "kHeaderSize = 6"

definition snapshot_size :: "nat \<Rightarrow> nat \<Rightarrow> nat" where
  "snapshot_size bc ac = kHeaderSize + bc * sizeof_PriceLevel + ac * sizeof_PriceLevel"

text \<open>The empty list is the return value 0: the buffer is too small.\<close>

definition serialize_snapshot :: "Level2Book \<Rightarrow> nat \<Rightarrow> u8 list" where
  "serialize_snapshot b buf_size =
    (if buf_size < snapshot_size (lb_bid_count b) (lb_ask_count b) then []
     else le_bytes 2 (lb_locate b) @ le_bytes 2 (of_nat (lb_bid_count b) :: u16) @
          le_bytes 2 (of_nat (lb_ask_count b) :: u16) @
          concat (map level_bytes (take (lb_bid_count b) (lb_bid_levels b))) @
          concat (map level_bytes (take (lb_ask_count b) (lb_ask_levels b))))"

text \<open>\<^verbatim>\<open>memcpy\<close> of \<open>n\<close> levels over the front of the array.\<close>

definition copy_levels :: "nat \<Rightarrow> u8 list \<Rightarrow> PriceLevel list \<Rightarrow> PriceLevel list" where
  "copy_levels n bs levels =
    map (\<lambda>i. level_of_bytes (take sizeof_PriceLevel (drop (i * sizeof_PriceLevel) bs))) [0..<n] @ drop n levels"

definition restore_snapshot :: "u8 list \<Rightarrow> Level2Book \<Rightarrow> bool \<times> Level2Book" where
  "restore_snapshot buf b =
    (if length buf < kHeaderSize then (False, b)
     else let loc = le_word (take 2 buf); bc = unat (le_word (take 2 (drop 2 buf)) :: u16);
              ac = unat (le_word (take 2 (drop 4 buf)) :: u16); p = drop kHeaderSize buf in
       if MAX_PRICE_LEVELS < bc \<or> MAX_PRICE_LEVELS < ac then (False, b)
       else if length buf < snapshot_size bc ac then (False, b)
       else (True, b\<lparr>lb_locate := loc, lb_bid_count := bc, lb_ask_count := ac,
                     lb_bid_levels := copy_levels bc p (lb_bid_levels b),
                     lb_ask_levels := copy_levels ac (drop (bc * sizeof_PriceLevel) p) (lb_ask_levels b)\<rparr>))"

section \<open>Snapshot files\<close>

type_synonym path = "u8 list"
type_synonym file_system = "path \<rightharpoonup> u8 list"

record FileCalls =
  fc_open :: "path \<Rightarrow> bool"
  fc_rename :: "path \<Rightarrow> bool"
  fc_written :: "path \<Rightarrow> u8 list \<Rightarrow> u8 list"

definition snapshot_magic :: u32 where "snapshot_magic = 0x49544348"

text \<open>The loop over the books, with the size of the buffer; it is doubled at most once per book.\<close>

fun write_books :: "nat \<Rightarrow> Level2Book list \<Rightarrow> u8 list" where
  "write_books sz [] = []"
| "write_books sz (b # bs) =
    (let w1 = serialize_snapshot b sz;
         sz' = (if w1 = [] then sz * 2 else sz);
         written = (if w1 = [] then serialize_snapshot b sz' else w1)
     in le_bytes 4 (of_nat (length written) :: u32) @ written @ write_books sz' bs)"

definition snapshot_bytes :: "Level2Book list \<Rightarrow> u8 list" where
  "snapshot_bytes books = le_bytes 4 snapshot_magic @ le_bytes 8 (of_nat (length books) :: u64) @ write_books 4096 books"

definition write_snapshot :: "FileCalls \<Rightarrow> Level2Book list \<Rightarrow> path \<Rightarrow> file_system \<Rightarrow> bool \<times> file_system" where
  "write_snapshot k books final_path fs =
    (let tmp_path = final_path @ bytes_of ''.tmp'' in
     if \<not> fc_open k tmp_path then (False, fs)
     else let fs1 = fs(tmp_path \<mapsto> fc_written k tmp_path (snapshot_bytes books)) in
       if \<not> fc_rename k final_path then (False, fs1)
       else (True, fs1(final_path := fs1 tmp_path, tmp_path := None)))"

text \<open>
  \<^verbatim>\<open>fread\<close> of \<open>n\<close> bytes over the front of a buffer: a short file leaves the rest of the buffer.
\<close>

definition fread_into :: "nat \<Rightarrow> u8 list \<Rightarrow> u8 list \<Rightarrow> u8 list" where
  "fread_into n file buf = take n file @ drop (length (take n file)) buf"

text \<open>The loop over \<open>n\<close> books from index \<open>i\<close>, with the buffer it keeps.\<close>

fun read_books :: "nat \<Rightarrow> nat \<Rightarrow> u8 list \<Rightarrow> u8 list \<Rightarrow> Level2Book list \<Rightarrow> Level2Book list" where
  "read_books 0 i file buf books = books"
| "read_books (Suc n) i file buf books =
    (let len = unat (le_word (fread_into 4 file (replicate 4 0)) :: u32);
         file1 = drop 4 file;
         buf1 = (if length buf < len then buf @ replicate (len - length buf) 0 else buf);
         buf2 = fread_into len file1 buf1
     in read_books n (i + 1) (drop len file1) buf2
          (books[i := snd (restore_snapshot (take len buf2) (books ! i))]))"

definition read_snapshot :: "path \<Rightarrow> file_system \<Rightarrow> Level2Book list \<Rightarrow> bool \<times> Level2Book list" where
  "read_snapshot p fs books =
    (case fs p of None \<Rightarrow> (False, books)
     | Some file \<Rightarrow>
         if (le_word (fread_into 4 file (replicate 4 0)) :: u32) \<noteq> snapshot_magic then (False, books)
         else let saved_count = unat (le_word (fread_into 8 (drop 4 file) (replicate 8 0)) :: u64)
              in (True, read_books (min saved_count (length books)) 0 (drop 12 file) (replicate 4096 0) books))"

section \<open>Paths and pointers\<close>

text \<open>\<open>char\<close> arrays of ten characters; trailing spaces go.\<close>

definition trim_session :: "u8 list \<Rightarrow> u8 list" where
  "trim_session s10 = rev (dropWhile (\<lambda>c. c = 0x20) (rev (take 10 s10)))"

function replace_token :: "u8 list \<Rightarrow> u8 list \<Rightarrow> u8 list \<Rightarrow> u8 list" where
  "replace_token s token value =
    (if s = [] then []
     else if token \<noteq> [] \<and> take (length token) s = token
     then value @ replace_token (drop (length token) s) token value
     else hd s # replace_token (tl s) token value)"
  by pat_completeness auto
termination by (relation "measure (\<lambda>(s, _, _). length s)") auto

declare replace_token.simps [simp del]

text \<open>The text before and after the last dot.\<close>

definition insert_suffix :: "path \<Rightarrow> u8 list \<Rightarrow> path" where
  "insert_suffix p suffix =
    (if 0x2E \<notin> set p then p @ suffix
     else let ext = takeWhile (\<lambda>c. c \<noteq> 0x2E) (rev p); dot = length p - length ext - 1
          in take dot p @ suffix @ drop dot p)"

record BookSnapshot =
  sn_dir :: path
  sn_tmpl :: "u8 list"

definition make_path :: "u64 \<Rightarrow> BookSnapshot \<Rightarrow> u8 list \<Rightarrow> path" where
  "make_path ts sn session_10 =
    (let filename = replace_token (sn_tmpl sn) (bytes_of ''{session}'') (trim_session session_10);
         filename2 = replace_token filename (bytes_of ''{timestamp}'') (decimal (unat ts))
     in sn_dir sn @ bytes_of ''/'' @ filename2)"

definition latest_ptr_path :: "BookSnapshot \<Rightarrow> path" where
  "latest_ptr_path sn = sn_dir sn @ bytes_of ''/latest.ptr''"

definition latest_eod_ptr_path :: "BookSnapshot \<Rightarrow> path" where
  "latest_eod_ptr_path sn = sn_dir sn @ bytes_of ''/latest_eod.ptr''"

definition read_ptr_file :: "path \<Rightarrow> file_system \<Rightarrow> path" where
  "read_ptr_file ptr_path fs =
    (case fs ptr_path of None \<Rightarrow> []
     | Some f \<Rightarrow> rev (dropWhile (\<lambda>c. c = 0x0A \<or> c = 0x0D) (rev (take 4095 f))))"

definition write_ptr_file :: "FileCalls \<Rightarrow> path \<Rightarrow> path \<Rightarrow> file_system \<Rightarrow> bool \<times> file_system" where
  "write_ptr_file k ptr_path snap_path fs =
    (let tmp = ptr_path @ bytes_of ''.tmp'' in
     if \<not> fc_open k tmp then (False, fs)
     else let fs1 = fs(tmp \<mapsto> fc_written k tmp (snap_path @ [0x0A])) in
       if \<not> fc_rename k ptr_path then (False, fs1)
       else (True, fs1(ptr_path := fs1 tmp, tmp := None)))"

definition save :: "FileCalls \<Rightarrow> u64 \<Rightarrow> BookSnapshot \<Rightarrow> Level2Book list \<Rightarrow> u8 list \<Rightarrow> file_system \<Rightarrow> bool \<times> file_system" where
  "save k ts sn books session_10 fs =
    (let final_path = make_path ts sn session_10; (ok, fs1) = write_snapshot k books final_path fs in
     if \<not> ok then (False, fs1)
     else (True, snd (write_ptr_file k (latest_ptr_path sn) final_path fs1)))"

definition save_eod :: "FileCalls \<Rightarrow> u64 \<Rightarrow> BookSnapshot \<Rightarrow> Level2Book list \<Rightarrow> u8 list \<Rightarrow> file_system \<Rightarrow> bool \<times> file_system" where
  "save_eod k ts sn books session_10 fs =
    (let final_path = insert_suffix (make_path ts sn session_10) (bytes_of ''_EOD'');
         (ok, fs1) = write_snapshot k books final_path fs in
     if \<not> ok then (False, fs1)
     else let fs2 = snd (write_ptr_file k (latest_ptr_path sn) final_path fs1)
          in (True, snd (write_ptr_file k (latest_eod_ptr_path sn) final_path fs2)))"

definition snapshot_load :: "BookSnapshot \<Rightarrow> file_system \<Rightarrow> Level2Book list \<Rightarrow> bool \<times> Level2Book list" where
  "snapshot_load sn fs books =
    (let p = read_ptr_file (latest_ptr_path sn) fs in
     if p = [] then (False, books) else read_snapshot p fs books)"

definition load_eod :: "BookSnapshot \<Rightarrow> file_system \<Rightarrow> Level2Book list \<Rightarrow> bool \<times> Level2Book list" where
  "load_eod sn fs books =
    (let p = read_ptr_file (latest_eod_ptr_path sn) fs in
     if p = [] then (False, books) else read_snapshot p fs books)"

section \<open>Round trip of a book\<close>

definition level_storable :: "PriceLevel \<Rightarrow> bool" where
  "level_storable l \<longleftrightarrow> - (2 ^ 63) \<le> pl_price l \<and> pl_price l < 2 ^ 63 \<and> pl_head l < 2 ^ 32 \<and> pl_tail l < 2 ^ 32"

definition book_ok :: "Level2Book \<Rightarrow> bool" where
  "book_ok b \<longleftrightarrow> lb_bid_count b \<le> MAX_PRICE_LEVELS \<and> lb_ask_count b \<le> MAX_PRICE_LEVELS \<and>
     length (lb_bid_levels b) = MAX_PRICE_LEVELS \<and> length (lb_ask_levels b) = MAX_PRICE_LEVELS \<and>
     (\<forall>l \<in> set (take (lb_bid_count b) (lb_bid_levels b)) \<union> set (take (lb_ask_count b) (lb_ask_levels b)). level_storable l)"

text \<open>The book \<open>t\<close> after the snapshot of \<open>b\<close>: the active levels of \<open>b\<close>, the rest of \<open>t\<close>.\<close>

definition restored :: "Level2Book \<Rightarrow> Level2Book \<Rightarrow> Level2Book" where
  "restored t b = t\<lparr>lb_locate := lb_locate b, lb_bid_count := lb_bid_count b, lb_ask_count := lb_ask_count b,
     lb_bid_levels := take (lb_bid_count b) (lb_bid_levels b) @ drop (lb_bid_count b) (lb_bid_levels t),
     lb_ask_levels := take (lb_ask_count b) (lb_ask_levels b) @ drop (lb_ask_count b) (lb_ask_levels t)\<rparr>"

lemma length_level_bytes [simp]: "length (level_bytes l) = 64"
  by (simp add: level_bytes_def)

lemma sint_word_of_int_u64: "- (2 ^ 63) \<le> i \<Longrightarrow> i < 2 ^ 63 \<Longrightarrow> sint (word_of_int i :: u64) = i"
  by (simp add: sint_sbintrunc' signed_take_bit_int_eq_self)

lemma level_roundtrip: "level_storable l \<Longrightarrow> level_of_bytes (level_bytes l) = l"
  by (simp add: level_of_bytes_def level_bytes_def level_storable_def sint_word_of_int_u64 unat_of_nat)

lemma nth_level_bytes:
  "i < length ls \<Longrightarrow> take 64 (drop (i * 64) (concat (map level_bytes ls) @ rest)) = level_bytes (ls ! i)"
proof (induction ls arbitrary: i)
  case (Cons l ls)
  show ?case
  proof (cases i)
    case (Suc j)
    then have "drop (i * 64) (concat (map level_bytes (l # ls)) @ rest) = drop (j * 64) (concat (map level_bytes ls) @ rest)"
      by (simp add: add.commute flip: drop_drop)
    then show ?thesis using Cons Suc by simp
  qed simp
qed simp

lemma copy_levels_concat:
  assumes "\<And>l. l \<in> set ls \<Longrightarrow> level_storable l"
  shows "copy_levels (length ls) (concat (map level_bytes ls) @ rest) levels = ls @ drop (length ls) levels"
proof -
  have "map (\<lambda>i. level_of_bytes (take 64 (drop (i * 64) (concat (map level_bytes ls) @ rest)))) [0..<length ls] =
      map (\<lambda>i. ls ! i) [0..<length ls]"
    using assms by (intro map_cong) (simp_all only: nth_level_bytes level_roundtrip nth_mem set_upt atLeastLessThan_iff)
  then show ?thesis by (simp add: copy_levels_def sizeof_PriceLevel_def map_nth)
qed

lemma length_concat_levels [simp]: "length (concat (map level_bytes ls)) = length ls * 64"
  by (induction ls) simp_all

definition book_size :: "Level2Book \<Rightarrow> nat" where
  "book_size b = snapshot_size (lb_bid_count b) (lb_ask_count b)"

definition book_bytes :: "Level2Book \<Rightarrow> u8 list" where "book_bytes b = serialize_snapshot b (book_size b)"

lemma serialize_fits: "book_size b \<le> n \<Longrightarrow> serialize_snapshot b n = book_bytes b"
  by (simp add: book_bytes_def serialize_snapshot_def book_size_def)

lemma serialize_too_big: "n < book_size b \<Longrightarrow> serialize_snapshot b n = []"
  by (simp add: serialize_snapshot_def book_size_def)

lemma length_book_bytes: "book_ok b \<Longrightarrow> length (book_bytes b) = book_size b"
  by (simp add: book_bytes_def serialize_snapshot_def book_size_def snapshot_size_def kHeaderSize_def
      sizeof_PriceLevel_def book_ok_def)

lemma restore_book_bytes:
  assumes "book_ok b"
  shows "restore_snapshot (book_bytes b) t = (True, restored t b)"
proof -
  let ?bl = "take (lb_bid_count b) (lb_bid_levels b)" and ?al = "take (lb_ask_count b) (lb_ask_levels b)"
  have cnt: "length ?bl = lb_bid_count b" "length ?al = lb_ask_count b" "lb_bid_count b < 2 ^ 16" "lb_ask_count b < 2 ^ 16"
    using assms by (simp_all add: book_ok_def MAX_PRICE_LEVELS_def)
  have bytes: "book_bytes b = le_bytes 2 (lb_locate b) @ le_bytes 2 (of_nat (lb_bid_count b) :: u16) @
      le_bytes 2 (of_nat (lb_ask_count b) :: u16) @ concat (map level_bytes ?bl) @ concat (map level_bytes ?al)"
    by (simp add: book_bytes_def serialize_snapshot_def book_size_def)
  have lv: "copy_levels (lb_bid_count b) (concat (map level_bytes ?bl) @ concat (map level_bytes ?al)) (lb_bid_levels t) =
      ?bl @ drop (lb_bid_count b) (lb_bid_levels t)"
    "copy_levels (lb_ask_count b) (concat (map level_bytes ?al)) (lb_ask_levels t) = ?al @ drop (lb_ask_count b) (lb_ask_levels t)"
    using copy_levels_concat[of ?bl "concat (map level_bytes ?al)" "lb_bid_levels t"]
      copy_levels_concat[of ?al "[]" "lb_ask_levels t"] assms cnt(1,2)
    by (simp_all add: book_ok_def)
  have len: "length (book_bytes b) = snapshot_size (lb_bid_count b) (lb_ask_count b)"
    using length_book_bytes[OF assms] by (simp add: book_size_def)
  have u: "unat (of_nat (lb_bid_count b) :: u16) = lb_bid_count b" "unat (of_nat (lb_ask_count b) :: u16) = lb_ask_count b"
    using cnt(3,4) by (simp_all add: unat_of_nat)
  have d: "drop (lb_bid_count b * 64) (concat (map level_bytes ?bl) @ concat (map level_bytes ?al)) = concat (map level_bytes ?al)"
    using cnt(1) by simp
  have parts: "take 2 (book_bytes b) = le_bytes 2 (lb_locate b)"
    "take 2 (drop 2 (book_bytes b)) = le_bytes 2 (of_nat (lb_bid_count b) :: u16)"
    "take 2 (drop 4 (book_bytes b)) = le_bytes 2 (of_nat (lb_ask_count b) :: u16)"
    "drop kHeaderSize (book_bytes b) = concat (map level_bytes ?bl) @ concat (map level_bytes ?al)"
    by (simp_all add: bytes kHeaderSize_def)
  show ?thesis
    unfolding restore_snapshot_def parts len Let_def
    using assms by (simp add: u lv d restored_def book_ok_def sizeof_PriceLevel_def snapshot_size_def kHeaderSize_def)
qed

section \<open>Round trip of a file\<close>

definition framed :: "Level2Book \<Rightarrow> u8 list" where
  "framed b = le_bytes 4 (of_nat (length (book_bytes b)) :: u32) @ book_bytes b"

text \<open>A buffer of 4096 bytes is doubled once for a book of up to 8192.\<close>

lemma write_books_fit:
  assumes "4096 \<le> sz" "\<And>b. b \<in> set books \<Longrightarrow> book_size b \<le> 8192"
  shows "write_books sz books = concat (map framed books)"
  using assms
proof (induction books arbitrary: sz)
  case (Cons b bs)
  have nonempty: "book_bytes b \<noteq> []" by (simp add: book_bytes_def serialize_snapshot_def book_size_def le_bytes_def)
  show ?case
  proof (cases "book_size b \<le> sz")
    case True
    then show ?thesis using Cons nonempty by (simp add: serialize_fits framed_def Let_def)
  next
    case False
    moreover have "book_size b \<le> 8192" using Cons.prems(2) by simp
    ultimately have "book_size b \<le> sz * 2" using Cons.prems(1) by linarith
    then show ?thesis using Cons False by (simp add: serialize_fits serialize_too_big framed_def Let_def)
  qed
qed simp

lemma fread_into_append [simp]: "n = length xs \<Longrightarrow> fread_into n (xs @ ys) buf = xs @ drop n buf"
  by (simp add: fread_into_def)

lemma read_books_framed:
  assumes "\<And>b. b \<in> set saved \<Longrightarrow> book_ok b \<and> book_size b < 2 ^ 32" "i + length saved \<le> length books"
  shows "read_books (length saved) i (concat (map framed saved) @ rest) buf books =
    take i books @ map2 restored (drop i books) saved @ drop (i + length saved) books"
  using assms
proof (induction saved arbitrary: i buf books)
  case Nil
  then show ?case by simp
next
  case (Cons b saved)
  let ?B = "book_bytes b"
  have b: "book_ok b" "length ?B < 2 ^ 32" using Cons.prems(1) length_book_bytes by simp_all
  have u: "unat (of_nat (length ?B) :: u32) = length ?B" using b(2) by (simp add: unat_of_nat)
  have i: "i < length books" using Cons.prems(2) by simp
  have "read_books (length (b # saved)) i (concat (map framed (b # saved)) @ rest) buf books =
      read_books (length saved) (i + 1) (concat (map framed saved) @ rest)
        (?B @ drop (length ?B) (if length buf < length ?B then buf @ replicate (length ?B - length buf) 0 else buf))
        (books[i := restored (books ! i) b])"
    using restore_book_bytes[OF b(1), of "books ! i"] u by (simp add: framed_def Let_def)
  also have "\<dots> = take (i + 1) (books[i := restored (books ! i) b]) @
      map2 restored (drop (i + 1) (books[i := restored (books ! i) b])) saved @
      drop (i + 1 + length saved) (books[i := restored (books ! i) b])"
    using Cons.IH[of "i + 1" "books[i := restored (books ! i) b]"] Cons.prems by simp
  also have "\<dots> = take i books @ map2 restored (drop i books) (b # saved) @ drop (i + length (b # saved)) books"
    using i by (simp add: take_Suc_conv_app_nth flip: Cons_nth_drop_Suc)
  finally show ?case .
qed

lemma read_snapshot_bytes:
  assumes "\<And>b. b \<in> set saved \<Longrightarrow> book_ok b \<and> book_size b \<le> 8192" "length saved < 2 ^ 64" "length books = length saved"
    "fs p = Some (snapshot_bytes saved)"
  shows "read_snapshot p fs books = (True, map2 restored books saved)"
proof -
  have s: "snapshot_bytes saved = le_bytes 4 snapshot_magic @ le_bytes 8 (of_nat (length saved) :: u64) @ concat (map framed saved)"
    using write_books_fit[of 4096 saved] assms(1) by (simp add: snapshot_bytes_def)
  have u: "unat (of_nat (length saved) :: u64) = length saved" using assms(2) by (simp add: unat_of_nat)
  have "read_books (length saved) 0 (concat (map framed saved) @ []) (replicate 4096 0) books = map2 restored books saved"
    by (subst read_books_framed) (use assms(1,3) in \<open>force+\<close>)
  then show ?thesis using assms(3,4) by (simp add: read_snapshot_def s u Let_def)
qed

text \<open>All calls succeed and every byte is written.\<close>

definition calls_ok :: "FileCalls \<Rightarrow> bool" where
  "calls_ok k \<longleftrightarrow> (\<forall>p. fc_open k p \<and> fc_rename k p \<and> (\<forall>bs. fc_written k p bs = bs))"

lemma write_snapshot_file:
  assumes "calls_ok k"
  shows "write_snapshot k books p fs =
    (True, fs(p \<mapsto> snapshot_bytes books, p @ bytes_of ''.tmp'' := None))"
  using assms by (simp add: write_snapshot_def calls_ok_def Let_def bytes_of_def)

lemma write_ptr_file_read:
  assumes "calls_ok k" "length q < 4095" "q = [] \<or> last q \<noteq> 0x0A \<and> last q \<noteq> 0x0D"
  shows "read_ptr_file ptr (snd (write_ptr_file k ptr q fs)) = q"
    "r \<noteq> ptr \<Longrightarrow> r \<noteq> ptr @ bytes_of ''.tmp'' \<Longrightarrow> snd (write_ptr_file k ptr q fs) r = fs r"
proof -
  have w: "snd (write_ptr_file k ptr q fs) = fs(ptr \<mapsto> q @ [0x0A], ptr @ bytes_of ''.tmp'' := None)"
    using assms(1) by (simp add: write_ptr_file_def calls_ok_def Let_def bytes_of_def fun_upd_twist)
  show "read_ptr_file ptr (snd (write_ptr_file k ptr q fs)) = q"
    unfolding w using assms(2,3) by (cases q rule: rev_cases) (auto simp: read_ptr_file_def bytes_of_def)
  show "r \<noteq> ptr \<Longrightarrow> r \<noteq> ptr @ bytes_of ''.tmp'' \<Longrightarrow> snd (write_ptr_file k ptr q fs) r = fs r"
    by (simp add: w)
qed

section \<open>Properties\<close>

text \<open>
  Property C30. The end-of-day archive of books with at most 127 levels each can be read back, when
  every byte of it and of the pointer files is written and all calls succeed: after \<^verbatim>\<open>save_eod\<close>, \<^verbatim>\<open>load_eod\<close> finds the file through the pointer file and gives every book the
  locate code, the counts and the active levels of the saved one; the slots behind them and the
  trading status stay what they were. The file of the snapshot is none of the pointer files, and
  its path ends in no line break and fits the buffer of the reader.
\<close>

theorem eod_snapshot_roundtrip:
  fixes k ts sn session fs
  defines "p \<equiv> insert_suffix (make_path ts sn session) (bytes_of ''_EOD'')"
  assumes "calls_ok k"
    "\<And>b. b \<in> set saved \<Longrightarrow> book_ok b \<and> lb_bid_count b + lb_ask_count b \<le> 127"
    "length saved < 2 ^ 64" "length books = length saved"
    "p \<notin> {latest_ptr_path sn, latest_ptr_path sn @ bytes_of ''.tmp'', latest_eod_ptr_path sn,
       latest_eod_ptr_path sn @ bytes_of ''.tmp''}"
    "p \<noteq> []" "last p \<noteq> 0x0A" "last p \<noteq> 0x0D" "length p < 4095"
  shows "\<exists>fs'. save_eod k ts sn saved session fs = (True, fs') \<and>
    load_eod sn fs' books = (True, map2 restored books saved)"
proof -
  define fs1 where "fs1 = snd (write_snapshot k saved p fs)"
  define fs2 where "fs2 = snd (write_ptr_file k (latest_ptr_path sn) p fs1)"
  define fs3 where "fs3 = snd (write_ptr_file k (latest_eod_ptr_path sn) p fs2)"
  have w: "write_snapshot k saved p fs = (True, fs1)"
    using write_snapshot_file[OF assms(2)] by (simp add: fs1_def)
  then have save: "save_eod k ts sn saved session fs = (True, fs3)"
    by (simp add: save_eod_def p_def[symmetric] fs2_def fs3_def Let_def)
  note ptr = write_ptr_file_read[OF assms(2,10), of, OF disjI2, OF conjI, OF assms(8,9)]
  have "fs1 p = Some (snapshot_bytes saved)"
    using write_snapshot_file[OF assms(2), of saved p fs] by (simp add: fs1_def bytes_of_def)
  then have f: "fs3 p = Some (snapshot_bytes saved)" using ptr(2) assms(6) by (simp add: fs2_def fs3_def)
  have q: "read_ptr_file (latest_eod_ptr_path sn) fs3 = p" unfolding fs3_def by (rule ptr(1))
  have fit: "book_ok b \<and> book_size b \<le> 8192" if "b \<in> set saved" for b
    using assms(3)[OF that] by (simp add: book_size_def snapshot_size_def kHeaderSize_def sizeof_PriceLevel_def)
  have "read_snapshot p fs3 books = (True, map2 restored books saved)"
    by (rule read_snapshot_bytes[where fs = fs3 and p = p, OF fit assms(4,5) f])
  then show ?thesis using save q assms(7) by (simp add: load_eod_def Let_def)
qed

definition small_snapshot :: BookSnapshot where
  "small_snapshot = \<lparr>sn_dir = bytes_of ''/d'', sn_tmpl = bytes_of ''{session}.snap''\<rparr>"

lemma small_path:
  "insert_suffix (make_path 7 small_snapshot (bytes_of ''AB        '')) (bytes_of ''_EOD'') = bytes_of ''/d/AB_EOD.snap''"
  by code_simp

text \<open>A book with one bid level of two orders.\<close>

definition small_level :: PriceLevel where
  "small_level = \<lparr>pl_price = 100, pl_total_qty = 15, pl_order_count = 2, pl_head = 0, pl_tail = 1\<rparr>"

definition small_book :: "LocateCode \<Rightarrow> Level2Book" where
  "small_book loc = (let b = Level2Book_new loc
     in b\<lparr>lb_bid_levels := (lb_bid_levels b)[0 := small_level], lb_bid_count := 1\<rparr>)"

lemma small_book_ok:
  "book_ok (small_book loc)" "lb_bid_count (small_book loc) + lb_ask_count (small_book loc) = 1"
  "take 1 (lb_bid_levels (small_book loc)) = [small_level]"
  by (auto simp: book_ok_def small_book_def small_level_def level_storable_def Level2Book_new_def
      MAX_PRICE_LEVELS_def take_Suc Let_def hd_conv_nth)

definition good_calls :: FileCalls where
  "good_calls = \<lparr>fc_open = (\<lambda>_. True), fc_rename = (\<lambda>_. True), fc_written = (\<lambda>_ bs. bs)\<rparr>"

theorem eod_snapshot_roundtrip_witness:
  "\<exists>fs' b. save_eod good_calls 7 small_snapshot [small_book 3] (bytes_of ''AB        '') Map.empty = (True, fs') \<and>
    load_eod small_snapshot fs' [Level2Book_new 9] = (True, [b]) \<and> lb_locate b = 3 \<and>
    take (lb_bid_count b) (lb_bid_levels b) = [small_level]"
proof -
  have "\<exists>fs'. save_eod good_calls 7 small_snapshot [small_book 3] (bytes_of ''AB        '') Map.empty = (True, fs') \<and>
    load_eod small_snapshot fs' [Level2Book_new 9] = (True, map2 restored [Level2Book_new 9] [small_book 3])"
    by (rule eod_snapshot_roundtrip[of good_calls "[small_book 3]" "[Level2Book_new 9]" 7 small_snapshot
          "bytes_of ''AB        ''" Map.empty, unfolded small_path])
      (use small_book_ok(1,2) in \<open>simp_all add: good_calls_def calls_ok_def small_snapshot_def latest_ptr_path_def
        latest_eod_ptr_path_def bytes_of_def\<close>)
  moreover have "lb_locate (restored (Level2Book_new 9) (small_book 3)) = 3"
    "lb_bid_count (restored (Level2Book_new 9) (small_book 3)) = 1"
    "take 1 (lb_bid_levels (restored (Level2Book_new 9) (small_book 3))) = [small_level]"
    using small_book_ok(3)[of 3] by (simp_all add: restored_def small_book_def Level2Book_new_def Let_def)
  ultimately show ?thesis by auto
qed

text \<open>
  The results of \<^verbatim>\<open>fwrite\<close> and \<^verbatim>\<open>fclose\<close> are not looked at. When the disk is full, so that nothing
  of the archive reaches the file, \<^verbatim>\<open>save_eod\<close> moves the empty file into its place and reports success,
  and it cannot be loaded.
\<close>

theorem unwritten_snapshot_reported_saved:
  assumes "\<forall>q. fc_open k q \<and> fc_rename k q" "\<forall>bs. fc_written k (p @ bytes_of ''.tmp'') bs = []"
    "p = insert_suffix (make_path ts sn session) (bytes_of ''_EOD'')"
  shows "fst (save_eod k ts sn saved session fs) \<and>
    read_snapshot p (snd (write_snapshot k saved p fs)) books = (False, books)"
proof -
  have "snd (write_snapshot k saved p fs) p = Some []"
    using assms(1,2) by (simp add: write_snapshot_def Let_def bytes_of_def)
  moreover have "(le_word (fread_into 4 [] (replicate 4 0)) :: u32) \<noteq> snapshot_magic" by code_simp
  ultimately show ?thesis
    using assms by (simp add: save_eod_def write_snapshot_def read_snapshot_def Let_def)
qed

theorem unwritten_snapshot_reported_saved_witness:
  "fst (save_eod (good_calls\<lparr>fc_written := (\<lambda>_ _. [])\<rparr>) 7 small_snapshot [small_book 3] (bytes_of ''AB        '') Map.empty)"
  using unwritten_snapshot_reported_saved[of "good_calls\<lparr>fc_written := (\<lambda>_ _. [])\<rparr>" _ 7 small_snapshot
      "bytes_of ''AB        ''" "[small_book 3]" Map.empty "[]", OF _ _ refl]
  by (simp add: good_calls_def)

text \<open>
  A first book with more than 127 levels does not fit the doubled buffer: it is written as an
  empty record, and loading the file reports success without restoring it.
\<close>

theorem big_book_not_saved:
  assumes "127 < lb_bid_count b + lb_ask_count b" "fs p = Some (snapshot_bytes [b])"
  shows "read_snapshot p fs [t] = (True, [t])"
proof -
  have "8192 < book_size b"
    using assms(1) by (simp add: book_size_def snapshot_size_def kHeaderSize_def sizeof_PriceLevel_def)
  then have "snapshot_bytes [b] = le_bytes 4 snapshot_magic @ le_bytes 8 (1 :: u64) @ le_bytes 4 (0 :: u32)"
    by (simp add: snapshot_bytes_def serialize_too_big)
  moreover have "fread_into 4 (le_bytes 4 (0 :: u32)) buf = le_bytes 4 (0 :: u32) @ drop 4 buf" for buf
    using fread_into_append[of 4 "le_bytes 4 (0 :: u32)" "[]"] by simp
  ultimately show ?thesis
    using assms(2) by (simp add: read_snapshot_def restore_snapshot_def kHeaderSize_def Let_def)
qed

theorem big_book_not_saved_witness:
  "read_snapshot [] (Map.empty([] \<mapsto> snapshot_bytes [(Level2Book_new 3)\<lparr>lb_bid_count := 128\<rparr>])) [Level2Book_new 9] =
    (True, [Level2Book_new 9])"
  by (rule big_book_not_saved) simp_all

end
