(* ===== verification/Feed_Handler.thy ===== *)
theory Feed_Handler
  imports Complex_Main Shard_Worker Parser_Thread Recovery_Thread Book_Snapshot
begin

text \<open>
  The orchestrator, \<^verbatim>\<open>src/app/feed_handler.cpp\<close>: the configuration and the construction of all
  parts. The TOML library is not part of the repository: \<open>TomlTable\<close> holds what its accessors
  return for a section and a key, \<open>None\<close> where the section is no table or the value has no such
  type. Whether an allocation or a socket succeeds and the content of new memory are arguments
  (\<open>InitCalls\<close>). An object several threads share appears in the record of each of them.
\<close>

section \<open>Configuration\<close>

record TomlTable =
  tt_string :: "string \<Rightarrow> string \<Rightarrow> u8 list option"
  tt_int :: "string \<Rightarrow> string \<Rightarrow> int option"
  tt_bool :: "string \<Rightarrow> string \<Rightarrow> bool option"
  tt_double :: "string \<Rightarrow> string \<Rightarrow> rat option"
  tt_int_array :: "string \<Rightarrow> string \<Rightarrow> int option list option"
  tt_string_array :: "string \<Rightarrow> string \<Rightarrow> u8 list option list option"

record FeedHandlerConfig =
  cf_multicast_group :: "u8 list"
  cf_port :: u16
  cf_interface :: "u8 list"
  cf_multicast_group_secondary :: "u8 list"
  cf_port_secondary :: u16
  cf_interface_secondary :: "u8 list"
  cf_failover_timeout_ms :: u64
  cf_receiver_core :: int
  cf_parser_core :: int
  cf_shard_cores :: "int list"
  cf_recovery_core :: int
  cf_merger_core :: int
  cf_report_interval_sec :: u32
  cf_gap_timeout_ms :: u64
  cf_snapshot_interval_sec :: u32
  cf_retransmit_address :: "u8 list"
  cf_retransmit_port :: u16
  cf_retransmit_address_secondary :: "u8 list"
  cf_retransmit_port_secondary :: u16
  cf_retransmit_username :: "u8 list"
  cf_retransmit_password :: "u8 list"
  cf_require_login :: bool
  cf_snapshot_dir :: "u8 list"
  cf_snapshot_filename_template :: "u8 list"
  cf_initial_session :: "u8 list"
  cf_eod_archive_enabled :: bool
  cf_watched_symbols :: "u8 list list"
  cf_last_sequence_dir :: "u8 list"
  cf_queue_full_alert_threshold :: rat

definition FeedHandlerConfig_init :: FeedHandlerConfig where
  "FeedHandlerConfig_init =
    \<lparr>cf_multicast_group = bytes_of ''233.54.12.111'', cf_port = 26477, cf_interface = bytes_of ''0.0.0.0'',
     cf_multicast_group_secondary = [], cf_port_secondary = 0, cf_interface_secondary = bytes_of ''0.0.0.0'',
     cf_failover_timeout_ms = 5000, cf_receiver_core = 1, cf_parser_core = 2,
     cf_shard_cores = [3, 4, 5, 6, 7, 8, 9, 10], cf_recovery_core = 11, cf_merger_core = 12,
     cf_report_interval_sec = 10, cf_gap_timeout_ms = 500, cf_snapshot_interval_sec = 60,
     cf_retransmit_address = bytes_of ''198.51.100.1'', cf_retransmit_port = 17001,
     cf_retransmit_address_secondary = [], cf_retransmit_port_secondary = 0,
     cf_retransmit_username = [], cf_retransmit_password = [], cf_require_login = False,
     cf_snapshot_dir = bytes_of ''/var/lib/itch/snapshots'',
     cf_snapshot_filename_template = bytes_of ''itch_{session}_{timestamp}.snap'',
     cf_initial_session = AUTO_DETECT, cf_eod_archive_enabled = True, cf_watched_symbols = [],
     cf_last_sequence_dir = bytes_of ''/var/lib/itch'', cf_queue_full_alert_threshold = 4 / 5\<rparr>"

text \<open>\<^verbatim>\<open>if (auto v = ...) cfg.field = *v;\<close> and the casts from \<^verbatim>\<open>int64_t\<close>.\<close>

definition set_opt :: "'a option \<Rightarrow> ('a \<Rightarrow> 'c \<Rightarrow> 'c) \<Rightarrow> 'c \<Rightarrow> 'c" where
  "set_opt v f cfg = (case v of None \<Rightarrow> cfg | Some x \<Rightarrow> f x cfg)"

definition to_int :: "int \<Rightarrow> int" where "to_int v = sint (word_of_int v :: 32 word)"

definition load_network :: "TomlTable \<Rightarrow> FeedHandlerConfig \<Rightarrow> FeedHandlerConfig" where
  "load_network t =
    set_opt (tt_int t ''network'' ''failover_timeout_ms'') (\<lambda>v c. c\<lparr>cf_failover_timeout_ms := word_of_int v\<rparr>) \<circ>
    set_opt (tt_string t ''network'' ''interface_secondary'') (\<lambda>v c. c\<lparr>cf_interface_secondary := v\<rparr>) \<circ>
    set_opt (tt_int t ''network'' ''port_secondary'') (\<lambda>v c. c\<lparr>cf_port_secondary := word_of_int v\<rparr>) \<circ>
    set_opt (tt_string t ''network'' ''multicast_group_secondary'') (\<lambda>v c. c\<lparr>cf_multicast_group_secondary := v\<rparr>) \<circ>
    set_opt (tt_string t ''network'' ''interface'') (\<lambda>v c. c\<lparr>cf_interface := v\<rparr>) \<circ>
    set_opt (tt_int t ''network'' ''port'') (\<lambda>v c. c\<lparr>cf_port := word_of_int v\<rparr>) \<circ>
    set_opt (tt_string t ''network'' ''multicast_group'') (\<lambda>v c. c\<lparr>cf_multicast_group := v\<rparr>)"

text \<open>The first \<^verbatim>\<open>NUM_SHARDS\<close> entries of the array that are integers.\<close>

definition load_shard_cores :: "int option list \<Rightarrow> int list \<Rightarrow> int list" where
  "load_shard_cores arr cores =
    fold (\<lambda>i cs. case arr ! i of None \<Rightarrow> cs | Some v \<Rightarrow> cs[i := to_int v]) [0..<min NUM_SHARDS (length arr)] cores"

definition load_threads :: "TomlTable \<Rightarrow> FeedHandlerConfig \<Rightarrow> FeedHandlerConfig" where
  "load_threads t =
    set_opt (tt_int_array t ''threads'' ''shard_cores'')
      (\<lambda>arr c. c\<lparr>cf_shard_cores := load_shard_cores arr (cf_shard_cores c)\<rparr>) \<circ>
    set_opt (tt_int t ''threads'' ''merger_core'') (\<lambda>v c. c\<lparr>cf_merger_core := to_int v\<rparr>) \<circ>
    set_opt (tt_int t ''threads'' ''recovery_core'') (\<lambda>v c. c\<lparr>cf_recovery_core := to_int v\<rparr>) \<circ>
    set_opt (tt_int t ''threads'' ''parser_core'') (\<lambda>v c. c\<lparr>cf_parser_core := to_int v\<rparr>) \<circ>
    set_opt (tt_int t ''threads'' ''receiver_core'') (\<lambda>v c. c\<lparr>cf_receiver_core := to_int v\<rparr>)"

definition load_monitoring :: "TomlTable \<Rightarrow> FeedHandlerConfig \<Rightarrow> FeedHandlerConfig" where
  "load_monitoring t =
    set_opt (tt_int t ''monitoring'' ''report_interval_sec'') (\<lambda>v c. c\<lparr>cf_report_interval_sec := word_of_int v\<rparr>)"

definition load_recovery :: "TomlTable \<Rightarrow> FeedHandlerConfig \<Rightarrow> FeedHandlerConfig" where
  "load_recovery t =
    set_opt (tt_string t ''recovery'' ''snapshot_filename_template'') (\<lambda>v c. c\<lparr>cf_snapshot_filename_template := v\<rparr>) \<circ>
    set_opt (tt_string t ''recovery'' ''snapshot_directory'') (\<lambda>v c. c\<lparr>cf_snapshot_dir := v\<rparr>) \<circ>
    set_opt (tt_bool t ''recovery'' ''require_login'') (\<lambda>v c. c\<lparr>cf_require_login := v\<rparr>) \<circ>
    set_opt (tt_string t ''recovery'' ''retransmit_password'') (\<lambda>v c. c\<lparr>cf_retransmit_password := v\<rparr>) \<circ>
    set_opt (tt_string t ''recovery'' ''retransmit_username'') (\<lambda>v c. c\<lparr>cf_retransmit_username := v\<rparr>) \<circ>
    set_opt (tt_int t ''recovery'' ''retransmit_port_secondary'') (\<lambda>v c. c\<lparr>cf_retransmit_port_secondary := word_of_int v\<rparr>) \<circ>
    set_opt (tt_string t ''recovery'' ''retransmit_address_secondary'') (\<lambda>v c. c\<lparr>cf_retransmit_address_secondary := v\<rparr>) \<circ>
    set_opt (tt_int t ''recovery'' ''retransmit_port'') (\<lambda>v c. c\<lparr>cf_retransmit_port := word_of_int v\<rparr>) \<circ>
    set_opt (tt_string t ''recovery'' ''retransmit_address'') (\<lambda>v c. c\<lparr>cf_retransmit_address := v\<rparr>) \<circ>
    set_opt (tt_int t ''recovery'' ''snapshot_interval_sec'') (\<lambda>v c. c\<lparr>cf_snapshot_interval_sec := word_of_int v\<rparr>) \<circ>
    set_opt (tt_int t ''recovery'' ''gap_timeout_ms'') (\<lambda>v c. c\<lparr>cf_gap_timeout_ms := word_of_int v\<rparr>)"

definition load_session :: "TomlTable \<Rightarrow> FeedHandlerConfig \<Rightarrow> FeedHandlerConfig" where
  "load_session t =
    set_opt (tt_string_array t ''session'' ''watched_symbols'')
      (\<lambda>arr c. c\<lparr>cf_watched_symbols := cf_watched_symbols c @ List.map_filter id arr\<rparr>) \<circ>
    set_opt (tt_bool t ''session'' ''eod_archive_enabled'') (\<lambda>v c. c\<lparr>cf_eod_archive_enabled := v\<rparr>) \<circ>
    set_opt (tt_string t ''session'' ''initial_session'') (\<lambda>v c. c\<lparr>cf_initial_session := v\<rparr>)"

definition load_rest :: "TomlTable \<Rightarrow> FeedHandlerConfig \<Rightarrow> FeedHandlerConfig" where
  "load_rest t =
    set_opt (tt_double t ''sharding'' ''queue_full_alert_threshold'') (\<lambda>v c. c\<lparr>cf_queue_full_alert_threshold := v\<rparr>) \<circ>
    set_opt (tt_string t ''persistence'' ''last_sequence_dir'') (\<lambda>v c. c\<lparr>cf_last_sequence_dir := v\<rparr>)"

text \<open>A file that does not parse throws, which is \<open>None\<close>.\<close>

definition load_config :: "TomlTable option \<Rightarrow> FeedHandlerConfig option" where
  "load_config parsed =
    map_option (\<lambda>t. load_rest t (load_session t (load_recovery t (load_monitoring t
      (load_threads t (load_network t FeedHandlerConfig_init)))))) parsed"

section \<open>Construction\<close>

record InitCalls =
  ic_ring :: bool
  ic_secondary_ring :: bool
  ic_pool :: "nat \<Rightarrow> Order list option"
  ic_map :: "nat \<Rightarrow> bool"
  ic_books :: "nat \<Rightarrow> bool"
  ic_throws :: bool
  ic_disk :: Disk
  ic_receiver :: bool
  ic_secondary_receiver :: bool

record FeedHandler =
  fh_cfg :: FeedHandlerConfig
  fh_receiver :: ReceiverThread
  fh_secondary_receiver :: "ReceiverThread option"
  fh_feed_merger :: FeedMerger
  fh_parser :: ParserThread
  fh_workers :: "ShardWorker list"
  fh_recovery :: RecoveryThread
  fh_eod_snapshots :: "BookSnapshot list"

text \<open>The pools and maps of the shards; \<open>None\<close> when one allocation fails.\<close>

definition allocate_shard :: "InitCalls \<Rightarrow> nat \<Rightarrow> (OrderPool \<times> OrderMap) option" where
  "allocate_shard k s =
    (case ic_pool k s of None \<Rightarrow> None
     | Some orders \<Rightarrow>
         if \<not> ic_map k s then None
         else if \<not> ic_books k s then None
         else Some (OrderPool_new MAX_ORDERS_PER_SHARD orders,
                    OrderMap_new ORDER_MAP_CAPACITY))"

definition allocate_memory :: "InitCalls \<Rightarrow> FeedHandlerConfig \<Rightarrow> (nat \<Rightarrow> OrderPool \<times> OrderMap) option" where
  "allocate_memory k cfg =
    (if \<not> ic_ring k then None
     else if cf_multicast_group_secondary cfg \<noteq> [] \<and> \<not> ic_secondary_ring k then None
     else if list_all (\<lambda>s. allocate_shard k s \<noteq> None) [0..<NUM_SHARDS]
     then Some (\<lambda>s. the (allocate_shard k s)) else None)"

definition pad_ticker :: "u8 list \<Rightarrow> u8 list" where
  "pad_ticker t = take 8 t @ replicate (8 - length t) 0x20"

definition shard_template :: "u8 list \<Rightarrow> nat \<Rightarrow> u8 list" where
  "shard_template tmpl s = insert_suffix tmpl (bytes_of ''_s'' @ decimal s)"

definition init_session :: "FeedHandlerConfig \<Rightarrow> SessionManager" where
  "init_session cfg =
    (let m0 = SessionManager_new (Some (cf_initial_session cfg)) (cf_eod_archive_enabled cfg);
         m1 = (if cf_eod_archive_enabled cfg then fold register_eod_callback [0..<NUM_SHARDS] m0 else m0)
     in fold (\<lambda>t. add_watched_ticker (pad_ticker t)) (cf_watched_symbols cfg) m1)"

definition init_context :: "FeedHandlerConfig \<Rightarrow> SessionContext" where
  "init_context cfg =
    \<lparr>sc_mgr = init_session cfg, sc_tracker = SequenceTracker_new 0, sc_directory = SymbolDirectory_new,
     sc_bbo = BboPublisher_new MAX_LOCATE,
     sc_router = ShardRouter_new FeedStats_init
       (of_int \<lfloor>of_nat SHARD_QUEUE_DEPTH * cf_queue_full_alert_threshold cfg\<rfloor>), sc_eod_log = []\<rparr>"

definition ReceiverThread_new :: "ZeroCopyRing \<Rightarrow> ReceiverThread" where
  "ReceiverThread_new ring = \<lparr>rt_ring = ring, rt_stats = FeedStats_init, rt_pkts_received = 0,
     rt_pkts_dropped = 0, rt_write_slot = 0\<rparr>"

definition init_workers :: "InitCalls \<Rightarrow> FeedHandlerConfig \<Rightarrow> (nat \<Rightarrow> OrderPool \<times> OrderMap) \<Rightarrow> FeedHandler" where
  "init_workers k cfg shard_mem =
    (let ring = ZeroCopyRing_new True;
         has_secondary = cf_multicast_group_secondary cfg \<noteq> [];
         ring2 = ZeroCopyRing_new has_secondary;
         merged = SpscQueue_new (replicate MERGED_QUEUE_DEPTH \<lparr>ms_slot_idx = 0, ms_source = Primary\<rparr>);
         ctx = init_context cfg;
         gd = GapDetector_new (cf_gap_timeout_ms cfg);
         client = RetransmitClient_new (cf_retransmit_address cfg) (cf_retransmit_port cfg)
           (cf_retransmit_address_secondary cfg) (cf_retransmit_port_secondary cfg)
           \<lparr>rc_username = cf_retransmit_username cfg, rc_password = cf_retransmit_password cfg,
            rc_require_login = cf_require_login cfg\<rparr>
     in \<lparr>fh_cfg = cfg, fh_receiver = ReceiverThread_new ring,
         fh_secondary_receiver = (if has_secondary then Some (ReceiverThread_new ring2) else None),
         fh_feed_merger = FeedMerger_new ring ring2 merged FeedStats_init (cf_failover_timeout_ms cfg),
         fh_parser = \<lparr>pt_primary_ring = ring, pt_secondary_ring = ring2, pt_merged_queue = merged, pt_ctx = ctx,
           pt_gap_detector = gd, pt_persist_seq = PersistentSequence_new (ic_disk k),
           pt_parse_lat = histogram_init, pt_packet_count = 0\<rparr>,
         fh_workers = map (\<lambda>s. ShardWorker_new s (fst (shard_mem s)) (snd (shard_mem s)) (sc_bbo ctx) histogram_init)
           [0..<NUM_SHARDS],
         fh_recovery = RecoveryThread_new gd ring client (cf_snapshot_interval_sec cfg)
           (Some (takeWhile (\<lambda>c. c \<noteq> 0) (sm_session (sc_mgr ctx)))) FeedStats_init,
         fh_eod_snapshots = (if cf_eod_archive_enabled cfg
           then map (\<lambda>s. \<lparr>sn_dir = cf_snapshot_dir cfg,
             sn_tmpl = shard_template (cf_snapshot_filename_template cfg) s\<rparr>) [0..<NUM_SHARDS] else [])\<rparr>)"

text \<open>The tracker is seeded with the loaded sequence number, whatever its session.\<close>

definition warm_start :: "FeedHandler \<Rightarrow> FeedHandler" where
  "warm_start fh =
    (let loaded = load (read_file (ps_disk (pt_persist_seq (fh_parser fh)))); pt = fh_parser fh; ctx = pt_ctx pt in
     if 0 < ld_seq loaded
     then fh\<lparr>fh_parser := pt\<lparr>pt_ctx := ctx\<lparr>sc_tracker := tracker_reset (ld_seq loaded) (sc_tracker ctx)\<rparr>\<rparr>\<rparr>
     else fh)"

text \<open>
  \<^verbatim>\<open>init_workers\<close> may throw, for want of memory (\<open>ic_throws\<close>); \<^verbatim>\<open>init\<close> catches this and fails.
\<close>

datatype InitResult = InitOk FeedHandler | InitFailed | InitExit

definition feed_handler_init :: "InitCalls \<Rightarrow> FeedHandlerConfig \<Rightarrow> InitResult" where
  "feed_handler_init k cfg =
    (if cf_retransmit_address cfg = bytes_of ''198.51.100.1'' then InitExit
     else case allocate_memory k cfg of
       None \<Rightarrow> InitFailed
     | Some shard_mem \<Rightarrow>
         if ic_throws k then InitFailed else
         let fh = warm_start (init_workers k cfg shard_mem) in
         if \<not> ic_receiver k then InitFailed
         else if fh_secondary_receiver fh \<noteq> None \<and> \<not> ic_secondary_receiver k
         then InitOk (fh\<lparr>fh_secondary_receiver := None\<rparr>)
         else InitOk fh)"

section \<open>The initial state\<close>

lemma init_session_ok: "manager_ok (init_session cfg)"
proof -
  have reg: "manager_ok (fold register_eod_callback ss m)" if "manager_ok m" for ss m
    using that by (induction ss arbitrary: m) (simp_all add: register_eod_callback_def manager_ok_def)
  have add: "manager_ok (fold (\<lambda>t. add_watched_ticker (pad_ticker t)) ts m)" if "manager_ok m" for ts m
    using that by (induction ts arbitrary: m) (simp_all add: add_watched_ticker_def manager_ok_def)
  have "manager_ok (SessionManager_new s e)" for s e
    by (auto simp: manager_ok_def SessionManager_new_def split: option.splits)
  then show ?thesis using reg add by (simp add: init_session_def Let_def)
qed

lemma init_context_ok: "context_ok (init_context cfg)"
  using init_session_ok router_ok_new(1) directory_ok_ops(1) bbo_ok_ops(1)
  by (simp add: context_ok_def init_context_def)

lemma empty_book_inv:
  assumes "pool_inv (bs_pool st)" "om_inv (bs_map st)" "book_wf (bs_book st)"
    "lb_bid_count (bs_book st) = 0" "lb_ask_count (bs_book st) = 0"
  shows "book_inv st"
  using assms by (simp add: book_inv_def book_rep_def queues_def active_def slots_def)

text \<open>What the worker of a shard starts from.\<close>

lemma new_worker_ok:
  assumes "s < NUM_SHARDS" "bbo_ok bbo" "pool_inv pool" "om_inv m"
  shows "worker_ok (ShardWorker_new s pool m bbo lat)" "sw_shard_id (ShardWorker_new s pool m bbo lat) = s"
    "i < BOOKS_PER_SHARD \<Longrightarrow> book_inv (book_state (ShardWorker_new s pool m bbo lat) i)"
proof -
  show w: "worker_ok (ShardWorker_new s pool m bbo lat)" by (rule worker_ok_new[OF assms(1,2)])
  show "sw_shard_id (ShardWorker_new s pool m bbo lat) = s" by (simp add: ShardWorker_new_def)
  assume i: "i < BOOKS_PER_SHARD"
  have "book_wf (sw_books (ShardWorker_new s pool m bbo lat) ! i)" using w i by (simp add: worker_ok_def)
  then show "book_inv (book_state (ShardWorker_new s pool m bbo lat) i)"
    using i assms(3,4) by (intro empty_book_inv)
      (simp_all add: book_state_def ShardWorker_new_def OrderBookPool_new_def Level2Book_new_def del: of_nat_add of_nat_mult)
qed

lemma warm_start_fields [simp]:
  "fh_workers (warm_start fh) = fh_workers fh" "fh_recovery (warm_start fh) = fh_recovery fh"
  "pt_persist_seq (fh_parser (warm_start fh)) = pt_persist_seq (fh_parser fh)"
  "pt_parse_lat (fh_parser (warm_start fh)) = pt_parse_lat (fh_parser fh)"
  "pt_merged_queue (fh_parser (warm_start fh)) = pt_merged_queue (fh_parser fh)"
  "context_ok (pt_ctx (fh_parser (warm_start fh))) = context_ok (pt_ctx (fh_parser fh))"
  by (simp_all add: warm_start_def Let_def context_ok_def)

section \<open>Properties\<close>

text \<open>
  Property C15. Whatever the configuration, a start-up that succeeds leaves every part in a state
  that satisfies its invariant, the one from which the properties of the parts proceed: the
  session context, histogram and queues of the parser thread, the durable record, and for each of
  the eight shards a worker with its own number whose books are all empty, well formed and
  consistent with the shard's pool and map. The sequence tracker starts at the number in the
  state file (zero without one).
\<close>

theorem init_establishes_invariants:
  assumes "feed_handler_init k cfg = InitOk fh"
    "\<And>s orders. ic_pool k s = Some orders \<Longrightarrow> length orders = MAX_ORDERS_PER_SHARD"
  shows "context_ok (pt_ctx (fh_parser fh)) \<and> length (lh_buckets (pt_parse_lat (fh_parser fh))) = TOTAL_BUCKETS \<and>
    spsc_wf (pt_merged_queue (fh_parser fh)) \<and> persist_ok (pt_persist_seq (fh_parser fh)) \<and>
    length (fh_workers fh) = NUM_SHARDS \<and>
    (\<forall>s < NUM_SHARDS. worker_ok (fh_workers fh ! s) \<and> sw_shard_id (fh_workers fh ! s) = s \<and>
       (\<forall>i < BOOKS_PER_SHARD. book_inv (book_state (fh_workers fh ! s) i))) \<and>
    st_seq (sc_tracker (pt_ctx (fh_parser fh))) = ld_seq (load (read_file (ic_disk k)))"
proof -
  obtain mem where mem: "allocate_memory k cfg = Some mem"
    and fh: "fh = warm_start (init_workers k cfg mem) \<or>
      fh = (warm_start (init_workers k cfg mem))\<lparr>fh_secondary_receiver := None\<rparr>"
    using assms(1) by (auto simp: feed_handler_init_def Let_def split: if_splits option.splits)
  let ?fh = "warm_start (init_workers k cfg mem)"
  have same: "fh_parser fh = fh_parser ?fh" "fh_workers fh = fh_workers ?fh" using fh by auto
  have shard: "pool_inv (fst (mem s)) \<and> om_inv (snd (mem s))" if s: "s < NUM_SHARDS" for s
  proof -
    have m: "mem = (\<lambda>s. the (allocate_shard k s))" "allocate_shard k s \<noteq> None"
      using mem s by (auto simp: allocate_memory_def list_all_iff split: if_splits)
    then obtain orders where "ic_pool k s = Some orders"
      "allocate_shard k s = Some (OrderPool_new MAX_ORDERS_PER_SHARD orders, OrderMap_new ORDER_MAP_CAPACITY)"
      by (auto simp: allocate_shard_def split: option.splits if_splits)
    then show ?thesis
      using m(1) assms(2) pool_inv_new[of orders MAX_ORDERS_PER_SHARD] om_inv_new[of ORDER_MAP_CAPACITY]
      by (simp add: MAX_ORDERS_PER_SHARD_def ORDER_MAP_CAPACITY_def kInvalidIdx_def)
  qed
  have bbo: "bbo_ok (BboPublisher_new MAX_LOCATE)" by (rule bbo_ok_ops(1))
  have workers: "fh_workers ?fh ! s =
      ShardWorker_new s (fst (mem s)) (snd (mem s)) (BboPublisher_new MAX_LOCATE) histogram_init"
    "length (fh_workers ?fh) = NUM_SHARDS" if "s < NUM_SHARDS" for s
    using that by (simp_all add: init_workers_def init_context_def Let_def)
  have "length (fh_workers ?fh) = NUM_SHARDS" by (simp add: init_workers_def Let_def)
  moreover have "worker_ok (fh_workers ?fh ! s) \<and> sw_shard_id (fh_workers ?fh ! s) = s \<and>
      (\<forall>i < BOOKS_PER_SHARD. book_inv (book_state (fh_workers ?fh ! s) i))" if s: "s < NUM_SHARDS" for s
    unfolding workers(1)[OF s] using new_worker_ok[OF s bbo] shard[OF s] by blast
  moreover have "spsc_wf (pt_merged_queue (fh_parser ?fh))"
    using spsc_new(1)[OF depth_pow2(1)[folded MERGED_QUEUE_DEPTH_def]] by (simp add: init_workers_def Let_def)
  moreover have "st_seq (sc_tracker (pt_ctx (fh_parser ?fh))) = ld_seq (load (read_file (ic_disk k)))"
    by (simp add: warm_start_def init_workers_def init_context_def PersistentSequence_new_def Let_def
        tracker_reset_def SequenceTracker_new_def word_gt_0)
  ultimately show ?thesis
    unfolding same using init_context_ok persist_ok_new(1)
    by (simp add: init_workers_def Let_def histogram_init_def)
qed

definition good_init :: InitCalls where
  "good_init = \<lparr>ic_ring = True, ic_secondary_ring = True,
     ic_pool = (\<lambda>_. Some (replicate MAX_ORDERS_PER_SHARD zero_order)), ic_map = (\<lambda>_. True), ic_books = (\<lambda>_. True),
     ic_throws = False, ic_disk = blank_disk, ic_receiver = True, ic_secondary_receiver = True\<rparr>"

definition good_config :: FeedHandlerConfig where
  "good_config = FeedHandlerConfig_init\<lparr>cf_retransmit_address := bytes_of ''10.0.0.1''\<rparr>"

theorem init_establishes_invariants_witness:
  "\<exists>fh. feed_handler_init good_init good_config = InitOk fh \<and> worker_ok (fh_workers fh ! 7)"
proof -
  have "cf_retransmit_address good_config \<noteq> bytes_of ''198.51.100.1''"
    by (simp add: good_config_def FeedHandlerConfig_init_def bytes_of_def)
  moreover have "allocate_memory good_init good_config \<noteq> None"
    by (simp add: allocate_memory_def good_init_def list_all_iff allocate_shard_def)
  ultimately obtain fh where fh: "feed_handler_init good_init good_config = InitOk fh"
    by (auto simp: feed_handler_init_def Let_def good_init_def)
  have "length orders = MAX_ORDERS_PER_SHARD" if "ic_pool good_init s = Some orders" for s orders
    using that by (auto simp: good_init_def)
  then have "\<forall>s < NUM_SHARDS. worker_ok (fh_workers fh ! s)"
    using init_establishes_invariants[OF fh] by blast
  then show ?thesis using fh by (auto simp: NUM_SHARDS_def)
qed

end
