(* ===== verification/System_Memory.thy ===== *)
theory System_Memory
  imports Shard_Worker "HOL-Library.Multiset"
begin

text \<open>
  Threads and memory of the operating system: \<^verbatim>\<open>src/system/cpu_affinity.cpp\<close> as compiled for
  Linux, the buffers of \<^verbatim>\<open>include/network/packet_ring.hpp\<close>, the slab of
  \<^verbatim>\<open>src/orderbook/order_book_pool.cpp\<close>, and the blocks \<^verbatim>\<open>FeedHandler\<close> acquires in
  \<^verbatim>\<open>allocate_memory\<close> and releases in its destructor.

  Results of system calls are arguments; a null pointer is \<^term>\<open>None\<close>. The argument \<open>numa\<close> says
  that the program was built with libnuma and that \<^verbatim>\<open>numa_available()\<close> is not negative; the build
  files of the repository never define \<^verbatim>\<open>HAVE_NUMA\<close>. An arena is the multiset of blocks that are
  acquired and not yet released, with a log of the releases that match no such block.
\<close>

section \<open>Threads\<close>

record ThreadConfig =
  th_cpu_id :: int
  th_sched_policy :: int
  th_sched_priority :: int
  th_numa_node :: int

text \<open>What the calls change of the calling thread: the core it is bound to and its real-time priority.\<close>

record Sched =
  sd_core :: "int option"
  sd_fifo :: "int option"

definition pin_current_thread :: "(int \<Rightarrow> int) \<Rightarrow> int \<Rightarrow> Sched \<Rightarrow> bool \<times> Sched" where
  "pin_current_thread setaffinity cpu_id t =
    (if cpu_id < 0 then (True, t)
     else if setaffinity cpu_id \<noteq> 0 then (False, t)
     else (True, t\<lparr>sd_core := Some cpu_id\<rparr>))"

definition set_realtime :: "(int \<Rightarrow> int) \<Rightarrow> int \<Rightarrow> Sched \<Rightarrow> bool \<times> Sched" where
  "set_realtime setscheduler priority t =
    (if priority \<le> 0 then (True, t)
     else if setscheduler priority \<noteq> 0 then (False, t)
     else (True, t\<lparr>sd_fifo := Some priority\<rparr>))"

definition apply_config :: "(int \<Rightarrow> int) \<Rightarrow> (int \<Rightarrow> int) \<Rightarrow> ThreadConfig \<Rightarrow> Sched \<Rightarrow> bool \<times> Sched" where
  "apply_config setaffinity setscheduler cfg t =
    (let (ok1, t1) = (if 0 \<le> th_cpu_id cfg then pin_current_thread setaffinity (th_cpu_id cfg) t else (True, t));
         (ok2, t2) = (if th_sched_policy cfg = 1 \<or> th_sched_policy cfg = 2
                      then set_realtime setscheduler (th_sched_priority cfg) t1 else (True, t1))
     in (ok1 \<and> ok2, t2))"

section \<open>Blocks of memory\<close>

datatype block_kind = Mapped | NumaBlock | Heaped

type_synonym block = "nat \<times> block_kind \<times> nat"

record Arena =
  ar_live :: "block list"
  ar_bad :: "block list"

definition acquire :: "block \<Rightarrow> Arena \<Rightarrow> Arena" where
  "acquire b a = a\<lparr>ar_live := b # ar_live a\<rparr>"

definition release :: "block \<Rightarrow> Arena \<Rightarrow> Arena" where
  "release b a =
    (if b \<in> set (ar_live a) then a\<lparr>ar_live := remove1 b (ar_live a)\<rparr> else a\<lparr>ar_bad := ar_bad a @ [b]\<rparr>)"

text \<open>A slot of 1516 bytes is padded to its alignment of 64.\<close>

definition sizeof_PacketRingBuffer :: nat where
  "sizeof_PacketRingBuffer = PACKET_RING_DEPTH * 1536"

record RingCalls =
  rg_huge :: "nat option"
  rg_mmap :: "nat option"
  rg_heap :: "nat option"

definition alloc_packet_ring_buffer :: "RingCalls \<Rightarrow> Arena \<Rightarrow> nat option \<times> Arena" where
  "alloc_packet_ring_buffer k a =
    (case rg_huge k of
       Some p \<Rightarrow> (Some p, acquire (p, Mapped, sizeof_PacketRingBuffer) a)
     | None \<Rightarrow>
         (case rg_mmap k of
            Some p \<Rightarrow> (Some p, acquire (p, Mapped, sizeof_PacketRingBuffer) a)
          | None \<Rightarrow>
              (case rg_heap k of
                 Some p \<Rightarrow> (Some p, acquire (p, Heaped, sizeof_PacketRingBuffer) a)
               | None \<Rightarrow> (None, a))))"

definition free_packet_ring_buffer :: "nat \<Rightarrow> Arena \<Rightarrow> Arena" where
  "free_packet_ring_buffer p = release (p, Mapped, sizeof_PacketRingBuffer)"

record NumaCalls =
  nm_onnode :: "nat option"
  nm_mmap :: "nat option"

definition alloc_on_numa :: "bool \<Rightarrow> nat \<Rightarrow> int \<Rightarrow> NumaCalls \<Rightarrow> Arena \<Rightarrow> nat option \<times> Arena" where
  "alloc_on_numa numa bytes numa_node k a =
    (if numa \<and> 0 \<le> numa_node \<and> nm_onnode k \<noteq> None
     then (nm_onnode k, acquire (the (nm_onnode k), NumaBlock, bytes) a)
     else case nm_mmap k of
            None \<Rightarrow> (None, a)
          | Some p \<Rightarrow> (Some p, acquire (p, Mapped, bytes) a))"

definition free_numa :: "bool \<Rightarrow> nat option \<Rightarrow> nat \<Rightarrow> Arena \<Rightarrow> Arena" where
  "free_numa numa ptr bytes a =
    (case ptr of None \<Rightarrow> a
     | Some p \<Rightarrow> release (p, if numa then NumaBlock else Mapped, bytes) a)"

text \<open>With NUMA the member function calls itself: its own name hides that of the library function.\<close>

partial_function (option) numa_node_of_cpu :: "bool \<Rightarrow> int \<Rightarrow> int option" where
  "numa_node_of_cpu numa cpu_id = (if numa then numa_node_of_cpu numa cpu_id else Some (-1))"

declare numa_node_of_cpu.simps [code]

section \<open>The blocks of the feed handler\<close>

text \<open>
  The memory of a shard; of the book pool, the slab with its size. The size of a book depends on
  the compiler.
\<close>

record ShardMem =
  sh_order_pool_mem :: "nat option"
  sh_order_map_mem :: "nat option"
  sh_book_pool :: "(nat option \<times> nat) option"

record FeedMemory =
  fm_ring_buf :: "nat option"
  fm_secondary_ring_buf :: "nat option"
  fm_shards :: "ShardMem list"
  fm_arena :: Arena

definition FeedMemory_init :: "Arena \<Rightarrow> FeedMemory" where
  "FeedMemory_init a = \<lparr>fm_ring_buf = None, fm_secondary_ring_buf = None,
     fm_shards = replicate NUM_SHARDS \<lparr>sh_order_pool_mem = None, sh_order_map_mem = None, sh_book_pool = None\<rparr>,
     fm_arena = a\<rparr>"

record MemCalls =
  mc_ring :: RingCalls
  mc_secondary :: RingCalls
  mc_pool :: "nat \<Rightarrow> NumaCalls"
  mc_map :: "nat \<Rightarrow> NumaCalls"
  mc_books :: "nat \<Rightarrow> NumaCalls"

definition pool_bytes :: nat where "pool_bytes = MAX_ORDERS_PER_SHARD * (32 + 4)"
definition map_bytes :: nat where "map_bytes = ORDER_MAP_CAPACITY * 16"

definition OrderBookPool_alloc :: "bool \<Rightarrow> nat \<Rightarrow> int \<Rightarrow> NumaCalls \<Rightarrow> Arena \<Rightarrow> (nat option \<times> nat) \<times> Arena" where
  "OrderBookPool_alloc numa sizeof_Level2Book numa_node k a =
    (let mem_bytes = BOOKS_PER_SHARD * sizeof_Level2Book; (mem, a1) = alloc_on_numa numa mem_bytes numa_node k a
     in ((mem, if mem = None then 0 else mem_bytes), a1))"

definition OrderBookPool_delete :: "bool \<Rightarrow> nat option \<times> nat \<Rightarrow> Arena \<Rightarrow> Arena" where
  "OrderBookPool_delete numa p a = (if fst p = None then a else free_numa numa (fst p) (snd p) a)"

text \<open>The loop body for shard \<open>s\<close> in \<^verbatim>\<open>allocate_memory\<close>.\<close>

definition allocate_shard_blocks ::
  "bool \<Rightarrow> nat \<Rightarrow> (nat \<Rightarrow> int) \<Rightarrow> MemCalls \<Rightarrow> nat \<Rightarrow> FeedMemory \<Rightarrow> (bool \<times> FeedMemory) outcome" where
  "allocate_shard_blocks numa book_size cores k s fm =
    andthen (of_loop (numa_node_of_cpu numa (cores s))) (\<lambda>node.
      let (p, a1) = alloc_on_numa numa pool_bytes node (mc_pool k s) (fm_arena fm);
          sm1 = (fm_shards fm ! s)\<lparr>sh_order_pool_mem := p\<rparr>
      in if p = None then Inr (False, fm\<lparr>fm_shards := (fm_shards fm)[s := sm1], fm_arena := a1\<rparr>)
      else let (q, a2) = alloc_on_numa numa map_bytes node (mc_map k s) a1;
               sm2 = sm1\<lparr>sh_order_map_mem := q\<rparr>
      in if q = None then Inr (False, fm\<lparr>fm_shards := (fm_shards fm)[s := sm2], fm_arena := a2\<rparr>)
      else let (b, a3) = OrderBookPool_alloc numa book_size node (mc_books k s) a2;
               sm3 = sm2\<lparr>sh_book_pool := Some b\<rparr>
      in Inr (fst b \<noteq> None, fm\<lparr>fm_shards := (fm_shards fm)[s := sm3], fm_arena := a3\<rparr>))"

fun allocate_shards_blocks ::
  "bool \<Rightarrow> nat \<Rightarrow> (nat \<Rightarrow> int) \<Rightarrow> MemCalls \<Rightarrow> nat list \<Rightarrow> FeedMemory \<Rightarrow> (bool \<times> FeedMemory) outcome" where
  "allocate_shards_blocks numa book_size cores k [] fm = Inr (True, fm)"
| "allocate_shards_blocks numa book_size cores k (s # ss) fm =
    andthen (allocate_shard_blocks numa book_size cores k s fm) (\<lambda>(ok, fm').
      if ok then allocate_shards_blocks numa book_size cores k ss fm' else Inr (False, fm'))"

definition allocate_blocks ::
  "bool \<Rightarrow> nat \<Rightarrow> (nat \<Rightarrow> int) \<Rightarrow> bool \<Rightarrow> MemCalls \<Rightarrow> FeedMemory \<Rightarrow> (bool \<times> FeedMemory) outcome" where
  "allocate_blocks numa book_size cores secondary k fm =
    (let (r, a1) = alloc_packet_ring_buffer (mc_ring k) (fm_arena fm);
         fm1 = fm\<lparr>fm_ring_buf := r, fm_arena := a1\<rparr>
     in if r = None then Inr (False, fm1)
     else let (r2, a2) = (if secondary then alloc_packet_ring_buffer (mc_secondary k) a1 else (None, a1));
              fm2 = fm1\<lparr>fm_secondary_ring_buf := r2, fm_arena := a2\<rparr>
     in if secondary \<and> r2 = None then Inr (False, fm2)
     else allocate_shards_blocks numa book_size cores k [0..<NUM_SHARDS] fm2)"

text \<open>
  The destructor, once the threads are stopped: its body, then the members, of which the book
  pools own memory.
\<close>

definition free_shard :: "bool \<Rightarrow> ShardMem \<Rightarrow> Arena \<Rightarrow> Arena" where
  "free_shard numa sm a =
    free_numa numa (sh_order_map_mem sm) map_bytes (free_numa numa (sh_order_pool_mem sm) pool_bytes a)"

definition free_book_pool :: "bool \<Rightarrow> ShardMem \<Rightarrow> Arena \<Rightarrow> Arena" where
  "free_book_pool numa sm a = (case sh_book_pool sm of None \<Rightarrow> a | Some p \<Rightarrow> OrderBookPool_delete numa p a)"

definition FeedHandler_delete :: "bool \<Rightarrow> FeedMemory \<Rightarrow> Arena" where
  "FeedHandler_delete numa fm =
    (let a1 = (case fm_ring_buf fm of None \<Rightarrow> fm_arena fm | Some p \<Rightarrow> free_packet_ring_buffer p (fm_arena fm));
         a2 = (case fm_secondary_ring_buf fm of None \<Rightarrow> a1 | Some p \<Rightarrow> free_packet_ring_buffer p a1);
         a3 = fold (free_shard numa) (fm_shards fm) a2
     in fold (free_book_pool numa) (rev (fm_shards fm)) a3)"

section \<open>Ownership\<close>

text \<open>The blocks the destructor releases, in its order.\<close>

definition opt_block :: "nat option \<Rightarrow> nat \<Rightarrow> block list" where
  "opt_block p n = (case p of None \<Rightarrow> [] | Some p \<Rightarrow> [(p, Mapped, n)])"

definition shard_blocks :: "ShardMem \<Rightarrow> block list" where
  "shard_blocks sm = opt_block (sh_order_pool_mem sm) pool_bytes @ opt_block (sh_order_map_mem sm) map_bytes"

definition book_blocks :: "ShardMem \<Rightarrow> block list" where
  "book_blocks sm = (case sh_book_pool sm of None \<Rightarrow> [] | Some (p, n) \<Rightarrow> opt_block p n)"

definition owned :: "FeedMemory \<Rightarrow> block list" where
  "owned fm = opt_block (fm_ring_buf fm) sizeof_PacketRingBuffer @
     opt_block (fm_secondary_ring_buf fm) sizeof_PacketRingBuffer @
     concat (map shard_blocks (fm_shards fm)) @ concat (map book_blocks (rev (fm_shards fm)))"

lemma fold_release_opt:
  "(case p of None \<Rightarrow> a | Some p \<Rightarrow> release (p, Mapped, n) a) = fold release (opt_block p n) a"
  by (simp add: opt_block_def split: option.splits)

lemma free_ring_opt:
  "(case r of None \<Rightarrow> a | Some p \<Rightarrow> free_packet_ring_buffer p a) = fold release (opt_block r sizeof_PacketRingBuffer) a"
  by (simp add: opt_block_def free_packet_ring_buffer_def split: option.splits)

lemma free_shard_blocks: "free_shard False = (\<lambda>sm. fold release (shard_blocks sm))"
  by (simp add: fun_eq_iff free_shard_def free_numa_def shard_blocks_def fold_release_opt)

lemma free_book_pool_blocks: "free_book_pool False = (\<lambda>sm. fold release (book_blocks sm))"
  by (simp add: fun_eq_iff free_book_pool_def OrderBookPool_delete_def free_numa_def book_blocks_def opt_block_def
      split: option.splits prod.splits)

lemma FeedHandler_delete_owned: "FeedHandler_delete False fm = fold release (owned fm) (fm_arena fm)"
proof -
  have f: "fold (\<lambda>sm. fold release (g sm)) xs a = fold release (concat (map g xs)) a"
    for g :: "ShardMem \<Rightarrow> block list" and xs a
    by (induction xs arbitrary: a) simp_all
  show ?thesis
    by (simp add: FeedHandler_delete_def owned_def free_ring_opt
        free_shard_blocks free_book_pool_blocks f Let_def)
qed

lemma fold_release_exact:
  "mset (ar_live a) = B + mset bs \<Longrightarrow> mset (ar_live (fold release bs a)) = B \<and> ar_bad (fold release bs a) = ar_bad a"
proof (induction bs arbitrary: a)
  case (Cons b bs)
  then have "b \<in> set (ar_live a)" by (metis list.set_intros(1) set_mset_mset union_iff)
  then have "mset (ar_live (release b a)) = B + mset bs" "ar_bad (release b a) = ar_bad a"
    using Cons.prems by (simp_all add: release_def)
  then show ?case using Cons.IH[of "release b a"] by simp
qed simp

text \<open>The arena holds what was there before and what the handler owns.\<close>

definition holds :: "Arena \<Rightarrow> FeedMemory \<Rightarrow> bool" where
  "holds a0 fm \<longleftrightarrow> mset (ar_live (fm_arena fm)) = mset (ar_live a0) + mset (owned fm) \<and>
     ar_bad (fm_arena fm) = ar_bad a0"

definition ring_mapped :: "RingCalls \<Rightarrow> bool" where
  "ring_mapped k \<longleftrightarrow> rg_huge k \<noteq> None \<or> rg_mmap k \<noteq> None \<or> rg_heap k = None"

lemma alloc_ring_mapped:
  assumes "ring_mapped k" "alloc_packet_ring_buffer k a = (r, a')"
  shows "mset (ar_live a') = mset (ar_live a) + mset (opt_block r sizeof_PacketRingBuffer)" "ar_bad a' = ar_bad a"
  using assms by (auto simp: alloc_packet_ring_buffer_def ring_mapped_def acquire_def opt_block_def split: option.splits)

lemma alloc_on_numa_mapped:
  assumes "alloc_on_numa False n node k a = (r, a')"
  shows "mset (ar_live a') = mset (ar_live a) + mset (opt_block r n)" "ar_bad a' = ar_bad a"
  using assms by (auto simp: alloc_on_numa_def acquire_def opt_block_def split: option.splits)

lemma mset_concat_update:
  assumes "i < length xs" "g (xs ! i) = []"
  shows "mset (concat (map g (xs[i := y]))) = mset (concat (map g xs)) + mset (g y)"
proof -
  have "concat (map g (xs[i := y])) = concat (map g (take i xs)) @ g y @ concat (map g (drop (Suc i) xs))"
    using assms(1) by (simp add: upd_conv_take_nth_drop)
  moreover have "concat (map g xs) = concat (map g (take i xs)) @ g (xs ! i) @ concat (map g (drop (Suc i) xs))"
    by (subst insert_split[OF assms(1)]) (simp del: append_take_drop_id)
  ultimately show ?thesis using assms(2) by simp
qed

lemma mset_concat_rev: "mset (concat (map g (rev xs))) = mset (concat (map g xs))"
  by (induction xs) simp_all

lemma owned_update:
  assumes "s < length (fm_shards fm)" "shard_blocks (fm_shards fm ! s) = []" "book_blocks (fm_shards fm ! s) = []"
  shows "mset (owned (fm\<lparr>fm_shards := (fm_shards fm)[s := sm], fm_arena := a\<rparr>)) =
    mset (owned fm) + mset (shard_blocks sm) + mset (book_blocks sm)"
  using assms by (simp add: owned_def mset_concat_rev mset_concat_update)

definition blank_shard :: ShardMem where
  "blank_shard = \<lparr>sh_order_pool_mem = None, sh_order_map_mem = None, sh_book_pool = None\<rparr>"

lemma blank_blocks [simp]: "shard_blocks blank_shard = []" "book_blocks blank_shard = []"
  by (simp_all add: blank_shard_def shard_blocks_def book_blocks_def opt_block_def)

lemma allocate_shard_holds:
  assumes "holds a0 fm" "s < length (fm_shards fm)" "fm_shards fm ! s = blank_shard"
  shows "\<exists>ok sm a. allocate_shard_blocks False n cores k s fm =
      Inr (ok, fm\<lparr>fm_shards := (fm_shards fm)[s := sm], fm_arena := a\<rparr>) \<and>
    holds a0 (fm\<lparr>fm_shards := (fm_shards fm)[s := sm], fm_arena := a\<rparr>)"
proof -
  obtain p a1 where p: "alloc_on_numa False pool_bytes (-1) (mc_pool k s) (fm_arena fm) = (p, a1)" by fastforce
  obtain q a2 where q: "alloc_on_numa False map_bytes (-1) (mc_map k s) a1 = (q, a2)" by fastforce
  obtain b a3 where b: "alloc_on_numa False (BOOKS_PER_SHARD * n) (-1) (mc_books k s) a2 = (b, a3)" by fastforce
  note m = alloc_on_numa_mapped[OF p] alloc_on_numa_mapped[OF q] alloc_on_numa_mapped[OF b]
  have node: "numa_node_of_cpu False c = Some (-1)" for c by (simp add: numa_node_of_cpu.simps)
  note upd = owned_update[OF assms(2)] assms(3)
  have live: "mset (ar_live (fm_arena fm)) = mset (ar_live a0) + mset (owned fm)" "ar_bad (fm_arena fm) = ar_bad a0"
    using assms(1) by (simp_all add: holds_def)
  let ?fm = "\<lambda>sm a. fm\<lparr>fm_shards := (fm_shards fm)[s := sm], fm_arena := a\<rparr>"
  let ?sm1 = "blank_shard\<lparr>sh_order_pool_mem := p\<rparr>"
  let ?sm2 = "?sm1\<lparr>sh_order_map_mem := q\<rparr>"
  let ?sm3 = "?sm2\<lparr>sh_book_pool := Some (b, if b = None then 0 else BOOKS_PER_SHARD * n)\<rparr>"
  have blocks: "shard_blocks ?sm1 = opt_block p pool_bytes" "book_blocks ?sm1 = []"
    "shard_blocks ?sm2 = opt_block p pool_bytes @ opt_block q map_bytes" "book_blocks ?sm2 = []"
    "shard_blocks ?sm3 = opt_block p pool_bytes @ opt_block q map_bytes"
    "book_blocks ?sm3 = opt_block b (BOOKS_PER_SHARD * n)"
    by (simp_all add: shard_blocks_def book_blocks_def blank_shard_def opt_block_def split: option.splits)
  have h: "holds a0 (?fm ?sm1 a1)" "holds a0 (?fm ?sm2 a2)" "holds a0 (?fm ?sm3 a3)"
    by (simp_all add: holds_def upd m live blocks)
  consider "p = None" | "p \<noteq> None" "q = None" | "p \<noteq> None" "q \<noteq> None" by blast
  then show ?thesis
    using h by cases (force simp: allocate_shard_blocks_def node p q b OrderBookPool_alloc_def assms(3) Let_def)+
qed

lemma allocate_shards_hold:
  assumes "holds a0 fm" "distinct ss" "\<forall>s \<in> set ss. s < length (fm_shards fm) \<and> fm_shards fm ! s = blank_shard"
  shows "\<exists>ok fm'. allocate_shards_blocks False n cores k ss fm = Inr (ok, fm') \<and> holds a0 fm'"
  using assms
proof (induction ss arbitrary: fm)
  case (Cons s ss)
  obtain ok sm a where st: "allocate_shard_blocks False n cores k s fm =
      Inr (ok, fm\<lparr>fm_shards := (fm_shards fm)[s := sm], fm_arena := a\<rparr>)"
    "holds a0 (fm\<lparr>fm_shards := (fm_shards fm)[s := sm], fm_arena := a\<rparr>)"
    using allocate_shard_holds[OF Cons.prems(1), of s n cores k] Cons.prems(3) by auto
  have "\<forall>t \<in> set ss. t < length ((fm_shards fm)[s := sm]) \<and> (fm_shards fm)[s := sm] ! t = blank_shard"
    using Cons.prems(2,3) by (metis distinct.simps(2) length_list_update list.set_intros(2) nth_list_update_neq)
  then show ?case using Cons.IH[OF st(2)] Cons.prems(2) st by (cases ok) auto
qed (simp, blast)

lemma alloc_rings_hold:
  assumes "ring_mapped (mc_ring k)" "secondary \<longrightarrow> ring_mapped (mc_secondary k)"
  shows "\<exists>ok fm. allocate_blocks False n cores secondary k (FeedMemory_init a0) = Inr (ok, fm) \<and> holds a0 fm"
proof -
  let ?fm = "FeedMemory_init a0"
  obtain r a1 where r: "alloc_packet_ring_buffer (mc_ring k) a0 = (r, a1)" by fastforce
  obtain r2 a2 where r2: "(if secondary then alloc_packet_ring_buffer (mc_secondary k) a1 else (None, a1)) = (r2, a2)"
    by fastforce
  note m1 = alloc_ring_mapped[OF assms(1) r]
  have m2: "mset (ar_live a2) = mset (ar_live a1) + mset (opt_block r2 sizeof_PacketRingBuffer)" "ar_bad a2 = ar_bad a1"
    using alloc_ring_mapped[of "mc_secondary k" a1 r2 a2] assms(2) r2
    by (auto simp: opt_block_def split: if_splits)
  have no: "concat (map shard_blocks (replicate NUM_SHARDS blank_shard)) = []"
    "concat (map book_blocks (replicate NUM_SHARDS blank_shard)) = []" by simp_all
  have init: "?fm = \<lparr>fm_ring_buf = None, fm_secondary_ring_buf = None, fm_shards = replicate NUM_SHARDS blank_shard, fm_arena = a0\<rparr>"
    by (simp add: FeedMemory_init_def blank_shard_def)
  define fm1 where "fm1 = ?fm\<lparr>fm_ring_buf := r, fm_arena := a1\<rparr>"
  define fm2 where "fm2 = fm1\<lparr>fm_secondary_ring_buf := r2, fm_arena := a2\<rparr>"
  have h: "holds a0 fm1" "holds a0 fm2"
    using no by (simp_all add: holds_def owned_def fm1_def fm2_def init m1 m2) (simp_all add: opt_block_def)
  have "\<forall>s \<in> set [0..<NUM_SHARDS]. s < length (fm_shards fm2) \<and> fm_shards fm2 ! s = blank_shard"
    by (simp add: fm2_def fm1_def init)
  then have "\<exists>ok fm. allocate_shards_blocks False n cores k [0..<NUM_SHARDS] fm2 = Inr (ok, fm) \<and> holds a0 fm"
    by (rule allocate_shards_hold[OF h(2) distinct_upt])
  moreover have "allocate_blocks False n cores secondary k ?fm =
      (if r = None then Inr (False, fm1) else if secondary \<and> r2 = None then Inr (False, fm2)
       else allocate_shards_blocks False n cores k [0..<NUM_SHARDS] fm2)"
    using r r2 by (cases secondary) (simp_all add: allocate_blocks_def FeedMemory_init_def fm1_def fm2_def Let_def)
  ultimately show ?thesis using h by auto
qed

section \<open>Properties\<close>

text \<open>
  Property C35. Whatever allocation fails and wherever it fails, the destructor afterwards releases
  every block the feed handler had acquired, each once, with the size and the call it was acquired
  with: the memory in use is what it was before. This holds for the build of the repository, without
  libnuma, and for ring buffers that were mapped, which is every case but their last resort.
\<close>

theorem destructor_releases_all_memory:
  assumes "ring_mapped (mc_ring k)" "secondary \<longrightarrow> ring_mapped (mc_secondary k)"
  shows "\<exists>ok fm. allocate_blocks False book_size cores secondary k (FeedMemory_init a0) = Inr (ok, fm) \<and>
    mset (ar_live (FeedHandler_delete False fm)) = mset (ar_live a0) \<and>
    ar_bad (FeedHandler_delete False fm) = ar_bad a0"
proof -
  obtain ok fm where fm: "allocate_blocks False book_size cores secondary k (FeedMemory_init a0) = Inr (ok, fm)"
    "holds a0 fm"
    using alloc_rings_hold[OF assms] by blast
  have "mset (ar_live (FeedHandler_delete False fm)) = mset (ar_live a0) \<and>
      ar_bad (FeedHandler_delete False fm) = ar_bad (fm_arena fm)"
    unfolding FeedHandler_delete_owned using fm(2) by (intro fold_release_exact) (simp add: holds_def)
  then show ?thesis using fm by (auto simp: holds_def)
qed

text \<open>All allocations succeed but that of the map of shard 3.\<close>

definition one_failure :: MemCalls where
  "one_failure = \<lparr>mc_ring = \<lparr>rg_huge = None, rg_mmap = Some 1, rg_heap = None\<rparr>,
     mc_secondary = \<lparr>rg_huge = None, rg_mmap = None, rg_heap = None\<rparr>,
     mc_pool = (\<lambda>s. \<lparr>nm_onnode = None, nm_mmap = Some (10 + s)\<rparr>),
     mc_map = (\<lambda>s. \<lparr>nm_onnode = None, nm_mmap = (if s = 3 then None else Some (20 + s))\<rparr>),
     mc_books = (\<lambda>s. \<lparr>nm_onnode = None, nm_mmap = Some (30 + s)\<rparr>)\<rparr>"

theorem destructor_releases_all_memory_witness:
  "\<exists>ok fm. allocate_blocks False 40000 (\<lambda>s. int s) False one_failure
       (FeedMemory_init \<lparr>ar_live = [(7, Heaped, 5)], ar_bad = []\<rparr>) = Inr (ok, fm) \<and>
     mset (ar_live (FeedHandler_delete False fm)) = {#(7, Heaped, 5)#}"
  using destructor_releases_all_memory[of one_failure False 40000 "\<lambda>s. int s" "\<lparr>ar_live = [(7, Heaped, 5)], ar_bad = []\<rparr>"]
  by (auto simp: one_failure_def ring_mapped_def)

text \<open>
  The last resort of the ring buffer is heap memory, but on Linux it is released with \<^verbatim>\<open>munmap\<close> all
  the same: the release matches no block and the memory stays in use.
\<close>

theorem heap_ring_not_released:
  assumes "alloc_packet_ring_buffer \<lparr>rg_huge = None, rg_mmap = None, rg_heap = Some p\<rparr> a = (r, a')"
    "\<forall>b \<in> set (ar_live a). fst b \<noteq> p"
  shows "r = Some p \<and> (p, Heaped, sizeof_PacketRingBuffer) \<in> set (ar_live (free_packet_ring_buffer p a')) \<and>
    ar_bad (free_packet_ring_buffer p a') = ar_bad a @ [(p, Mapped, sizeof_PacketRingBuffer)]"
  using assms by (fastforce simp: alloc_packet_ring_buffer_def free_packet_ring_buffer_def release_def acquire_def)

text \<open>
  With libnuma the look-up of a core's node calls itself without end, and so does the allocation.
\<close>

theorem numa_lookup_diverges:
  assumes "alloc_packet_ring_buffer (mc_ring k) (fm_arena fm) = (Some p, a)" "\<not> secondary"
  shows "allocate_blocks True book_size cores secondary k fm = Inl Diverges"
proof -
  have "numa_node_of_cpu True c = None" for c
  proof -
    have "numa_node_of_cpu True c = Some r \<Longrightarrow> False" for r
      by (rule numa_node_of_cpu.raw_induct[of "\<lambda>numa c r. \<not> numa" True c r, simplified]) (auto split: if_splits)
    then show ?thesis by (cases "numa_node_of_cpu True c") auto
  qed
  then show ?thesis
    using assms by (simp add: allocate_blocks_def NUM_SHARDS_def upt_rec[of 0] allocate_shard_blocks_def Let_def)
qed

end
