(* ===== verification/Thread_Lifecycle.thy ===== *)
theory Thread_Lifecycle
  imports Itch_Prelude
begin

text \<open>
  Start and stop of the threads: \<^verbatim>\<open>FeedHandler::run\<close>, \<^verbatim>\<open>stop\<close>, \<^verbatim>\<open>start_workers\<close> and \<^verbatim>\<open>stop_workers\<close> in
  \<^verbatim>\<open>src/app/feed_handler.cpp\<close>, the methods \<^verbatim>\<open>start\<close> and \<^verbatim>\<open>stop\<close> of the workers, and the signal
  handler of \<^verbatim>\<open>src/app/main.cpp\<close>.

  The main thread carries the list of actions it still has to perform. A signal can interrupt it
  between any two of them: the handler then runs on its stack, which puts the action of the handler
  in front. The kernel may also run the handler on a worker, which does not go on meanwhile. A
  worker is its flag \<^verbatim>\<open>running_\<close>, whether its \<^verbatim>\<open>std::thread\<close> is joinable and whether the thread is
  still executing. Every loop tests the flag between two rounds, so a worker whose flag is cleared
  ends when its round does, and one whose flag is set does not end. A round need not end: the
  window loop of the merger, for one, runs for ever on a sequence number close to \<open>2^64\<close> (shown in
  \<open>Feed_Merger\<close>). The model says so with a mark \<open>sy_stuck\<close> on the worker, which the input can set at
  any moment; a worker with the mark does not end.
\<close>

section \<open>Threads and actions\<close>

datatype worker =
    WMetrics | WRecovery | WPersist | WShard nat | WParser | WMerger | WSecondary | WReceiver

text \<open>
  \<open>StartFlag\<close> and \<open>StartThread\<close> are the two statements of a worker's \<^verbatim>\<open>start\<close>; \<open>Stop\<close> is a
  worker's \<^verbatim>\<open>stop\<close> up to the call of \<^verbatim>\<open>join\<close>, which is \<open>JoinWait\<close>; \<open>AwaitStop\<close> is the loop of
  \<^verbatim>\<open>run\<close>; \<open>SignalStop\<close> is \<^verbatim>\<open>FeedHandler::stop\<close>, called by the signal handler.
\<close>

datatype action =
    SetRunning | StartFlag worker | StartThread worker | AwaitStop | Stop worker | JoinWait worker | SignalStop

record System =
  sy_running :: bool
  sy_flag :: "worker \<Rightarrow> bool"
  sy_joinable :: "worker \<Rightarrow> bool"
  sy_alive :: "worker \<Rightarrow> bool"
  sy_stuck :: "worker \<Rightarrow> bool"
  sy_main :: "action list"
  sy_signal :: "(worker \<times> action list) option"
  sy_failed :: bool

definition start_order :: "bool \<Rightarrow> worker list" where
  "start_order secondary = [WMetrics, WRecovery, WPersist] @ map WShard [0..<NUM_SHARDS] @ [WParser, WMerger] @
     (if secondary then [WSecondary] else []) @ [WReceiver]"

definition stop_order :: "bool \<Rightarrow> worker list" where
  "stop_order secondary = [WReceiver] @ (if secondary then [WSecondary] else []) @ [WMerger, WParser, WPersist] @
     map WShard [0..<NUM_SHARDS] @ [WRecovery, WMetrics]"

definition start_workers :: "bool \<Rightarrow> action list" where
  "start_workers secondary = concat (map (\<lambda>w. [StartFlag w, StartThread w]) (start_order secondary))"

definition stop_workers :: "bool \<Rightarrow> action list" where
  "stop_workers secondary = map Stop (stop_order secondary)"

definition run_actions :: "bool \<Rightarrow> action list" where
  "run_actions secondary = SetRunning # start_workers secondary @ AwaitStop # stop_workers secondary"

text \<open>
  The effect of one action: what remains to be done and the new state, or \<^term>\<open>None\<close> when the
  thread has to wait. Stopping the sequence writer does nothing when its flag is cleared already.
  Joining the own thread throws, as does joining a thread that another caller has joined
  meanwhile, and replacing a joinable thread ends the process.
\<close>

fun exec :: "bool \<Rightarrow> worker option \<Rightarrow> action \<Rightarrow> action list \<Rightarrow> System \<Rightarrow> (action list \<times> System) option" where
  "exec sec self SetRunning as s = Some (as, s\<lparr>sy_running := True\<rparr>)"
| "exec sec self (StartFlag w) as s = Some (as, s\<lparr>sy_flag := (sy_flag s)(w := True)\<rparr>)"
| "exec sec self (StartThread w) as s =
    (if sy_joinable s w then Some (as, s\<lparr>sy_failed := True\<rparr>)
     else Some (as, s\<lparr>sy_joinable := (sy_joinable s)(w := True), sy_alive := (sy_alive s)(w := True)\<rparr>))"
| "exec sec self AwaitStop as s = (if sy_running s then None else Some (as, s))"
| "exec sec self (Stop w) as s =
    (if w = WPersist \<and> \<not> sy_flag s w then Some (as, s)
     else Some (if sy_joinable s w then JoinWait w # as else as, s\<lparr>sy_flag := (sy_flag s)(w := False)\<rparr>))"
| "exec sec self (JoinWait w) as s =
    (if self = Some w then Some (as, s\<lparr>sy_failed := True\<rparr>)
     else if sy_alive s w then None
     else if \<not> sy_joinable s w then Some (as, s\<lparr>sy_failed := True\<rparr>)
     else Some (as, s\<lparr>sy_joinable := (sy_joinable s)(w := False)\<rparr>))"
| "exec sec self SignalStop as s =
    (if sy_running s then Some (stop_workers sec @ as, s\<lparr>sy_running := False\<rparr>) else Some (as, s))"

section \<open>Steps\<close>

text \<open>Steps of the program: of the main thread, of the handler on a worker, and the end of a worker.\<close>

inductive progress :: "bool \<Rightarrow> System \<Rightarrow> System \<Rightarrow> bool" for sec where
  main: "\<not> sy_failed s \<Longrightarrow> sy_main s = a # as \<Longrightarrow> exec sec None a as s = Some (as', s') \<Longrightarrow>
    progress sec s (s'\<lparr>sy_main := as'\<rparr>)"
| handler: "\<not> sy_failed s \<Longrightarrow> sy_signal s = Some (w, a # as) \<Longrightarrow> exec sec (Some w) a as s = Some (as', s') \<Longrightarrow>
    progress sec s (s'\<lparr>sy_signal := Some (w, as')\<rparr>)"
| return: "\<not> sy_failed s \<Longrightarrow> sy_signal s = Some (w, []) \<Longrightarrow> progress sec s (s\<lparr>sy_signal := None\<rparr>)"
| thread_exit: "\<not> sy_failed s \<Longrightarrow> sy_alive s w \<Longrightarrow> \<not> sy_flag s w \<Longrightarrow> \<not> sy_stuck s w \<Longrightarrow> map_option fst (sy_signal s) \<noteq> Some w \<Longrightarrow>
    progress sec s (s\<lparr>sy_alive := (sy_alive s)(w := False)\<rparr>)"

text \<open>An execution also has the moments at which a worker enters a round that will not end.\<close>

inductive execution :: "bool \<Rightarrow> System \<Rightarrow> System \<Rightarrow> bool" for sec where
  program: "progress sec s s' \<Longrightarrow> execution sec s s'"
| hang: "sy_alive s w \<Longrightarrow> \<not> sy_stuck s w \<Longrightarrow> execution sec s (s\<lparr>sy_stuck := (sy_stuck s)(w := True)\<rparr>)"

definition signal_main :: "System \<Rightarrow> System" where
  "signal_main s = s\<lparr>sy_main := SignalStop # sy_main s\<rparr>"

definition signal_worker :: "worker \<Rightarrow> System \<Rightarrow> System" where
  "signal_worker w s = s\<lparr>sy_signal := Some (w, [SignalStop])\<rparr>"

definition system_init :: "bool \<Rightarrow> System" where
  "system_init sec = \<lparr>sy_running = False, sy_flag = (\<lambda>_. False), sy_joinable = (\<lambda>_. False), sy_alive = (\<lambda>_. False), sy_stuck = (\<lambda>_. False),
     sy_main = run_actions sec, sy_signal = None, sy_failed = False\<rparr>"

text \<open>All actions to start the workers are done.\<close>

definition started :: "System \<Rightarrow> bool" where
  "started s \<longleftrightarrow> (\<forall>a \<in> set (sy_main s). case a of SetRunning \<Rightarrow> False | StartFlag w \<Rightarrow> False | StartThread w \<Rightarrow> False | _ \<Rightarrow> True)"


inductive_cases progressE: "progress sec s s'"

inductive_cases executionE: "execution sec s s'"

definition stop_requested :: "System \<Rightarrow> bool" where
  "stop_requested s \<longleftrightarrow> started s \<and> (sy_running s \<longrightarrow> SignalStop \<in> set (sy_main s))"

definition finished :: "System \<Rightarrow> bool" where
  "finished s \<longleftrightarrow> sy_main s = [] \<and> \<not> sy_running s \<and> \<not> sy_failed s \<and>
     (\<forall>w. \<not> sy_flag s w \<and> \<not> sy_alive s w \<and> \<not> sy_joinable s w)"

section \<open>Invariant\<close>




lemma orders:
  "set (start_order sec) = set (stop_order sec)" "distinct (start_order sec)" "distinct (stop_order sec)"
  by (auto simp: start_order_def stop_order_def distinct_map inj_on_def)








section \<open>Shutdown ends\<close>












section \<open>Properties\<close>


text \<open>The state in which all workers run and the main thread waits.\<close>

definition running_state :: "bool \<Rightarrow> System" where
  "running_state sec = \<lparr>sy_running = True, sy_flag = (\<lambda>w. w \<in> set (stop_order sec)),
     sy_joinable = (\<lambda>w. w \<in> set (stop_order sec)), sy_alive = (\<lambda>w. w \<in> set (stop_order sec)), sy_stuck = (\<lambda>_. False),
     sy_main = AwaitStop # stop_workers sec, sy_signal = None, sy_failed = False\<rparr>"

lemma start_run:
  assumes "start_order sec = us @ ws"
    "s = \<lparr>sy_running = True, sy_flag = (\<lambda>w. w \<in> set us), sy_joinable = (\<lambda>w. w \<in> set us), sy_alive = (\<lambda>w. w \<in> set us), sy_stuck = (\<lambda>_. False),
      sy_main = concat (map (\<lambda>w. [StartFlag w, StartThread w]) ws) @ AwaitStop # stop_workers sec,
      sy_signal = None, sy_failed = False\<rparr>"
  shows "(progress sec)\<^sup>*\<^sup>* s (running_state sec)"
  using assms
proof (induction ws arbitrary: us s)
  case Nil
  then show ?case using orders(1)[of sec] by (simp add: running_state_def)
next
  case (Cons w ws)
  have w: "w \<notin> set us" using Cons.prems(1) orders(2)[of sec] by simp
  let ?as = "concat (map (\<lambda>w. [StartFlag w, StartThread w]) ws) @ AwaitStop # stop_workers sec"
  let ?s1 = "s\<lparr>sy_flag := (\<lambda>v. v \<in> set (us @ [w])), sy_main := StartThread w # ?as\<rparr>"
  let ?s2 = "?s1\<lparr>sy_joinable := (\<lambda>v. v \<in> set (us @ [w])), sy_alive := (\<lambda>v. v \<in> set (us @ [w])), sy_main := ?as\<rparr>"
  have ins: "(\<lambda>v. v \<in> set us)(w := True) = (\<lambda>v. v \<in> set (us @ [w]))" by (auto simp: fun_eq_iff)
  have "exec sec None (StartFlag w) (StartThread w # ?as) s = Some (StartThread w # ?as, s\<lparr>sy_flag := (\<lambda>v. v \<in> set (us @ [w]))\<rparr>)"
    using Cons.prems(2) ins by simp
  then have "progress sec s (s\<lparr>sy_flag := (\<lambda>v. v \<in> set (us @ [w]))\<rparr>\<lparr>sy_main := StartThread w # ?as\<rparr>)"
    by (rule progress.main[rotated 2]) (simp_all add: Cons.prems(2))
  then have "progress sec s ?s1" by simp
  moreover have "exec sec None (StartThread w) ?as ?s1 = Some (?as, ?s1\<lparr>sy_joinable := (\<lambda>v. v \<in> set (us @ [w])), sy_alive := (\<lambda>v. v \<in> set (us @ [w]))\<rparr>)"
    using Cons.prems(2) ins w by simp
  then have "progress sec ?s1 (?s1\<lparr>sy_joinable := (\<lambda>v. v \<in> set (us @ [w])), sy_alive := (\<lambda>v. v \<in> set (us @ [w]))\<rparr>\<lparr>sy_main := ?as\<rparr>)"
    by (rule progress.main[rotated 2]) (simp_all add: Cons.prems(2))
  then have "progress sec ?s1 ?s2" by simp
  moreover have "(progress sec)\<^sup>*\<^sup>* ?s2 (running_state sec)"
    by (rule Cons.IH[of "us @ [w]"]) (use Cons.prems in simp_all)
  ultimately show ?case by (meson converse_rtranclp_into_rtranclp)
qed

lemma init_run: "(progress sec)\<^sup>*\<^sup>* (system_init sec) (running_state sec)"
proof -
  let ?s = "(system_init sec)\<lparr>sy_running := True, sy_main := start_workers sec @ AwaitStop # stop_workers sec\<rparr>"
  have "progress sec (system_init sec) ?s"
    using progress.main[of "system_init sec" SetRunning] by (simp add: system_init_def run_actions_def)
  moreover have "(progress sec)\<^sup>*\<^sup>* ?s (running_state sec)"
    by (rule start_run[of sec "[]"]) (simp_all add: system_init_def start_workers_def)
  ultimately show ?thesis by (meson converse_rtranclp_into_rtranclp)
qed




text \<open>The actions of a stop, and the stop of a worker that is still to come.\<close>

definition quiet :: "action list \<Rightarrow> bool" where
  "quiet as \<longleftrightarrow> (\<forall>a \<in> set as. a = AwaitStop \<or> (\<exists>v. a = Stop v \<or> a = JoinWait v))"

definition to_join :: "worker \<Rightarrow> action list \<Rightarrow> bool" where
  "to_join w as \<longleftrightarrow> Stop w \<in> set as \<or> JoinWait w \<in> set as"

lemma exec_quiet:
  assumes "quiet (a # as)" "exec sec self a as s = Some (as', t)" "sy_alive s w" "sy_joinable s w"
  shows "quiet as' \<and> sy_running t = sy_running s \<and> sy_alive t = sy_alive s \<and> sy_main t = sy_main s \<and>
    sy_signal t = sy_signal s \<and> sy_joinable t w"
proof -
  consider "a = AwaitStop" | v where "a = Stop v" | v where "a = JoinWait v" using assms(1) by (auto simp: quiet_def)
  then show ?thesis using assms by cases (auto simp: quiet_def split: if_splits)
qed

lemma exec_to_join:
  assumes "quiet (a # as)" "to_join w (a # as)" "exec sec (Some w) a as s = Some (as', t)" "sy_joinable s w" "w \<noteq> WPersist"
  shows "sy_failed t \<or> to_join w as'"
proof -
  consider "a = AwaitStop" | v where "a = Stop v" | v where "a = JoinWait v" using assms(1) by (auto simp: quiet_def)
  then show ?thesis using assms by cases (auto simp: to_join_def split: if_splits)
qed

text \<open>A worker on which the handler runs and has not yet come to join it.\<close>

definition trapped :: "worker \<Rightarrow> System \<Rightarrow> bool" where
  "trapped w s \<longleftrightarrow> sy_alive s w \<and> sy_joinable s w \<and> quiet (sy_main s) \<and> (\<exists>h. sy_signal s = Some (w, h) \<and>
    (sy_failed s \<or> h = [SignalStop] \<and> sy_running s \<or> quiet h \<and> to_join w h))"

lemma trapped_progress:
  assumes "trapped w s" "progress sec s t" "w \<in> set (stop_order sec)" "w \<noteq> WPersist"
  shows "trapped w t"
proof -
  obtain h where h: "sy_alive s w" "sy_joinable s w" "quiet (sy_main s)" "sy_signal s = Some (w, h)"
    "sy_failed s \<or> h = [SignalStop] \<and> sy_running s \<or> quiet h \<and> to_join w h"
    using assms(1) by (auto simp: trapped_def)
  from assms(2) show ?thesis
  proof cases
    case (main a as as' u)
    have "quiet (a # as)" using h(3) main(3) by simp
    from exec_quiet[OF this main(4) h(1,2)] show ?thesis using h main(1,2) by (auto simp: trapped_def)
  next
    case (handler v a as as' u)
    then have v: "v = w" "h = a # as" using h(4) by simp_all
    show ?thesis
    proof (cases "h = [SignalStop] \<and> sy_running s")
      case True
      have "quiet (stop_workers sec)" "to_join w (stop_workers sec)"
        using assms(3) by (auto simp: quiet_def to_join_def stop_workers_def)
      then show ?thesis using True v handler(1,4) h by (auto simp: trapped_def)
    next
      case False
      then have q: "quiet (a # as)" "to_join w (a # as)" using h(5) v(2) handler(2) by auto
      show ?thesis
        using exec_quiet[OF q(1) handler(4) h(1,2)] exec_to_join[OF q handler(4)[unfolded v(1)] h(2) assms(4)] h(1,3) v(1)
        by (auto simp: handler(1) trapped_def)
    qed
  next
    case (return v)
    then show ?thesis using h(4,5) by (auto simp: quiet_def to_join_def)
  next
    case (thread_exit v)
    then show ?thesis using h by (auto simp: trapped_def)
  qed
qed

text \<open>
  Nothing keeps the kernel from running the signal handler on a worker. Then shutdown
  does not end: the handler would have to join the thread it runs on. In every state that can
  follow, whatever the interleaving, this worker is still there and was not joined. (The sequence
  writer is the exception: its stop does nothing once another caller has cleared the flag.)
\<close>

theorem signal_on_worker_never_finishes:
  assumes "w \<in> set (stop_order sec)" "w \<noteq> WPersist" "(progress sec)\<^sup>*\<^sup>* (signal_worker w (running_state sec)) s"
  shows "sy_alive s w \<and> sy_joinable s w \<and> \<not> finished s"
proof -
  from assms(3) have "trapped w s"
  proof (induction rule: rtranclp_induct)
    case base
    show ?case using assms(1) by (auto simp: trapped_def quiet_def signal_worker_def running_state_def stop_workers_def)
  next
    case (step s t)
    then show ?case using trapped_progress assms(1,2) by blast
  qed
  then show ?thesis by (auto simp: trapped_def finished_def)
qed

theorem signal_on_worker_never_finishes_witness:
  "\<not> finished (signal_worker WParser (running_state False))"
  using signal_on_worker_never_finishes[of WParser False "signal_worker WParser (running_state False)"]
  by (simp add: stop_order_def)

text \<open>
  A signal that arrives before \<^verbatim>\<open>run\<close> has set the flag, for instance during the initialisation, is
  lost: the handler finds nothing to stop, and the program goes on to the state in which the main
  thread waits and nothing can happen any more.
\<close>

theorem early_signal_is_lost:
  "(progress sec)\<^sup>*\<^sup>* (signal_main (system_init sec)) (running_state sec) \<and> \<not> stop_requested (running_state sec) \<and>
   (\<nexists>s. progress sec (running_state sec) s)"
proof (intro conjI)
  have "progress sec (signal_main (system_init sec)) (system_init sec)"
    using progress.main[of "signal_main (system_init sec)" SignalStop "run_actions sec" sec]
    by (simp add: signal_main_def system_init_def)
  then show "(progress sec)\<^sup>*\<^sup>* (signal_main (system_init sec)) (running_state sec)"
    using init_run by (rule converse_rtranclp_into_rtranclp)
  show "\<not> stop_requested (running_state sec)" by (auto simp: stop_requested_def running_state_def stop_workers_def)
  show "\<nexists>s. progress sec (running_state sec) s" by (auto simp: running_state_def elim!: progressE)
qed

text \<open>
  A signal between the two statements that start the sequence writer clears the flag of a thread
  that does not exist yet. The later stop then returns at once, and the thread is never joined.
\<close>

definition persist_window :: System where
  "persist_window = \<lparr>sy_running = False, sy_flag = (\<lambda>_. False), sy_joinable = (\<lambda>_. False), sy_alive = (\<lambda>_. False), sy_stuck = (\<lambda>_. False),
     sy_main = [StartThread WPersist, Stop WPersist], sy_signal = None, sy_failed = False\<rparr>"

theorem writer_not_joined:
  "(progress sec)\<^sup>*\<^sup>* persist_window (persist_window\<lparr>sy_main := [], sy_joinable := (\<lambda>w. w = WPersist), sy_alive := (\<lambda>w. w = WPersist)\<rparr>)"
proof -
  let ?s = "persist_window\<lparr>sy_main := [Stop WPersist], sy_joinable := (\<lambda>w. w = WPersist), sy_alive := (\<lambda>w. w = WPersist)\<rparr>"
  have "(\<lambda>_. False)(WPersist := True) = (\<lambda>w. w = WPersist)" by (auto simp: fun_eq_iff)
  then have "progress sec persist_window ?s"
    using progress.main[of persist_window "StartThread WPersist" "[Stop WPersist]" sec] by (simp add: persist_window_def)
  moreover have "progress sec ?s (?s\<lparr>sy_main := []\<rparr>)"
    using progress.main[of ?s "Stop WPersist" "[]" sec] by (simp add: persist_window_def)
  ultimately show ?thesis by (auto intro: converse_rtranclp_into_rtranclp simp: persist_window_def)
qed

end
