(* ===== verification/Metrics_Report.thy ===== *)
theory Metrics_Report
  imports Latency_Histogram Host_Text
begin

text \<open>
  The metrics reporter: \<^verbatim>\<open>src/monitoring/metrics_reporter.cpp\<close> and \<^verbatim>\<open>LatencyHistogram::print_report\<close>.
  The report is the text written to the standard error stream. The counters are read one after the
  other while their writers go on; one report is a function of what was read. The rank of a
  percentile, a floating-point product of the count, is an argument; percentiles are named in
  tenths of a percent. Starting and stopping the
  thread is in \<open>Thread_Lifecycle\<close>.
\<close>

section \<open>The report\<close>

definition lu :: "u64 \<Rightarrow> u8 list" where "lu x = decimal (unat x)"
definition lu_pad :: "nat \<Rightarrow> u64 \<Rightarrow> u8 list" where "lu_pad n x = pad_right n (lu x)"

definition print_histogram :: "(nat \<Rightarrow> u64 \<Rightarrow> u64) \<Rightarrow> u8 list \<Rightarrow> LatencyHistogram \<Rightarrow> u8 list" where
  "print_histogram rank name h =
    (let n = lh_count h; p = (\<lambda>q. lu_pad 8 (percentile h (rank q n))) in
     if n = 0 then pad_right 30 name @ bytes_of ''  no samples'' @ [0x0A]
     else pad_right 30 name @ bytes_of ''  n='' @ lu_pad 10 n @ bytes_of ''  p50='' @ p 500 @ bytes_of ''  p95='' @ p 950 @
       bytes_of ''  p99='' @ p 990 @ bytes_of ''  p99.9='' @ p 999 @ bytes_of ''  max='' @ lu_pad 8 (lh_max h) @
       bytes_of ''  (ns)'' @ [0x0A])"

record MetricsReporter =
  mr_stats :: FeedStats
  mr_parse_lat :: LatencyHistogram
  mr_book_lat :: "LatencyHistogram list"
  mr_num_shards :: nat

text \<open>The sum of a counter over the shards, which wraps, and its values between brackets.\<close>

definition shard_total :: "counter list \<Rightarrow> nat \<Rightarrow> u64" where
  "shard_total cs n = fold (\<lambda>i t. t + cs ! i) [0..<n] 0"

definition shard_values :: "counter list \<Rightarrow> nat \<Rightarrow> u8 list" where
  "shard_values cs n = concat (map (\<lambda>i. lu (cs ! i) @ (if i + 1 < n then [0x20] else [])) [0..<n])"

definition counters_text :: "FeedStats \<Rightarrow> u8 list" where
  "counters_text s =
    bytes_of ''Packets    received='' @ lu_pad 12 (fs_packets_received s) @ bytes_of '' dropped='' @ lu_pad 12 (fs_packets_dropped s) @ [0x0A] @
    bytes_of ''Messages   parsed='' @ lu_pad 14 (fs_messages_parsed s) @ [0x0A] @
    bytes_of ''Sequence   gaps='' @ lu_pad 16 (fs_sequence_gaps s) @ bytes_of '' dups='' @ lu_pad 14 (fs_sequence_dups s) @ [0x0A] @
    bytes_of ''Recovery   recovered='' @ lu_pad 11 (fs_recovered_packets s) @ bytes_of '' drops='' @ lu_pad 14 (fs_recovery_drops s) @ [0x0A] @
    bytes_of ''FeedMerger secondary='' @ lu_pad 12 (fs_secondary_packets s) @ bytes_of '' dedup_drops='' @ lu_pad 9 (fs_dedup_drops s) @
    bytes_of '' failovers='' @ lu_pad 10 (fs_feed_failover_count s) @
    (if 0 < fs_merged_drops s
     then bytes_of '' merged_drops='' @ lu (fs_merged_drops s) @ bytes_of '' -- WARNING: merged queue full'' @ [0x0A]
     else [0x0A])"

definition queue_drops_text :: "FeedStats \<Rightarrow> nat \<Rightarrow> u8 list" where
  "queue_drops_text s n =
    (let total = shard_total (fs_shard_queue_drops s) n in
     if 0 < total
     then bytes_of ''ShardDrops total='' @ lu_pad 13 total @ bytes_of '' ['' @ shard_values (fs_shard_queue_drops s) n @ bytes_of '']'' @ [0x0A]
     else bytes_of ''ShardDrops total=0'' @ [0x0A])"

definition level_drops_text :: "FeedStats \<Rightarrow> nat \<Rightarrow> u8 list" where
  "level_drops_text s n =
    (let total = shard_total (fs_price_level_drops s) n in
     if 0 < total
     then bytes_of ''PriceLevelDrops total='' @ lu_pad 9 total @ bytes_of '' ['' @ shard_values (fs_price_level_drops s) n @
       bytes_of ''] -- WARNING: book depth exceeded MAX_PRICE_LEVELS='' @ decimal MAX_PRICE_LEVELS @
       bytes_of ''; increase constexpr MAX_PRICE_LEVELS in constants.hpp and rebuild'' @ [0x0A]
     else [])"

definition print_report :: "(nat \<Rightarrow> u64 \<Rightarrow> u64) \<Rightarrow> MetricsReporter \<Rightarrow> u8 list" where
  "print_report rank r =
    (let s = mr_stats r; n = mr_num_shards r in
     [0x0A] @ bytes_of ''========== Feed Handler Metrics =========='' @ [0x0A] @
     counters_text s @
     bytes_of ''Replaces   inplace='' @ lu_pad 14 (shard_total (fs_order_replaces_inplace s) n) @
     bytes_of '' (same-price qty-reduced; priority preserved)'' @ [0x0A] @
     queue_drops_text s n @ level_drops_text s n @
     [0x0A] @ bytes_of ''Latency (wire-to-parse):'' @ [0x0A] @ print_histogram rank (bytes_of ''  parse'') (mr_parse_lat r) @
     [0x0A] @ bytes_of ''Latency (wire-to-book) per shard:'' @ [0x0A] @
     concat (map (\<lambda>i. print_histogram rank (bytes_of ''  shard['' @ decimal i @ bytes_of '']'') (mr_book_lat r ! i)) [0..<n]) @
     bytes_of ''=========================================='' @ [0x0A, 0x0A])"

text \<open>The loop of the reporter thread: what it finds in \<^verbatim>\<open>running_\<close> before and after each sleep, and the reports it writes.\<close>

fun reporter_run :: "(nat \<Rightarrow> u64 \<Rightarrow> u64) \<Rightarrow> (bool \<times> bool \<times> MetricsReporter) list \<Rightarrow> u8 list" where
  "reporter_run rank [] = []"
| "reporter_run rank ((before, after, r) # rest) =
    (if before \<and> after then print_report rank r @ reporter_run rank rest else [])"

section \<open>The array of histograms\<close>

text \<open>
  The reporter gets \<^verbatim>\<open>&shard_mem_[0].book_lat\<close> as the start of an array of histograms. In words of
  eight bytes: a histogram takes 528, its buckets, the count and the maximum on cache lines of their
  own; a \<^verbatim>\<open>ShardMem\<close> takes 536, five pointers on a cache line and its histogram.
\<close>

definition histogram_words :: "LatencyHistogram \<Rightarrow> u64 list" where
  "histogram_words h = lh_buckets h @ (lh_count h # replicate 7 0) @ (lh_max h # replicate 7 0)"

definition shard_words :: "u64 list \<times> LatencyHistogram \<Rightarrow> u64 list" where
  "shard_words sm = fst sm @ replicate 3 0 @ histogram_words (snd sm)"

text \<open>The members of \<^verbatim>\<open>book_lat_shards_[i]\<close>, read from the memory of the array of \<^verbatim>\<open>ShardMem\<close>.\<close>

definition reported_histogram :: "(u64 list \<times> LatencyHistogram) list \<Rightarrow> nat \<Rightarrow> LatencyHistogram" where
  "reported_histogram shard_mem i =
    (let mem = concat (map shard_words shard_mem); at = (\<lambda>k. mem ! (8 + 528 * i + k))
     in \<lparr>lh_buckets = map at [0..<512], lh_count = at 512, lh_max = at 520\<rparr>)"

section \<open>Lemmas\<close>

lemma shard_total_sum:
  assumes "n \<le> length cs" "sum_list (map unat (take n cs)) < 2 ^ 64"
  shows "unat (shard_total cs n) = sum_list (map unat (take n cs))"
  using assms
proof (induction n)
  case 0
  then show ?case by (simp add: shard_total_def)
next
  case (Suc n)
  have t: "sum_list (map unat (take (Suc n) cs)) = sum_list (map unat (take n cs)) + unat (cs ! n)"
    using Suc.prems(1) by (simp add: take_Suc_conv_app_nth)
  then have "unat (shard_total cs n) = sum_list (map unat (take n cs))" using Suc by simp
  moreover have "shard_total cs (Suc n) = shard_total cs n + cs ! n" by (simp add: shard_total_def)
  ultimately show ?case using t Suc.prems(2) by (simp add: unat_word_ariths)
qed

lemma nth_concat_uniform:
  assumes "\<forall>xs \<in> set xss. length xs = n" "i < length xss" "j < n"
  shows "concat xss ! (i * n + j) = xss ! i ! j"
  using assms
proof (induction xss arbitrary: i)
  case (Cons xs xss)
  then show ?case by (cases i) (auto simp: nth_append)
qed simp

section \<open>Properties\<close>

text \<open>
  No dropped message goes unreported: when the counters of the shards add up to less
  than \<open>2 ^ 64\<close>, the line on queue drops shows their exact total with the count of every shard if any
  of them is not zero, and says zero exactly if all are; the line on price levels is there exactly
  if an order was dropped for lack of a level.
\<close>

theorem drops_are_reported:
  assumes "length (fs_shard_queue_drops s) = n" "length (fs_price_level_drops s) = n"
    "sum_list (map unat (fs_shard_queue_drops s)) < 2 ^ 64" "sum_list (map unat (fs_price_level_drops s)) < 2 ^ 64"
  shows "queue_drops_text s n =
      (if \<exists>c \<in> set (fs_shard_queue_drops s). c \<noteq> 0
       then bytes_of ''ShardDrops total='' @ pad_right 13 (decimal (sum_list (map unat (fs_shard_queue_drops s)))) @
         bytes_of '' ['' @ shard_values (fs_shard_queue_drops s) n @ bytes_of '']'' @ [0x0A]
       else bytes_of ''ShardDrops total=0'' @ [0x0A]) \<and>
    (level_drops_text s n = [] \<longleftrightarrow> (\<forall>c \<in> set (fs_price_level_drops s). c = 0))"
proof -
  have t: "unat (shard_total cs n) = sum_list (map unat cs)" "0 < shard_total cs n \<longleftrightarrow> (\<exists>c \<in> set cs. c \<noteq> 0)"
    if "length cs = n" "sum_list (map unat cs) < 2 ^ 64" for cs :: "counter list"
  proof -
    show u: "unat (shard_total cs n) = sum_list (map unat cs)" using shard_total_sum[of n cs] that by simp
    have "sum_list (map unat cs) = 0 \<longleftrightarrow> (\<forall>c \<in> set cs. c = 0)"
      by (induction cs) (simp_all add: word_unat_eq_iff)
    moreover have "0 < shard_total cs n \<longleftrightarrow> sum_list (map unat cs) \<noteq> 0"
      unfolding word_less_nat_alt u unat_0 by (rule neq0_conv[symmetric])
    ultimately show "0 < shard_total cs n \<longleftrightarrow> (\<exists>c \<in> set cs. c \<noteq> 0)" by blast
  qed
  show ?thesis
    using t[OF assms(1,3)] t(2)[OF assms(2,4)]
    by (auto simp: queue_drops_text_def level_drops_text_def lu_pad_def lu_def bytes_of_def Let_def)
qed

theorem drops_are_reported_witness:
  "queue_drops_text (FeedStats_init\<lparr>fs_shard_queue_drops := [0, 0, 3, 0, 0, 0, 0, 4]\<rparr>) 8 =
     bytes_of ''ShardDrops total='' @ pad_right 13 (decimal 7) @ bytes_of '' ['' @
     shard_values [0, 0, 3, 0, 0, 0, 0, 4] 8 @ bytes_of '']'' @ [0x0A]"
  using drops_are_reported[of "FeedStats_init\<lparr>fs_shard_queue_drops := [0, 0, 3, 0, 0, 0, 0, 4]\<rparr>" 8]
  by (simp add: FeedStats_init_def NUM_SHARDS_def sum_list_replicate)

text \<open>
  Of the eight histograms of the shards the reporter reads only the first. For each
  other shard \<open>i\<close> what it takes for the number of samples is the bucket \<open>512 - 8 * i\<close> of that shard's
  histogram, so that it normally prints that there are no samples, whatever was recorded.
\<close>

theorem reporter_reads_other_words:
  assumes "length shard_mem = NUM_SHARDS" "i < NUM_SHARDS"
    "\<forall>(ptrs, h) \<in> set shard_mem. length ptrs = 5 \<and> length (lh_buckets h) = TOTAL_BUCKETS"
  shows "lh_count (reported_histogram shard_mem i) =
    (if i = 0 then lh_count (snd (shard_mem ! 0)) else lh_buckets (snd (shard_mem ! i)) ! (512 - 8 * i)) \<and>
    (i \<noteq> 0 \<and> lh_buckets (snd (shard_mem ! i)) ! (512 - 8 * i) = 0 \<longrightarrow>
      print_histogram rank name (reported_histogram shard_mem i) = pad_right 30 name @ bytes_of ''  no samples'' @ [0x0A])"
proof -
  have i: "i < 8" using assms(2) by (simp add: NUM_SHARDS_def)
  have sm: "length (fst (shard_mem ! i)) = 5" "length (lh_buckets (snd (shard_mem ! i))) = 512"
    using bspec[OF assms(3) nth_mem[of i shard_mem]] assms(1,2) by (simp_all add: bucket_constants case_prod_beta)
  have uni: "\<forall>xs \<in> set (map shard_words shard_mem). length xs = 536"
    using assms(3) by (auto simp: shard_words_def histogram_words_def bucket_constants)
  have "8 + 528 * i + 512 = i * 536 + (520 - 8 * i)" using i by simp
  then have "concat (map shard_words shard_mem) ! (8 + 528 * i + 512) = shard_words (shard_mem ! i) ! (520 - 8 * i)"
    using nth_concat_uniform[OF uni, of i "520 - 8 * i"] assms(1,2) i by (simp add: add.commute)
  then have c: "lh_count (reported_histogram shard_mem i) = shard_words (shard_mem ! i) ! (520 - 8 * i)"
    by (simp add: reported_histogram_def Let_def)
  have "520 - 8 * i - 5 - 3 = 512 - 8 * i" "\<not> 520 - 8 * i < 5" "\<not> 520 - 8 * i - 5 < 3" using i by linarith+
  then have "shard_words (shard_mem ! i) ! (520 - 8 * i) = histogram_words (snd (shard_mem ! i)) ! (512 - 8 * i)"
    using sm(1) by (simp add: shard_words_def nth_append del: diff_diff_left)
  then have "lh_count (reported_histogram shard_mem i) =
    (if i = 0 then lh_count (snd (shard_mem ! 0)) else lh_buckets (snd (shard_mem ! i)) ! (512 - 8 * i))"
    using sm(2) c by (auto simp: histogram_words_def nth_append)
  then show ?thesis by (auto simp: print_histogram_def Let_def)
qed

text \<open>Every shard has recorded a latency of five nanoseconds; the report of shard 3 shows none.\<close>

theorem reporter_reads_other_words_witness:
  "print_histogram (\<lambda>_ _. 0) (bytes_of ''  shard[3]'')
     (reported_histogram (replicate 8 (replicate 5 0, histogram_init\<lparr>lh_buckets := bump 5 (replicate 512 0), lh_count := 1, lh_max := 5\<rparr>)) 3) =
   pad_right 30 (bytes_of ''  shard[3]'') @ bytes_of ''  no samples'' @ [0x0A]"
  using reporter_reads_other_words[of "replicate 8 (replicate 5 0, histogram_init\<lparr>lh_buckets := bump 5 (replicate 512 0), lh_count := 1, lh_max := 5\<rparr>)" 3]
  by (simp add: NUM_SHARDS_def bucket_constants nth_bump)

end
