(* ===== verification/Feed_Pipeline.thy ===== *)
theory Feed_Pipeline
  imports Feed_Handler System_Memory Thread_Lifecycle Metrics_Report
begin

text \<open>
  The threads at work on the objects they share. \<^verbatim>\<open>FeedHandler\<close> hands the same rings, queues, gap
  detector and quote publisher to several threads by reference; in the records of the components
  each of them has its own copy. A step here is one iteration of the loop of one thread, after
  which what the thread wrote is put into the copies of the others. The counters of
  \<^verbatim>\<open>FeedStats\<close> are not shared out: every thread adds to its own.
  Besides, \<^verbatim>\<open>main\<close> up to the point where the threads run, and the scheduling of the threads.
\<close>

section \<open>Shared objects\<close>

definition share_primary :: "ZeroCopyRing \<Rightarrow> FeedHandler \<Rightarrow> FeedHandler" where
  "share_primary ring fh =
    fh\<lparr>fh_receiver := (fh_receiver fh)\<lparr>rt_ring := ring\<rparr>,
       fh_feed_merger := (fh_feed_merger fh)\<lparr>fm_primary_ring := ring\<rparr>,
       fh_parser := (fh_parser fh)\<lparr>pt_primary_ring := ring\<rparr>,
       fh_recovery := (fh_recovery fh)\<lparr>rv_inject_ring := ring\<rparr>\<rparr>"

definition share_secondary :: "ZeroCopyRing \<Rightarrow> FeedHandler \<Rightarrow> FeedHandler" where
  "share_secondary ring fh =
    fh\<lparr>fh_secondary_receiver := map_option (\<lambda>rt. rt\<lparr>rt_ring := ring\<rparr>) (fh_secondary_receiver fh),
       fh_feed_merger := (fh_feed_merger fh)\<lparr>fm_secondary_ring := ring\<rparr>,
       fh_parser := (fh_parser fh)\<lparr>pt_secondary_ring := ring\<rparr>\<rparr>"

definition share_merged :: "MergedSlot SpscQueue \<Rightarrow> FeedHandler \<Rightarrow> FeedHandler" where
  "share_merged q fh =
    fh\<lparr>fh_feed_merger := (fh_feed_merger fh)\<lparr>fm_merged_queue := q\<rparr>,
       fh_parser := (fh_parser fh)\<lparr>pt_merged_queue := q\<rparr>\<rparr>"

definition share_gap :: "GapDetector \<Rightarrow> FeedHandler \<Rightarrow> FeedHandler" where
  "share_gap gd fh =
    fh\<lparr>fh_parser := (fh_parser fh)\<lparr>pt_gap_detector := gd\<rparr>, fh_recovery := (fh_recovery fh)\<lparr>rv_gap_detector := gd\<rparr>\<rparr>"

definition share_bbo :: "BboPublisher \<Rightarrow> FeedHandler \<Rightarrow> FeedHandler" where
  "share_bbo p fh =
    fh\<lparr>fh_parser := (fh_parser fh)\<lparr>pt_ctx := (pt_ctx (fh_parser fh))\<lparr>sc_bbo := p\<rparr>\<rparr>,
       fh_workers := map (\<lambda>w. w\<lparr>sw_bbo := p\<rparr>) (fh_workers fh)\<rparr>"

text \<open>All copies of a shared object agree.\<close>

definition coherent :: "FeedHandler \<Rightarrow> bool" where
  "coherent fh \<longleftrightarrow>
     (let ring = rt_ring (fh_receiver fh); ring2 = fm_secondary_ring (fh_feed_merger fh) in
      fm_primary_ring (fh_feed_merger fh) = ring \<and> pt_primary_ring (fh_parser fh) = ring \<and>
      rv_inject_ring (fh_recovery fh) = ring \<and> pt_secondary_ring (fh_parser fh) = ring2 \<and>
      (case fh_secondary_receiver fh of None \<Rightarrow> True | Some rt \<Rightarrow> rt_ring rt = ring2)) \<and>
     pt_merged_queue (fh_parser fh) = fm_merged_queue (fh_feed_merger fh) \<and>
     rv_gap_detector (fh_recovery fh) = pt_gap_detector (fh_parser fh) \<and>
     list_all (\<lambda>w. sw_bbo w = sc_bbo (pt_ctx (fh_parser fh))) (fh_workers fh)"

section \<open>Steps of the threads\<close>

text \<open>The body of the loop of \<^verbatim>\<open>ShardWorker::run\<close>.\<close>

definition shard_iteration ::
  "SessionManager \<Rightarrow> Timestamp \<Rightarrow> ItchMsg SpscQueue \<Rightarrow> ShardWorker \<Rightarrow> (ItchMsg SpscQueue \<times> ShardWorker) outcome" where
  "shard_iteration mgr after q w =
    (case try_pop q of
       (None, q') \<Rightarrow> Inr (q', w)
     | (Some msg, q') \<Rightarrow> andthen (dispatch mgr after msg w) (\<lambda>w'. Inr (q', w')))"

definition receive_step :: "recvmsg_result \<Rightarrow> Timestamp \<Rightarrow> FeedHandler \<Rightarrow> FeedHandler outcome" where
  "receive_step r now fh =
    andthen (receiver_step r now (fh_receiver fh)) (\<lambda>rt.
      Inr (share_primary (rt_ring rt) (fh\<lparr>fh_receiver := rt\<rparr>)))"

definition receive_secondary_step :: "recvmsg_result \<Rightarrow> Timestamp \<Rightarrow> FeedHandler \<Rightarrow> FeedHandler outcome" where
  "receive_secondary_step r now fh =
    (case fh_secondary_receiver fh of
       None \<Rightarrow> Inr fh
     | Some rt0 \<Rightarrow> andthen (receiver_step r now rt0) (\<lambda>rt.
         Inr (share_secondary (rt_ring rt) (fh\<lparr>fh_secondary_receiver := Some rt\<rparr>))))"

definition merge_step :: "Timestamp \<Rightarrow> Timestamp \<Rightarrow> FeedHandler \<Rightarrow> FeedHandler outcome" where
  "merge_step now_slot now_check fh =
    andthen (merger_iteration now_slot now_check (fh_feed_merger fh)) (\<lambda>fm.
      Inr (share_merged (fm_merged_queue fm) (share_secondary (fm_secondary_ring fm)
        (share_primary (fm_primary_ring fm) (fh\<lparr>fh_feed_merger := fm\<rparr>)))))"

definition parse_step :: "Timestamp \<Rightarrow> (nat \<Rightarrow> Timestamp) \<Rightarrow> FeedHandler \<Rightarrow> FeedHandler outcome" where
  "parse_step now clock fh =
    andthen (parser_iteration now clock (fh_parser fh)) (\<lambda>(_, pt).
      Inr (share_bbo (sc_bbo (pt_ctx pt)) (share_gap (pt_gap_detector pt)
        (share_merged (pt_merged_queue pt) (fh\<lparr>fh_parser := pt\<rparr>)))))"

text \<open>The queue of a shard belongs to the router.\<close>

definition shard_queue :: "FeedHandler \<Rightarrow> nat \<Rightarrow> ItchMsg SpscQueue" where
  "shard_queue fh s = sr_queues (sc_router (pt_ctx (fh_parser fh))) ! s"

definition put_shard_queue :: "nat \<Rightarrow> ItchMsg SpscQueue \<Rightarrow> FeedHandler \<Rightarrow> FeedHandler" where
  "put_shard_queue s q fh =
    (let pt = fh_parser fh; ctx = pt_ctx pt; r = sc_router ctx in
     fh\<lparr>fh_parser := pt\<lparr>pt_ctx := ctx\<lparr>sc_router := r\<lparr>sr_queues := (sr_queues r)[s := q]\<rparr>\<rparr>\<rparr>\<rparr>)"

definition shard_step :: "nat \<Rightarrow> Timestamp \<Rightarrow> FeedHandler \<Rightarrow> FeedHandler outcome" where
  "shard_step s after fh =
    andthen (shard_iteration (sc_mgr (pt_ctx (fh_parser fh))) after (shard_queue fh s) (fh_workers fh ! s)) (\<lambda>(q, w).
      Inr (share_bbo (sw_bbo w) (put_shard_queue s q (fh\<lparr>fh_workers := (fh_workers fh)[s := w]\<rparr>))))"

definition recover_step ::
  "Timestamp \<Rightarrow> ConnectCalls \<Rightarrow> ConnectCalls \<Rightarrow> send_result \<Rightarrow> (recv_result \<times> Timestamp) list \<Rightarrow> Timestamp \<Rightarrow>
     FeedHandler \<Rightarrow> FeedHandler option outcome" where
  "recover_step now kp ks r rs now2 fh =
    andthen (recovery_iteration now kp ks r rs now2 (fh_recovery fh)) (\<lambda>res.
      Inr (map_option (\<lambda>rv. share_gap (rv_gap_detector rv) (share_primary (rv_inject_ring rv)
        (fh\<lparr>fh_recovery := rv\<rparr>))) res))"

text \<open>
  The writer of the durable record pops one record, if there is one, and saves it; \<open>k\<close> are the results
  of the system calls.
\<close>

definition persist_step :: "SaveCalls \<Rightarrow> FeedHandler \<Rightarrow> FeedHandler" where
  "persist_step k fh =
    fh\<lparr>fh_parser := (fh_parser fh)\<lparr>pt_persist_seq := pop_and_save k (pt_persist_seq (fh_parser fh))\<rparr>\<rparr>"

text \<open>
  The metrics thread reads \<open>running_\<close> after its sleep and writes a report on the counters and
  histograms as it has read them (\<open>r\<close>); it writes nothing that another thread reads.
\<close>

definition metrics_step :: "(nat \<Rightarrow> u64 \<Rightarrow> u64) \<Rightarrow> bool \<Rightarrow> MetricsReporter \<Rightarrow> FeedHandler \<Rightarrow> u8 list \<times> FeedHandler" where
  "metrics_step rank running r fh = (if running then print_report rank r else [], fh)"

text \<open>
  One step of any of the threads that runs without a fault: all the workers that \<^verbatim>\<open>start_workers\<close>
  starts. The retransmit login may also end the process.
\<close>

inductive system_step :: "FeedHandler \<Rightarrow> FeedHandler \<Rightarrow> bool" where
  receive: "receive_step r now fh = Inr fh' \<Longrightarrow> system_step fh fh'"
| receive_secondary: "receive_secondary_step r now fh = Inr fh' \<Longrightarrow> system_step fh fh'"
| merge: "merge_step now1 now2 fh = Inr fh' \<Longrightarrow> system_step fh fh'"
| parse: "parse_step now clock fh = Inr fh' \<Longrightarrow> system_step fh fh'"
| shard: "s < NUM_SHARDS \<Longrightarrow> shard_step s after fh = Inr fh' \<Longrightarrow> system_step fh fh'"
| recover: "recover_step now kp ks r rs now2 fh = Inr (Some fh') \<Longrightarrow> system_step fh fh'"
| persist: "persist_step c fh = fh' \<Longrightarrow> system_step fh fh'"
| metrics: "metrics_step rank running m fh = (report, fh') \<Longrightarrow> system_step fh fh'"

text \<open>What the start-up gives every thread to run with: its core, policy and priority.\<close>

fun thread_config :: "FeedHandlerConfig \<Rightarrow> worker \<Rightarrow> ThreadConfig option" where
  "thread_config cfg WReceiver = Some \<lparr>th_cpu_id = cf_receiver_core cfg, th_sched_policy = 1, th_sched_priority = 80, th_numa_node = -1\<rparr>"
| "thread_config cfg WSecondary =
    (if cf_multicast_group_secondary cfg = [] then None
     else Some \<lparr>th_cpu_id = to_int (cf_merger_core cfg + 1), th_sched_policy = 1, th_sched_priority = 80, th_numa_node = -1\<rparr>)"
| "thread_config cfg WMerger = Some \<lparr>th_cpu_id = cf_merger_core cfg, th_sched_policy = 1, th_sched_priority = 77, th_numa_node = -1\<rparr>"
| "thread_config cfg WParser = Some \<lparr>th_cpu_id = cf_parser_core cfg, th_sched_policy = 1, th_sched_priority = 79, th_numa_node = -1\<rparr>"
| "thread_config cfg (WShard s) =
    (if s < NUM_SHARDS
     then Some \<lparr>th_cpu_id = cf_shard_cores cfg ! s, th_sched_policy = 1, th_sched_priority = 78, th_numa_node = -1\<rparr> else None)"
| "thread_config cfg WRecovery = Some \<lparr>th_cpu_id = cf_recovery_core cfg, th_sched_policy = 0, th_sched_priority = 0, th_numa_node = -1\<rparr>"
| "thread_config cfg WMetrics = None"
| "thread_config cfg WPersist = None"

text \<open>The arguments of the two \<^verbatim>\<open>open\<close> calls of \<^verbatim>\<open>init\<close>: address to bind, port, group, interface.\<close>

definition primary_endpoint :: "FeedHandlerConfig \<Rightarrow> u8 list \<times> u16 \<times> u8 list \<times> u8 list" where
  "primary_endpoint cfg = (cf_interface cfg, cf_port cfg, cf_multicast_group cfg, cf_interface cfg)"

definition secondary_endpoint :: "FeedHandlerConfig \<Rightarrow> u8 list \<times> u16 \<times> u8 list \<times> u8 list" where
  "secondary_endpoint cfg =
    (let sec_port = (if cf_port_secondary cfg \<noteq> 0 then cf_port_secondary cfg else cf_port cfg);
         sec_iface = (if cf_interface_secondary cfg = [] then cf_interface cfg else cf_interface_secondary cfg)
     in (sec_iface, sec_port, cf_multicast_group_secondary cfg, sec_iface))"

section \<open>Process entry\<close>

datatype main_result = ExitFailure | Running FeedHandler

text \<open>
  \<^verbatim>\<open>main\<close> until \<^verbatim>\<open>handler.run()\<close>: \<open>files\<close> gives the parsed table of a path, or none where
  \<^verbatim>\<open>toml::parse_file\<close> throws. \<^verbatim>\<open>init\<close> ends the process itself for the placeholder address.
\<close>

definition main_start :: "(u8 list \<Rightarrow> TomlTable option) \<Rightarrow> InitCalls \<Rightarrow> u8 list list \<Rightarrow> main_result" where
  "main_start files k argv =
    (let config = (if 1 < length argv then argv ! 1 else bytes_of ''config/feed_handler.toml'') in
     case load_config (files config) of
       None \<Rightarrow> ExitFailure
     | Some cfg \<Rightarrow> (case feed_handler_init k cfg of
           InitOk fh \<Rightarrow> Running fh | InitFailed \<Rightarrow> ExitFailure | InitExit \<Rightarrow> ExitFailure))"

section \<open>What every thread keeps\<close>

text \<open>Queues and rings.\<close>

lemma pop_keeps: "spsc_wf q \<Longrightarrow> spsc_wf (snd (try_pop q))" "spsc_wf q \<Longrightarrow> spsc_wf (snd (try_push x q))"
  by (simp_all add: spsc.pop_wf spsc.push_wf)

text \<open>The live half of a ring, and the recovery half, each for itself.\<close>

lemma live_at_recovery_half [simp]:
  "live_at (ring\<lparr>zr_recovery_slots := a\<rparr>) R W = live_at ring R W"
  "live_at (ring\<lparr>zr_recovery_queue := b\<rparr>) R W = live_at ring R W"
  "live_at (ring\<lparr>zr_recovery_write := c\<rparr>) R W = live_at ring R W"
  by (simp_all add: live_at_def)

lemma recovery_inv_live_half [simp]:
  "recovery_inv (ring\<lparr>zr_buffer := a\<rparr>) = recovery_inv ring" "recovery_inv (ring\<lparr>zr_queue := b\<rparr>) = recovery_inv ring"
  by (simp_all add: recovery_inv_def recovery_at_def)

lemma consume_keeps:
  assumes "live_at ring R W"
  shows "\<exists>R'. live_at (snd (consume ring)) R' W" "recovery_inv (snd (consume ring)) = recovery_inv ring"
proof -
  show "\<exists>R'. live_at (snd (consume ring)) R' W"
  proof (cases "R < W")
    case True
    then show ?thesis using consume_live[OF assms] by (metis snd_conv)
  next
    case False
    then have e: "R = W" "contents (zr_queue ring) = []" "spsc_wf (zr_queue ring)" using assms by (auto simp: live_at_def)
    then have "contents (snd (try_pop (zr_queue ring))) = []" using spsc.pop_items[OF e(3)] by simp
    then have "live_at (snd (consume ring)) R W"
      using assms e spsc.pop_wf[OF e(3)] by (auto simp: live_at_def consume_def case_prod_beta)
    then show ?thesis by blast
  qed
qed (simp add: consume_def case_prod_beta)

lemma consume_recovered_keeps:
  assumes "recovery_inv ring"
  shows "recovery_inv (snd (consume_recovered ring))" "live_at (snd (consume_recovered ring)) R W = live_at ring R W"
proof -
  obtain A B where at: "recovery_at ring A B" using assms by (auto simp: recovery_inv_def)
  then have wf: "spsc_wf (zr_recovery_queue ring)" by (simp add: recovery_at_def)
  have "recovery_at (snd (consume_recovered ring)) (if A < B then Suc A else A) B"
    using at spsc.pop_wf[OF wf] spsc.pop_items[OF wf]
    by (auto simp: recovery_at_def consume_recovered_def case_prod_beta upt_conv_Cons)
  then show "recovery_inv (snd (consume_recovered ring))" unfolding recovery_inv_def by blast
qed (simp add: consume_recovered_def case_prod_beta)

lemma receiver_keeps:
  assumes "live_inv rt" "receiver_step r now rt = Inr rt'"
  shows "live_inv rt'" "recovery_inv (rt_ring rt') = recovery_inv (rt_ring rt)"
proof -
  obtain R W where at: "live_at (rt_ring rt) R W" "rt_write_slot rt = of_nat W" using assms(1) by (auto simp: live_inv_def)
  show "live_inv rt'"
  proof (cases "\<exists>bytes hw. r = Datagram bytes hw \<and> 0 < length bytes")
    case True
    then obtain bytes hw where r: "r = Datagram bytes hw" "0 < length bytes" by blast
    show ?thesis
      by (rule receiver_step_datagram[OF at r(2), of hw now])
        (use assms(2) r(1) at(2) in \<open>auto intro: live_invI simp: rt_dropped_def simp del: of_nat_Suc split: if_splits\<close>)
  next
    case False
    then have "fst (sock_recv r now s) \<le> 0" for s by (cases r) (auto simp: sock_recv_def)
    then obtain buf where "rt' = rt\<lparr>rt_ring := (rt_ring rt)\<lparr>zr_buffer := buf\<rparr>\<rparr>" "length buf = length (zr_buffer (rt_ring rt))"
      using assms(2) by (auto simp: receiver_step_def Let_def case_prod_beta not_less[symmetric])
    then show ?thesis using at unfolding live_inv_def by (auto simp: live_at_def)
  qed
  show "recovery_inv (rt_ring rt') = recovery_inv (rt_ring rt)"
    using assms(2) by (auto simp: receiver_step_def Let_def case_prod_beta publish_def split: if_splits)
qed

text \<open>The merger.\<close>

lemma check_and_mark_keeps:
  assumes "window_ok w" "check_and_mark seq w = Inr (ok, w')"
  shows "window_ok w'"
proof (cases "unat seq < unat (dw_base w)")
  case True
  then show ?thesis using check_and_mark_old[OF True] assms by simp
next
  case False
  have "unat seq + 64 < 2 ^ 64"
  proof (rule ccontr)
    assume "\<not> unat seq + 64 < 2 ^ 64"
    then have "advance_window seq w = None"
      using advance_window_diverges[of w seq] assms(1) by (simp add: window_ok_def)
    then show False using assms(2) False by (simp add: check_and_mark_def word_less_nat_alt)
  qed
  then obtain v where "check_and_mark seq w = Inr (unat seq \<notin> seen w, v)" "window_ok v"
    using check_and_mark_new[OF assms(1), of seq] False by (auto simp: not_less)
  then show ?thesis using assms(2) by simp
qed

definition merger_ok :: "FeedMerger \<Rightarrow> bool" where
  "merger_ok fm \<longleftrightarrow> merged_ok fm \<and> window_ok (fm_dedup fm) \<and> recovery_inv (fm_primary_ring fm)"

text \<open>What the merger does to the rings and its own state, relative to the receivers' positions.\<close>

definition merger_step :: "FeedMerger \<Rightarrow> FeedMerger \<Rightarrow> bool" where
  "merger_step fm fm' \<longleftrightarrow> merger_ok fm' \<and>
     (\<forall>R W. live_at (fm_primary_ring fm) R W \<longrightarrow> (\<exists>R'. live_at (fm_primary_ring fm') R' W)) \<and>
     (\<forall>R W. live_at (fm_secondary_ring fm) R W \<longrightarrow> (\<exists>R'. live_at (fm_secondary_ring fm') R' W))"

lemma merger_step_refl: "merger_ok fm \<Longrightarrow> merger_step fm fm"
  by (auto simp: merger_step_def)

lemma merger_step_trans: "merger_step fm fm' \<Longrightarrow> merger_step fm' fm'' \<Longrightarrow> merger_step fm fm''"
  unfolding merger_step_def by meson

lemma forward_keeps [simp]:
  "fm_dedup (forward ms fm) = fm_dedup fm" "fm_primary_ring (forward ms fm) = fm_primary_ring fm"
  "fm_secondary_ring (forward ms fm) = fm_secondary_ring fm" "merged_ok fm \<Longrightarrow> merged_ok (forward ms fm)"
  by (simp_all add: forward_def merged_ok_def case_prod_beta pop_keeps Let_def)

lemma merger_step_forward: "merger_ok fm \<Longrightarrow> merger_step fm (forward ms fm)"
  by (auto simp: merger_step_def merger_ok_def)

lemma handle_live_slot_keeps:
  assumes "merger_ok fm" "handle_live_slot now idx source fm = Inr fm'"
  shows "merger_step fm fm'"
proof -
  obtain s where s: "slot (if source = Primary then fm_primary_ring fm else fm_secondary_ring fm) idx = Inr s"
    using assms(2) by (auto simp: handle_live_slot_def)
  define fm1 where "fm1 = (if source = Primary
     then fm\<lparr>fm_primary_last_ts := (if ps_recv_ts s \<noteq> 0 then ps_recv_ts s else now), fm_failed_over := False\<rparr>
     else fm\<lparr>fm_stats := (fm_stats fm)\<lparr>fs_secondary_packets := fs_secondary_packets (fm_stats fm) + 1\<rparr>\<rparr>)"
  have fm1: "merger_step fm fm1" "merger_ok fm1" using assms(1) by (auto simp: fm1_def merger_step_def merger_ok_def merged_ok_def)
  have marked: "merger_step fm1 (fm1\<lparr>fm_dedup := w, fm_stats := st\<rparr>)" if "check_and_mark (peek_sequence s) (fm_dedup fm1) = Inr (ok, w)" for ok w st
    using fm1(2) check_and_mark_keeps[OF _ that] by (auto simp: merger_step_def merger_ok_def merged_ok_def)
  let ?ms = "\<lparr>ms_slot_idx = idx, ms_source = source\<rparr>"
  have run: "(if peek_sequence s = 0 then Inr (forward ?ms fm1)
      else if peek_msg_count s = MOLDUDP64_HEARTBEAT then Inr (forward ?ms fm1)
      else andthen (check_and_mark (peek_sequence s) (fm_dedup fm1)) (\<lambda>(fresh, w).
        if \<not> fresh then Inr (fm1\<lparr>fm_dedup := w, fm_stats := (fm_stats (fm1\<lparr>fm_dedup := w\<rparr>))
             \<lparr>fs_dedup_drops := fs_dedup_drops (fm_stats (fm1\<lparr>fm_dedup := w\<rparr>)) + 1\<rparr>\<rparr>)
        else Inr (forward ?ms (fm1\<lparr>fm_dedup := w\<rparr>)))) = Inr fm'"
    using assms(2) unfolding handle_live_slot_def s andthen.simps Let_def fm1_def[symmetric] .
  consider "fm' = forward ?ms fm1"
    | ok w st where "check_and_mark (peek_sequence s) (fm_dedup fm1) = Inr (ok, w)" "fm' = fm1\<lparr>fm_dedup := w, fm_stats := st\<rparr>"
    | w where "check_and_mark (peek_sequence s) (fm_dedup fm1) = Inr (True, w)"
      "fm' = forward ?ms (fm1\<lparr>fm_dedup := w\<rparr>)"
    using run by (auto split: if_splits)
  then have "merger_step fm1 fm'"
  proof cases
    case 1
    then show ?thesis using merger_step_forward[OF fm1(2)] by simp
  next
    case 2
    then show ?thesis using marked by simp
  next
    case 3
    have m: "merger_step fm1 (fm1\<lparr>fm_dedup := w\<rparr>)" using marked[OF 3(1), of "fm_stats fm1"] by simp
    then have "merger_ok (fm1\<lparr>fm_dedup := w\<rparr>)" by (simp add: merger_step_def)
    then show ?thesis unfolding 3(2) by (rule merger_step_trans[OF m merger_step_forward])
  qed
  then show ?thesis by (rule merger_step_trans[OF fm1(1)])
qed

lemma poll_live_keeps:
  assumes "merger_ok fm" "poll_live now source fm = Inr fm'"
  shows "merger_step fm fm'"
proof -
  let ?ring = "if source = Primary then fm_primary_ring fm else fm_secondary_ring fm"
  define fm1 where "fm1 = (if source = Primary then fm\<lparr>fm_primary_ring := snd (consume ?ring)\<rparr>
    else fm\<lparr>fm_secondary_ring := snd (consume ?ring)\<rparr>)"
  have r: "recovery_inv (snd (consume ring)) = recovery_inv ring" for ring by (simp add: consume_def case_prod_beta)
  have fm1: "merger_step fm fm1" "merger_ok fm1"
    using assms(1) consume_keeps(1) by (auto simp: fm1_def merger_step_def merger_ok_def merged_ok_def r)
  have "fm' = fm1 \<or> (\<exists>idx. handle_live_slot now idx (if source = Primary then Primary else Secondary) fm1 = Inr fm')"
    using assms(2) by (auto simp: poll_live_def fm1_def case_prod_beta Let_def split: option.splits if_splits)
  then show ?thesis using fm1 handle_live_slot_keeps[OF fm1(2)] merger_step_trans by blast
qed

lemma merger_iteration_keeps:
  assumes "merger_ok fm" "merger_iteration now_slot now_check fm = Inr fm'"
  shows "merger_step fm fm'"
proof -
  define fm0 where "fm0 = fm\<lparr>fm_primary_ring := snd (consume_recovered (fm_primary_ring fm))\<rparr>"
  have fm0: "merger_step fm fm0" "merger_ok fm0"
    using assms(1) consume_recovered_keeps by (auto simp: fm0_def merger_step_def merger_ok_def merged_ok_def)
  show ?thesis
  proof (cases "fst (consume_recovered (fm_primary_ring fm))")
    case (Some idx)
    then have "fm' = forward \<lparr>ms_slot_idx = idx, ms_source = Recovery\<rparr> fm0"
      using assms(2) by (simp add: merger_iteration_def fm0_def case_prod_beta Let_def)
    then show ?thesis using merger_step_trans[OF fm0(1) merger_step_forward[OF fm0(2)]] by simp
  next
    case None
    define finish where "finish = (\<lambda>fm2. let fm3 = fm2\<lparr>fm_slot_counter := fm_slot_counter fm2 + 1\<rparr> in
       if FAILOVER_CHECK_INTERVAL \<le> fm_slot_counter fm3 then
         let fm4 = fm3\<lparr>fm_slot_counter := 0\<rparr> in if fm_secondary_enabled fm4 then check_failover now_check fm4 else fm4
       else fm3)"
    have "andthen (poll_live now_slot Primary fm0) (\<lambda>fm1.
        andthen (if fm_secondary_enabled fm1 then poll_live now_slot Secondary fm1 else Inr fm1) (\<lambda>fm2.
          Inr (finish fm2))) = Inr fm'"
      using assms(2) None by (simp add: merger_iteration_def fm0_def case_prod_beta finish_def Let_def if_distrib[of Inr] cong: if_cong)
    then obtain fm1 fm2 where f: "poll_live now_slot Primary fm0 = Inr fm1"
      "(if fm_secondary_enabled fm1 then poll_live now_slot Secondary fm1 else Inr fm1) = Inr fm2" "fm' = finish fm2"
      by auto
    have fin: "merger_ok fm2 \<Longrightarrow> merger_step fm2 (finish fm2)"
      by (simp add: finish_def check_failover_def Let_def merger_step_def merger_ok_def merged_ok_def; blast)
    have s1: "merger_step fm fm1" using merger_step_trans[OF fm0(1) poll_live_keeps[OF fm0(2) f(1)]] .
    then have "merger_ok fm1" by (simp add: merger_step_def)
    then have s2: "merger_step fm fm2"
      using merger_step_trans[OF s1] f(2) poll_live_keeps merger_step_refl by (auto split: if_splits)
    then show ?thesis using merger_step_trans[OF s2 fin] by (simp add: f(3) merger_step_def)
  qed
qed

text \<open>The parser thread.\<close>

definition parser_ok :: "ParserThread \<Rightarrow> bool" where
  "parser_ok pt \<longleftrightarrow> context_ok (pt_ctx pt) \<and> length (lh_buckets (pt_parse_lat pt)) = TOTAL_BUCKETS \<and>
     persist_ok (pt_persist_seq pt) \<and> spsc_wf (pt_merged_queue pt)"

lemma record_latency_length: "record_latency t h = Inr h' \<Longrightarrow> length (lh_buckets h') = length (lh_buckets h)"
  by (auto simp: record_latency_def Let_def split: if_splits)

lemma enqueue_keeps:
  assumes "persist_ok ps" "length s = 10"
  shows "persist_ok (enqueue seq s ps)"
proof -
  have wf: "spsc_wf (ps_queue ps)" using assms(1) by (simp add: persist_ok_def)
  show ?thesis
    using assms spsc.push_wf[OF wf] spsc.push_items[OF wf] by (auto simp: persist_ok_def enqueue_def)
qed

lemma route_loop_fields:
  assumes "route_loop clock ts raw i msgs pt = Inr pt'"
  shows "length (lh_buckets (pt_parse_lat pt')) = length (lh_buckets (pt_parse_lat pt)) \<and>
    pt_persist_seq pt' = pt_persist_seq pt \<and> pt_merged_queue pt' = pt_merged_queue pt \<and>
    pt_primary_ring pt' = pt_primary_ring pt \<and> pt_secondary_ring pt' = pt_secondary_ring pt \<and>
    pt_gap_detector pt' = pt_gap_detector pt"
  using assms
proof (induction msgs arbitrary: i pt)
  case (Cons m ms)
  obtain pt1 where pt1: "record_parse_latency (clock i) ts pt = Inr pt1"
    "route_loop clock ts raw (i + 1) ms (pt1\<lparr>pt_ctx := route_msg raw m (pt_ctx pt1)\<rparr>) = Inr pt'"
    using Cons.prems by auto
  have "\<exists>h. pt1 = pt\<lparr>pt_parse_lat := h\<rparr> \<and> length (lh_buckets h) = length (lh_buckets (pt_parse_lat pt))"
    using pt1(1) record_latency_length
    by (auto simp: record_parse_latency_def split: if_splits intro: exI[of _ "pt_parse_lat pt"])
  then show ?case using Cons.IH[OF pt1(2)] by auto
qed simp

lemma track_sequence_fields:
  "pt_merged_queue (track_sequence now seq raw pt) = pt_merged_queue pt"
  "pt_primary_ring (track_sequence now seq raw pt) = pt_primary_ring pt"
  "pt_secondary_ring (track_sequence now seq raw pt) = pt_secondary_ring pt"
  "pt_persist_seq (track_sequence now seq raw pt) \<in> {pt_persist_seq pt, enqueue seq raw (pt_persist_seq pt)}"
  by (auto simp: track_sequence_def Let_def split: prod.splits)

lemma process_slot_keeps:
  assumes "parser_ok pt" "process_slot now clock s pt = Inr pt'"
  shows "parser_ok pt' \<and> pt_primary_ring pt' = pt_primary_ring pt \<and> pt_secondary_ring pt' = pt_secondary_ring pt"
proof (cases "20 \<le> unat (ps_length s) \<and> be16 (slot_mem s) 18 \<noteq> 0xFFFF")
  case True
  let ?raw = "copy_bytes (slot_mem s) 0 10"
  let ?pt = "track_sequence now (be64 (slot_mem s) 10) ?raw pt"
  have len: "length ?raw = 10" by (simp add: copy_bytes_def)
  have run: "route_loop clock (ps_recv_ts s) ?raw 0 (itch_parse (slot_mem s) (ps_recv_ts s)
      (mold_parse (slot_mem s) 0 (unat (ps_length s))) MAX_MSGS_PER_PACKET) ?pt = Inr pt'"
    using process_slot_data[of s now clock pt] True assms(2) by simp
  have "persist_ok (pt_persist_seq ?pt)"
    using track_sequence_fields(4)[of now "be64 (slot_mem s) 10" ?raw pt] assms(1) enqueue_keeps[OF _ len]
    by (auto simp: parser_ok_def)
  moreover have "context_ok (pt_ctx ?pt)" using assms(1) by (simp add: track_sequence_ctx parser_ok_def)
  ultimately show ?thesis
    using route_loop_step[OF _ len run] route_loop_fields[OF run] assms(1) track_sequence_fields by (simp add: parser_ok_def)
next
  case False
  let ?mold = "mold_parse (slot_mem s) 0 (unat (ps_length s))"
  have "\<not> pr_valid ?mold \<or> is_heartbeat (pr_header ?mold)"
    using False by (auto simp: mold_parse_def sizeof_MoldUDP64Header_def is_heartbeat_def read_header_def
        MOLDUDP64_HEARTBEAT_def ParseResult_init_def Let_def)
  then have "pt' = pt" using assms(2) by (auto simp: process_slot_def Let_def split: if_splits)
  then show ?thesis using assms(1) by simp
qed

lemma parser_iteration_keeps:
  assumes "parser_ok pt" "parser_iteration now clock pt = Inr (y, pt')"
  shows "parser_ok pt' \<and> pt_primary_ring pt' = pt_primary_ring pt \<and> pt_secondary_ring pt' = pt_secondary_ring pt"
proof -
  let ?pt0 = "pt\<lparr>pt_merged_queue := snd (try_pop (pt_merged_queue pt))\<rparr>"
  have pt0: "parser_ok ?pt0" using assms(1) by (simp add: parser_ok_def pop_keeps)
  consider "pt' = ?pt0" | s pt1 n where "process_slot now clock s ?pt0 = Inr pt1" "pt' = pt1\<lparr>pt_packet_count := n\<rparr>"
    using assms(2) by (auto simp: parser_iteration_def Let_def split: prod.splits option.splits if_splits)
  then show ?thesis
  proof cases
    case 1
    then show ?thesis using pt0 by simp
  next
    case 2
    then show ?thesis using process_slot_keeps[OF pt0 2(1)] by (simp add: parser_ok_def)
  qed
qed

text \<open>The recovery thread.\<close>

lemma inject_keeps:
  assumes "recovery_inv ring" "inject_recovered_packet data len ts stats ring = Inr (ok, stats', ring')"
  shows "recovery_inv ring' \<and> (\<forall>R W. live_at ring' R W = live_at ring R W)"
proof -
  obtain R W where at: "recovery_at ring R W" using assms(1) by (auto simp: recovery_inv_def)
  note inv = at[unfolded recovery_at_def]
  let ?n = RECOVERY_RING_DEPTH and ?q = "zr_recovery_queue ring" and ?idx = "recovery_index (zr_recovery_write ring)"
  have wf: "spsc_wf ?q" using inv by simp
  have full: "of_nat ?n \<le> size_approx ?q \<longleftrightarrow> \<not> W - R < ?n"
    using spsc_size[OF wf] inv by (simp add: word_le_nat_alt not_less RECOVERY_RING_DEPTH_def)
  show ?thesis
  proof (cases "W - R < ?n")
    case False
    then show ?thesis using assms full by (simp add: inject_recovered_packet_def)
  next
    case True
    have idx: "?idx = of_nat (W mod ?n)" using inv recovery_index_of_nat(1)[of W] by auto
    have ok: "fst (try_push ?idx ?q)" using spsc.push_accepts[OF wf] inv True by simp
    obtain s where ring': "ring' = ring\<lparr>zr_recovery_slots := (zr_recovery_slots ring)[unat ?idx := s],
        zr_recovery_queue := snd (try_push ?idx ?q), zr_recovery_write := zr_recovery_write ring + 1\<rparr>"
      using assms(2) full True ok by (auto simp: inject_recovered_packet_def case_prod_beta Let_def split: if_splits)
    have "recovery_at ring' R (Suc W)"
      using inv True spsc.push_wf[OF wf, of ?idx] spsc.push_items[OF wf, of ?idx] ok idx
      by (auto simp: recovery_at_def ring')
    then show ?thesis unfolding recovery_inv_def by (auto simp: ring')
  qed
qed

lemma recv_loop_keeps:
  assumes "recovery_inv (rv_inject_ring rv)" "recv_loop i rs rv = Inr rv'"
  shows "recovery_inv (rv_inject_ring rv') \<and> (\<forall>R W. live_at (rv_inject_ring rv') R W = live_at (rv_inject_ring rv) R W)"
  using assms
proof (induction i rs rv rule: recv_loop.induct)
  case (3 i r now rs rv)
  obtain n data c where cr: "client_recv r (rv_client rv) = (n, data, c)" by (cases "client_recv r (rv_client rv)") auto
  show ?case
  proof (cases "n \<le> 0")
    case True
    then show ?thesis using 3 cr by auto
  next
    case False
    then obtain ok stats ring where inj: "inject_recovered_packet data (of_int n) now (rv_stats rv) (rv_inject_ring rv) = Inr (ok, stats, ring)"
      and run: "recv_loop i rs (rv\<lparr>rv_client := c, rv_stats := stats, rv_inject_ring := ring\<rparr>) = Inr rv'"
      using "3.prems"(2) cr by auto
    note k = inject_keeps[OF "3.prems"(1) inj]
    show ?thesis using "3.IH"[OF cr[symmetric] refl refl refl False, where xe = stats and xf = ring] k run by simp
  qed
qed auto

lemma recovery_iteration_keeps:
  assumes "recovery_inv (rv_inject_ring rv)" "recovery_iteration now kp ks r rs now2 rv = Inr (Some rv')"
  shows "recovery_inv (rv_inject_ring rv')" "live_at (rv_inject_ring rv') R W = live_at (rv_inject_ring rv) R W"
proof -
  obtain rv1 rv2 where rv: "handle_recovery now kp ks r rv = Inr (Some rv1)" "recv_retransmitted rs rv1 = Inr rv2"
    "rv_inject_ring rv' = rv_inject_ring rv2"
    using assms(2) by (auto simp: recovery_iteration_def split: option.splits if_splits)
  have "rv_inject_ring rv1 = rv_inject_ring rv"
    using rv(1) by (auto simp: handle_recovery_def Let_def split: if_splits prod.splits ConnectResult.splits)
      (metis ConnectResult.exhaust)
  then show "recovery_inv (rv_inject_ring rv')" "live_at (rv_inject_ring rv') R W = live_at (rv_inject_ring rv) R W"
    using rv(2,3) assms(1) recv_loop_keeps[of rv1 64 rs rv2] by (auto simp: recv_retransmitted_def split: if_splits)
qed

text \<open>The shard workers.\<close>

lemma clear_all_books_keeps:
  assumes "worker_ok w"
  shows "worker_ok (clear_all_books w)"
proof -
  have "book_wf (book_clear b)" "lb_locate (book_clear b) = lb_locate b" for b
    by (simp_all add: book_clear_def book_wf_def levels_wf_def)
  then show ?thesis using assms by (auto simp: worker_ok_def clear_all_books_def)
qed

lemma record_book_latency_length:
  "record_book_latency after msg w = Inr w' \<Longrightarrow> length (lh_buckets (sw_book_lat w')) = length (lh_buckets (sw_book_lat w))"
  by (auto simp: record_book_latency_def record_latency_length split: if_splits)

lemma dispatch_keeps:
  assumes "worker_ok w" "dispatch mgr after msg w = Inr w'"
  shows "worker_ok w' \<and> sw_shard_id w' = sw_shard_id w \<and>
    length (lh_buckets (sw_book_lat w')) = length (lh_buckets (sw_book_lat w))"
proof -
  let ?i = "slab_index (im_locate msg)"
  let ?act = "sw_book_active w ! ?i \<or> im_type msg = AddOrder \<or> im_type msg = AddOrderMPID"
  have small [simp]: "sw_book_lat (activate_book loc w) = sw_book_lat w" "sw_shard_id (activate_book loc w) = sw_shard_id w"
    "sw_book_lat (put_book i st v) = sw_book_lat v" "sw_shard_id (put_book i st v) = sw_shard_id v" for loc i st v
    by (simp_all add: activate_book_def put_book_def Let_def)
  have lat: "length (lh_buckets (sw_book_lat w')) = length (lh_buckets (sw_book_lat w))"
    using assms(2) by (auto simp: dispatch_def clear_all_books_def Let_def split: if_splits option.splits
        dest!: record_book_latency_length)
  consider (reset) "im_type msg = InternalSessionReset"
    | (order) h where "book_handler msg = Some h" "is_open mgr" ?act
    | (rest) "im_type msg \<noteq> InternalSessionReset" "\<not> (book_handler msg \<noteq> None \<and> is_open mgr \<and> ?act)"
    by blast
  then have "worker_ok w' \<and> sw_shard_id w' = sw_shard_id w"
  proof cases
    case reset
    have "w' = (clear_all_books w)\<lparr>sw_pool := pool_reset (sw_pool w), sw_map := map_reset (sw_map w)\<rparr>"
      using reset assms(2) by (simp add: dispatch_def clear_all_books_def Let_def)
    moreover have "worker_ok (v\<lparr>sw_pool := a, sw_map := b\<rparr>) = worker_ok v" for v a b by (simp add: worker_ok_def)
    moreover have "sw_shard_id (clear_all_books w) = sw_shard_id w" by (simp add: clear_all_books_def)
    ultimately show ?thesis using clear_all_books_keeps[OF assms(1)] by simp
  next
    case order
    then show ?thesis using dispatch_order[OF assms(1) _ _ _ assms(2)] by (simp add: worker_step_def)
  next
    case rest
    then have "w' = w \<or> w' = activate_book (im_locate msg) w \<or> w' = put_book ?i (on_trading_action (book_state w ?i) msg) w"
      using assms(2) by (auto simp: dispatch_def Let_def split: if_splits option.splits)
    then have "worker_step ?i w w'"
      using worker_step_refl worker_step_activate worker_step_put slab_index_bound assms(1) book_step.action by metis
    then show ?thesis by (simp add: worker_step_def)
  qed
  then show ?thesis using lat by simp
qed

section \<open>The invariant of the running system\<close>

definition workers_ok :: "ShardWorker list \<Rightarrow> bool" where
  "workers_ok ws \<longleftrightarrow> length ws = NUM_SHARDS \<and>
     (\<forall>s < NUM_SHARDS. worker_ok (ws ! s) \<and> sw_shard_id (ws ! s) = s \<and> length (lh_buckets (sw_book_lat (ws ! s))) = TOTAL_BUCKETS)"

definition system_ok :: "FeedHandler \<Rightarrow> bool" where
  "system_ok fh \<longleftrightarrow> coherent fh \<and> live_inv (fh_receiver fh) \<and>
     (case fh_secondary_receiver fh of None \<Rightarrow> True | Some rt \<Rightarrow> live_inv rt) \<and>
     merger_ok (fh_feed_merger fh) \<and> parser_ok (fh_parser fh) \<and> workers_ok (fh_workers fh)"

lemmas share_defs = share_primary_def share_secondary_def share_merged_def share_gap_def share_bbo_def

lemma merger_ok_ring:
  assumes "merger_ok fm" "recovery_inv ring" shows "merger_ok (fm\<lparr>fm_primary_ring := ring\<rparr>)"
  using assms by (simp add: merger_ok_def merged_ok_def)

lemma parser_ok_fields [simp]:
  "parser_ok (pt\<lparr>pt_primary_ring := a\<rparr>) = parser_ok pt" "parser_ok (pt\<lparr>pt_secondary_ring := b\<rparr>) = parser_ok pt"
  "parser_ok (pt\<lparr>pt_gap_detector := gd\<rparr>) = parser_ok pt"
  by (simp_all add: parser_ok_def)

lemma workers_ok_share: "workers_ok ws \<Longrightarrow> bbo_ok p \<Longrightarrow> workers_ok (map (\<lambda>w. w\<lparr>sw_bbo := p\<rparr>) ws)"
  by (auto simp: workers_ok_def worker_ok_def)

lemma receive_step_ok:
  assumes "system_ok fh" "receive_step r now fh = Inr fh'"
  shows "system_ok fh'"
proof -
  obtain rt where rt: "receiver_step r now (fh_receiver fh) = Inr rt" "fh' = share_primary (rt_ring rt) (fh\<lparr>fh_receiver := rt\<rparr>)"
    using assms(2) by (auto simp: receive_step_def)
  have ok: "live_inv (fh_receiver fh)" "recovery_inv (rt_ring (fh_receiver fh))"
    using assms(1) by (auto simp: system_ok_def coherent_def merger_ok_def Let_def)
  then have "merger_ok ((fh_feed_merger fh)\<lparr>fm_primary_ring := rt_ring rt\<rparr>)"
    using assms(1) receiver_keeps[OF ok(1) rt(1)] by (intro merger_ok_ring) (auto simp: system_ok_def)
  then show ?thesis
    using assms(1) receiver_keeps[OF ok(1) rt(1)] by (auto simp: system_ok_def coherent_def rt(2) share_defs Let_def)
qed

lemma receive_secondary_step_ok:
  assumes "system_ok fh" "receive_secondary_step r now fh = Inr fh'"
  shows "system_ok fh'"
proof (cases "fh_secondary_receiver fh")
  case None
  then show ?thesis using assms by (simp add: receive_secondary_step_def)
next
  case (Some rt0)
  then obtain rt where rt: "receiver_step r now rt0 = Inr rt"
    "fh' = share_secondary (rt_ring rt) (fh\<lparr>fh_secondary_receiver := Some rt\<rparr>)"
    using assms(2) by (auto simp: receive_secondary_step_def)
  have "live_inv rt0" using assms(1) Some by (simp add: system_ok_def)
  from receiver_keeps(1)[OF this rt(1)] show ?thesis
    using assms(1) by (auto simp: system_ok_def coherent_def rt(2) share_defs merger_ok_def merged_ok_def Let_def)
qed

lemma live_inv_ring:
  assumes "live_inv rt" "\<And>R W. live_at (rt_ring rt) R W \<Longrightarrow> \<exists>R'. live_at ring R' W"
  shows "live_inv (rt\<lparr>rt_ring := ring\<rparr>)"
  using assms by (fastforce simp: live_inv_def)

lemma merge_step_ok:
  assumes "system_ok fh" "merge_step now1 now2 fh = Inr fh'"
  shows "system_ok fh'"
proof -
  obtain fm where fm: "merger_iteration now1 now2 (fh_feed_merger fh) = Inr fm"
    "fh' = share_merged (fm_merged_queue fm) (share_secondary (fm_secondary_ring fm)
        (share_primary (fm_primary_ring fm) (fh\<lparr>fh_feed_merger := fm\<rparr>)))"
    using assms(2) by (auto simp: merge_step_def)
  have ok: "merger_step (fh_feed_merger fh) fm" "coherent fh" "merger_ok fm"
    using merger_iteration_keeps[OF _ fm(1)] assms(1) by (auto simp: system_ok_def merger_step_def)
  have p: "live_inv ((fh_receiver fh)\<lparr>rt_ring := fm_primary_ring fm\<rparr>)"
    by (rule live_inv_ring) (use assms(1) ok in \<open>auto simp: system_ok_def coherent_def merger_step_def Let_def\<close>)
  have s: "live_inv (rt\<lparr>rt_ring := fm_secondary_ring fm\<rparr>)" if "fh_secondary_receiver fh = Some rt" for rt
    by (rule live_inv_ring) (use assms(1) ok that in \<open>auto simp: system_ok_def coherent_def merger_step_def Let_def\<close>)
  have "parser_ok ((fh_parser fh)\<lparr>pt_primary_ring := a, pt_secondary_ring := b, pt_merged_queue := fm_merged_queue fm\<rparr>)" for a b
    using assms(1) ok(3) by (simp add: system_ok_def parser_ok_def merger_ok_def merged_ok_def)
  then show ?thesis
    using assms(1) ok p s by (auto simp: system_ok_def coherent_def fm(2) share_defs Let_def split: option.splits)
qed

lemma parse_step_ok:
  assumes "system_ok fh" "parse_step now clock fh = Inr fh'"
  shows "system_ok fh'"
proof -
  obtain y pt where pt: "parser_iteration now clock (fh_parser fh) = Inr (y, pt)"
    "fh' = share_bbo (sc_bbo (pt_ctx pt)) (share_gap (pt_gap_detector pt)
        (share_merged (pt_merged_queue pt) (fh\<lparr>fh_parser := pt\<rparr>)))"
    using assms(2) by (auto simp: parse_step_def)
  have k: "parser_ok pt" "pt_primary_ring pt = pt_primary_ring (fh_parser fh)" "pt_secondary_ring pt = pt_secondary_ring (fh_parser fh)"
    using parser_iteration_keeps[OF _ pt(1)] assms(1) by (auto simp: system_ok_def)
  then have "merger_ok ((fh_feed_merger fh)\<lparr>fm_merged_queue := pt_merged_queue pt\<rparr>)" "bbo_ok (sc_bbo (pt_ctx pt))"
    using assms(1) by (auto simp: system_ok_def merger_ok_def merged_ok_def parser_ok_def context_ok_def)
  then show ?thesis
    using assms(1) k workers_ok_share by (auto simp: system_ok_def coherent_def pt(2) share_defs list_all_iff Let_def)
qed

lemma shard_step_ok:
  assumes "system_ok fh" "s < NUM_SHARDS" "shard_step s after fh = Inr fh'"
  shows "system_ok fh'"
proof -
  let ?pt = "fh_parser fh" and ?w = "fh_workers fh ! s" and ?q = "shard_queue fh s"
  obtain q w where it: "shard_iteration (sc_mgr (pt_ctx ?pt)) after ?q ?w = Inr (q, w)"
    "fh' = share_bbo (sw_bbo w) (put_shard_queue s q (fh\<lparr>fh_workers := (fh_workers fh)[s := w]\<rparr>))"
    using assms(3) by (auto simp: shard_step_def)
  have ok: "worker_ok ?w" "length (fh_workers fh) = NUM_SHARDS" "sw_shard_id ?w = s"
    "length (lh_buckets (sw_book_lat ?w)) = TOTAL_BUCKETS" and r: "router_ok (sc_router (pt_ctx ?pt))"
    using assms(1,2) by (auto simp: system_ok_def workers_ok_def parser_ok_def context_ok_def)
  have wf: "spsc_wf ?q" using r assms(2) by (auto simp: router_ok_def shard_queue_def)
  have q: "spsc_wf q"
    using it(1) pop_keeps(1)[OF wf] by (auto simp: shard_iteration_def split: prod.splits option.splits)
  have w: "worker_ok w" "sw_shard_id w = s" "length (lh_buckets (sw_book_lat w)) = TOTAL_BUCKETS"
    using it(1) ok dispatch_keeps[OF ok(1)] by (auto simp: shard_iteration_def split: prod.splits option.splits)
  have bbo: "bbo_ok (sw_bbo w)" using w(1) by (simp add: worker_ok_def)
  have "workers_ok ((fh_workers fh)[s := w])"
    using assms(1,2) w by (auto simp: system_ok_def workers_ok_def nth_list_update)
  moreover have "parser_ok (fh_parser fh')"
    using assms(1) q bbo set_update_subset_insert[of "sr_queues (sc_router (pt_ctx ?pt))" s q]
    by (auto simp: system_ok_def parser_ok_def context_ok_def router_ok_def it(2) share_bbo_def put_shard_queue_def Let_def)
  ultimately show ?thesis
    using assms(1) workers_ok_share[OF _ bbo] by (auto simp: system_ok_def coherent_def it(2) share_bbo_def put_shard_queue_def list_all_iff Let_def)
qed

lemma recover_step_ok:
  assumes "system_ok fh" "recover_step now kp ks r rs now2 fh = Inr (Some fh')"
  shows "system_ok fh'"
proof -
  obtain rv where rv: "recovery_iteration now kp ks r rs now2 (fh_recovery fh) = Inr (Some rv)"
    "fh' = share_gap (rv_gap_detector rv) (share_primary (rv_inject_ring rv) (fh\<lparr>fh_recovery := rv\<rparr>))"
    using assms(2) by (auto simp: recover_step_def)
  have c: "rv_inject_ring (fh_recovery fh) = rt_ring (fh_receiver fh)" "recovery_inv (rt_ring (fh_receiver fh))"
    using assms(1) by (auto simp: system_ok_def coherent_def merger_ok_def Let_def)
  have k: "recovery_inv (rv_inject_ring rv)" "live_at (rv_inject_ring rv) R W = live_at (rt_ring (fh_receiver fh)) R W" for R W
    using recovery_iteration_keeps[OF _ rv(1)] c by simp_all
  have "live_inv ((fh_receiver fh)\<lparr>rt_ring := rv_inject_ring rv\<rparr>)"
    using assms(1) k(2) by (intro live_inv_ring) (auto simp: system_ok_def)
  moreover have "merger_ok ((fh_feed_merger fh)\<lparr>fm_primary_ring := rv_inject_ring rv\<rparr>)"
    using assms(1) k(1) by (intro merger_ok_ring) (simp_all add: system_ok_def)
  ultimately show ?thesis using assms(1) by (auto simp: system_ok_def coherent_def rv(2) share_defs Let_def)
qed

lemma persist_step_ok:
  assumes "system_ok fh" shows "system_ok (persist_step c fh)"
proof -
  have "persist_ok (pt_persist_seq (fh_parser fh))" using assms by (simp add: system_ok_def parser_ok_def)
  then have "persist_ok (pop_and_save c (pt_persist_seq (fh_parser fh)))"
    using persist_event_spec(1)[of _ "Write c"] by (simp add: event_ok_def)
  then show ?thesis using assms by (auto simp: persist_step_def system_ok_def coherent_def parser_ok_def Let_def)
qed

lemma system_step_ok: "system_ok fh \<Longrightarrow> system_step fh fh' \<Longrightarrow> system_ok fh'"
  by (cases rule: system_step.cases)
    (auto intro: receive_step_ok receive_secondary_step_ok merge_step_ok parse_step_ok shard_step_ok recover_step_ok
      persist_step_ok simp: metrics_step_def elim: system_step.cases)

text \<open>Only the writer of the durable record touches the state file.\<close>

definition state_file :: "FeedHandler \<Rightarrow> u8 list option" where
  "state_file fh = dk_path (ps_disk (pt_persist_seq (fh_parser fh)))"

lemma process_slot_disk:
  assumes "process_slot now clock s pt = Inr pt'"
  shows "ps_disk (pt_persist_seq pt') = ps_disk (pt_persist_seq pt)"
proof -
  have "ps_disk (pt_persist_seq (track_sequence now seq raw pt)) = ps_disk (pt_persist_seq pt)" for seq raw
    by (auto simp: track_sequence_def enqueue_def Let_def split: prod.splits)
  then show ?thesis
    using assms by (auto simp: process_slot_def Let_def dest!: route_loop_fields split: if_splits)
qed

lemma parse_step_file: "parse_step now clock fh = Inr fh' \<Longrightarrow> state_file fh' = state_file fh"
  by (auto simp: parse_step_def parser_iteration_def state_file_def share_defs Let_def dest!: process_slot_disk
      split: prod.splits option.splits if_splits)

lemma system_step_file:
  assumes "system_ok fh" "system_step fh fh'"
  shows "state_file fh' = state_file fh \<or>
    (\<exists>seq session. length session = 10 \<and> state_file fh' = Some (PersistRecord_bytes seq session))"
  using assms(2)
proof cases
  case (persist c)
  have "persist_ok (pt_persist_seq (fh_parser fh))" using assms(1) by (simp add: system_ok_def parser_ok_def)
  from pop_and_save_path[OF this, of c] show ?thesis
    using persist by (auto simp: persist_step_def state_file_def) blast
next
  case (parse now clock)
  then show ?thesis using parse_step_file by blast
qed (auto simp: receive_step_def receive_secondary_step_def merge_step_def shard_step_def recover_step_def
    metrics_step_def put_shard_queue_def state_file_def share_defs Let_def split: option.splits)

lemma init_workers_ok: "system_ok (init_workers k cfg mem)"
proof -
  have q: "spsc_wf (SpscQueue_new (replicate MERGED_QUEUE_DEPTH (x :: MergedSlot)))" for x
    using spsc_new(1)[OF depth_pow2(1)[folded MERGED_QUEUE_DEPTH_def]] .
  have live: "live_inv (ReceiverThread_new (ZeroCopyRing_new True))"
    by (rule live_invI[OF new_ring_inv(1)]) (simp_all add: ReceiverThread_new_def)
  have rec: "recovery_inv (ZeroCopyRing_new b)" for b using new_ring_inv(2) unfolding recovery_inv_def by blast
  have w: "worker_ok (ShardWorker_new s a b (BboPublisher_new n) h)" if "s < NUM_SHARDS" for s a b n h
    using that by (intro worker_ok_new bbo_ok_ops(1))
  have "workers_ok (fh_workers (init_workers k cfg mem))"
    using w by (simp add: workers_ok_def init_workers_def init_context_def Let_def) (simp add: ShardWorker_new_def histogram_init_def)
  moreover have "merger_ok (fh_feed_merger (init_workers k cfg mem))"
    using q rec window_ok_new(1) by (simp add: merger_ok_def merged_ok_def init_workers_def FeedMerger_new_def Let_def)
  moreover have "parser_ok (fh_parser (init_workers k cfg mem))"
    using q init_context_ok persist_ok_new(1) by (simp add: parser_ok_def init_workers_def histogram_init_def Let_def)
  ultimately show ?thesis
    using live unfolding system_ok_def
    by (simp add: coherent_def init_workers_def Let_def ReceiverThread_new_def FeedMerger_new_def RecoveryThread_new_def
        ShardWorker_new_def list_all_iff)
qed

lemma warm_start_ok:
  assumes "system_ok fh" shows "system_ok (warm_start fh)"
  using assms by (auto simp: warm_start_def system_ok_def coherent_def parser_ok_def context_ok_def Let_def split: option.splits)

lemma init_ok:
  assumes "feed_handler_init k cfg = InitOk fh" shows "system_ok fh"
proof -
  obtain mem where "fh = warm_start (init_workers k cfg mem) \<or>
      fh = (warm_start (init_workers k cfg mem))\<lparr>fh_secondary_receiver := None\<rparr>"
    using assms by (auto simp: feed_handler_init_def Let_def split: if_splits option.splits)
  moreover have "system_ok (fh\<lparr>fh_secondary_receiver := None\<rparr>)" if "system_ok fh" for fh
    using that by (auto simp: system_ok_def coherent_def Let_def)
  ultimately show ?thesis using warm_start_ok[OF init_workers_ok] by blast
qed

definition starts :: "FeedHandler \<Rightarrow> bool" where
  "starts fh \<longleftrightarrow> (\<exists>files k argv. main_start files k argv = Running fh)"

lemma main_startD: "main_start files k argv = Running fh \<Longrightarrow> \<exists>cfg. feed_handler_init k cfg = InitOk fh"
  by (auto simp: main_start_def Let_def split: option.split_asm InitResult.split_asm)

interpretation system: transition_system starts system_step system_ok
proof
  fix fh assume "starts fh"
  then show "system_ok fh" by (auto simp: starts_def dest!: main_startD intro: init_ok)
qed (rule system_step_ok)

lemma system_run_file:
  assumes "system_step\<^sup>*\<^sup>* fh fh'" "system_ok fh"
  shows "state_file fh' = state_file fh \<or>
    (\<exists>seq session. length session = 10 \<and> state_file fh' = Some (PersistRecord_bytes seq session))"
  using assms
proof (induction rule: rtranclp_induct)
  case (step fh1 fh2)
  then show ?case using system_step_file[OF system.steps_inv[OF step(1) step(4)] step(2)] by metis
qed simp

text \<open>A configuration file that names a retransmit server and nothing else.\<close>

definition good_table :: TomlTable where
  "good_table = \<lparr>tt_string = (\<lambda>s k. if k = ''retransmit_address'' then Some (bytes_of ''10.0.0.1'') else None),
     tt_int = (\<lambda>s k. None), tt_bool = (\<lambda>s k. None), tt_double = (\<lambda>s k. None), tt_int_array = (\<lambda>s k. None),
     tt_string_array = (\<lambda>s k. None)\<rparr>"

lemma set_opt_simps: "set_opt None f = id" "set_opt (Some x) f = f x"
  by (simp_all add: set_opt_def fun_eq_iff)

lemma good_table_config: "load_config (Some good_table) = Some good_config"
proof -
  have k: "tt_string good_table s k = (if k = ''retransmit_address'' then Some (bytes_of ''10.0.0.1'') else None)"
    "tt_int good_table s k = None" "tt_bool good_table s k = None" "tt_double good_table s k = None"
    "tt_int_array good_table s k = None" "tt_string_array good_table s k = None" for s k
    by (simp_all add: good_table_def)
  have n: "load_network good_table = id" by (simp add: load_network_def k set_opt_simps)
  have t: "load_threads good_table = id" "load_monitoring good_table = id"
    "load_session good_table = id" "load_rest good_table = id"
    by (simp_all add: load_threads_def load_monitoring_def load_session_def load_rest_def k set_opt_simps)
  have r: "load_recovery good_table c = c\<lparr>cf_retransmit_address := bytes_of ''10.0.0.1''\<rparr>" for c
    by (simp add: load_recovery_def k set_opt_simps)
  show ?thesis by (simp add: load_config_def n t r good_config_def)
qed

lemma good_start: "\<exists>fh. main_start (\<lambda>_. Some good_table) good_init [] = Running fh \<and>
    fh_receiver fh = ReceiverThread_new (ZeroCopyRing_new True)"
proof -
  have "cf_retransmit_address good_config \<noteq> bytes_of ''198.51.100.1''"
    by (simp add: good_config_def FeedHandlerConfig_init_def bytes_of_def)
  moreover obtain mem where "allocate_memory good_init good_config = Some mem"
    by (simp add: allocate_memory_def good_init_def list_all_iff allocate_shard_def)
  moreover have "fh_receiver (warm_start (init_workers k cfg m)) = ReceiverThread_new (ZeroCopyRing_new True)" for k cfg m
    by (simp add: warm_start_def init_workers_def Let_def)
  moreover have "ic_receiver good_init" "ic_secondary_receiver good_init" "\<not> ic_throws good_init" by (simp_all add: good_init_def)
  ultimately show ?thesis by (simp add: main_start_def good_table_config feed_handler_init_def Let_def)
qed

end
