(* ===== verification/Book_Steps.thy ===== *)
theory Book_Steps
  imports Book_Properties
begin

text \<open>
  The handlers of a book as operations on its orders that leave the rest of the shard alone, and the
  orders a reference can be looked up in.
\<close>

section \<open>Operations of one book in a shared pool\<close>

text \<open>The map knows nothing but orders of the pool.\<close>

definition map_exact :: "BookState \<Rightarrow> bool" where
  "map_exact st \<longleftrightarrow> (\<forall>ref x. om_alpha (bs_map st) ref = Some x \<longrightarrow>
     x \<in> live_slots (bs_pool st) \<and> o_id (op_pool (bs_pool st) ! x) = ref)"

definition book_op :: "BookState \<Rightarrow> BookState \<Rightarrow> bool" where
  "book_op st st' \<longleftrightarrow> book_inv st' \<and> keeps_others st st' \<and> (map_exact st \<longrightarrow> map_exact st') \<and>
     live_slots (bs_pool st') = (live_slots (bs_pool st) - slots (queues st)) \<union> slots (queues st')"

lemma book_inv_slots: "book_inv st \<Longrightarrow> slots (queues st) \<subseteq> live_slots (bs_pool st)"
  using book_repD(6)[of st "queues st"] by (simp add: book_inv_def)

lemma book_op_refl: "book_inv st \<Longrightarrow> book_op st st"
  using book_inv_slots[of st] by (auto simp: book_op_def keeps_others_refl)

lemma book_op_trans:
  assumes "book_op st st'" "book_op st' st''" shows "book_op st st''"
proof -
  have "(live_slots (bs_pool st) - slots (queues st)) \<inter> slots (queues st') = {}"
    using assms(1) by (auto simp: book_op_def keeps_others_def)
  then show ?thesis using assms keeps_others_trans by (auto simp: book_op_def)
qed

lemma book_op_counters [simp]: "book_op st (st'\<lparr>bs_inplace := n\<rparr>) = book_op st st'"
  by (simp add: book_op_def keeps_others_def map_exact_def queues_def slots_def)

lemma pool_length: "pool_inv p \<Longrightarrow> length (op_pool p) = op_capacity p"
  by (simp add: pool_inv_def)

lemma queue_side:
  assumes "book_inv st" "x \<in> set (concat (queues st b))"
  shows "(o_side (op_pool (bs_pool st) ! x) = Buy) = b"
proof -
  obtain q where "q \<in> set (queues st b)" "x \<in> set q" using assms(2) by auto
  moreover obtain k where "k < length (queues st b)" "q = queues st b ! k" using calculation(1) by (metis in_set_conv_nth)
  moreover have "list_all2 (level_ok (op_pool (bs_pool st)) b) (active (bs_book st) b) (queues st b)"
    using book_repD(4)[of st "queues st" b] assms(1) by (simp add: book_inv_def)
  ultimately show ?thesis by (auto simp: list_all2_conv_all_nth level_ok_def)
qed

lemma indexed_level_idx_ok:
  assumes "book_inv st" "indexed st" "x \<in> slots (queues st)"
  shows "level_idx_ok st x"
proof -
  obtain b where x: "x \<in> set (concat (queues st b))" using assms(3) by (auto simp: slots_def)
  then obtain q where "q \<in> set (queues st b)" "x \<in> set q" by auto
  then obtain k where k: "k < length (queues st b)" "x \<in> set (queues st b ! k)" by (metis in_set_conv_nth)
  then have "o_level (op_pool (bs_pool st) ! x) = k" using assms(2) unfolding indexed_def by blast
  then show ?thesis using k queue_side[OF assms(1) x] by (simp add: level_idx_ok_def Let_def)
qed

lemma new_order_op:
  assumes inv: "book_inv st" and free: "live_slots (bs_pool st) \<noteq> {..<op_capacity (bs_pool st)}"
    and ref: "ref \<noteq> 0" "om_alpha (bs_map st) ref = None" "probe_room (om_table (bs_map st))"
    and room: "has_room price (side_view st side)"
  obtains st' where "new_order st ref price qty side = Inr st'" "book_op st st'"
    "side_view st' side = spec_add side price (ref, qty) (side_view st side)"
    "\<And>s. (s = Buy) \<noteq> (side = Buy) \<Longrightarrow> side_view st' s = side_view st s"
    "indexed st \<Longrightarrow> steady (side_view st side) (side_view st' side) \<Longrightarrow> indexed st'"
proof -
  obtain st' idx where n: "new_order st ref price qty side = Inr st'" "book_inv st'"
    "side_view st' side = spec_add side price (ref, qty) (side_view st side)"
    "\<And>s. (s = Buy) \<noteq> (side = Buy) \<Longrightarrow> side_view st' s = side_view st s"
    "om_alpha (bs_map st') = (om_alpha (bs_map st))(ref \<mapsto> idx)"
    "live_slots (bs_pool st') = insert idx (live_slots (bs_pool st))"
    "idx \<notin> live_slots (bs_pool st)" "o_id (op_pool (bs_pool st') ! idx) = ref"
    "slots (queues st') = insert idx (slots (queues st))"
    "indexed st \<Longrightarrow> steady (side_view st side) (side_view st' side) \<Longrightarrow> indexed st'"
    "\<forall>x. x \<noteq> idx \<and> x \<notin> slots (queues st) \<longrightarrow> op_pool (bs_pool st') ! x = op_pool (bs_pool st) ! x"
    "\<forall>x \<in> slots (queues st). o_id (op_pool (bs_pool st') ! x) = o_id (op_pool (bs_pool st) ! x)"
    by (rule new_order_refines[OF assms, where qty = qty]) blast
  have len: "length (op_pool (bs_pool st')) = length (op_pool (bs_pool st))"
    using n(2) inv new_order_pool_capacity[OF n(1)] by (simp add: book_inv_def book_rep_def pool_length)
  have id: "o_id (op_pool (bs_pool st') ! x) = o_id (op_pool (bs_pool st) ! x)" if "x \<in> live_slots (bs_pool st)" for x
    using n(7,11,12) that by (cases "x \<in> slots (queues st)") auto
  have "keeps_others st st'" using len n(5-7,9,11) ref(2) by (auto simp: keeps_others_def)
  moreover have "map_exact st \<longrightarrow> map_exact st'" using n(5,6,8) id by (auto simp: map_exact_def)
  ultimately have "book_op st st'" using n(2,6,9) book_inv_slots[OF inv] by (auto simp: book_op_def)
  then show thesis using that n(1,3,4,10) by blast
qed

lemma new_order_no_level_op:
  assumes "book_inv st" "live_slots (bs_pool st) \<noteq> {..<op_capacity (bs_pool st)}"
    and "\<not> has_room price (side_view st side)"
  obtains st' where "new_order st ref price qty side = Inr st'" "book_op st st'"
    "\<And>s. side_view st' s = side_view st s" "indexed st' = indexed st"
proof -
  obtain st' where n: "new_order st ref price qty side = Inr st'" "book_inv st'"
    "\<And>s. side_view st' s = side_view st s" "bs_map st' = bs_map st"
    "live_slots (bs_pool st') = live_slots (bs_pool st)" "queues st' = queues st"
    "\<forall>x \<in> live_slots (bs_pool st). op_pool (bs_pool st') ! x = op_pool (bs_pool st) ! x"
    "op_capacity (bs_pool st') = op_capacity (bs_pool st)"
    using new_order_no_level[OF assms, of ref qty] by blast
  have len: "length (op_pool (bs_pool st')) = length (op_pool (bs_pool st))"
    using n(2,8) assms(1) by (simp add: book_inv_def book_rep_def pool_length)
  have sub: "slots (queues st) \<subseteq> live_slots (bs_pool st)" by (rule book_inv_slots[OF assms(1)])
  have "x \<in> slots (queues st)" if "k < length (queues st b)" "x \<in> set (queues st b ! k)" for b k x
    using that nth_mem unfolding slots_split[of "queues st" b] by fastforce
  then have "op_pool (bs_pool st') ! x = op_pool (bs_pool st) ! x"
    if "k < length (queues st b)" "x \<in> set (queues st b ! k)" for b k x
    using that n(7) sub by blast
  then have "indexed st' = indexed st" by (simp add: indexed_def n(6))
  moreover have "book_op st st'"
    using n len sub by (auto simp: book_op_def keeps_others_def map_exact_def)
  ultimately show thesis using that n(1,3) by blast
qed

lemma drop_order_op:
  assumes "book_inv st" "level_idx_ok st idx" "probe_room (om_table (bs_map st))"
  defines "ref \<equiv> o_id (op_pool (bs_pool st) ! idx)"
  obtains st' where "drop_order st idx ref = Inr st'" "book_op st st'"
    "\<And>side. side_view st' side = spec_remove ref (side_view st side)"
    "om_alpha (bs_map st') = (om_alpha (bs_map st))(ref := None)" "probe_room (om_table (bs_map st'))"
    "live_slots (bs_pool st') \<noteq> {..<op_capacity (bs_pool st')}"
    "indexed st \<Longrightarrow> (\<And>side. steady (side_view st side) (side_view st' side)) \<Longrightarrow> indexed st'"
proof -
  obtain st' where d: "drop_order st idx ref = Inr st'" "book_inv st'"
    "\<And>side. side_view st' side = spec_remove ref (side_view st side)"
    "om_alpha (bs_map st') = (om_alpha (bs_map st))(ref := None)"
    "live_slots (bs_pool st') = live_slots (bs_pool st) - {idx}" "probe_room (om_table (bs_map st'))"
    "idx \<in> live_slots (bs_pool st)" "om_alpha (bs_map st) ref = Some idx"
    "slots (queues st') = slots (queues st) - {idx}" "op_capacity (bs_pool st') = op_capacity (bs_pool st)"
    "indexed st \<Longrightarrow> (\<And>side. steady (side_view st side) (side_view st' side)) \<Longrightarrow> indexed st'"
    "\<forall>x. x \<notin> slots (queues st) \<longrightarrow> op_pool (bs_pool st') ! x = op_pool (bs_pool st) ! x"
    "\<forall>x \<in> slots (queues st). o_id (op_pool (bs_pool st') ! x) = o_id (op_pool (bs_pool st) ! x)"
    unfolding ref_def by (rule drop_order_refines[OF assms(1-3)]) blast
  obtain L1 lvl L2 Q1 xs ys Q2 where at: "stands_at st (queues st) idx L1 lvl L2 Q1 xs ys Q2"
    by (rule level_idx_ok_stands[OF assms(1,2)])
  have idx: "idx \<in> slots (queues st)" by (rule stands_atD(1)[OF at])
  have pinv: "pool_inv (bs_pool st)" "pool_inv (bs_pool st')" using assms(1) d(2) by (simp_all add: book_inv_def book_rep_def)
  then have len: "length (op_pool (bs_pool st')) = length (op_pool (bs_pool st))" using d(10) by (simp add: pool_length)
  have id: "o_id (op_pool (bs_pool st') ! x) = o_id (op_pool (bs_pool st) ! x)" for x
    using d(12,13) by (cases "x \<in> slots (queues st)") auto
  have "keeps_others st st'" using len idx d(4,5,8,9,12) by (auto simp: keeps_others_def)
  moreover have "map_exact st'" if "map_exact st" using that d(4,5) id assms(1) by (auto simp: map_exact_def ref_def split: if_splits)
  ultimately have "book_op st st'" using d(2,5,9) book_inv_slots[OF assms(1)] idx by (auto simp: book_op_def)
  moreover have "idx < op_capacity (bs_pool st')" using d(7,10) op.live_owned[OF pinv(1)] by auto
  ultimately show thesis using that d by blast
qed

lemma amended_op:
  fixes qty' :: Qty
  assumes "book_inv st" "level_idx_ok st idx"
  defines "ref \<equiv> o_id (op_pool (bs_pool st) ! idx)"
  assumes m: "om_inv m" "om_alpha m = (om_alpha (bs_map st))(ref := None, ref' \<mapsto> idx)"
    and ref': "ref' = ref \<or> om_alpha (bs_map st) ref' = None"
  shows "book_op st (amended st idx ref' qty' m)"
proof -
  let ?st = "amended st idx ref' qty' m" and ?P = "op_pool (bs_pool st)"
  note a = amended_refines[OF assms(1,2), where qty' = qty', folded ref_def, OF m ref']
  obtain L1 lvl L2 Q1 xs ys Q2 where at: "stands_at st (queues st) idx L1 lvl L2 Q1 xs ys Q2"
    by (rule level_idx_ok_stands[OF assms(1,2)])
  note D = book_repD[of st "queues st", folded book_inv_def, OF assms(1)]
  have idx: "idx \<in> slots (queues st)" "idx \<in> live_slots (bs_pool st)" "om_alpha (bs_map st) ref = Some idx"
    using stands_atD(1)[OF at] D(6,7) by (auto simp: ref_def)
  have bm: "bs_map ?st = m" by (simp add: amended_def Let_def)
  have upd: "?P[idx := o'] ! x = ?P ! x" if "x \<notin> slots (queues st)" for x o'
    using that idx(1) by (metis nth_list_update_neq)
  have "keeps_others st ?st"
    using idx m(2) ref' upd unfolding keeps_others_def a(5,6,8) bm by auto
  moreover have "map_exact ?st" if ex: "map_exact st"
    unfolding map_exact_def a(5) bm
  proof (intro allI impI)
    fix r x assume r: "om_alpha m r = Some x"
    show "x \<in> live_slots (bs_pool st) \<and> o_id (op_pool (bs_pool ?st) ! x) = r"
    proof (cases "r = ref'")
      case True
      then show ?thesis using r m(2) idx(2) a(4) by simp
    next
      case False
      then have "om_alpha (bs_map st) r = Some x" "r \<noteq> ref" using r m(2) by (auto split: if_splits)
      then have "x \<in> live_slots (bs_pool st)" "o_id (?P ! x) = r" "x \<noteq> idx"
        using ex by (auto simp: map_exact_def ref_def)
      then show ?thesis by (simp add: a(8))
    qed
  qed
  ultimately show ?thesis using a(1,5,6) book_inv_slots[OF assms(1)] by (auto simp: book_op_def)
qed

section \<open>The abstract book\<close>

text \<open>
  The bids (\<^term>\<open>True\<close>) and the asks of a book, best price first, each price with its orders in time
  priority. An order can be found by its reference; the operations are those of the exchange's
  protocol. A price that gets no level because the side has too many of them is dropped.
\<close>

type_synonym abook = "bool \<Rightarrow> aside"

definition side_orders :: "aside \<Rightarrow> (OrderId \<times> Price \<times> Qty) list" where
  "side_orders V = concat (map (\<lambda>(p, q). map (\<lambda>(r, n). (r, p, n)) q) V)"

definition book_find :: "OrderId \<Rightarrow> abook \<Rightarrow> (bool \<times> Price \<times> Qty) option" where
  "book_find ref A =
    (case map_of (side_orders (A True)) ref of
       Some y \<Rightarrow> Some (True, y)
     | None \<Rightarrow> map_option (\<lambda>y. (False, y)) (map_of (side_orders (A False)) ref))"

definition book_add :: "Side \<Rightarrow> Price \<Rightarrow> OrderId \<times> Qty \<Rightarrow> abook \<Rightarrow> abook" where
  "book_add side p x A =
    (if has_room p (A (side = Buy)) then A((side = Buy) := spec_add side p x (A (side = Buy))) else A)"

definition book_remove :: "OrderId \<Rightarrow> abook \<Rightarrow> abook" where
  "book_remove ref A = (\<lambda>b. spec_remove ref (A b))"

definition book_amend :: "OrderId \<Rightarrow> OrderId \<times> Qty \<Rightarrow> abook \<Rightarrow> abook" where
  "book_amend ref y A = (\<lambda>b. spec_amend ref y (A b))"

definition book_delete :: "OrderId \<Rightarrow> abook \<Rightarrow> abook" where
  "book_delete ref A = (if book_find ref A = None then A else book_remove ref A)"

definition book_reduce :: "OrderId \<Rightarrow> Qty \<Rightarrow> abook \<Rightarrow> abook" where
  "book_reduce ref q A =
    (case book_find ref A of
       None \<Rightarrow> A
     | Some (_, _, n) \<Rightarrow> if n = q then book_remove ref A else book_amend ref (ref, n - q) A)"

definition book_replace :: "OrderReplaceFields \<Rightarrow> abook \<Rightarrow> abook" where
  "book_replace r A =
    (case book_find (or_orig_ref r) A of
       None \<Rightarrow> A
     | Some (buy, p, n) \<Rightarrow>
         if or_new_price r = p \<and> or_new_shares r \<le> n
         then book_amend (or_orig_ref r) (or_new_ref r, or_new_shares r) A
         else book_add (if buy then Buy else Sell) (or_new_price r) (or_new_ref r, or_new_shares r)
                (book_remove (or_orig_ref r) A))"

definition book_steady :: "abook \<Rightarrow> abook \<Rightarrow> bool" where
  "book_steady A A' \<longleftrightarrow> steady (A True) (A' True) \<and> steady (A False) (A' False)"

definition view :: "BookState \<Rightarrow> abook" where
  "view st buy = side_view st (if buy then Buy else Sell)"

lemma view_side: "side_view st side = view st (side = Buy)"
  by (auto simp: view_def side_view_def count_of_def levels_of_def)

lemma view_eqI: "(\<And>side. side_view st side = A (side = Buy)) \<Longrightarrow> view st = A"
  by (simp add: fun_eq_iff view_def)

lemma spec_add_side: "(side = Buy) = (side' = Buy) \<Longrightarrow> spec_add side p x V = spec_add side' p x V"
  by (induction V) (auto simp: goes_before_def)

lemma steady_amend [simp]: "steady (spec_amend ref y V) V' = steady V V'" "steady V (spec_amend ref y V') = steady V V'"
proof -
  have "map fst (spec_amend ref y V) = map fst V" for V by (auto simp: spec_amend_def)
  then show "steady (spec_amend ref y V) V' = steady V V'" "steady V (spec_amend ref y V') = steady V V'"
    by (simp_all add: steady_def)
qed

lemma book_steadyD: "book_steady A A' \<Longrightarrow> steady (A b) (A' b)"
  by (cases b) (simp_all add: book_steady_def)

lemma book_steady_side: "book_steady (view st) (view st') \<Longrightarrow> steady (side_view st side) (side_view st' side)"
  by (simp add: view_side book_steadyD)

subsection \<open>Looking an order up\<close>

lemma side_orders_view:
  assumes "list_all2 (level_ok P b) L Q"
  shows "side_orders (view_of P L Q) = map (\<lambda>x. (o_id (P ! x), o_price (P ! x), o_qty (P ! x))) (concat Q)"
  using assms
proof (induction rule: list_all2_induct)
  case (Cons l L q Q)
  then show ?case by (auto simp: side_orders_def view_of_Cons queue_view_def level_ok_def)
qed (simp add: side_orders_def view_of_def)

lemma side_orders_queues:
  assumes "book_inv st"
  defines "P \<equiv> op_pool (bs_pool st)"
  shows "side_orders (view st b) = map (\<lambda>x. (o_id (P ! x), o_price (P ! x), o_qty (P ! x))) (concat (queues st b))"
    "distinct (map o_id (map ((!) P) (concat (queues st b))))"
proof -
  have rep: "book_rep st (queues st)" using assms(1) by (simp add: book_inv_def)
  show "side_orders (view st b) = map (\<lambda>x. (o_id (P ! x), o_price (P ! x), o_qty (P ! x))) (concat (queues st b))"
    unfolding view_def side_view_rep[OF rep] P_def
    using side_orders_view[OF book_repD(4)[OF rep, of b]] by (cases b) auto
  have "inj_on (\<lambda>x. o_id (P ! x)) (slots (queues st))" unfolding P_def by (rule inj_onI) (rule book_rep_id_inj[OF rep])
  then have "inj_on (\<lambda>x. o_id (P ! x)) (set (concat (queues st b)))"
    by (rule inj_on_subset) (auto simp: slots_split[of _ b])
  moreover have "distinct (concat (queues st b))" using book_repD(5)[OF rep] by (cases b) auto
  ultimately show "distinct (map o_id (map ((!) P) (concat (queues st b))))"
    by (simp add: distinct_map comp_def del: set_concat)
qed

lemma map_of_orders:
  assumes "book_inv st"
  defines "P \<equiv> op_pool (bs_pool st)"
  shows "x \<in> set (concat (queues st b)) \<Longrightarrow> map_of (side_orders (view st b)) (o_id (P ! x)) = Some (o_price (P ! x), o_qty (P ! x))"
    "map_of (side_orders (view st b)) ref \<noteq> None \<Longrightarrow> \<exists>x \<in> set (concat (queues st b)). o_id (P ! x) = ref"
proof -
  note o = side_orders_queues[OF assms(1), folded P_def, of b]
  have "map fst (side_orders (view st b)) = map o_id (map ((!) P) (concat (queues st b)))"
    unfolding o(1) by (simp only: map_map comp_def fst_conv)
  then have d: "distinct (map fst (side_orders (view st b)))" using o(2) by simp
  show "map_of (side_orders (view st b)) (o_id (P ! x)) = Some (o_price (P ! x), o_qty (P ! x))"
    if "x \<in> set (concat (queues st b))"
    by (rule map_of_is_SomeI[OF d]) (use that in \<open>auto simp: o(1)\<close>)
  assume "map_of (side_orders (view st b)) ref \<noteq> None"
  then have "ref \<in> fst ` set (side_orders (view st b))" by (simp add: map_of_eq_None_iff)
  then show "\<exists>x \<in> set (concat (queues st b)). o_id (P ! x) = ref"
    unfolding o(1) by (auto simp del: set_concat)
qed

lemma slots_concat: "x \<in> slots qs \<longleftrightarrow> (\<exists>b. x \<in> set (concat (qs b)))"
  by (auto simp: slots_def) (metis (full_types))

lemma book_find_known:
  assumes "book_inv st" "book_find ref (view st) \<noteq> None"
  shows "\<exists>x \<in> slots (queues st). o_id (op_pool (bs_pool st) ! x) = ref"
proof -
  obtain b where "map_of (side_orders (view st b)) ref \<noteq> None"
    using assms(2) by (auto simp: book_find_def split: option.splits)
  then show ?thesis using map_of_orders(2)[OF assms(1)] unfolding slots_concat Bex_def by blast
qed

lemma book_find_order:
  assumes "book_inv st" "x \<in> slots (queues st)"
  defines "o0 \<equiv> op_pool (bs_pool st) ! x"
  shows "book_find (o_id o0) (view st) = Some (o_side o0 = Buy, o_price o0, o_qty o0)"
proof -
  have rep: "book_rep st (queues st)" using assms(1) by (simp add: book_inv_def)
  obtain b where b: "x \<in> set (concat (queues st b))" using assms(2) unfolding slots_concat by blast
  have side: "(o_side o0 = Buy) = b" using queue_side[OF assms(1) b] by (simp add: o0_def)
  note m = map_of_orders(1)[OF assms(1) b, folded o0_def]
  show ?thesis
  proof (cases b)
    case False
    have "map_of (side_orders (view st True)) (o_id o0) = None"
    proof (rule ccontr)
      assume "map_of (side_orders (view st True)) (o_id o0) \<noteq> None"
      then obtain y where y: "y \<in> set (concat (queues st True))" "o_id (op_pool (bs_pool st) ! y) = o_id o0"
        using map_of_orders(2)[OF assms(1)] by blast
      then have "y = x" using book_rep_id_inj[OF rep] assms(2) unfolding slots_concat o0_def by blast
      then show False using y(1) b False book_repD(5)[OF rep] by auto
    qed
    then show ?thesis using m side False by (simp add: book_find_def)
  qed (use m side in \<open>simp add: book_find_def\<close>)
qed

subsection \<open>The handlers\<close>

text \<open>A reference that the book does not hold must be unknown to the whole shard.\<close>

lemma order_cases:
  assumes "book_inv st" "indexed st" "book_find ref (view st) = None \<longrightarrow> om_alpha (bs_map st) ref = None"
  obtains (unknown) "book_find ref (view st) = None" "om_alpha (bs_map st) ref = None"
  | (order) x where "level_idx_ok st x" "o_id (op_pool (bs_pool st) ! x) = ref"
      "book_find ref (view st) = Some (o_side (op_pool (bs_pool st) ! x) = Buy, o_price (op_pool (bs_pool st) ! x),
         o_qty (op_pool (bs_pool st) ! x))"
proof (cases "book_find ref (view st) = None")
  case True
  then show thesis by (rule unknown) (use True assms(3) in simp)
next
  case False
  then obtain x where x: "x \<in> slots (queues st)" "o_id (op_pool (bs_pool st) ! x) = ref"
    using book_find_known[OF assms(1)] by blast
  show thesis
    using order[OF indexed_level_idx_ok[OF assms(1,2) x(1)] x(2)] book_find_order[OF assms(1) x(1)] x(2) by simp
qed

lemma book_inv_map: "book_inv st \<Longrightarrow> om_inv (bs_map st)"
  by (simp add: book_inv_def book_rep_def)

lemma add_order_step:
  assumes "book_inv st" "indexed st" "live_slots (bs_pool st) \<noteq> {..<op_capacity (bs_pool st)}"
    "ref \<noteq> 0" "om_alpha (bs_map st) ref = None" "probe_room (om_table (bs_map st))"
    "book_steady (view st) (book_add side p (ref, qty) (view st))"
  shows "\<exists>st'. new_order st ref p qty side = Inr st' \<and> book_op st st' \<and> indexed st' \<and>
    view st' = book_add side p (ref, qty) (view st)"
proof (cases "has_room p (side_view st side)")
  case True
  obtain st' where n: "new_order st ref p qty side = Inr st'" "book_op st st'"
    "side_view st' side = spec_add side p (ref, qty) (side_view st side)"
    "\<And>s. (s = Buy) \<noteq> (side = Buy) \<Longrightarrow> side_view st' s = side_view st s"
    "indexed st \<Longrightarrow> steady (side_view st side) (side_view st' side) \<Longrightarrow> indexed st'"
    by (rule new_order_op[OF assms(1,3-6) True, where qty = qty]) blast
  have "view st' = book_add side p (ref, qty) (view st)"
  proof (rule view_eqI)
    fix s show "side_view st' s = book_add side p (ref, qty) (view st) (s = Buy)"
      using n(3) n(4)[of s] True by (cases "(s = Buy) = (side = Buy)") (simp_all add: book_add_def view_side)
  qed
  then show ?thesis using n(1,2,5) assms(2,7) book_steady_side[of st st' side] by auto
next
  case False
  obtain st' where n: "new_order st ref p qty side = Inr st'" "book_op st st'"
    "\<And>s. side_view st' s = side_view st s" "indexed st' = indexed st"
    by (rule new_order_no_level_op[OF assms(1,3) False, where ref = ref and qty = qty]) blast
  have "view st' = view st" by (rule view_eqI) (simp add: n(3)[unfolded view_side] view_side)
  then show ?thesis using n(1,2,4) assms(2) False by (simp add: book_add_def view_side)
qed

lemma drop_order_step:
  assumes "book_inv st" "indexed st" "level_idx_ok st x" "probe_room (om_table (bs_map st))"
  defines "ref \<equiv> o_id (op_pool (bs_pool st) ! x)"
  assumes "book_steady (view st) (book_remove ref (view st))"
  obtains st' where "drop_order st x ref = Inr st'" "book_op st st'" "indexed st'"
    "view st' = book_remove ref (view st)" "om_alpha (bs_map st') = (om_alpha (bs_map st))(ref := None)"
    "probe_room (om_table (bs_map st'))" "live_slots (bs_pool st') \<noteq> {..<op_capacity (bs_pool st')}"
proof -
  obtain st' where d: "drop_order st x ref = Inr st'" "book_op st st'"
    "\<And>side. side_view st' side = spec_remove ref (side_view st side)"
    "om_alpha (bs_map st') = (om_alpha (bs_map st))(ref := None)" "probe_room (om_table (bs_map st'))"
    "live_slots (bs_pool st') \<noteq> {..<op_capacity (bs_pool st')}"
    "indexed st \<Longrightarrow> (\<And>side. steady (side_view st side) (side_view st' side)) \<Longrightarrow> indexed st'"
    unfolding ref_def by (rule drop_order_op[OF assms(1,3,4)]) blast
  have v: "view st' = book_remove ref (view st)"
    by (rule view_eqI) (simp add: d(3)[unfolded view_side] book_remove_def view_side)
  then show thesis using that d assms(2,6) book_steady_side[of st st'] by auto
qed

lemma delete_step:
  assumes "book_inv st" "indexed st" "probe_room (om_table (bs_map st))" "ref = im_order_delete_ref msg" "ref \<noteq> 0"
    "book_find ref (view st) = None \<longrightarrow> om_alpha (bs_map st) ref = None"
    "book_steady (view st) (book_delete ref (view st))"
  shows "\<exists>st'. on_order_delete st msg = Inr st' \<and> book_op st st' \<and> indexed st' \<and> view st' = book_delete ref (view st)"
proof (cases rule: order_cases[OF assms(1,2,6), case_names unknown order])
  case unknown
  then show ?thesis
    using unknown_ref_ignored(2)[OF book_inv_map[OF assms(1)] assms(3,5)] assms(2,4) book_op_refl[OF assms(1)]
    by (auto simp: book_delete_def)
next
  case (order x)
  note f = order_found[OF assms(1) order(1) assms(3), unfolded order(2)]
  obtain st' where "drop_order st x ref = Inr st'" "book_op st st'" "indexed st'" "view st' = book_remove ref (view st)"
    using drop_order_step[OF assms(1,2) order(1) assms(3), unfolded order(2)] assms(7) order(3)
    by (auto simp: book_delete_def)
  then show ?thesis using f assms(4) order(3) by (simp add: on_order_delete_def book_delete_def)
qed

lemma reduce_step:
  assumes "book_inv st" "indexed st" "probe_room (om_table (bs_map st))" "ref \<noteq> 0"
    "book_find ref (view st) = None \<longrightarrow> om_alpha (bs_map st) ref = None"
    "book_steady (view st) (book_reduce ref q (view st))"
  shows "\<exists>st'. reduce_qty st ref q = Inr st' \<and> book_op st st' \<and> indexed st' \<and> view st' = book_reduce ref q (view st)"
proof (cases rule: order_cases[OF assms(1,2,5), case_names unknown order])
  case unknown
  then show ?thesis
    using unknown_ref_ignored(1)[OF book_inv_map[OF assms(1)] assms(3,4)] assms(2) book_op_refl[OF assms(1)]
    by (auto simp: book_reduce_def)
next
  case (order x)
  let ?n = "o_qty (op_pool (bs_pool st) ! x)"
  let ?st1 = "amended st x ref (?n - q) (bs_map st)"
  note r = reduce_qty_step(1)[OF assms(1) order(1) assms(3), of q, unfolded order(2)]
  note m = reduce_qty_step(3,2)[OF assms(1) order(1) assms(3), unfolded order(2)]
  note a = amended_refines[OF assms(1) order(1), where qty' = "?n - q", unfolded order(2), OF m]
  have op: "book_op st ?st1"
    using amended_op[OF assms(1) order(1), where qty' = "?n - q", unfolded order(2), OF m] by simp
  have v: "view ?st1 = book_amend ref (ref, ?n - q) (view st)"
    by (rule view_eqI) (simp add: a(3)[unfolded view_side] book_amend_def view_side)
  show ?thesis
  proof (cases "?n = q")
    case False
    then show ?thesis using r op a(7) assms(2) v order(3) by (simp add: book_reduce_def)
  next
    case True
    have ref: "o_id (op_pool (bs_pool ?st1) ! x) = ref" using a(4) by simp
    have room: "probe_room (om_table (bs_map ?st1))" using assms(3) by (simp add: amended_def Let_def)
    have rm: "book_remove ref (view ?st1) = book_remove ref (view st)"
      unfolding v by (simp add: book_remove_def book_amend_def spec_remove_amend)
    then have "book_steady (view ?st1) (book_remove ref (view ?st1))"
      using assms(6) True order(3) unfolding v by (simp add: book_reduce_def book_steady_def book_amend_def)
    then obtain st' where "drop_order ?st1 x ref = Inr st'" "book_op ?st1 st'" "indexed st'" "view st' = book_remove ref (view st)"
      using drop_order_step[OF a(1) _ a(2) room, unfolded ref] a(7) assms(2) rm by (metis)
    then show ?thesis using r True book_op_trans[OF op] order(3) by (auto simp: book_reduce_def)
  qed
qed

text \<open>A replacement keeps the levels in place at its removal and at its addition.\<close>

definition replace_steady :: "OrderReplaceFields \<Rightarrow> abook \<Rightarrow> bool" where
  "replace_steady r A \<longleftrightarrow>
    (case book_find (or_orig_ref r) A of
       None \<Rightarrow> True
     | Some (_, p, n) \<Rightarrow> or_new_price r = p \<and> or_new_shares r \<le> n \<or>
         book_steady A (book_remove (or_orig_ref r) A) \<and>
         book_steady (book_remove (or_orig_ref r) A) (book_replace r A))"

lemma replace_step:
  fixes msg :: ItchMsg
  defines "r \<equiv> im_order_replace msg"
  assumes "book_inv st" "indexed st" "probe_room (om_table (bs_map st))" "or_orig_ref r \<noteq> 0"
    "book_find (or_orig_ref r) (view st) = None \<longrightarrow> om_alpha (bs_map st) (or_orig_ref r) = None"
    "book_find (or_orig_ref r) (view st) \<noteq> None \<Longrightarrow> or_new_ref r \<noteq> 0 \<and>
       (or_new_ref r = or_orig_ref r \<or> om_alpha (bs_map st) (or_new_ref r) = None)"
    "replace_steady r (view st)"
  shows "\<exists>st'. on_order_replace st msg = Inr st' \<and> book_op st st' \<and> indexed st' \<and> view st' = book_replace r (view st)"
proof (cases rule: order_cases[OF assms(2,3,6), case_names unknown order])
  case unknown
  then show ?thesis
    using unknown_ref_ignored(3)[OF book_inv_map[OF assms(2)] assms(4,5)] assms(3) book_op_refl[OF assms(2)]
    by (auto simp: book_replace_def r_def)
next
  case (order x)
  let ?o = "op_pool (bs_pool st) ! x" and ?orig = "or_orig_ref r"
  have new: "or_new_ref r \<noteq> 0" "or_new_ref r = o_id ?o \<or> om_alpha (bs_map st) (or_new_ref r) = None"
    using assms(7) order(2,3) by auto
  show ?thesis
  proof (cases "or_new_price r = o_price ?o \<and> or_new_shares r \<le> o_qty ?o")
    case True
    obtain m where m: "om_inv m" "om_alpha m = (om_alpha (bs_map st))(?orig := None, or_new_ref r \<mapsto> x)"
      "on_order_replace st msg = Inr ((amended st x (or_new_ref r) (or_new_shares r) m)\<lparr>bs_inplace :=
        (if lb_inplace_ctr (bs_book st) then bs_inplace st + 1 else bs_inplace st)\<rparr>)"
      using replace_in_place_eq[OF assms(2) order(1) assms(4), of msg, folded r_def, unfolded order(2)] new(1) True by metis
    note a = amended_refines[OF assms(2) order(1), where qty' = "or_new_shares r", unfolded order(2), OF m(1,2) new(2)[unfolded order(2)]]
    note op = amended_op[OF assms(2) order(1), where qty' = "or_new_shares r", unfolded order(2), OF m(1,2) new(2)[unfolded order(2)]]
    have "view ((amended st x (or_new_ref r) (or_new_shares r) m)\<lparr>bs_inplace := k\<rparr>) = book_replace r (view st)" for k
      by (rule view_eqI) (simp add: order(3) True a(3) book_replace_def book_amend_def view_side[symmetric])
    moreover have "indexed ((amended st x (or_new_ref r) (or_new_shares r) m)\<lparr>bs_inplace := k\<rparr>)" for k
      using a(7)[OF assms(3)] by (simp add: indexed_def queues_def)
    ultimately show ?thesis using m(3) op by simp
  next
    case False
    have sd: "book_steady (view st) (book_remove ?orig (view st))"
      "book_steady (book_remove ?orig (view st)) (book_replace r (view st))"
      using assms(8) order(3) False by (auto simp: replace_steady_def)
    obtain st1 where d: "drop_order st x ?orig = Inr st1" "book_op st st1" "indexed st1" "view st1 = book_remove ?orig (view st)"
      "om_alpha (bs_map st1) = (om_alpha (bs_map st))(?orig := None)" "probe_room (om_table (bs_map st1))"
      "live_slots (bs_pool st1) \<noteq> {..<op_capacity (bs_pool st1)}"
      by (rule drop_order_step[OF assms(2,3) order(1) assms(4), unfolded order(2), OF sd(1)]) blast
    have eq: "on_order_replace st msg = andthen (drop_order st x ?orig) (\<lambda>st1.
        new_order st1 (or_new_ref r) (or_new_price r) (or_new_shares r) (o_side ?o))"
      by (rule replace_moves_eq[OF assms(2) order(1) assms(4), of msg, folded r_def, unfolded order(2)])
        (use False in auto)
    have "book_replace r (view st) = book_add (if o_side ?o = Buy then Buy else Sell) (or_new_price r)
        (or_new_ref r, or_new_shares r) (view st1)"
      using order(3) False by (auto simp: book_replace_def d(4))
    then have br: "book_replace r (view st) = book_add (o_side ?o) (or_new_price r) (or_new_ref r, or_new_shares r) (view st1)"
      using spec_add_side[of "o_side ?o" "if o_side ?o = Buy then Buy else Sell"] by (auto simp: book_add_def)
    have "om_alpha (bs_map st1) (or_new_ref r) = None" using new(2) order(2) d(5) by auto
    then obtain st' where "new_order st1 (or_new_ref r) (or_new_price r) (or_new_shares r) (o_side ?o) = Inr st'"
      "book_op st1 st'" "indexed st'" "view st' = book_replace r (view st)"
      using add_order_step[OF _ d(3,7) new(1) _ d(6), of "o_side ?o" "or_new_price r" "or_new_shares r"] d(2,4) sd(2) br
      by (auto simp: book_op_def)
    then show ?thesis using eq d(1) book_op_trans[OF d(2)] by auto
  qed
qed

end
