(* ===== verification/Shard_Books.thy ===== *)
theory Shard_Books
  imports Shard_Worker Book_Steps
begin

text \<open>
  A shard as a family of abstract books. The books of a shard share a pool and a map; as long as no
  two of them hold the same reference and the levels change at the end of their arrays, the worker
  does to the orders what the exchange's messages say, book by book, and publishes the best prices
  that follow from them.
\<close>

section \<open>What the messages say\<close>

type_synonym abooks = "nat \<Rightarrow> abook"

definition book_refs :: "abook \<Rightarrow> OrderId set" where
  "book_refs A = fst ` set (side_orders (A True)) \<union> fst ` set (side_orders (A False))"

definition shard_refs :: "abooks \<Rightarrow> OrderId set" where
  "shard_refs AB = (\<Union>i < BOOKS_PER_SHARD. book_refs (AB i))"

text \<open>An order message on the book it is for; the other messages do not change the orders.\<close>

definition book_msg :: "ItchMsg \<Rightarrow> abook \<Rightarrow> abook" where
  "book_msg m A =
    (let a = im_add_order m; e = im_order_executed m; x = im_order_executed_price m; c = im_order_cancel m in
     case im_type m of
       AddOrder \<Rightarrow> book_add (ao_side a) (ao_price a) (ao_ref a, ao_shares a) A
     | AddOrderMPID \<Rightarrow> book_add (ao_side a) (ao_price a) (ao_ref a, ao_shares a) A
     | OrderExecuted \<Rightarrow> book_reduce (oe_ref e) (oe_executed_shares e) A
     | OrderExecutedPrice \<Rightarrow> book_reduce (op_ref x) (op_executed_shares x) A
     | OrderCancel \<Rightarrow> book_reduce (oc_ref c) (oc_cancelled_shares c) A
     | OrderDelete \<Rightarrow> book_delete (im_order_delete_ref m) A
     | OrderReplace \<Rightarrow> book_replace (im_order_replace m) A
     | _ \<Rightarrow> A)"

text \<open>The order a message other than an addition is about.\<close>

definition subject_ref :: "ItchMsg \<Rightarrow> OrderId" where
  "subject_ref m =
    (case im_type m of
       OrderExecuted \<Rightarrow> oe_ref (im_order_executed m)
     | OrderExecutedPrice \<Rightarrow> op_ref (im_order_executed_price m)
     | OrderCancel \<Rightarrow> oc_ref (im_order_cancel m)
     | OrderDelete \<Rightarrow> im_order_delete_ref m
     | OrderReplace \<Rightarrow> or_orig_ref (im_order_replace m)
     | _ \<Rightarrow> ao_ref (im_add_order m))"

text \<open>
  What a message has to respect for the shard to follow it, when \<open>refs\<close> are the references in use:
  no reference is zero, a new one is not in use, the others are not in use in another book, and no
  level is made or removed before another one.
\<close>

definition book_msg_ok :: "OrderId set \<Rightarrow> ItchMsg \<Rightarrow> abook \<Rightarrow> bool" where
  "book_msg_ok refs m A \<longleftrightarrow> subject_ref m \<noteq> 0 \<and>
    (if im_type m = AddOrder \<or> im_type m = AddOrderMPID then subject_ref m \<notin> refs \<and> book_steady A (book_msg m A)
     else (subject_ref m \<in> refs \<longrightarrow> subject_ref m \<in> book_refs A) \<and>
       (if im_type m = OrderReplace
        then (let new = or_new_ref (im_order_replace m) in
                subject_ref m \<in> book_refs A \<longrightarrow> new \<noteq> 0 \<and> (new = subject_ref m \<or> new \<notin> refs)) \<and>
             replace_steady (im_order_replace m) A
        else book_steady A (book_msg m A)))"

definition empty_books :: abooks where "empty_books = (\<lambda>_ _. [])"

definition spec_dispatch :: "bool \<Rightarrow> ItchMsg \<Rightarrow> abooks \<Rightarrow> abooks" where
  "spec_dispatch open_session m AB =
    (let i = slab_index (im_locate m) in
     if im_type m = InternalSessionReset then empty_books
     else if open_session then AB(i := book_msg m (AB i))
     else AB)"

text \<open>A sequence of messages a shard with room for \<open>cap\<close> orders can follow.\<close>

fun feed_ok :: "nat \<Rightarrow> bool \<Rightarrow> ItchMsg list \<Rightarrow> abooks \<Rightarrow> bool" where
  "feed_ok cap open_session [] AB \<longleftrightarrow> True"
| "feed_ok cap open_session (m # ms) AB \<longleftrightarrow>
    (open_session \<and> book_handler m \<noteq> None \<longrightarrow> card (shard_refs AB) < cap \<and>
       book_msg_ok (shard_refs AB) m (AB (slab_index (im_locate m)))) \<and>
    feed_ok cap open_session ms (spec_dispatch open_session m AB)"

text \<open>The best bid and offer of an abstract book.\<close>

definition best :: "aside \<Rightarrow> Price \<times> Qty" where
  "best V = (case V of [] \<Rightarrow> (0, 0) | (p, q) # _ \<Rightarrow> (p, sum_list (map snd q)))"

definition spec_bbo :: "LocateCode \<Rightarrow> abook \<Rightarrow> BboSnapshot" where
  "spec_bbo loc A = \<lparr>bb_locate = loc, bb_bid_price = fst (best (A True)), bb_bid_qty = snd (best (A True)),
     bb_ask_price = fst (best (A False)), bb_ask_qty = snd (best (A False)), bb_ts = 0\<rparr>"

section \<open>One book\<close>

lemma book_find_None: "book_find ref A = None \<longleftrightarrow> ref \<notin> book_refs A"
proof -
  have "book_find ref A = None \<longleftrightarrow> map_of (side_orders (A True)) ref = None \<and> map_of (side_orders (A False)) ref = None"
    by (auto simp: book_find_def split: option.splits)
  then show ?thesis by (simp add: book_refs_def map_of_eq_None_iff)
qed

lemma book_refs_view:
  assumes "book_inv st"
  shows "book_refs (view st) = (\<lambda>x. o_id (op_pool (bs_pool st) ! x)) ` slots (queues st)"
  unfolding book_refs_def side_orders_queues(1)[OF assms] by (auto simp: slots_def image_Un image_image)

lemma handler_refines:
  assumes "book_handler m = Some h" "book_inv st" "indexed st" "live_slots (bs_pool st) \<noteq> {..<op_capacity (bs_pool st)}"
    "probe_room (om_table (bs_map st))" "book_msg_ok (dom (om_alpha (bs_map st))) m (view st)"
  shows "\<exists>st'. h st = Inr st' \<and> book_op st st' \<and> indexed st' \<and> view st' = book_msg m (view st)"
proof -
  note ok = assms(6)[unfolded book_msg_ok_def subject_ref_def book_msg_def Let_def]
  note add = add_order_step[OF assms(2-4) _ _ assms(5)] and del = delete_step[OF assms(2,3,5)]
    and red = reduce_step[OF assms(2,3,5)] and rep = replace_step[OF assms(2,3,5)]
  show ?thesis
  proof (cases "im_type m")
    case AddOrder
    then show ?thesis using assms(1) ok add by (auto simp: book_handler_def book_msg_def on_add_order_def Let_def domIff)
  next
    case AddOrderMPID
    then show ?thesis using assms(1) ok add by (auto simp: book_handler_def book_msg_def on_add_order_def Let_def domIff)
  next
    case OrderExecuted
    then show ?thesis using assms(1) ok red
      by (auto simp: book_handler_def book_msg_def on_order_executed_def Let_def domIff book_find_None)
  next
    case OrderExecutedPrice
    then show ?thesis using assms(1) ok red
      by (auto simp: book_handler_def book_msg_def on_order_executed_price_def Let_def domIff book_find_None)
  next
    case OrderCancel
    then show ?thesis using assms(1) ok red
      by (auto simp: book_handler_def book_msg_def on_order_cancel_def Let_def domIff book_find_None)
  next
    case OrderDelete
    then show ?thesis using assms(1) ok del[OF refl] by (auto simp: book_handler_def book_msg_def Let_def domIff book_find_None)
  next
    case OrderReplace
    then show ?thesis using assms(1) ok rep[of m]
      by (auto simp: book_handler_def book_msg_def Let_def domIff book_find_None)
  qed (use assms(1) in \<open>simp_all add: book_handler_def\<close>)
qed

lemma best_view:
  assumes "list_all2 (level_ok P b) L Q"
  shows "best (view_of P L Q) = (if L = [] then (0, 0) else (pl_price (L ! 0), pl_total_qty (L ! 0)))"
  using assms by (cases L; cases Q)
    (auto simp: best_def view_of_Cons view_of_def queue_view_def level_ok_def level_rep_def comp_def)

lemma get_bbo_view:
  assumes "book_inv st"
  shows "get_bbo (bs_book st) = spec_bbo (lb_locate (bs_book st)) (view st)"
proof -
  let ?b = "bs_book st"
  have rep: "book_rep st (queues st)" using assms by (simp add: book_inv_def)
  have v: "view st b = view_of (op_pool (bs_pool st)) (active ?b b) (queues st b)" for b
    unfolding view_def side_view_rep[OF rep] by (cases b) simp_all
  have "take c L = [] \<longleftrightarrow> c = 0" if "levels_wf side L c" for side L c
    using that by (auto simp: levels_wf_def MAX_PRICE_LEVELS_def)
  then have "(active ?b True = []) = (lb_bid_count ?b = 0)" "(active ?b False = []) = (lb_ask_count ?b = 0)"
    using book_repD(3)[OF rep] unfolding active_def book_wf_def by auto
  moreover note best_view[OF book_repD(4)[OF rep], folded v]
  ultimately show ?thesis by (simp add: spec_bbo_def get_bbo_def) (simp add: active_def)
qed

section \<open>The books of a shard\<close>

definition shard_ok :: "ShardWorker \<Rightarrow> bool" where
  "shard_ok w \<longleftrightarrow> worker_ok w \<and> length (lh_buckets (sw_book_lat w)) = TOTAL_BUCKETS \<and>
     (\<forall>i < BOOKS_PER_SHARD. book_inv (book_state w i) \<and> indexed (book_state w i) \<and>
        (\<not> sw_book_active w ! i \<longrightarrow> view (book_state w i) = (\<lambda>_. [])) \<and>
        (\<forall>j < BOOKS_PER_SHARD. i \<noteq> j \<longrightarrow> slots (queues (book_state w i)) \<inter> slots (queues (book_state w j)) = {})) \<and>
     live_slots (sw_pool w) = (\<Union>i < BOOKS_PER_SHARD. slots (queues (book_state w i))) \<and> map_exact (book_state w 0)"

definition shard_view :: "ShardWorker \<Rightarrow> abooks" where
  "shard_view w i = (if i < BOOKS_PER_SHARD then view (book_state w i) else (\<lambda>_. []))"

definition shard_capacity :: "ShardWorker \<Rightarrow> nat" where
  "shard_capacity w = min (op_capacity (sw_pool w)) (min (om_capacity (sw_map w)) 65535)"

lemma books_pos: "0 < BOOKS_PER_SHARD"
  by (simp add: BOOKS_PER_SHARD_def MAX_LOCATE_def NUM_SHARDS_def)

lemma book_state_fields [simp]:
  "bs_book (book_state w i) = sw_books w ! i" "bs_pool (book_state w i) = sw_pool w" "bs_map (book_state w i) = sw_map w"
  by (simp_all add: book_state_def)

lemma shard_okD:
  assumes "shard_ok w" "i < BOOKS_PER_SHARD"
  shows "worker_ok w" "book_inv (book_state w i)" "indexed (book_state w i)"
    "\<not> sw_book_active w ! i \<Longrightarrow> view (book_state w i) = (\<lambda>_. [])"
    "j < BOOKS_PER_SHARD \<Longrightarrow> i \<noteq> j \<Longrightarrow> slots (queues (book_state w i)) \<inter> slots (queues (book_state w j)) = {}"
    "live_slots (sw_pool w) = (\<Union>i < BOOKS_PER_SHARD. slots (queues (book_state w i)))" "map_exact (book_state w i)"
proof -
  have "map_exact (book_state w i) = map_exact (book_state w 0)" by (simp add: map_exact_def)
  then show "map_exact (book_state w i)" using assms(1) by (simp add: shard_ok_def)
qed (use assms in \<open>simp_all add: shard_ok_def\<close>)

text \<open>The references in use are those the map knows, one for each live slot of the pool.\<close>

lemma shard_references:
  assumes "shard_ok w"
  shows "dom (om_alpha (sw_map w)) = shard_refs (shard_view w)"
    "card (live_slots (sw_pool w)) = card (shard_refs (shard_view w))"
proof -
  let ?id = "\<lambda>x. o_id (op_pool (sw_pool w) ! x)"
  note D = shard_okD[OF assms]
  have "shard_refs (shard_view w) = (\<Union>i < BOOKS_PER_SHARD. ?id ` slots (queues (book_state w i)))"
    using book_refs_view[OF D(2)] by (auto simp: shard_refs_def shard_view_def)
  then have refs: "shard_refs (shard_view w) = ?id ` live_slots (sw_pool w)" using D(6)[OF books_pos] by blast
  have known: "om_alpha (sw_map w) (?id x) = Some x" if x: "x \<in> live_slots (sw_pool w)" for x
  proof -
    obtain i where "i < BOOKS_PER_SHARD" "x \<in> slots (queues (book_state w i))" using x D(6)[OF books_pos] by blast
    then show ?thesis using book_repD(7)[OF D(2)[unfolded book_inv_def], of i x] by simp
  qed
  show "dom (om_alpha (sw_map w)) = shard_refs (shard_view w)"
    unfolding refs using known D(7)[OF books_pos] by (force simp: map_exact_def)
  have "inj_on ?id (live_slots (sw_pool w))" by (rule inj_onI) (metis known option.inject)
  then show "card (live_slots (sw_pool w)) = card (shard_refs (shard_view w))" by (simp add: refs card_image)
qed

lemma shard_room:
  assumes "shard_ok w" "card (shard_refs (shard_view w)) < shard_capacity w"
  shows "probe_room (om_table (sw_map w))" "live_slots (sw_pool w) \<noteq> {..<op_capacity (sw_pool w)}"
proof -
  have "om_inv (sw_map w)" using book_inv_map[OF shard_okD(2)[OF assms(1) books_pos]] by simp
  then show "probe_room (om_table (sw_map w))"
    using room_of_count assms(2) by (simp add: shard_references[OF assms(1)] shard_capacity_def)
  have "card (live_slots (sw_pool w)) < op_capacity (sw_pool w)"
    using assms(2) by (simp add: shard_references(2)[OF assms(1)] shard_capacity_def)
  moreover have "card {..<op_capacity (sw_pool w)} = op_capacity (sw_pool w)" by simp
  ultimately show "live_slots (sw_pool w) \<noteq> {..<op_capacity (sw_pool w)}" by (metis less_irrefl)
qed

text \<open>An operation of one book, seen by the shard.\<close>

lemma put_book_states:
  assumes "worker_ok w" "i < BOOKS_PER_SHARD" "j < BOOKS_PER_SHARD"
  shows "book_state (put_book i st w) j = (if j = i then st else st\<lparr>bs_book := sw_books w ! j\<rparr>)"
  using assms by (simp add: book_state_def put_book_def worker_ok_def)

lemma book_state_other: "book_state w j = (book_state w i)\<lparr>bs_book := sw_books w ! j\<rparr>"
  by (simp add: book_state_def)

lemma put_book_shard:
  assumes ok: "shard_ok w" and i: "i < BOOKS_PER_SHARD" "sw_book_active w ! i"
    and st: "book_op (book_state w i) st" "indexed st" and w': "worker_ok (put_book i st w)"
  shows "shard_ok (put_book i st w)" "shard_view (put_book i st w) = (shard_view w)(i := view st)"
proof -
  let ?w = "put_book i st w" and ?B = "book_state w"
  note D = shard_okD[OF ok] and S = put_book_states[OF shard_okD(1)[OF ok i(1)] i(1)]
  have op: "book_inv st" "keeps_others (?B i) st" "map_exact st"
    "live_slots (bs_pool st) = (live_slots (sw_pool w) - slots (queues (?B i))) \<union> slots (queues st)"
    using st(1) D(7)[OF i(1)] by (simp_all add: book_op_def)
  have si: "book_state ?w i = st" using S[OF i(1)] by simp
  have inv: "pool_inv (bs_pool st)" "om_inv (bs_map st)" using op(1) by (simp_all add: book_inv_def book_rep_def)
  have other: "book_rep (book_state ?w j) (queues (?B j))" "slots (queues (?B j)) \<inter> slots (queues st) = {}"
    "view (book_state ?w j) = view (?B j)" "indexed (book_state ?w j)" if j: "j < BOOKS_PER_SHARD" "j \<noteq> i" for j
  proof -
    have B: "book_rep ((?B i)\<lparr>bs_book := sw_books w ! j\<rparr>) (queues (?B j))" "slots (queues (?B j)) \<inter> slots (queues (?B i)) = {}"
      "?B j = (?B i)\<lparr>bs_book := sw_books w ! j\<rparr>" "book_state ?w j = st\<lparr>bs_book := sw_books w ! j\<rparr>"
      using D(2)[OF j(1)] D(5)[OF j(1) i(1) j(2)] book_state_other[of w j i] S[OF j(1)] j(2) by (simp_all add: book_inv_def)
    note k = keeps_others_rep[OF op(2) inv B(1,2)]
    show "book_rep (book_state ?w j) (queues (?B j))" "slots (queues (?B j)) \<inter> slots (queues st) = {}"
      "view (book_state ?w j) = view (?B j)" "indexed (book_state ?w j)"
      using k D(3)[OF j(1)] unfolding B(3,4) by (simp_all add: view_def fun_eq_iff)
  qed
  have q: "queues (book_state ?w j) = (if j = i then queues st else queues (?B j))" if "j < BOOKS_PER_SHARD" for j
    using that other(1) book_rep_queues si by simp
  have "live_slots (sw_pool ?w) = (\<Union>j < BOOKS_PER_SHARD. slots (queues (book_state ?w j)))"
  proof -
    have "live_slots (sw_pool w) - slots (queues (?B i)) = (\<Union>j \<in> {..<BOOKS_PER_SHARD} - {i}. slots (queues (?B j)))"
      using D(6)[OF i(1)] D(5)[OF i(1)] by blast
    moreover have "(\<Union>j < BOOKS_PER_SHARD. slots (queues (book_state ?w j))) =
        (\<Union>j \<in> {..<BOOKS_PER_SHARD} - {i}. slots (queues (?B j))) \<union> slots (queues st)"
      using q i(1) by (auto split: if_splits)
    ultimately show ?thesis using op(4) by (simp add: put_book_def)
  qed
  moreover have "map_exact (book_state ?w 0)" using op(3) by (simp add: map_exact_def put_book_def)
  moreover have "book_inv (book_state ?w j) \<and> indexed (book_state ?w j) \<and>
      (\<not> sw_book_active ?w ! j \<longrightarrow> view (book_state ?w j) = (\<lambda>_. [])) \<and>
      (\<forall>k < BOOKS_PER_SHARD. j \<noteq> k \<longrightarrow> slots (queues (book_state ?w j)) \<inter> slots (queues (book_state ?w k)) = {})"
    if j: "j < BOOKS_PER_SHARD" for j
  proof (cases "j = i")
    case True
    then show ?thesis using op(1) st(2) si i(2) other(2) q i(1) by (auto simp: put_book_def)
  next
    case False
    then show ?thesis
      using other[OF j False] D(4)[OF j] D(5)[OF j] book_inv_iff q j by (auto simp: put_book_def)
  qed
  ultimately show "shard_ok ?w" using ok w' by (simp add: shard_ok_def put_book_def)
  show "shard_view ?w = (shard_view w)(i := view st)"
    using other(3) si i(1) by (auto simp: shard_view_def fun_eq_iff)
qed

lemma map_capacity:
  "map_insert m ref idx = Some m' \<Longrightarrow> om_capacity m' = om_capacity m"
  "map_erase m ref = Some (e, m') \<Longrightarrow> om_capacity m' = om_capacity m"
  by (auto simp: map_insert_def map_erase_def split: option.splits prod.splits)

lemma drop_order_capacity: "drop_order st idx ref = Inr st' \<Longrightarrow> om_capacity (bs_map st') = om_capacity (bs_map st)"
  by (erule drop_order_InrE) (simp add: map_capacity(2))

lemma reduce_capacity: "reduce_qty st ref q = Inr st' \<Longrightarrow> om_capacity (bs_map st') = om_capacity (bs_map st)"
  by (auto simp: reduce_qty_def Let_def split: if_splits dest!: drop_order_capacity)

lemma replace_capacity: "on_order_replace st msg = Inr st' \<Longrightarrow> om_capacity (bs_map st') = om_capacity (bs_map st)"
  by (auto simp: on_order_replace_def Let_def map_capacity split: if_splits option.splits dest!: drop_order_capacity new_order_capacity)

lemma handler_capacity:
  assumes "book_handler msg = Some h" "h st = Inr st'"
  shows "om_capacity (bs_map st') = om_capacity (bs_map st)"
  using assms by (auto simp: book_handler_def on_add_order_def on_order_executed_def on_order_executed_price_def
      on_order_cancel_def on_order_delete_def Let_def split: MessageType.splits if_splits
      dest: new_order_capacity reduce_capacity replace_capacity drop_order_capacity)

lemma book_op_capacity:
  assumes "book_inv st" "book_op st st'"
  shows "op_capacity (bs_pool st') = op_capacity (bs_pool st)"
  using assms by (metis book_op_def book_inv_def book_repD(1) keeps_others_def pool_length)

section \<open>Messages that do not touch the orders\<close>

lemma shard_same_levels:
  assumes "shard_ok w" "worker_ok w'" "sw_pool w' = sw_pool w" "sw_map w' = sw_map w"
    "length (lh_buckets (sw_book_lat w')) = TOTAL_BUCKETS"
    "\<And>i. i < BOOKS_PER_SHARD \<Longrightarrow> active (sw_books w' ! i) = active (sw_books w ! i)"
    "\<And>i. i < BOOKS_PER_SHARD \<Longrightarrow> sw_book_active w ! i \<Longrightarrow> sw_book_active w' ! i"
  shows "shard_ok w'" "shard_view w' = shard_view w" "shard_capacity w' = shard_capacity w"
proof -
  have q: "queues (book_state w' i) = queues (book_state w i)" "view (book_state w' i) = view (book_state w i)"
    "indexed (book_state w' i) = indexed (book_state w i)" "book_inv (book_state w' i)" if i: "i < BOOKS_PER_SHARD" for i
  proof -
    show q: "queues (book_state w' i) = queues (book_state w i)" using assms(3,6) i by (simp add: queues_def fun_eq_iff)
    show "indexed (book_state w' i) = indexed (book_state w i)" by (simp add: indexed_def q assms(3))
    show "view (book_state w' i) = view (book_state w i)"
      using assms(3,6) i by (simp add: view_def fun_eq_iff side_view_def flip: active_side)
    have "book_wf (sw_books w' ! i)" using assms(2) i by (simp add: worker_ok_def)
    then show "book_inv (book_state w' i)"
      using shard_okD(2)[OF assms(1) i] assms(3,4,6) i by (simp add: book_inv_def book_rep_def q)
  qed
  have "map_exact (book_state w' 0)" using shard_okD(7)[OF assms(1) books_pos] assms(3,4) by (simp add: map_exact_def)
  moreover have "view (book_state w' i) = (\<lambda>_. [])" if "i < BOOKS_PER_SHARD" "\<not> sw_book_active w' ! i" for i
    using that assms(7) shard_okD(4)[OF assms(1)] q(2) by auto
  moreover have "indexed (book_state w' i)" if "i < BOOKS_PER_SHARD" for i using that shard_okD(3)[OF assms(1)] q(3) by simp
  ultimately show "shard_ok w'"
    unfolding shard_ok_def using assms(2,3,5) q(1,4) shard_okD(5,6)[OF assms(1)] books_pos by simp
  show "shard_view w' = shard_view w" "shard_capacity w' = shard_capacity w"
    using q(2) assms(3,4) by (simp_all add: shard_view_def shard_capacity_def fun_eq_iff)
qed

text \<open>An empty book needs no orders.\<close>

lemma empty_book:
  assumes "pool_inv (bs_pool st)" "om_inv (bs_map st)" "book_wf (bs_book st)" "\<And>b. active (bs_book st) b = []"
  shows "book_inv st" "queues st = (\<lambda>_. [])" "indexed st" "view st = (\<lambda>_. [])"
proof -
  have rep: "book_rep st (\<lambda>_. [])" using assms by (simp add: book_rep_def slots_def)
  then show "book_inv st" using book_inv_iff by blast
  show q: "queues st = (\<lambda>_. [])" by (rule book_rep_queues[OF rep])
  show "indexed st" by (simp add: indexed_def q)
  show "view st = (\<lambda>_. [])" by (simp add: view_def fun_eq_iff side_view_rep[OF rep] assms(4) view_of_def)
qed

lemma empty_shard:
  assumes "worker_ok w" "pool_inv (sw_pool w)" "live_slots (sw_pool w) = {}" "om_inv (sw_map w)"
    "om_alpha (sw_map w) = Map.empty" "length (lh_buckets (sw_book_lat w)) = TOTAL_BUCKETS"
    "\<And>i b. i < BOOKS_PER_SHARD \<Longrightarrow> active (sw_books w ! i) b = []"
  shows "shard_ok w" "shard_view w = empty_books"
proof -
  have e: "book_inv (book_state w i)" "queues (book_state w i) = (\<lambda>_. [])" "indexed (book_state w i)"
    "view (book_state w i) = (\<lambda>_. [])" if i: "i < BOOKS_PER_SHARD" for i
  proof -
    have "book_wf (sw_books w ! i)" using assms(1) i by (simp add: worker_ok_def)
    then show "book_inv (book_state w i)" "queues (book_state w i) = (\<lambda>_. [])" "indexed (book_state w i)"
      "view (book_state w i) = (\<lambda>_. [])"
      using empty_book[of "book_state w i"] assms(2,4,7) i by simp_all
  qed
  then show "shard_ok w" using assms by (simp add: shard_ok_def slots_def map_exact_def)
  show "shard_view w = empty_books" using e(4) by (simp add: shard_view_def empty_books_def fun_eq_iff)
qed

section \<open>The worker\<close>

text \<open>Latencies the histogram has a bucket for.\<close>

definition timely :: "Timestamp \<Rightarrow> ItchMsg \<Rightarrow> bool" where
  "timely after m \<longleftrightarrow> 0 < im_recv_timestamp m \<and> im_recv_timestamp m \<le> after \<longrightarrow> unat (after - im_recv_timestamp m) < 2 ^ 23"

lemma record_book_latency_ok:
  assumes "timely after m" "length (lh_buckets (sw_book_lat w)) = TOTAL_BUCKETS"
  shows "\<exists>h. record_book_latency after m w = Inr (w\<lparr>sw_book_lat := h\<rparr>) \<and> length (lh_buckets h) = TOTAL_BUCKETS"
proof (cases "0 < im_recv_timestamp m \<and> im_recv_timestamp m \<le> after")
  case True
  then show ?thesis using record_latency_ok[OF _ assms(2), of "after - im_recv_timestamp m"] assms(1)
    by (auto simp: record_book_latency_def timely_def)
next
  case False
  then have "record_book_latency after m w = Inr w" by (auto simp: record_book_latency_def)
  then show ?thesis using assms(2) by (intro exI[of _ "sw_book_lat w"]) simp
qed

lemma active_status [simp]:
  "active (b\<lparr>lb_status := s\<rparr>) = active b" "active (set_inplace_ctr b) = active b" "active (set_drop_ctr b) = active b"
  by (simp_all add: active_def set_inplace_ctr_def set_drop_ctr_def fun_eq_iff)

lemma activate_shard:
  assumes "shard_ok w"
  shows "shard_ok (activate_book loc w)" "shard_view (activate_book loc w) = shard_view w"
    "shard_capacity (activate_book loc w) = shard_capacity w" "sw_book_active (activate_book loc w) ! slab_index loc"
proof -
  let ?w = "activate_book loc w"
  have wok: "worker_ok w" and len: "length (sw_books w) = BOOKS_PER_SHARD" "length (sw_book_active w) = BOOKS_PER_SHARD"
    using assms by (simp_all add: shard_ok_def worker_ok_def)
  have f: "worker_ok ?w" "sw_pool ?w = sw_pool w" "sw_map ?w = sw_map w" "sw_book_lat ?w = sw_book_lat w"
    using worker_step_ok[OF worker_step_activate[OF wok]] by (simp_all add: activate_book_def Let_def)
  have a: "active (sw_books ?w ! i) = active (sw_books w ! i)" "sw_book_active w ! i \<Longrightarrow> sw_book_active ?w ! i"
    if "i < BOOKS_PER_SHARD" for i
    using that len by (cases "i = slab_index loc"; simp add: activate_book_def Let_def)+
  have lat: "length (lh_buckets (sw_book_lat ?w)) = TOTAL_BUCKETS" using assms f(4) by (simp add: shard_ok_def)
  show "shard_ok ?w" "shard_view ?w = shard_view w" "shard_capacity ?w = shard_capacity w"
    by (rule shard_same_levels[OF assms f(1-3) lat a]; assumption)+
  show "sw_book_active ?w ! slab_index loc"
    using len slab_index_bound[of loc] by (simp add: activate_book_def Let_def)
qed

lemma action_shard:
  fixes w i m
  assumes "shard_ok w" "i < BOOKS_PER_SHARD"
  defines "w' \<equiv> put_book i (on_trading_action (book_state w i) m) w"
  shows "shard_ok w'" "shard_view w' = shard_view w" "shard_capacity w' = shard_capacity w"
proof -
  have len: "length (sw_books w) = BOOKS_PER_SHARD" using assms(1) by (simp add: shard_ok_def worker_ok_def)
  have wok: "worker_ok w'"
    unfolding w'_def by (rule worker_step_ok[OF worker_step_put[OF shard_okD(1)[OF assms(1,2)] assms(2) book_step.action]])
  have f: "sw_pool w' = sw_pool w" "sw_map w' = sw_map w" "sw_book_lat w' = sw_book_lat w" "sw_book_active w' = sw_book_active w"
    by (simp_all add: w'_def put_book_def on_trading_action_def)
  have a: "active (sw_books w' ! j) = active (sw_books w ! j)" if "j < BOOKS_PER_SHARD" for j
    using that len by (cases "j = i") (simp_all add: w'_def on_trading_action_def)
  have lat: "length (lh_buckets (sw_book_lat w')) = TOTAL_BUCKETS" using assms(1) f(3) by (simp add: shard_ok_def)
  have "\<And>j. sw_book_active w ! j \<Longrightarrow> sw_book_active w' ! j" by (simp add: f(4))
  then show "shard_ok w'" "shard_view w' = shard_view w" "shard_capacity w' = shard_capacity w"
    using shard_same_levels[OF assms(1) wok f(1,2) lat a] by blast+
qed

lemma reset_shard:
  fixes w
  defines "w1 \<equiv> clear_all_books w"
  defines "w' \<equiv> w1\<lparr>sw_pool := pool_reset (sw_pool w1), sw_map := map_reset (sw_map w1)\<rparr>"
  assumes "shard_ok w"
  shows "shard_ok w'" "shard_view w' = empty_books" "shard_capacity w' = shard_capacity w"
proof -
  note D = shard_okD[OF assms(3)]
  have len: "length (sw_books w) = BOOKS_PER_SHARD" "length (sw_book_active w) = BOOKS_PER_SHARD"
    using D(1)[OF books_pos] by (simp_all add: worker_ok_def)
  have b: "sw_books w' ! i = (if sw_book_active w ! i then book_clear (sw_books w ! i) else sw_books w ! i)"
    if "i < BOOKS_PER_SHARD" for i
    using that len by (simp add: w'_def w1_def clear_all_books_def)
  have inv: "pool_inv (sw_pool w)" "om_inv (sw_map w)"
    using D(2)[OF books_pos] by (simp_all add: book_inv_def book_rep_def)
  have f: "sw_pool w' = pool_reset (sw_pool w)" "sw_map w' = map_reset (sw_map w)" "sw_book_lat w' = sw_book_lat w"
    by (simp_all add: w'_def w1_def clear_all_books_def)
  have "book_wf (book_clear b)" "lb_locate (book_clear b) = lb_locate b" for b
    by (simp_all add: book_clear_def book_wf_def levels_wf_new)
  then have wok: "worker_ok w'"
    using D(1)[OF books_pos] b len by (auto simp: worker_ok_def w'_def w1_def clear_all_books_def)
  have act: "active (sw_books w' ! i) c = []" if i: "i < BOOKS_PER_SHARD" for i c
  proof (cases "sw_book_active w ! i")
    case False
    then have "view (book_state w i) c = []" using D(4)[OF i] by simp
    then show ?thesis using False b[OF i] by (simp add: view_def side_view_def flip: active_side split: if_splits)
  qed (use b[OF i] in \<open>simp add: active_def book_clear_def\<close>)
  show "shard_ok w'" "shard_view w' = empty_books"
    using empty_shard[OF wok, unfolded f, OF _ _ _ _ _ act] pool_inv_reset[OF inv(1)] map_reset_fresh[OF inv(2)] assms(3)
    by (auto simp: shard_ok_def)
  show "shard_capacity w' = shard_capacity w" by (simp add: shard_capacity_def f pool_reset_def map_reset_def)
qed

text \<open>An order message for an active book of an open session.\<close>

lemma order_shard:
  assumes ok: "shard_ok w" "sw_book_active w ! i" "i = slab_index (im_locate m)" and h: "book_handler m = Some h"
    and room: "card (shard_refs (shard_view w)) < shard_capacity w" and mok: "book_msg_ok (shard_refs (shard_view w)) m (shard_view w i)"
    and t: "timely after m"
  shows "\<exists>st w'. h (book_state w i) = Inr st \<and>
    record_book_latency after m ((put_book i st w)\<lparr>sw_bbo := bbo_publish (im_locate m)
      ((get_bbo (bs_book st))\<lparr>bb_ts := im_timestamp m\<rparr>) (sw_bbo (put_book i st w))\<rparr>) = Inr w' \<and>
    shard_ok w' \<and> shard_view w' = (shard_view w)(i := book_msg m (shard_view w i)) \<and> shard_capacity w' = shard_capacity w"
proof -
  have i: "i < BOOKS_PER_SHARD" using ok(3) slab_index_bound by simp
  note D = shard_okD[OF ok(1) i] and r = shard_room[OF ok(1) room]
  have v: "shard_view w i = view (book_state w i)" using i by (simp add: shard_view_def)
  obtain st where st: "h (book_state w i) = Inr st" "book_op (book_state w i) st" "indexed st" "view st = book_msg m (shard_view w i)"
    using handler_refines[OF h D(2,3)] r mok shard_references(1)[OF ok(1)] v by auto
  let ?w = "put_book i st w"
  have wok: "worker_ok ?w" by (rule worker_step_ok[OF worker_step_put[OF D(1) i book_handler_step[OF h st(1)]]])
  note p = put_book_shard[OF ok(1) i ok(2) st(2,3) wok]
  have cap: "shard_capacity ?w = shard_capacity w"
    using handler_capacity[OF h st(1)] book_op_capacity[OF D(2) st(2)] by (simp add: shard_capacity_def put_book_def)
  let ?w2 = "?w\<lparr>sw_bbo := bbo_publish (im_locate m) ((get_bbo (bs_book st))\<lparr>bb_ts := im_timestamp m\<rparr>) (sw_bbo ?w)\<rparr>"
  have "length (lh_buckets (sw_book_lat ?w2)) = TOTAL_BUCKETS" using p(1) by (simp add: shard_ok_def)
  then obtain hh where hh: "record_book_latency after m ?w2 = Inr (?w2\<lparr>sw_book_lat := hh\<rparr>)" "length (lh_buckets hh) = TOTAL_BUCKETS"
    using record_book_latency_ok[OF t] by blast
  let ?w3 = "?w2\<lparr>sw_book_lat := hh\<rparr>"
  have wok3: "worker_ok ?w3" using wok bbo_ok_ops(3) by (simp add: worker_ok_def)
  have "shard_ok ?w3" "shard_view ?w3 = shard_view ?w" "shard_capacity ?w3 = shard_capacity ?w"
    using shard_same_levels[OF p(1) wok3] hh(2) by simp_all
  then show ?thesis using st(1,4) hh(1) p(2) cap by (intro exI[of _ st] exI[of _ ?w3]) simp
qed

lemma book_msg_other: "book_handler m = None \<Longrightarrow> book_msg m A = A"
  by (auto simp: book_handler_def book_msg_def Let_def split: MessageType.splits)

lemma book_msg_empty:
  assumes "im_type m \<noteq> AddOrder" "im_type m \<noteq> AddOrderMPID"
  shows "book_msg m (\<lambda>_. []) = (\<lambda>_. [])"
proof -
  have "book_find ref (\<lambda>_. []) = None" for ref by (simp add: book_find_def side_orders_def)
  then show ?thesis
    using assms by (simp add: book_msg_def book_reduce_def book_delete_def book_replace_def Let_def split: MessageType.splits)
qed

lemma dispatch_refines:
  assumes ok: "shard_ok w" and t: "timely after m"
    and m: "is_open mgr \<and> book_handler m \<noteq> None \<Longrightarrow> card (shard_refs (shard_view w)) < shard_capacity w \<and>
      book_msg_ok (shard_refs (shard_view w)) m (shard_view w (slab_index (im_locate m)))"
  shows "\<exists>w'. dispatch mgr after m w = Inr w' \<and> shard_ok w' \<and> shard_view w' = spec_dispatch (is_open mgr) m (shard_view w) \<and>
    shard_capacity w' = shard_capacity w"
proof -
  let ?i = "slab_index (im_locate m)" and ?act = "activate_book (im_locate m) w"
  have i: "?i < BOOKS_PER_SHARD" by (rule slab_index_bound)
  have other: "spec_dispatch (is_open mgr) m (shard_view w) = shard_view w"
    if "book_handler m = None" "im_type m \<noteq> InternalSessionReset"
    using that by (simp add: spec_dispatch_def book_msg_other Let_def)
  consider (reset) "im_type m = InternalSessionReset" | (directory) "im_type m = StockDirectory"
    | (action) "im_type m = StockTradingAction" | (closed) "im_type m \<notin> {InternalSessionReset, StockDirectory, StockTradingAction}" "\<not> is_open mgr"
    | (inactive) "im_type m \<notin> {InternalSessionReset, StockDirectory, StockTradingAction}" "is_open mgr"
        "\<not> sw_book_active w ! ?i" "im_type m \<noteq> AddOrder" "im_type m \<noteq> AddOrderMPID"
    | (order) "im_type m \<notin> {InternalSessionReset, StockDirectory, StockTradingAction}" "is_open mgr"
        "sw_book_active w ! ?i \<or> im_type m = AddOrder \<or> im_type m = AddOrderMPID"
    by blast
  then show ?thesis
  proof cases
    case reset
    then show ?thesis using reset_shard[OF ok] by (simp add: dispatch_def spec_dispatch_def Let_def)
  next
    case directory
    then have "book_handler m = None" by (simp add: book_handler_def)
    then show ?thesis using directory other ok activate_shard[OF ok] by (simp add: dispatch_def)
  next
    case action
    then have "book_handler m = None" by (simp add: book_handler_def)
    then show ?thesis using action other ok action_shard[OF ok i] by (simp add: dispatch_def Let_def)
  next
    case closed
    then show ?thesis using ok by (simp add: dispatch_def spec_dispatch_def)
  next
    case inactive
    have "shard_view w ?i = (\<lambda>_. [])" using shard_okD(4)[OF ok i] inactive(3) i by (simp add: shard_view_def)
    then have "(shard_view w)(?i := book_msg m (shard_view w ?i)) = shard_view w"
      using book_msg_empty[OF inactive(4,5)] by (simp add: fun_upd_idem)
    then show ?thesis using inactive ok by (simp add: dispatch_def spec_dispatch_def Let_def)
  next
    case order
    define w1 where "w1 = (if sw_book_active w ! ?i then w else ?act)"
    have w1: "shard_ok w1" "shard_view w1 = shard_view w" "shard_capacity w1 = shard_capacity w" "sw_book_active w1 ! ?i"
      using ok activate_shard[OF ok] by (simp_all add: w1_def)
    have d: "dispatch mgr after m w = (case book_handler m of None \<Rightarrow> Inr w1 | Some h \<Rightarrow>
        andthen (h (book_state w1 ?i)) (\<lambda>st. record_book_latency after m ((put_book ?i st w1)\<lparr>sw_bbo := bbo_publish (im_locate m)
          ((get_bbo (bs_book st))\<lparr>bb_ts := im_timestamp m\<rparr>) (sw_bbo (put_book ?i st w1))\<rparr>)))"
      using order by (cases "book_handler m") (auto simp: dispatch_def w1_def Let_def)
    show ?thesis
    proof (cases "book_handler m")
      case None
      then show ?thesis using d w1 other order(1) by simp
    next
      case (Some h)
      then have "card (shard_refs (shard_view w1)) < shard_capacity w1" "book_msg_ok (shard_refs (shard_view w1)) m (shard_view w1 ?i)"
        using m order(2) w1(2,3) by auto
      from order_shard[OF w1(1,4) refl Some this t] show ?thesis
        using d Some w1(2,3) order by (auto simp: spec_dispatch_def Let_def)
    qed
  qed
qed

fun dispatch_all :: "SessionManager \<Rightarrow> (nat \<Rightarrow> Timestamp) \<Rightarrow> nat \<Rightarrow> ItchMsg list \<Rightarrow> ShardWorker \<Rightarrow> ShardWorker outcome" where
  "dispatch_all mgr clock i [] w = Inr w"
| "dispatch_all mgr clock i (m # ms) w = andthen (dispatch mgr (clock i) m w) (dispatch_all mgr clock (i + 1) ms)"

lemma dispatch_all_refines:
  assumes "shard_ok w" "feed_ok (shard_capacity w) (is_open mgr) ms (shard_view w)" "\<forall>m \<in> set ms. \<forall>k. timely (clock k) m"
  shows "\<exists>w'. dispatch_all mgr clock n ms w = Inr w' \<and> shard_ok w' \<and> shard_capacity w' = shard_capacity w \<and>
    shard_view w' = fold (spec_dispatch (is_open mgr)) ms (shard_view w)"
  using assms
proof (induction ms arbitrary: w n)
  case (Cons m ms)
  obtain w1 where w1: "dispatch mgr (clock n) m w = Inr w1" "shard_ok w1"
    "shard_view w1 = spec_dispatch (is_open mgr) m (shard_view w)" "shard_capacity w1 = shard_capacity w"
    using dispatch_refines[OF Cons.prems(1), of "clock n" m mgr] Cons.prems(2,3) by auto
  then show ?case using Cons.IH[OF w1(2), of "n + 1"] Cons.prems(2,3) by auto
qed simp

lemma shard_view_side: "i < BOOKS_PER_SHARD \<Longrightarrow> side_view (book_state w i) side = shard_view w i (side = Buy)"
  by (simp add: shard_view_def view_side)

lemma shard_bbo:
  assumes "shard_ok w" "i < BOOKS_PER_SHARD"
  shows "get_bbo (sw_books w ! i) = spec_bbo (of_nat (i * NUM_SHARDS + sw_shard_id w)) (shard_view w i)"
  using get_bbo_view[OF shard_okD(2)[OF assms]] shard_okD(1)[OF assms] assms(2)
  by (simp add: shard_view_def worker_ok_def)

lemma fresh_shard:
  assumes "s < NUM_SHARDS" "bbo_ok bbo" "length orders < kInvalidIdx" "0 < cap"
  defines "w \<equiv> ShardWorker_new s (OrderPool_new (length orders) orders) (OrderMap_new cap) bbo histogram_init"
  shows "shard_ok w" "shard_view w = empty_books" "shard_capacity w = min (length orders) (min cap 65535)"
proof -
  have wok: "worker_ok w" using worker_ok_new[OF assms(1,2)] by (simp add: w_def)
  have f: "sw_pool w = OrderPool_new (length orders) orders" "sw_map w = OrderMap_new cap" "sw_book_lat w = histogram_init"
    by (simp_all add: w_def ShardWorker_new_def)
  have act: "active (sw_books w ! i) b = []" if "i < BOOKS_PER_SHARD" for i b
    using that by (simp add: w_def ShardWorker_new_def OrderBookPool_new_def active_def Level2Book_new_def)
  show "shard_ok w" "shard_view w = empty_books"
    using empty_shard[OF wok, unfolded f, OF _ _ _ _ _ act] pool_inv_new[of orders] om_inv_new[OF assms(4)] assms(3)
    by (auto simp: om_alpha_new histogram_init_def)
  show "shard_capacity w = min (length orders) (min cap 65535)" by (simp add: shard_capacity_def f OrderPool_new_def)
qed

section \<open>The refinement\<close>

text \<open>
  Property C3. A shard implements the abstract books. On any sequence of messages that names orders
  consistently, makes and removes price levels at the end of the arrays only, never has more
  orders than the pool and the map have room for, and is handled in time (less than \<open>2^23\<close> ns after
  its receive time stamp, where it has one: a longer latency has no bucket in the histogram, and
  recording it is a fault), the worker runs to the end without an error; the orders of all its books
  are those the exchange's messages give, in price and time priority, and the best bid and offer of
  each book are those of its orders. An order added to a book that is not in use puts it into use.
\<close>

theorem shard_implements_books:
  assumes "shard_ok w" "feed_ok (shard_capacity w) (is_open mgr) ms (shard_view w)" "\<forall>m \<in> set ms. \<forall>k. timely (clock k) m"
    and "AB = fold (spec_dispatch (is_open mgr)) ms (shard_view w)"
  shows "\<exists>w'. dispatch_all mgr clock n ms w = Inr w' \<and> shard_ok w' \<and> shard_capacity w' = shard_capacity w \<and>
    (\<forall>i < BOOKS_PER_SHARD. (\<forall>side. side_view (book_state w' i) side = AB i (side = Buy)) \<and>
       get_bbo (sw_books w' ! i) = spec_bbo (of_nat (i * NUM_SHARDS + sw_shard_id w')) (AB i))"
proof -
  obtain w' where w': "dispatch_all mgr clock n ms w = Inr w'" "shard_ok w'" "shard_capacity w' = shard_capacity w" "shard_view w' = AB"
    using dispatch_all_refines[OF assms(1-3)] assms(4) by blast
  then show ?thesis using shard_bbo[OF w'(2)] shard_view_side[of _ w'] by auto
qed

text \<open>A shard with four slots, and six messages for two of its books.\<close>

definition demo_worker :: ShardWorker where
  "demo_worker = ShardWorker_new 1 (OrderPool_new 4 (replicate 4 zero_order)) (OrderMap_new 8) (BboPublisher_new 16) histogram_init"

definition demo_feed :: "ItchMsg list" where
  "demo_feed = [(add_msg 7 Buy 100 10)\<lparr>im_locate := 1\<rparr>, (add_msg 8 Buy 99 5)\<lparr>im_locate := 1\<rparr>,
     (add_msg 9 Sell 50 1)\<lparr>im_locate := 9\<rparr>, (cancel_msg 7 4)\<lparr>im_locate := 1\<rparr>, (delete_msg 9)\<lparr>im_locate := 9\<rparr>,
     (replace_msg 8 10 5 98)\<lparr>im_locate := 1\<rparr>]"

definition two_books :: "aside \<Rightarrow> aside \<Rightarrow> aside \<Rightarrow> aside \<Rightarrow> abooks" where
  "two_books bids asks bids' asks' = empty_books(0 := (\<lambda>b. if b then bids else asks), 1 := (\<lambda>b. if b then bids' else asks'))"

lemma shard_refs_two:
  "shard_refs (two_books V1 V2 V3 V4) = fst ` set (side_orders V1 @ side_orders V2 @ side_orders V3 @ side_orders V4)"
proof -
  have "{..<BOOKS_PER_SHARD} = {0, 1} \<union> {2..<BOOKS_PER_SHARD}"
    by (auto simp: BOOKS_PER_SHARD_def MAX_LOCATE_def NUM_SHARDS_def)
  moreover have "book_refs (two_books V1 V2 V3 V4 i) = {}" if "i \<in> {2..<BOOKS_PER_SHARD}" for i
    using that by (simp add: two_books_def book_refs_def empty_books_def side_orders_def)
  ultimately have "shard_refs (two_books V1 V2 V3 V4) = book_refs (two_books V1 V2 V3 V4 0) \<union> book_refs (two_books V1 V2 V3 V4 1)"
    by (simp add: shard_refs_def)
  then show ?thesis by (simp add: two_books_def book_refs_def image_Un Un_ac)
qed

lemma book_eq: "A True = V1 \<Longrightarrow> A False = V2 \<Longrightarrow> A = (\<lambda>b. if b then V1 else V2)"
  by (auto simp: fun_eq_iff)

lemma two_books_dispatch:
  assumes "im_type m \<noteq> InternalSessionReset"
  shows "slab_index (im_locate m) = 0 \<Longrightarrow> book_msg m (\<lambda>b. if b then V1 else V2) = (\<lambda>b. if b then W1 else W2) \<Longrightarrow>
      spec_dispatch True m (two_books V1 V2 V3 V4) = two_books W1 W2 V3 V4"
    "slab_index (im_locate m) = 1 \<Longrightarrow> book_msg m (\<lambda>b. if b then V3 else V4) = (\<lambda>b. if b then W1 else W2) \<Longrightarrow>
      spec_dispatch True m (two_books V1 V2 V3 V4) = two_books V1 V2 W1 W2"
  using assms by (simp_all add: spec_dispatch_def two_books_def fun_eq_iff)

lemma demo_feed_ok: "feed_ok 4 True demo_feed empty_books"
  "fold (spec_dispatch True) demo_feed empty_books = two_books [(100, [(7, 6)]), (98, [(10, 5)])] [] [] []"
proof -
  have e: "empty_books = two_books [] [] [] []" by (simp add: two_books_def empty_books_def fun_eq_iff)
  let ?m = "\<lambda>k. demo_feed ! k"
  note run = msg_defs demo_feed_def slab_index_def NUM_SHARDS_def
  note ops = book_msg_def book_add_def book_reduce_def book_delete_def book_replace_def book_remove_def book_amend_def
    book_find_def side_orders_def has_room_def spec_remove_def spec_amend_def goes_before_def MAX_PRICE_LEVELS_def
  have d: "spec_dispatch True (?m 0) (two_books [] [] [] []) = two_books [(100, [(7, 10)])] [] [] []"
    "spec_dispatch True (?m 1) (two_books [(100, [(7, 10)])] [] [] []) = two_books [(100, [(7, 10)]), (99, [(8, 5)])] [] [] []"
    "spec_dispatch True (?m 2) (two_books [(100, [(7, 10)]), (99, [(8, 5)])] [] [] []) =
       two_books [(100, [(7, 10)]), (99, [(8, 5)])] [] [] [(50, [(9, 1)])]"
    "spec_dispatch True (?m 3) (two_books [(100, [(7, 10)]), (99, [(8, 5)])] [] [] [(50, [(9, 1)])]) =
       two_books [(100, [(7, 6)]), (99, [(8, 5)])] [] [] [(50, [(9, 1)])]"
    "spec_dispatch True (?m 4) (two_books [(100, [(7, 6)]), (99, [(8, 5)])] [] [] [(50, [(9, 1)])]) =
       two_books [(100, [(7, 6)]), (99, [(8, 5)])] [] [] []"
    "spec_dispatch True (?m 5) (two_books [(100, [(7, 6)]), (99, [(8, 5)])] [] [] []) =
       two_books [(100, [(7, 6)]), (98, [(10, 5)])] [] [] []"
    by (rule two_books_dispatch; (rule book_eq)?; simp add: run ops)+
  have f: "demo_feed = [?m 0, ?m 1, ?m 2, ?m 3, ?m 4, ?m 5]" by (simp add: demo_feed_def)
  show "fold (spec_dispatch True) demo_feed empty_books = two_books [(100, [(7, 6)]), (98, [(10, 5)])] [] [] []"
    unfolding e by (subst f) (simp only: fold_simps d)
  have b: "two_books V1 V2 V3 V4 0 = (\<lambda>b. if b then V1 else V2)" "two_books V1 V2 V3 V4 1 = (\<lambda>b. if b then V3 else V4)" for V1 V2 V3 V4
    by (simp_all add: two_books_def)
  have i: "map (\<lambda>k. slab_index (im_locate (?m k))) [0, 1, 2, 3, 4, 5] = [0, 0, 1, 0, 1, 0]" by (simp add: run)
  have "feed_ok 4 True [?m 0, ?m 1, ?m 2, ?m 3, ?m 4, ?m 5] (two_books [] [] [] [])"
    by (simp only: feed_ok.simps d shard_refs_two i[simplified list.map list.inject] b)
      (simp add: run ops book_msg_ok_def subject_ref_def book_steady_def steady_def replace_steady_def book_refs_def card_insert_if)
  then show "feed_ok 4 True demo_feed empty_books" unfolding e by (subst f)
qed

lemma demo_worker_ok: "shard_ok demo_worker" "shard_view demo_worker = empty_books" "shard_capacity demo_worker = 4"
    "sw_shard_id demo_worker = 1"
  using fresh_shard[of 1 "BboPublisher_new 16" "replicate 4 zero_order" 8] bbo_ok_ops(1)
  by (simp_all add: demo_worker_def NUM_SHARDS_def kInvalidIdx_def) (simp add: ShardWorker_new_def)

theorem shard_implements_books_witness:
  "\<exists>w'. dispatch_all open_manager (\<lambda>_. 0) 0 demo_feed demo_worker = Inr w' \<and>
    side_view (book_state w' 0) Buy = [(100, [(7, 6)]), (98, [(10, 5)])] \<and> side_view (book_state w' 1) Sell = [] \<and>
    bb_bid_price (get_bbo (sw_books w' ! 0)) = 100 \<and> bb_bid_qty (get_bbo (sw_books w' ! 0)) = 6"
proof -
  let ?AB = "two_books [(100, [(7, 6)]), (98, [(10, 5)])] [] [] []"
  have op: "is_open open_manager" by (simp add: is_open_def open_manager_def)
  have t: "\<forall>m \<in> set demo_feed. \<forall>k. timely 0 m" by (simp add: demo_feed_def msg_defs timely_def)
  have n: "0 < BOOKS_PER_SHARD" "1 < BOOKS_PER_SHARD" by (simp_all add: BOOKS_PER_SHARD_def MAX_LOCATE_def NUM_SHARDS_def)
  have AB: "?AB = fold (spec_dispatch (is_open open_manager)) demo_feed (shard_view demo_worker)"
    using demo_feed_ok(2) op demo_worker_ok(2) by simp
  obtain w' where w': "dispatch_all open_manager (\<lambda>_. 0) 0 demo_feed demo_worker = Inr w'"
    "\<And>i side. i < BOOKS_PER_SHARD \<Longrightarrow> side_view (book_state w' i) side = ?AB i (side = Buy)"
    "\<And>i. i < BOOKS_PER_SHARD \<Longrightarrow> get_bbo (sw_books w' ! i) = spec_bbo (of_nat (i * NUM_SHARDS + sw_shard_id w')) (?AB i)"
    using shard_implements_books[OF demo_worker_ok(1) _ t AB, of 0] demo_feed_ok(1) op demo_worker_ok(2,3) by auto
  show ?thesis
    using w'(1) w'(2)[OF n(1), of Buy] w'(2)[OF n(2), of Sell] w'(3)[OF n(1)]
    by (intro exI[of _ w']) (simp add: two_books_def spec_bbo_def best_def)
qed

end
