(* ===== verification/Pipeline_Flow.thy ===== *)
theory Pipeline_Flow
  imports Feed_Pipeline Shard_Books
begin

text \<open>
  A packet on its way through the threads of \<^verbatim>\<open>FeedHandler\<close>: from the datagram in the receiver's ring
  over the merged queue and the queues of the shards to the books and the published quotes; and
  what happens to it when the parser falls behind.
\<close>

section \<open>A shard worker on a batch of messages\<close>

fun shard_steps :: "nat \<Rightarrow> (nat \<Rightarrow> Timestamp) \<Rightarrow> nat \<Rightarrow> nat \<Rightarrow> FeedHandler \<Rightarrow> FeedHandler outcome" where
  "shard_steps s clock i 0 fh = Inr fh"
| "shard_steps s clock i (Suc n) fh = andthen (shard_step s (clock i) fh) (shard_steps s clock (i + 1) n)"

text \<open>Readers of the quote of \<open>L\<close> see the best bid and offer of its book, as of time \<open>ts\<close>.\<close>

definition quote_current :: "LocateCode \<Rightarrow> Timestamp \<Rightarrow> ShardWorker \<Rightarrow> bool" where
  "quote_current L ts w \<longleftrightarrow>
     bbo_read L (sw_bbo w) = Inr ((get_bbo (sw_books w ! slab_index L))\<lparr>bb_locate := L, bb_ts := ts\<rparr>)"

text \<open>What a worker has of a symbol: its quote, its book and whether the book is in use.\<close>

definition symbol_view :: "LocateCode \<Rightarrow> ShardWorker \<Rightarrow> BboSnapshot outcome \<times> Level2Book \<times> bool" where
  "symbol_view L w = (bbo_read L (sw_bbo w), sw_books w ! slab_index L, sw_book_active w ! slab_index L)"

definition own_shard :: "ShardWorker \<Rightarrow> LocateCode \<Rightarrow> bool" where
  "own_shard w L \<longleftrightarrow> shard_for_locate L = sw_shard_id w"

lemma slab_index_inject: "own_shard w L \<Longrightarrow> own_shard w L' \<Longrightarrow> slab_index L = slab_index L' \<Longrightarrow> L = L'"
  using slab_index_inverse[of L "sw_shard_id w"] slab_index_inverse[of L' "sw_shard_id w"] by (simp add: own_shard_def)

lemma order_dispatch:
  assumes "worker_ok w" "own_shard w (im_locate m)" "length (bp_slots (sw_bbo w)) = MAX_LOCATE"
    "book_handler m \<noteq> None" "is_open mgr" "dispatch mgr after m w = Inr w'"
  shows "worker_ok w' \<and> sw_shard_id w' = sw_shard_id w \<and> length (bp_slots (sw_bbo w')) = MAX_LOCATE"
    "sw_book_active w' ! slab_index (im_locate m) \<Longrightarrow> quote_current (im_locate m) (im_timestamp m) w'"
    "own_shard w L \<Longrightarrow> L \<noteq> im_locate m \<Longrightarrow> symbol_view L w' = symbol_view L w"
proof -
  let ?i = "slab_index (im_locate m)"
  let ?act = "sw_book_active w ! ?i \<or> im_type m = AddOrder \<or> im_type m = AddOrderMPID"
  have room: "unat (im_locate m) < length (bp_slots (sw_bbo w))"
    using unat_bound[of "im_locate m"] assms(3) by (simp add: MAX_LOCATE_def)
  have ok: "bbo_ok (sw_bbo w)" using assms(1) by (simp add: worker_ok_def)
  show "worker_ok w' \<and> sw_shard_id w' = sw_shard_id w \<and> length (bp_slots (sw_bbo w')) = MAX_LOCATE"
    "sw_book_active w' ! ?i \<Longrightarrow> quote_current (im_locate m) (im_timestamp m) w'"
    "own_shard w L \<Longrightarrow> L \<noteq> im_locate m \<Longrightarrow> symbol_view L w' = symbol_view L w"
  proof (atomize (full), cases ?act)
    case True
    then have d: "worker_step ?i w w'" "sw_bbo w' = bbo_publish (im_locate m)
        ((get_bbo (sw_books w' ! ?i))\<lparr>bb_ts := im_timestamp m\<rparr>) (sw_bbo w)"
      using dispatch_order[OF assms(1) _ assms(5) _ assms(6)] assms(4) by auto
    have loc: "lb_locate (sw_books w' ! ?i) = im_locate m"
      using d(1) slab_index_bound[of "im_locate m"] slab_index_inverse[of "im_locate m" "sw_shard_id w"] assms(2)
      by (simp add: worker_step_def worker_ok_def own_shard_def del: of_nat_add of_nat_mult)
    have "quote_current (im_locate m) (im_timestamp m) w'"
      using loc by (simp add: quote_current_def d(2) bbo_read_publish[OF ok room]) (simp add: get_bbo_def)
    moreover have "symbol_view L w' = symbol_view L w" if "own_shard w L" "L \<noteq> im_locate m"
      using that slab_index_inject[OF assms(2) that(1)] d(1) slab_index_bound[of L]
      by (auto simp: symbol_view_def d(2) bbo_read_publish[OF ok room] worker_step_def)
    ultimately show "(worker_ok w' \<and> sw_shard_id w' = sw_shard_id w \<and> length (bp_slots (sw_bbo w')) = MAX_LOCATE) \<and>
        (sw_book_active w' ! ?i \<longrightarrow> quote_current (im_locate m) (im_timestamp m) w') \<and>
        (own_shard w L \<longrightarrow> L \<noteq> im_locate m \<longrightarrow> symbol_view L w' = symbol_view L w)"
      using d(1) assms(3) by (auto simp: worker_step_def d(2) bbo_publish_def)
  next
    case False
    have "im_type m \<noteq> InternalSessionReset" "im_type m \<noteq> StockDirectory" "im_type m \<noteq> StockTradingAction"
      using assms(4) by (auto simp: book_handler_def)
    then have "w' = w" using assms(5,6) False by (simp add: dispatch_def Let_def)
    then show "(worker_ok w' \<and> sw_shard_id w' = sw_shard_id w \<and> length (bp_slots (sw_bbo w')) = MAX_LOCATE) \<and>
        (sw_book_active w' ! ?i \<longrightarrow> quote_current (im_locate m) (im_timestamp m) w') \<and>
        (own_shard w L \<longrightarrow> L \<noteq> im_locate m \<longrightarrow> symbol_view L w' = symbol_view L w)"
      using False assms(1,3) by simp
  qed
qed

text \<open>The time of the last message of a symbol in a batch.\<close>

definition last_time :: "LocateCode \<Rightarrow> ItchMsg list \<Rightarrow> Timestamp" where
  "last_time L ms = im_timestamp (last (filter (\<lambda>m. im_locate m = L) ms))"

lemma dispatch_all_quotes:
  assumes "worker_ok w" "length (bp_slots (sw_bbo w)) = MAX_LOCATE" "is_open mgr"
    "\<forall>m \<in> set ms. own_shard w (im_locate m) \<and> book_handler m \<noteq> None" "dispatch_all mgr clock i ms w = Inr w'"
  shows "sw_shard_id w' = sw_shard_id w \<and> (\<forall>L. own_shard w L \<longrightarrow>
    (if L \<in> im_locate ` set ms then sw_book_active w' ! slab_index L \<longrightarrow> quote_current L (last_time L ms) w'
     else symbol_view L w' = symbol_view L w))"
  using assms
proof (induction ms arbitrary: w i)
  case (Cons m ms)
  obtain w1 where w1: "dispatch mgr (clock i) m w = Inr w1" "dispatch_all mgr clock (i + 1) ms w1 = Inr w'"
    using Cons.prems(5) by auto
  have m: "own_shard w (im_locate m)" "book_handler m \<noteq> None" using Cons.prems(4) by auto
  note d = order_dispatch[OF Cons.prems(1) m(1) Cons.prems(2) m(2) Cons.prems(3) w1(1)]
  have own: "own_shard w1 = own_shard w" using d(1) by (simp add: own_shard_def fun_eq_iff)
  have ih: "sw_shard_id w' = sw_shard_id w1 \<and> (\<forall>L. own_shard w L \<longrightarrow>
    (if L \<in> im_locate ` set ms then sw_book_active w' ! slab_index L \<longrightarrow> quote_current L (last_time L ms) w'
     else symbol_view L w' = symbol_view L w1))"
    using Cons.IH[OF _ _ Cons.prems(3) _ w1(2)] d(1) Cons.prems(4) own by simp
  have "if L \<in> im_locate ` set (m # ms) then sw_book_active w' ! slab_index L \<longrightarrow> quote_current L (last_time L (m # ms)) w'
     else symbol_view L w' = symbol_view L w" if L: "own_shard w L" for L
  proof (cases "L \<in> im_locate ` set ms")
    case True
    then have "last_time L (m # ms) = last_time L ms" by (auto simp: last_time_def filter_empty_conv)
    then show ?thesis using ih L True by simp
  next
    case False
    then have v: "symbol_view L w' = symbol_view L w1" using ih L by simp
    show ?thesis
    proof (cases "L = im_locate m")
      case True
      have "filter (\<lambda>m. im_locate m = L) ms = []" using False by (auto simp: filter_empty_conv)
      then have "last_time L (m # ms) = im_timestamp m" using True by (simp add: last_time_def)
      then show ?thesis using True v d(2) by (simp add: symbol_view_def quote_current_def)
    next
      case False
      then show ?thesis using v d(3)[OF L] \<open>L \<notin> im_locate ` set ms\<close> by simp
    qed
  qed
  moreover have "sw_shard_id w' = sw_shard_id w" using ih d(1) by simp
  ultimately show ?case by blast
qed simp

section \<open>From the shard's queue to the quotes\<close>

lemma shard_step_dispatch:
  assumes "system_ok fh" "s < NUM_SHARDS" "contents (shard_queue fh s) = m # rest"
    "dispatch (sc_mgr (pt_ctx (fh_parser fh))) t m (fh_workers fh ! s) = Inr w"
  obtains fh' where "shard_step s t fh = Inr fh'" "system_ok fh'" "contents (shard_queue fh' s) = rest"
    "fh_workers fh' ! s = w" "sc_mgr (pt_ctx (fh_parser fh')) = sc_mgr (pt_ctx (fh_parser fh))"
    "sc_bbo (pt_ctx (fh_parser fh')) = sw_bbo w"
proof -
  have len: "s < length (fh_workers fh)" "s < length (sr_queues (sc_router (pt_ctx (fh_parser fh))))" "spsc_wf (shard_queue fh s)"
    using assms(1,2) by (auto simp: system_ok_def workers_ok_def parser_ok_def context_ok_def router_ok_def shard_queue_def)
  have pop: "fst (try_pop (shard_queue fh s)) = Some m" "contents (snd (try_pop (shard_queue fh s))) = rest"
    using spsc.pop_result[OF len(3)] spsc.pop_items[OF len(3)] assms(3) by simp_all
  let ?fh = "share_bbo (sw_bbo w) (put_shard_queue s (snd (try_pop (shard_queue fh s)))
    (fh\<lparr>fh_workers := (fh_workers fh)[s := w]\<rparr>))"
  have step: "shard_step s t fh = Inr ?fh"
    using pop(1) assms(4) by (simp add: shard_step_def shard_iteration_def case_prod_beta)
  then show thesis
    using that[of ?fh] shard_step_ok[OF assms(1,2) step] len pop(2)
    by (simp add: shard_queue_def share_bbo_def put_shard_queue_def Let_def)
qed

lemma shard_steps_dispatch:
  assumes "system_ok fh" "s < NUM_SHARDS" "contents (shard_queue fh s) = ms"
    "dispatch_all (sc_mgr (pt_ctx (fh_parser fh))) clock i ms (fh_workers fh ! s) = Inr w"
    "sw_bbo (fh_workers fh ! s) = sc_bbo (pt_ctx (fh_parser fh))"
  shows "\<exists>fh'. shard_steps s clock i (length ms) fh = Inr fh' \<and> system_ok fh' \<and> contents (shard_queue fh' s) = [] \<and>
    fh_workers fh' ! s = w \<and> sc_bbo (pt_ctx (fh_parser fh')) = sw_bbo w"
  using assms
proof (induction ms arbitrary: fh i)
  case (Cons m ms)
  let ?mgr = "sc_mgr (pt_ctx (fh_parser fh))"
  obtain w1 where w1: "dispatch ?mgr (clock i) m (fh_workers fh ! s) = Inr w1" "dispatch_all ?mgr clock (i + 1) ms w1 = Inr w"
    using Cons.prems(4) by auto
  obtain fh1 where "shard_step s (clock i) fh = Inr fh1" "system_ok fh1" "contents (shard_queue fh1 s) = ms"
    "fh_workers fh1 ! s = w1" "sc_mgr (pt_ctx (fh_parser fh1)) = ?mgr" "sc_bbo (pt_ctx (fh_parser fh1)) = sw_bbo w1"
    by (rule shard_step_dispatch[OF Cons.prems(1-3) w1(1)])
  with Cons.IH[of fh1 "i + 1"] Cons.prems(2) w1(2) show ?case by auto
qed simp

section \<open>From the ring to the shards' queues\<close>

lemma receiver_recovery_queue:
  "receiver_step r now rt = Inr rt' \<Longrightarrow> zr_recovery_queue (rt_ring rt') = zr_recovery_queue (rt_ring rt)"
  by (auto simp: receiver_step_def Let_def case_prod_beta publish_def split: if_splits)

text \<open>What a new sequence number does to the window of the merger.\<close>

definition window_after :: "u64 \<Rightarrow> DedupWindow \<Rightarrow> DedupWindow \<Rightarrow> bool" where
  "window_after seq w w' \<longleftrightarrow> unat (dw_base w') \<le> unat seq \<and> seen w' \<subseteq> insert (unat seq) (seen w)"

lemma merge_one:
  fixes fm W
  defines "s \<equiv> zr_buffer (fm_primary_ring fm) ! (W mod PACKET_RING_DEPTH)"
  assumes "merger_ok fm" "contents (zr_recovery_queue (fm_primary_ring fm)) = []"
    "live_at (fm_primary_ring fm) W (Suc W)" "\<not> fm_secondary_enabled fm" "merged fm = []"
    "0 < spsc_cap (fm_merged_queue fm)" "data_packet s" "unat (dw_base (fm_dedup fm)) \<le> unat (peek_sequence s)"
    "unat (peek_sequence s) + 64 < 2 ^ 64" "unat (peek_sequence s) \<notin> seen (fm_dedup fm)"
  shows "\<exists>fm'. merger_iteration t1 t2 fm = Inr fm' \<and> merged fm' = [\<lparr>ms_slot_idx = of_nat W, ms_source = Primary\<rparr>] \<and>
    zr_buffer (fm_primary_ring fm') = zr_buffer (fm_primary_ring fm) \<and> live_at (fm_primary_ring fm') (Suc W) (Suc W) \<and>
    contents (zr_recovery_queue (fm_primary_ring fm')) = [] \<and> \<not> fm_secondary_enabled fm' \<and>
    spsc_cap (fm_merged_queue fm') = spsc_cap (fm_merged_queue fm) \<and> window_after (peek_sequence s) (fm_dedup fm) (fm_dedup fm')"
proof -
  let ?q = "zr_recovery_queue (fm_primary_ring fm)" and ?ms = "\<lparr>ms_slot_idx = of_nat W, ms_source = Primary\<rparr>"
  define ring where "ring = (fm_primary_ring fm)\<lparr>zr_recovery_queue := snd (try_pop ?q)\<rparr>"
  have "spsc_wf ?q" using assms(2) by (auto simp: merger_ok_def recovery_inv_def recovery_at_def)
  then have c: "consume_recovered (fm_primary_ring fm) = (None, ring)" "contents (zr_recovery_queue ring) = []"
    using spsc.pop_result[of ?q] spsc.pop_items[of ?q] assms(3) by (simp_all add: consume_recovered_def ring_def case_prod_beta)
  have live: "live_at ring W (Suc W)" "zr_buffer ring = zr_buffer (fm_primary_ring fm)"
    using assms(4) by (simp_all add: ring_def)
  obtain ring' where r: "consume ring = (Some (of_nat W), ring')" "zr_buffer ring' = zr_buffer ring" "live_at ring' (Suc W) (Suc W)"
    using consume_live[OF live(1)] by auto
  have rq: "zr_recovery_queue ring' = zr_recovery_queue ring" using r(1) by (auto simp: consume_def case_prod_beta)
  have len: "length (zr_buffer ring') = PACKET_RING_DEPTH" using live r(2) by (simp add: live_at_def)
  have slot: "slot ring' (of_nat W) = Inr s"
    using len live(2) r(2) by (simp add: slot_def elem_at_def slot_index_of_nat s_def PACKET_RING_DEPTH_def)
  obtain w where w: "check_and_mark (peek_sequence s) (fm_dedup fm) = Inr (True, w)" "window_after (peek_sequence s) (fm_dedup fm) w"
  proof -
    have "window_ok (fm_dedup fm)" using assms(2) by (simp add: merger_ok_def)
    from check_and_mark_new[OF this assms(9,10)] obtain v where v: "check_and_mark (peek_sequence s) (fm_dedup fm) = Inr (True, v)"
      "dw_base v = dw_base (fm_dedup fm) \<or> unat (dw_base v) + 64 \<le> unat (peek_sequence s)"
      "seen v = insert (unat (peek_sequence s)) {n \<in> seen (fm_dedup fm). unat (dw_base v) \<le> n}" using assms(11) by auto
    then have "window_after (peek_sequence s) (fm_dedup fm) v" using assms(9) by (auto simp: window_after_def)
    then show thesis using that v(1) by blast
  qed
  let ?fm = "fm\<lparr>fm_primary_ring := ring', fm_primary_last_ts := (if ps_recv_ts s \<noteq> 0 then ps_recv_ts s else t1),
    fm_failed_over := False, fm_dedup := w\<rparr>"
  have poll: "poll_live t1 Primary (fm\<lparr>fm_primary_ring := ring\<rparr>) = Inr (forward ?ms ?fm)"
    using r(1) slot w(1) assms(8) by (simp add: poll_live_def handle_live_slot_def data_packet_def Let_def)
  have f: "merged (forward ?ms ?fm) = [?ms]" "fm_secondary_enabled (forward ?ms ?fm) = fm_secondary_enabled fm"
    "fm_primary_ring (forward ?ms ?fm) = ring'" "fm_dedup (forward ?ms ?fm) = w"
    "spsc_cap (fm_merged_queue (forward ?ms ?fm)) = spsc_cap (fm_merged_queue fm)"
  proof -
    have "merged_ok ?fm" "merged ?fm = merged fm" using assms(2) by (simp_all add: merger_ok_def merged_ok_def merged_def)
    then show "merged (forward ?ms ?fm) = [?ms]" using forward_room(1)[of ?fm ?ms] assms(6,7) by (simp add: merged_def)
    show "spsc_cap (fm_merged_queue (forward ?ms ?fm)) = spsc_cap (fm_merged_queue fm)"
      using \<open>merged_ok ?fm\<close> spsc.push_wf[of "fm_merged_queue fm"] by (simp add: forward_def case_prod_beta Let_def merged_ok_def)
  qed (simp_all add: forward_def case_prod_beta Let_def)
  show ?thesis
    using c poll f assms(5) r(2,3) live(2) rq w(2) by (auto simp: merger_iteration_def Let_def merged_def)
qed

text \<open>Order messages leave the session and the quotes alone.\<close>

lemma route_loop_orders:
  assumes "\<forall>m \<in> set msgs. im_type m \<noteq> SystemEvent \<and> im_type m \<noteq> StockDirectory" "route_loop clock ts raw i msgs pt = Inr pt'"
  shows "sc_mgr (pt_ctx pt') = sc_mgr (pt_ctx pt) \<and> sc_bbo (pt_ctx pt') = sc_bbo (pt_ctx pt)"
  using assms
proof (induction msgs arbitrary: i pt)
  case (Cons m ms)
  obtain pt1 where pt1: "record_parse_latency (clock i) ts pt = Inr pt1"
    "route_loop clock ts raw (i + 1) ms (pt1\<lparr>pt_ctx := route_msg raw m (pt_ctx pt1)\<rparr>) = Inr pt'"
    using Cons.prems by auto
  have "pt_ctx pt1 = pt_ctx pt" using pt1(1) by (auto simp: record_parse_latency_def split: if_splits)
  then show ?case using Cons.IH[OF _ pt1(2)] Cons.prems(1) by (simp add: route_msg_def Let_def)
qed simp

lemma track_sequence_bbo: "sc_bbo (pt_ctx (track_sequence now seq raw pt)) = sc_bbo (pt_ctx pt)"
  by (auto simp: track_sequence_def Let_def split: prod.splits)

lemma route_loop_queue: "route_loop clock ts raw i msgs pt = Inr pt' \<Longrightarrow> pt_merged_queue pt' = pt_merged_queue pt"
proof (induction msgs arbitrary: i pt)
  case (Cons m ms)
  then obtain pt1 where pt1: "record_parse_latency (clock i) ts pt = Inr pt1"
    "route_loop clock ts raw (i + 1) ms (pt1\<lparr>pt_ctx := route_msg raw m (pt_ctx pt1)\<rparr>) = Inr pt'" by auto
  have "pt_merged_queue pt1 = pt_merged_queue pt" using pt1(1) by (auto simp: record_parse_latency_def split: if_splits)
  then show ?case using Cons.IH[OF pt1(2)] by simp
qed simp

lemma track_sequence_queue: "pt_merged_queue (track_sequence now seq raw pt) = pt_merged_queue pt"
  by (auto simp: track_sequence_def Let_def split: prod.splits)

section \<open>A packet of order messages\<close>

lemma dec_order_routing:
  "targets (dec_order ts h m) = {shard_for_locate (wh_locate h)}" "im_type (dec_order ts h m) \<noteq> SystemEvent"
  "im_locate (dec_order ts h m) = wh_locate h"
  by (cases m; simp add: targets_def is_admin_message_def head_msg_def)+

lemma shard_stream_orders:
  "shard_stream sh cur raw (map (\<lambda>(h, m). dec_order ts h m) ms) =
    map (\<lambda>(h, m). dec_order ts h m) (filter (\<lambda>(h, m). shard_for_locate (wh_locate h) = sh) ms)"
  by (induction ms) (auto simp: dec_order_routing)

lemma dec_order_handler: "book_handler (dec_order ts h m) \<noteq> None" "im_type (dec_order ts h m) \<noteq> StockDirectory"
  by (cases m; simp add: book_handler_def head_msg_def)+

text \<open>Nothing is under way, the B feed is off, and no slot of the ring has a receive time.\<close>

definition idle :: "FeedHandler \<Rightarrow> bool" where
  "idle fh \<longleftrightarrow> system_ok fh \<and> pending (rt_ring (fh_receiver fh)) = [] \<and>
     contents (zr_recovery_queue (rt_ring (fh_receiver fh))) = [] \<and>
     (\<forall>s \<in> set (zr_buffer (rt_ring (fh_receiver fh))). ps_recv_ts s = 0) \<and>
     \<not> fm_secondary_enabled (fh_feed_merger fh) \<and> contents (fm_merged_queue (fh_feed_merger fh)) = [] \<and>
     spsc_cap (fm_merged_queue (fh_feed_merger fh)) = MERGED_QUEUE_DEPTH \<and>
     (\<forall>s < NUM_SHARDS. contents (shard_queue fh s) = [] \<and> spsc_cap (shard_queue fh s) = SHARD_QUEUE_DEPTH) \<and>
     length (bp_slots (sc_bbo (pt_ctx (fh_parser fh)))) = MAX_LOCATE"

text \<open>The part of this that holds all the way while a packet passes.\<close>

definition calm :: "FeedHandler \<Rightarrow> bool" where
  "calm fh \<longleftrightarrow> pending (rt_ring (fh_receiver fh)) = [] \<and> contents (zr_recovery_queue (rt_ring (fh_receiver fh))) = [] \<and>
     (\<forall>s \<in> set (zr_buffer (rt_ring (fh_receiver fh))). ps_recv_ts s = 0) \<and> \<not> fm_secondary_enabled (fh_feed_merger fh) \<and>
     spsc_cap (fm_merged_queue (fh_feed_merger fh)) = MERGED_QUEUE_DEPTH \<and>
     (\<forall>s < NUM_SHARDS. spsc_cap (shard_queue fh s) = SHARD_QUEUE_DEPTH) \<and>
     length (bp_slots (sc_bbo (pt_ctx (fh_parser fh)))) = MAX_LOCATE"

lemma idle_calm:
  "idle fh \<longleftrightarrow> system_ok fh \<and> calm fh \<and> contents (fm_merged_queue (fh_feed_merger fh)) = [] \<and>
     (\<forall>s < NUM_SHARDS. contents (shard_queue fh s) = [])"
  unfolding idle_def calm_def by blast

text \<open>The receiver puts the packet into the ring.\<close>

lemma receive_one:
  assumes "idle fh" "0 < length pkt" "length pkt \<le> MAX_UDP_PAYLOAD"
  obtains fh1 W where "receive_step (Datagram pkt hw) t fh = Inr fh1" "system_ok fh1"
    "live_at (rt_ring (fh_receiver fh1)) W (Suc W)" "contents (zr_recovery_queue (rt_ring (fh_receiver fh1))) = []"
    "prefix pkt (ps_data (zr_buffer (rt_ring (fh_receiver fh1)) ! (W mod PACKET_RING_DEPTH)))"
    "unat (ps_length (zr_buffer (rt_ring (fh_receiver fh1)) ! (W mod PACKET_RING_DEPTH))) = length pkt"
    "\<forall>s \<in> set (zr_buffer (rt_ring (fh_receiver fh1))). ps_recv_ts s = 0"
    "fh_feed_merger fh1 = (fh_feed_merger fh)\<lparr>fm_primary_ring := rt_ring (fh_receiver fh1)\<rparr>"
    "fh_parser fh1 = (fh_parser fh)\<lparr>pt_primary_ring := rt_ring (fh_receiver fh1)\<rparr>" "fh_workers fh1 = fh_workers fh"
    "rt_write_slot (fh_receiver fh1) = of_nat (Suc W)"
    "fs_packets_dropped (rt_stats (fh_receiver fh1)) = fs_packets_dropped (rt_stats (fh_receiver fh))"
proof -
  let ?ring = "rt_ring (fh_receiver fh)" and ?D = PACKET_RING_DEPTH
  have ok: "system_ok fh" using assms(1) by (simp add: idle_def)
  then obtain R W where at: "live_at ?ring R W" "rt_write_slot (fh_receiver fh) = of_nat W"
    by (auto simp: system_ok_def live_inv_def)
  have "W - R = 0" using assms(1) pending_window[OF at(1)] by (auto simp: idle_def dest: arg_cong[of _ _ length])
  then have R: "R = W" using at(1) by (simp add: live_at_def)
  have D: "0 < ?D" "length (zr_buffer ?ring) = ?D" using at(1) by (simp_all add: live_at_def PACKET_RING_DEPTH_def)
  obtain pads ring where step: "receiver_step (Datagram pkt hw) t (fh_receiver fh) = Inr (rt_received (fh_receiver fh) ring W)"
    "live_at ring R (Suc W)"
    "zr_buffer ring = (zr_buffer ?ring)[W mod ?D := slot_with (zr_buffer ?ring ! (W mod ?D)) pkt pads]"
    by (rule receiver_step_room[OF at assms(2)]) (use R D(1) in auto)
  let ?fh = "share_primary ring (fh\<lparr>fh_receiver := rt_received (fh_receiver fh) ring W\<rparr>)"
  have rs: "receive_step (Datagram pkt hw) t fh = Inr ?fh" using step(1) by (simp add: receive_step_def)
  have s: "zr_buffer ring ! (W mod ?D) = slot_with (zr_buffer ?ring ! (W mod ?D)) pkt pads" using step(3) D by simp
  have "zr_buffer ?ring ! (W mod ?D) \<in> set (zr_buffer ?ring)" using D by simp
  then have "ps_recv_ts (zr_buffer ?ring ! (W mod ?D)) = 0" using assms(1) by (simp add: idle_def)
  moreover have "unat (of_nat (length pkt) :: u16) = length pkt" using assms(3) by (simp add: unat_of_nat MAX_UDP_PAYLOAD_def)
  moreover have "zr_recovery_queue ring = zr_recovery_queue ?ring" using receiver_recovery_queue[OF step(1)] by simp
  moreover have "\<forall>s \<in> set (zr_buffer ring). ps_recv_ts s = 0"
  proof
    fix s' assume "s' \<in> set (zr_buffer ring)"
    then have "s' = slot_with (zr_buffer ?ring ! (W mod ?D)) pkt pads \<or> s' \<in> set (zr_buffer ?ring)"
      unfolding step(3) using set_update_subset_insert by fastforce
    then show "ps_recv_ts s' = 0" using calculation(1) assms(1) by (auto simp: slot_with_def idle_def)
  qed
  ultimately show thesis
    using that[OF rs receive_step_ok[OF ok rs], of W] step(2) assms(1) R s
    by (simp add: share_primary_def slot_with_def fill_data_def idle_def rt_received_def)
qed

text \<open>An order message of the exchange, with a time stamp of six bytes.\<close>

definition wire_orders :: "(WireHead \<times> OrderMsg) list \<Rightarrow> bool" where
  "wire_orders ms \<longleftrightarrow> length ms \<le> 128 \<and>
     (\<forall>(h, m) \<in> set ms. wf_order m \<and> take_bit 48 (wh_timestamp h) = wh_timestamp h)"

definition shard_messages :: "nat \<Rightarrow> Timestamp \<Rightarrow> (WireHead \<times> OrderMsg) list \<Rightarrow> ItchMsg list" where
  "shard_messages sh ts ms = map (\<lambda>(h, m). dec_order ts h m) (filter (\<lambda>(h, m). shard_for_locate (wh_locate h) = sh) ms)"

text \<open>The parser takes the packet out of the merged queue and fills the shards' queues.\<close>

lemma parse_one:
  fixes pt W
  defines "s \<equiv> zr_buffer (pt_primary_ring pt) ! (W mod PACKET_RING_DEPTH)"
  assumes "parser_ok pt" "contents (pt_merged_queue pt) = [\<lparr>ms_slot_idx = of_nat W, ms_source = Primary\<rparr>]"
    "length (zr_buffer (pt_primary_ring pt)) = PACKET_RING_DEPTH" "ps_recv_ts s = 0"
    "length session = 10" "wire_orders ms" "pkt = enc_packet session seq (map (\<lambda>(h, m). enc_order h m) ms)"
    "prefix pkt (ps_data s)" "unat (ps_length s) = length pkt"
    "\<forall>sh < NUM_SHARDS. shard_items (sc_router (pt_ctx pt)) sh = [] \<and> spsc_cap (sr_queues (sc_router (pt_ctx pt)) ! sh) = SHARD_QUEUE_DEPTH"
  shows "\<exists>y pt'. parser_iteration now clock pt = Inr (y, pt') \<and> sc_mgr (pt_ctx pt') = sc_mgr (pt_ctx pt) \<and>
    sc_bbo (pt_ctx pt') = sc_bbo (pt_ctx pt) \<and>
    (\<forall>sh < NUM_SHARDS. shard_items (sc_router (pt_ctx pt')) sh = shard_messages sh 0 ms \<and>
       spsc_cap (sr_queues (sc_router (pt_ctx pt')) ! sh) = SHARD_QUEUE_DEPTH) \<and>
    contents (pt_merged_queue pt') = [] \<and> spsc_cap (pt_merged_queue pt') = spsc_cap (pt_merged_queue pt)"
proof -
  let ?q = "pt_merged_queue pt" and ?ms = "\<lparr>ms_slot_idx = of_nat W :: u16, ms_source = Primary\<rparr>"
  define q' where "q' = snd (try_pop ?q)"
  let ?pt = "pt\<lparr>pt_merged_queue := q'\<rparr>"
  have ok: "context_ok (pt_ctx ?pt)" "length (lh_buckets (pt_parse_lat ?pt)) = TOTAL_BUCKETS" and wf: "spsc_wf ?q"
    using assms(2) by (simp_all add: parser_ok_def)
  have pop: "try_pop ?q = (Some ?ms, q')" using spsc.pop_result[OF wf] assms(3) by (simp add: prod_eq_iff q'_def)
  have slot: "resolve ?ms ?pt = Inr s"
    using assms(4) by (simp add: resolve_def slot_def elem_at_def slot_index_of_nat s_def PACKET_RING_DEPTH_def)
  have n: "length ms < 65535" "int (length ms) \<le> MAX_MSGS_PER_PACKET" "length ms \<le> SHARD_QUEUE_DEPTH"
    using assms(7) by (simp_all add: wire_orders_def MAX_MSGS_PER_PACKET_def SHARD_QUEUE_DEPTH_def)
  note sp = slot_packet[OF assms(6) n(1,2) assms(7)[unfolded wire_orders_def, THEN conjunct2] assms(8-10)]
  let ?raw = "copy_bytes (slot_mem s) 0 10"
  have lat: "latencies_ok clock (ps_recv_ts s)" by (simp add: latencies_ok_def assms(5))
  have len: "length (filter P ms) \<le> SHARD_QUEUE_DEPTH" for P using n(3) le_trans[OF length_filter_le] by blast
  obtain pt' where run: "process_slot now clock s ?pt = Inr pt'"
    and items: "\<forall>sh < NUM_SHARDS. shard_items (sc_router (pt_ctx pt')) sh = shard_messages sh 0 ms"
    using process_slot_stream[OF ok sp(2,3) lat, of now] assms(11) len
    unfolding sp(1) shard_stream_orders assms(5) shard_messages_def by auto
  have r: "route_loop clock 0 ?raw 0 (map (\<lambda>(h, m). dec_order 0 h m) ms) (track_sequence now (be64 (slot_mem s) 10) ?raw ?pt) = Inr pt'"
    using run process_slot_data[OF sp(2,3), of now clock ?pt] by (simp only: sp(1) assms(5))
  have types: "\<forall>m \<in> set (map (\<lambda>(h, m). dec_order 0 h m) ms). im_type m \<noteq> SystemEvent \<and> im_type m \<noteq> StockDirectory"
    by (auto simp: dec_order_routing dec_order_handler)
  have "sc_mgr (pt_ctx pt') = sc_mgr (pt_ctx pt)" "sc_bbo (pt_ctx pt') = sc_bbo (pt_ctx pt)"
    using route_loop_orders[OF types r] by (simp_all add: track_sequence_ctx track_sequence_bbo)
  moreover have "pt_merged_queue pt' = q'" using route_loop_queue[OF r] by (simp add: track_sequence_queue)
  then have "contents (pt_merged_queue pt') = []" "spsc_cap (pt_merged_queue pt') = spsc_cap ?q"
    using spsc.pop_items[OF wf] spsc.pop_wf[OF wf] assms(3) by (simp_all add: q'_def)
  moreover have "spsc_cap (sr_queues (sc_router (pt_ctx pt')) ! sh) = SHARD_QUEUE_DEPTH" if "sh < NUM_SHARDS" for sh
    using route_loop_step[OF _ _ r] ok(1) assms(11) that by (simp add: delivers_def track_sequence_ctx copy_bytes_def)
  moreover obtain y c where "parser_iteration now clock pt = Inr (y, pt'\<lparr>pt_packet_count := c\<rparr>)"
  proof (cases "100 \<le> pt_packet_count pt' + 1")
    case True
    then show thesis using that slot run by (simp add: parser_iteration_def pop Let_def)
  next
    case False
    then show thesis using that slot run by (simp add: parser_iteration_def pop Let_def)
  qed
  ultimately show ?thesis using items by (intro exI[of _ y] exI[of _ "pt'\<lparr>pt_packet_count := c\<rparr>"]) simp
qed

text \<open>The receiver and the merger, one iteration each.\<close>

definition new_packet :: "FeedHandler \<Rightarrow> u8 list \<Rightarrow> u64 \<Rightarrow> (WireHead \<times> OrderMsg) list \<Rightarrow> u8 list \<Rightarrow> bool" where
  "new_packet fh session seq ms pkt \<longleftrightarrow> length session = 10 \<and> wire_orders ms \<and>
     pkt = enc_packet session seq (map (\<lambda>(h, m). enc_order h m) ms) \<and> length pkt \<le> MAX_UDP_PAYLOAD \<and>
     seq \<noteq> 0 \<and> unat seq + 64 < 2 ^ 64 \<and> unat (dw_base (fm_dedup (fh_feed_merger fh))) \<le> unat seq \<and>
     unat seq \<notin> seen (fm_dedup (fh_feed_merger fh))"

lemma packet_to_merged:
  assumes "idle fh" "new_packet fh session seq ms pkt"
  obtains fh1 fh2 W where "receive_step (Datagram pkt hw) t0 fh = Inr fh1" "merge_step t1 t2 fh1 = Inr fh2" "system_ok fh2"
    "contents (pt_merged_queue (fh_parser fh2)) = [\<lparr>ms_slot_idx = of_nat W, ms_source = Primary\<rparr>]"
    "live_at (pt_primary_ring (fh_parser fh2)) (Suc W) (Suc W)" "pt_ctx (fh_parser fh2) = pt_ctx (fh_parser fh)"
    "fh_workers fh2 = fh_workers fh" "rt_write_slot (fh_receiver fh2) = of_nat (Suc W)"
    "fs_packets_dropped (rt_stats (fh_receiver fh2)) = fs_packets_dropped (rt_stats (fh_receiver fh))"
    "prefix pkt (ps_data (zr_buffer (pt_primary_ring (fh_parser fh2)) ! (W mod PACKET_RING_DEPTH)))"
    "unat (ps_length (zr_buffer (pt_primary_ring (fh_parser fh2)) ! (W mod PACKET_RING_DEPTH))) = length pkt"
    "ps_recv_ts (zr_buffer (pt_primary_ring (fh_parser fh2)) ! (W mod PACKET_RING_DEPTH)) = 0"
    "calm fh2" "window_after seq (fm_dedup (fh_feed_merger fh)) (fm_dedup (fh_feed_merger fh2))"
proof -
  note np = assms(2)[unfolded new_packet_def]
  have pos: "0 < length pkt" using np by (simp add: enc_packet_def)
  obtain fh1 W where r: "receive_step (Datagram pkt hw) t0 fh = Inr fh1" "system_ok fh1"
    "live_at (rt_ring (fh_receiver fh1)) W (Suc W)" "contents (zr_recovery_queue (rt_ring (fh_receiver fh1))) = []"
    "prefix pkt (ps_data (zr_buffer (rt_ring (fh_receiver fh1)) ! (W mod PACKET_RING_DEPTH)))"
    "unat (ps_length (zr_buffer (rt_ring (fh_receiver fh1)) ! (W mod PACKET_RING_DEPTH))) = length pkt"
    "\<forall>s \<in> set (zr_buffer (rt_ring (fh_receiver fh1))). ps_recv_ts s = 0"
    "fh_feed_merger fh1 = (fh_feed_merger fh)\<lparr>fm_primary_ring := rt_ring (fh_receiver fh1)\<rparr>"
    "fh_parser fh1 = (fh_parser fh)\<lparr>pt_primary_ring := rt_ring (fh_receiver fh1)\<rparr>" "fh_workers fh1 = fh_workers fh"
    "rt_write_slot (fh_receiver fh1) = of_nat (Suc W)"
    "fs_packets_dropped (rt_stats (fh_receiver fh1)) = fs_packets_dropped (rt_stats (fh_receiver fh))"
    using receive_one[OF assms(1) pos] np by metis
  let ?ring = "rt_ring (fh_receiver fh1)" and ?fm = "fh_feed_merger fh1"
  let ?s = "zr_buffer ?ring ! (W mod PACKET_RING_DEPTH)"
  have n: "length session = 10" "length ms < 65535" "int (length ms) \<le> MAX_MSGS_PER_PACKET"
    "\<forall>(h, m) \<in> set ms. wf_order m \<and> take_bit 48 (wh_timestamp h) = wh_timestamp h"
    "pkt = enc_packet session seq (map (\<lambda>(h, m). enc_order h m) ms)"
    using np by (simp_all add: wire_orders_def MAX_MSGS_PER_PACKET_def)
  note sp = slot_packet[OF n r(5,6)]
  have "\<not> ps_length ?s < 20" using sp(2) by (simp add: word_less_nat_alt)
  then have peek: "peek_sequence ?s = seq" "data_packet ?s"
    using sp(3,5) np by (simp_all add: peek_sequence_def data_packet_def peek_msg_count_def MOLDUDP64_HEARTBEAT_def)
  have fm: "merger_ok ?fm" "\<not> fm_secondary_enabled ?fm" "merged ?fm = []" "0 < spsc_cap (fm_merged_queue ?fm)"
    "fm_dedup ?fm = fm_dedup (fh_feed_merger fh)" "fm_primary_ring ?fm = ?ring"
    using assms(1) r(2,8) by (simp_all add: idle_def system_ok_def merged_def itch_constants)
  obtain fm' where m: "merger_iteration t1 t2 ?fm = Inr fm'" "merged fm' = [\<lparr>ms_slot_idx = of_nat W, ms_source = Primary\<rparr>]"
    "zr_buffer (fm_primary_ring fm') = zr_buffer ?ring" "live_at (fm_primary_ring fm') (Suc W) (Suc W)"
    "contents (zr_recovery_queue (fm_primary_ring fm')) = []" "\<not> fm_secondary_enabled fm'"
    "spsc_cap (fm_merged_queue fm') = spsc_cap (fm_merged_queue ?fm)" "window_after seq (fm_dedup (fh_feed_merger fh)) (fm_dedup fm')"
    using merge_one[of ?fm W t1 t2] fm r(3,4) peek np by auto
  let ?fh2 = "share_merged (fm_merged_queue fm') (share_secondary (fm_secondary_ring fm')
        (share_primary (fm_primary_ring fm') (fh1\<lparr>fh_feed_merger := fm'\<rparr>)))"
  have ms: "merge_step t1 t2 fh1 = Inr ?fh2" using m(1) by (simp add: merge_step_def)
  have "pending (fm_primary_ring fm') = []" using pending_window[OF m(4)] by (simp add: window_def)
  then have calm: "calm ?fh2"
    using assms(1) m(3-8) r(7-10) by (simp add: calm_def idle_def share_defs shard_queue_def)
  have "W mod PACKET_RING_DEPTH < length (zr_buffer ?ring)" using r(3) by (simp add: live_at_def PACKET_RING_DEPTH_def)
  then have "ps_recv_ts (zr_buffer ?ring ! (W mod PACKET_RING_DEPTH)) = 0" using r(7) by simp
  with that[OF r(1) ms merge_step_ok[OF r(2) ms], of W] m(2-4,8) r(5-12) calm show thesis
    by (simp add: share_defs merged_def)
qed

text \<open>And the parser.\<close>

lemma packet_to_shards:
  assumes "idle fh" "new_packet fh session seq ms pkt"
  obtains fh1 fh2 fh3 where "receive_step (Datagram pkt hw) t0 fh = Inr fh1" "merge_step t1 t2 fh1 = Inr fh2"
    "parse_step t3 pclock fh2 = Inr fh3" "system_ok fh3" "fh_workers fh3 = fh_workers fh"
    "\<And>sh. sh < NUM_SHARDS \<Longrightarrow> contents (shard_queue fh3 sh) = shard_messages sh 0 ms"
    "sc_mgr (pt_ctx (fh_parser fh3)) = sc_mgr (pt_ctx (fh_parser fh))"
    "sc_bbo (pt_ctx (fh_parser fh3)) = sc_bbo (pt_ctx (fh_parser fh))"
    "calm fh3" "contents (fm_merged_queue (fh_feed_merger fh3)) = []"
    "window_after seq (fm_dedup (fh_feed_merger fh)) (fm_dedup (fh_feed_merger fh3))"
proof (rule packet_to_merged[OF assms, of hw t0 t1 t2])
  fix fh1 fh2 :: FeedHandler and W
  let ?pt = "fh_parser fh2"
  assume r: "receive_step (Datagram pkt hw) t0 fh = Inr fh1" "merge_step t1 t2 fh1 = Inr fh2" and ok2: "system_ok fh2"
    and pt: "contents (pt_merged_queue ?pt) = [\<lparr>ms_slot_idx = of_nat W, ms_source = Primary\<rparr>]"
    "live_at (pt_primary_ring ?pt) (Suc W) (Suc W)" "pt_ctx ?pt = pt_ctx (fh_parser fh)" and w: "fh_workers fh2 = fh_workers fh"
    and s: "prefix pkt (ps_data (zr_buffer (pt_primary_ring ?pt) ! (W mod PACKET_RING_DEPTH)))"
    "unat (ps_length (zr_buffer (pt_primary_ring ?pt) ! (W mod PACKET_RING_DEPTH))) = length pkt"
    "ps_recv_ts (zr_buffer (pt_primary_ring ?pt) ! (W mod PACKET_RING_DEPTH)) = 0"
    and calm: "calm fh2" "window_after seq (fm_dedup (fh_feed_merger fh)) (fm_dedup (fh_feed_merger fh2))"
  have "parser_ok ?pt" "length (zr_buffer (pt_primary_ring ?pt)) = PACKET_RING_DEPTH"
    using ok2 pt(2) by (simp_all add: system_ok_def live_at_def)
  moreover have "\<forall>s < NUM_SHARDS. shard_items (sc_router (pt_ctx ?pt)) s = [] \<and>
      spsc_cap (sr_queues (sc_router (pt_ctx ?pt)) ! s) = SHARD_QUEUE_DEPTH"
    using assms(1) unfolding pt(3) by (simp add: idle_def shard_items_def shard_queue_def)
  ultimately obtain y pt' where p: "parser_iteration t3 pclock ?pt = Inr (y, pt')"
    "sc_mgr (pt_ctx pt') = sc_mgr (pt_ctx (fh_parser fh))" "sc_bbo (pt_ctx pt') = sc_bbo (pt_ctx (fh_parser fh))"
    "\<forall>sh < NUM_SHARDS. shard_items (sc_router (pt_ctx pt')) sh = shard_messages sh 0 ms"
    "\<forall>sh < NUM_SHARDS. spsc_cap (sr_queues (sc_router (pt_ctx pt')) ! sh) = SHARD_QUEUE_DEPTH"
    "contents (pt_merged_queue pt') = []" "spsc_cap (pt_merged_queue pt') = spsc_cap (pt_merged_queue ?pt)"
    using parse_one[of ?pt W session ms pkt seq t3 pclock] pt s assms(2) by (auto simp: new_packet_def)
  let ?fh3 = "share_bbo (sc_bbo (pt_ctx pt')) (share_gap (pt_gap_detector pt')
        (share_merged (pt_merged_queue pt') (fh2\<lparr>fh_parser := pt'\<rparr>)))"
  have ps: "parse_step t3 pclock fh2 = Inr ?fh3" using p(1) by (simp add: parse_step_def)
  have ok3: "system_ok ?fh3" by (rule parse_step_ok[OF ok2 ps])
  have "list_all (\<lambda>w. sw_bbo w = sc_bbo (pt_ctx (fh_parser fh))) (fh_workers fh)"
    using assms(1) by (simp add: idle_def system_ok_def coherent_def)
  then have "map (\<lambda>w. w\<lparr>sw_bbo := sc_bbo (pt_ctx (fh_parser fh))\<rparr>) (fh_workers fh) = fh_workers fh"
    by (intro map_idI) (auto simp: list_all_iff)
  moreover have "pt_merged_queue ?pt = fm_merged_queue (fh_feed_merger fh2)" using ok2 by (simp add: system_ok_def coherent_def)
  then have "calm ?fh3" using calm(1) p(3,5-7) w pt(3) by (simp add: calm_def share_defs shard_queue_def)
  ultimately show thesis
    using that[OF r ps ok3] p(2-4,6) w calm(2) by (simp add: share_defs shard_queue_def shard_items_def[symmetric])
qed

section \<open>From the wire to the books and the readers\<close>

lemma order_packet_updates_quotes:
  fixes ms sh
  defines "msgs \<equiv> shard_messages sh 0 ms"
  assumes "idle fh" "is_open (sc_mgr (pt_ctx (fh_parser fh)))" "new_packet fh session seq ms pkt" "sh < NUM_SHARDS"
    "dispatch_all (sc_mgr (pt_ctx (fh_parser fh))) clock 0 msgs (fh_workers fh ! sh) = Inr w"
  shows "\<exists>fh1 fh2 fh3 fh4. receive_step (Datagram pkt hw) t0 fh = Inr fh1 \<and> merge_step t1 t2 fh1 = Inr fh2 \<and>
    parse_step t3 pclock fh2 = Inr fh3 \<and> shard_steps sh clock 0 (length msgs) fh3 = Inr fh4 \<and>
    contents (shard_queue fh4 sh) = [] \<and> fh_workers fh4 ! sh = w \<and>
    (\<forall>L \<in> im_locate ` set msgs. sw_book_active w ! slab_index L \<longrightarrow>
       bbo_read L (sc_bbo (pt_ctx (fh_parser fh4))) =
         Inr ((get_bbo (sw_books w ! slab_index L))\<lparr>bb_locate := L, bb_ts := last_time L msgs\<rparr>))"
proof -
  obtain fh1 fh2 fh3 where p: "receive_step (Datagram pkt hw) t0 fh = Inr fh1" "merge_step t1 t2 fh1 = Inr fh2"
    "parse_step t3 pclock fh2 = Inr fh3" "system_ok fh3" "fh_workers fh3 = fh_workers fh"
    "contents (shard_queue fh3 sh) = msgs" "sc_mgr (pt_ctx (fh_parser fh3)) = sc_mgr (pt_ctx (fh_parser fh))"
    "sc_bbo (pt_ctx (fh_parser fh3)) = sc_bbo (pt_ctx (fh_parser fh))"
    by (rule packet_to_shards[OF assms(2,4), of hw t0 t1 t2 t3 pclock])
      (use assms(5) in \<open>auto simp: msgs_def\<close>)
  have sh_ok: "sw_bbo (fh_workers fh ! sh) = sc_bbo (pt_ctx (fh_parser fh))"
    "worker_ok (fh_workers fh ! sh)" "sw_shard_id (fh_workers fh ! sh) = sh"
    using assms(2,5) by (auto simp: idle_def system_ok_def workers_ok_def coherent_def list_all_length)
  obtain fh4 where f: "shard_steps sh clock 0 (length msgs) fh3 = Inr fh4" "contents (shard_queue fh4 sh) = []"
    "fh_workers fh4 ! sh = w" "sc_bbo (pt_ctx (fh_parser fh4)) = sw_bbo w"
    using shard_steps_dispatch[OF p(4) assms(5) p(6), of clock 0 w] assms(6) p sh_ok(1) by auto
  have own: "\<forall>m \<in> set msgs. own_shard (fh_workers fh ! sh) (im_locate m) \<and> book_handler m \<noteq> None"
    using sh_ok(3) dec_order_handler(1)
    by (auto simp: msgs_def shard_messages_def own_shard_def dec_order_routing)
  have "length (bp_slots (sw_bbo (fh_workers fh ! sh))) = MAX_LOCATE" using assms(2) sh_ok(1) by (simp add: idle_def)
  from dispatch_all_quotes[OF sh_ok(2) this assms(3) own assms(6)]
  have "\<forall>L \<in> im_locate ` set msgs. sw_book_active w ! slab_index L \<longrightarrow> quote_current L (last_time L msgs) w"
    using own by auto
  then show ?thesis using p(1-3) f by (auto simp: quote_current_def)
qed

lemma shard_messages_timely: "m \<in> set (shard_messages sh 0 ms) \<Longrightarrow> timely t m"
proof -
  have "im_recv_timestamp (dec_order 0 h x) = 0" for h x by (cases x) (simp_all add: head_msg_def)
  then show "m \<in> set (shard_messages sh 0 ms) \<Longrightarrow> timely t m" by (auto simp: shard_messages_def timely_def)
qed

text \<open>The system as it comes out of the start-up is idle, and stays so when a session is opened.\<close>

lemma idle_init: "idle (init_workers k cfg mem)"
proof -
  let ?ring = "ZeroCopyRing_new True"
  note q = spsc_new[OF depth_pow2(1)[folded MERGED_QUEUE_DEPTH_def], of "\<lparr>ms_slot_idx = 0, ms_source = Primary\<rparr>"]
  have "pow2_length (replicate SHARD_QUEUE_DEPTH ItchMsg_init)"
    unfolding pow2_length_def by (intro exI[of _ 18]) (simp add: SHARD_QUEUE_DEPTH_def)
  note r = spsc_new[OF this]
  have "pending ?ring = []" using pending_window[OF new_ring_inv(1)] by (simp add: window_def)
  moreover have "contents (zr_recovery_queue ?ring) = []" using spsc_new[OF depth_pow2(2)] by (simp add: ZeroCopyRing_new_def)
  moreover have "\<forall>s \<in> set (zr_buffer ?ring). ps_recv_ts s = 0" by (simp add: ZeroCopyRing_new_def PacketSlot_init_def)
  ultimately show ?thesis
    using init_workers_ok[of k cfg mem] q r
    by (simp add: idle_def init_workers_def ReceiverThread_new_def FeedMerger_new_def init_context_def shard_queue_def
        ShardRouter_new_def BboPublisher_new_def Let_def)
qed

definition open_session :: "FeedHandler \<Rightarrow> FeedHandler" where
  "open_session fh = fh\<lparr>fh_parser := (fh_parser fh)\<lparr>pt_ctx := (pt_ctx (fh_parser fh))
     \<lparr>sc_mgr := (sc_mgr (pt_ctx (fh_parser fh)))\<lparr>sm_state := Open\<rparr>\<rparr>\<rparr>\<rparr>"

lemma idle_open:
  assumes "idle fh" shows "idle (open_session fh)" "is_open (sc_mgr (pt_ctx (fh_parser (open_session fh))))"
proof -
  have "system_ok (open_session fh)"
    using assms by (auto simp: idle_def open_session_def system_ok_def coherent_def parser_ok_def context_ok_def manager_ok_def
        Let_def split: option.splits)
  then show "idle (open_session fh)" using assms by (simp add: idle_def open_session_def shard_queue_def)
qed (simp add: open_session_def is_open_def)

text \<open>A system with small tables, and a packet with one new order for locate code 1.\<close>

definition small_system :: FeedHandler where
  "small_system = open_session (init_workers good_init good_config
     (\<lambda>_. (OrderPool_new 2 [zero_order, zero_order], OrderMap_new 4)))"

definition small_orders :: "(WireHead \<times> OrderMsg) list" where
  "small_orders = [(\<lparr>wh_locate = 1, wh_tracking = 0, wh_timestamp = 9\<rparr>, OAdd 7 0x42 10 (replicate 8 0x41) 100)]"

lemma small_system_packet:
  "idle small_system" "is_open (sc_mgr (pt_ctx (fh_parser small_system)))"
  "\<exists>pkt. new_packet small_system (replicate 10 0x31) 1 small_orders pkt"
  "fm_dedup (fh_feed_merger small_system) = DedupWindow_new"
proof -
  show "idle small_system" "is_open (sc_mgr (pt_ctx (fh_parser small_system)))"
    unfolding small_system_def by (rule idle_open[OF idle_init])+
  show d: "fm_dedup (fh_feed_merger small_system) = DedupWindow_new"
    by (simp add: small_system_def open_session_def init_workers_def FeedMerger_new_def Let_def)
  have "seen DedupWindow_new = {}" "dw_base DedupWindow_new = 0" using window_ok_new(2) by (simp_all add: DedupWindow_new_def)
  moreover have "take_bit 48 (9 :: u64) = 9" by simp
  ultimately show "\<exists>pkt. new_packet small_system (replicate 10 0x31) 1 small_orders pkt"
    by (auto simp: new_packet_def d wire_orders_def small_orders_def enc_packet_def frame_def MAX_UDP_PAYLOAD_def)
qed

lemma small_workers:
  assumes "s < NUM_SHARDS"
  shows "shard_ok (fh_workers small_system ! s)" "shard_view (fh_workers small_system ! s) = empty_books"
    "shard_capacity (fh_workers small_system ! s) = 2"
proof -
  have "fh_workers small_system ! s =
      ShardWorker_new s (OrderPool_new 2 [zero_order, zero_order]) (OrderMap_new 4) (BboPublisher_new MAX_LOCATE) histogram_init"
    using assms by (simp add: small_system_def open_session_def init_workers_def init_context_def Let_def)
  then show "shard_ok (fh_workers small_system ! s)" "shard_view (fh_workers small_system ! s) = empty_books"
    "shard_capacity (fh_workers small_system ! s) = 2"
    using fresh_shard[of s "BboPublisher_new MAX_LOCATE" "[zero_order, zero_order]" 4] bbo_ok_ops(1) assms
    by (simp_all add: kInvalidIdx_def numeral_2_eq_2)
qed

lemma small_shard:
  defines "w \<equiv> fh_workers small_system ! 1" and "msgs \<equiv> shard_messages 1 0 small_orders"
  shows "shard_ok w" "feed_ok (shard_capacity w) True msgs (shard_view w)"
    "fold (spec_dispatch True) msgs (shard_view w) = two_books [(100, [(7, 10)])] [] [] []"
proof -
  let ?m = "dec_order 0 \<lparr>wh_locate = 1, wh_tracking = 0, wh_timestamp = 9\<rparr> (OAdd 7 0x42 10 (replicate 8 0x41) 100)"
  have ms: "msgs = [?m]" by (simp add: msgs_def shard_messages_def small_orders_def shard_for_locate_def NUM_SHARDS_def)
  have w: "shard_ok w" "shard_view w = empty_books" "shard_capacity w = 2"
    unfolding w_def by (rule small_workers; simp add: NUM_SHARDS_def)+
  show "shard_ok w" by (rule w(1))
  have e: "empty_books = two_books [] [] [] []" by (simp add: two_books_def empty_books_def fun_eq_iff)
  note run = book_msg_def book_add_def has_room_def MAX_PRICE_LEVELS_def head_msg_def side_of_char_def slab_index_def NUM_SHARDS_def
  have m: "book_msg ?m (\<lambda>b. if b then [] else []) = (\<lambda>b. if b then [(100, [(7, 10)])] else [])"
    by (rule book_eq) (simp_all add: run)
  show "fold (spec_dispatch True) msgs (shard_view w) = two_books [(100, [(7, 10)])] [] [] []"
    unfolding ms w(2) e using two_books_dispatch(1)[OF _ _ m] by (simp add: run)
  have "book_msg_ok {} ?m (two_books [] [] [] [] 0)"
    using m by (simp add: book_msg_ok_def subject_ref_def book_steady_def steady_def head_msg_def two_books_def)
  then show "feed_ok (shard_capacity w) True msgs (shard_view w)"
    unfolding ms w e by (simp add: shard_refs_two side_orders_def slab_index_def NUM_SHARDS_def head_msg_def)
qed

section \<open>A parser that falls behind\<close>

fun receive_all :: "u8 list list \<Rightarrow> FeedHandler \<Rightarrow> FeedHandler outcome" where
  "receive_all [] fh = Inr fh"
| "receive_all (b # bs) fh = andthen (receive_step (Datagram b None) 0 fh) (receive_all bs)"

definition datagram :: "u8 list \<Rightarrow> bool" where
  "datagram b \<longleftrightarrow> 0 < length b \<and> length b \<le> MAX_UDP_PAYLOAD"

definition slot_holds :: "u8 list \<Rightarrow> PacketSlot \<Rightarrow> bool" where
  "slot_holds b s \<longleftrightarrow> take (length b) (ps_data s) = b \<and> unat (ps_length s) = length b"

lemma receive_all_ring:
  assumes "live_at (rt_ring (fh_receiver fh)) R W" "rt_write_slot (fh_receiver fh) = of_nat W"
    "W - R + length bs \<le> PACKET_RING_DEPTH" "\<forall>b \<in> set bs. datagram b"
  shows "\<exists>fh'. receive_all bs fh = Inr fh' \<and> pt_merged_queue (fh_parser fh') = pt_merged_queue (fh_parser fh) \<and>
    fs_packets_dropped (rt_stats (fh_receiver fh')) = fs_packets_dropped (rt_stats (fh_receiver fh)) \<and>
    (bs \<noteq> [] \<longrightarrow> length (zr_buffer (pt_primary_ring (fh_parser fh'))) = PACKET_RING_DEPTH \<and>
       slot_holds (last bs) (zr_buffer (pt_primary_ring (fh_parser fh')) ! ((W + length bs - 1) mod PACKET_RING_DEPTH)))"
  using assms
proof (induction bs arbitrary: fh W)
  case (Cons b bs)
  have b: "0 < length b" "length b \<le> MAX_UDP_PAYLOAD" using Cons.prems(4) by (simp_all add: datagram_def)
  have "R \<le> W" "length (zr_buffer (rt_ring (fh_receiver fh))) = PACKET_RING_DEPTH" "0 < PACKET_RING_DEPTH"
    using Cons.prems(1) by (simp_all add: live_at_def PACKET_RING_DEPTH_def)
  note D = this
  have room: "W - R < PACKET_RING_DEPTH" using Cons.prems(3) by simp
  obtain pads ring where step: "receiver_step (Datagram b None) 0 (fh_receiver fh) = Inr (rt_received (fh_receiver fh) ring W)"
    "live_at ring R (Suc W)"
    "zr_buffer ring = (zr_buffer (rt_ring (fh_receiver fh)))[W mod PACKET_RING_DEPTH :=
       slot_with (zr_buffer (rt_ring (fh_receiver fh)) ! (W mod PACKET_RING_DEPTH)) b pads]"
    by (rule receiver_step_room[OF Cons.prems(1,2) b(1) room])
  let ?fh = "share_primary ring (fh\<lparr>fh_receiver := rt_received (fh_receiver fh) ring W\<rparr>)"
  have rs: "receive_step (Datagram b None) 0 fh = Inr ?fh" using step(1) by (simp add: receive_step_def)
  have f: "rt_ring (fh_receiver ?fh) = ring" "rt_write_slot (fh_receiver ?fh) = of_nat (Suc W)"
    "fs_packets_dropped (rt_stats (fh_receiver ?fh)) = fs_packets_dropped (rt_stats (fh_receiver fh))"
    "pt_merged_queue (fh_parser ?fh) = pt_merged_queue (fh_parser fh)" "pt_primary_ring (fh_parser ?fh) = ring"
    by (simp_all add: share_primary_def rt_received_def)
  have s: "slot_holds b (zr_buffer ring ! (W mod PACKET_RING_DEPTH))"
    using step(3) D b(2) by (simp add: slot_holds_def slot_with_def fill_data_def unat_of_nat MAX_UDP_PAYLOAD_def)
  have len: "length (zr_buffer ring) = PACKET_RING_DEPTH" using step(2) by (simp add: live_at_def)
  have "Suc W - R + length bs \<le> PACKET_RING_DEPTH" using Cons.prems(3) D(1) by simp
  then obtain fh' where "receive_all bs ?fh = Inr fh'" "pt_merged_queue (fh_parser fh') = pt_merged_queue (fh_parser fh)"
    "fs_packets_dropped (rt_stats (fh_receiver fh')) = fs_packets_dropped (rt_stats (fh_receiver fh))"
    "bs \<noteq> [] \<longrightarrow> length (zr_buffer (pt_primary_ring (fh_parser fh'))) = PACKET_RING_DEPTH \<and>
       slot_holds (last bs) (zr_buffer (pt_primary_ring (fh_parser fh')) ! ((Suc W + length bs - 1) mod PACKET_RING_DEPTH))"
    "bs = [] \<longrightarrow> fh' = ?fh"
    using Cons.IH[of ?fh "Suc W"] f step(2) Cons.prems(4) by (cases "bs = []") auto
  then show ?case using rs s f(5) len by (cases "bs = []") auto
qed simp

end
