(* ===== verification/Packet_Stream.thy ===== *)
theory Packet_Stream
  imports Pipeline_Flow
begin

text \<open>
  A sequence of packets through the whole system, each handled by every thread before the next one
  arrives: the books of all shards follow the messages of the feed.
\<close>

section \<open>One shard at a time\<close>

text \<open>What the worker of shard \<open>s\<close> leaves to the others.\<close>

definition shard_frame :: "nat \<Rightarrow> FeedHandler \<Rightarrow> FeedHandler \<Rightarrow> bool" where
  "shard_frame s fh fh' \<longleftrightarrow> rt_ring (fh_receiver fh') = rt_ring (fh_receiver fh) \<and> fh_feed_merger fh' = fh_feed_merger fh \<and>
     sc_mgr (pt_ctx (fh_parser fh')) = sc_mgr (pt_ctx (fh_parser fh)) \<and>
     length (bp_slots (sc_bbo (pt_ctx (fh_parser fh')))) = length (bp_slots (sc_bbo (pt_ctx (fh_parser fh)))) \<and>
     (\<forall>t < NUM_SHARDS. spsc_cap (shard_queue fh' t) = spsc_cap (shard_queue fh t) \<and> (t \<noteq> s \<longrightarrow>
        shard_queue fh' t = shard_queue fh t \<and>
        fh_workers fh' ! t = (fh_workers fh ! t)\<lparr>sw_bbo := sc_bbo (pt_ctx (fh_parser fh'))\<rparr>))"

lemma shard_frame_trans: "shard_frame s fh fh' \<Longrightarrow> shard_frame s fh' fh'' \<Longrightarrow> shard_frame s fh fh''"
  by (simp add: shard_frame_def)

lemma shard_frame_calm: "shard_frame s fh fh' \<Longrightarrow> calm fh \<Longrightarrow> calm fh'"
  by (simp add: shard_frame_def calm_def)

lemma dispatch_bbo_length:
  assumes "dispatch mgr after m w = Inr w'"
  shows "length (bp_slots (sw_bbo w')) = length (bp_slots (sw_bbo w))"
proof (cases "book_handler m = None \<or> \<not> is_open mgr")
  case True
  then have "w' \<in> {w, activate_book (im_locate m) w, put_book (slab_index (im_locate m)) (on_trading_action (book_state w (slab_index (im_locate m))) m) w,
      (clear_all_books w)\<lparr>sw_pool := pool_reset (sw_pool w), sw_map := map_reset (sw_map w)\<rparr>}"
    using assms by (auto simp: dispatch_def Let_def clear_all_books_def split: if_splits)
  then show ?thesis by (auto simp: clear_all_books_def)
next
  case False
  then obtain h where h: "book_handler m = Some h" "is_open mgr" by auto
  have t: "im_type m \<noteq> InternalSessionReset" "im_type m \<noteq> StockDirectory" "im_type m \<noteq> StockTradingAction"
    using h(1) by (auto simp: book_handler_def)
  let ?pub = "\<lambda>st w1. (put_book (slab_index (im_locate m)) st w1)\<lparr>sw_bbo := bbo_publish (im_locate m)
      ((get_bbo (bs_book st))\<lparr>bb_ts := im_timestamp m\<rparr>) (sw_bbo w1)\<rparr>"
  have "w' = w \<or> (\<exists>st w1. sw_bbo w1 = sw_bbo w \<and> record_book_latency after m (?pub st w1) = Inr w')"
    using assms h t by (auto simp: dispatch_def Let_def split: if_splits)
  then show ?thesis by (auto simp: bbo_publish_def dest!: record_book_latency_keeps)
qed

lemma shard_step_frame:
  assumes "system_ok fh" "s < NUM_SHARDS" "shard_step s t fh = Inr fh'"
  shows "shard_frame s fh fh'"
proof -
  let ?q = "shard_queue fh s" and ?w = "fh_workers fh ! s"
  obtain q w where it: "shard_iteration (sc_mgr (pt_ctx (fh_parser fh))) t ?q ?w = Inr (q, w)"
    "fh' = share_bbo (sw_bbo w) (put_shard_queue s q (fh\<lparr>fh_workers := (fh_workers fh)[s := w]\<rparr>))"
    using assms(3) by (auto simp: shard_step_def)
  have len: "length (fh_workers fh) = NUM_SHARDS" "length (sr_queues (sc_router (pt_ctx (fh_parser fh)))) = NUM_SHARDS"
    "spsc_wf ?q" "sw_bbo ?w = sc_bbo (pt_ctx (fh_parser fh))"
    using assms(1,2) by (auto simp: system_ok_def workers_ok_def parser_ok_def context_ok_def router_ok_def shard_queue_def
        coherent_def list_all_length)
  have "q = snd (try_pop ?q)" "length (bp_slots (sw_bbo w)) = length (bp_slots (sw_bbo ?w))"
    using it(1) by (auto simp: shard_iteration_def split: option.splits prod.splits dest: dispatch_bbo_length)
  moreover have "spsc_cap ((sr_queues (sc_router (pt_ctx (fh_parser fh))))[s := snd (try_pop ?q)] ! t) = spsc_cap (shard_queue fh t)" for t
    using len(2) assms(2) spsc.pop_wf[OF len(3)] by (cases "t = s") (simp_all add: shard_queue_def)
  ultimately show ?thesis
    using len by (auto simp: shard_frame_def it(2) share_bbo_def put_shard_queue_def shard_queue_def Let_def nth_list_update)
qed

lemma shard_steps_frame:
  assumes "system_ok fh" "s < NUM_SHARDS" "shard_steps s clock i (Suc n) fh = Inr fh'"
  shows "shard_frame s fh fh'"
  using assms
proof (induction n arbitrary: fh i)
  case 0
  then show ?case by (auto intro: shard_step_frame)
next
  case (Suc n)
  then obtain fh1 where fh1: "shard_step s (clock i) fh = Inr fh1" "shard_steps s clock (i + 1) (Suc n) fh1 = Inr fh'" by auto
  then show ?case
    using Suc.IH[OF shard_step_ok[OF Suc.prems(1,2) fh1(1)] assms(2) fh1(2)] shard_step_frame[OF Suc.prems(1,2) fh1(1)]
      shard_frame_trans by blast
qed

lemma shard_frame_refl:
  assumes "system_ok fh" shows "shard_frame s fh fh"
  using assms by (auto simp: shard_frame_def system_ok_def coherent_def workers_ok_def list_all_length)

text \<open>A worker takes all that waits in its queue.\<close>

definition drain :: "nat \<Rightarrow> (nat \<Rightarrow> Timestamp) \<Rightarrow> FeedHandler \<Rightarrow> FeedHandler outcome" where
  "drain s clock fh = shard_steps s clock 0 (length (contents (shard_queue fh s))) fh"

text \<open>The worker of a shard can follow these messages, and ends with these books.\<close>

definition follows :: "FeedHandler \<Rightarrow> nat \<Rightarrow> ItchMsg list \<Rightarrow> abooks \<Rightarrow> bool" where
  "follows fh s msgs AB \<longleftrightarrow> (let w = fh_workers fh ! s in shard_ok w \<and>
     feed_ok (shard_capacity w) True msgs (shard_view w) \<and> fold (spec_dispatch True) msgs (shard_view w) = AB)"

definition open_and_calm :: "FeedHandler \<Rightarrow> bool" where
  "open_and_calm fh \<longleftrightarrow> system_ok fh \<and> calm fh \<and> contents (fm_merged_queue (fh_feed_merger fh)) = [] \<and>
     is_open (sc_mgr (pt_ctx (fh_parser fh)))"

lemma feed_ok_append:
  "feed_ok cap op (xs @ ys) AB \<longleftrightarrow> feed_ok cap op xs AB \<and> feed_ok cap op ys (fold (spec_dispatch op) xs AB)"
  by (induction xs arbitrary: AB) auto

lemma shard_frame_follows:
  assumes "shard_frame s fh fh'" "system_ok fh'" "t < NUM_SHARDS" "t \<noteq> s"
  shows "follows fh t msgs AB \<Longrightarrow> follows fh' t msgs AB"
proof -
  let ?w = "fh_workers fh ! t" and ?w' = "fh_workers fh' ! t"
  assume f: "follows fh t msgs AB"
  have w': "?w' = ?w\<lparr>sw_bbo := sc_bbo (pt_ctx (fh_parser fh'))\<rparr>" using assms(1,3,4) by (simp add: shard_frame_def)
  have "worker_ok ?w'" "length (lh_buckets (sw_book_lat ?w')) = TOTAL_BUCKETS"
    using assms(2,3) by (auto simp: system_ok_def workers_ok_def)
  then show ?thesis
    using shard_same_levels[of ?w ?w'] f w' by (simp add: follows_def Let_def)
qed

lemma drain_follows:
  assumes "open_and_calm fh" "s < NUM_SHARDS" "follows fh s (contents (shard_queue fh s) @ rest) AB"
    "\<forall>m \<in> set (contents (shard_queue fh s)). \<forall>k. timely (clock k) m"
  shows "\<exists>fh'. drain s clock fh = Inr fh' \<and> open_and_calm fh' \<and> shard_frame s fh fh' \<and> contents (shard_queue fh' s) = [] \<and>
    follows fh' s rest AB"
proof -
  let ?ms = "contents (shard_queue fh s)" and ?w = "fh_workers fh ! s" and ?mgr = "sc_mgr (pt_ctx (fh_parser fh))"
  have ok: "system_ok fh" "calm fh" "is_open ?mgr" using assms(1) by (simp_all add: open_and_calm_def)
  have f: "shard_ok ?w" "feed_ok (shard_capacity ?w) (is_open ?mgr) ?ms (shard_view ?w)"
    using assms(3) ok(3) by (simp_all add: follows_def Let_def feed_ok_append)
  obtain w where w: "dispatch_all ?mgr clock 0 ?ms ?w = Inr w" "shard_ok w" "shard_capacity w = shard_capacity ?w"
    "shard_view w = fold (spec_dispatch True) ?ms (shard_view ?w)"
    using dispatch_all_refines[OF f assms(4), of 0] ok(3) by auto
  have bbo: "sw_bbo ?w = sc_bbo (pt_ctx (fh_parser fh))"
    using ok(1) assms(2) by (auto simp: system_ok_def workers_ok_def coherent_def list_all_length)
  obtain fh' where fh': "drain s clock fh = Inr fh'" "system_ok fh'" "contents (shard_queue fh' s) = []" "fh_workers fh' ! s = w"
    using shard_steps_dispatch[OF ok(1) assms(2) refl w(1) bbo] by (auto simp: drain_def)
  have "shard_frame s fh fh'"
  proof (cases "length ?ms")
    case 0
    then show ?thesis using fh'(1) shard_frame_refl[OF ok(1)] by (simp add: drain_def)
  next
    case (Suc n)
    then show ?thesis using shard_steps_frame[OF ok(1) assms(2)] fh'(1) by (simp add: drain_def)
  qed
  then show ?thesis
    using fh' w assms(1,3) shard_frame_calm[OF _ ok(2)]
    by (auto simp: open_and_calm_def shard_frame_def follows_def Let_def feed_ok_append)
qed

fun drain_all :: "nat list \<Rightarrow> (nat \<Rightarrow> Timestamp) \<Rightarrow> FeedHandler \<Rightarrow> FeedHandler outcome" where
  "drain_all [] clock fh = Inr fh"
| "drain_all (s # ss) clock fh = andthen (drain s clock fh) (drain_all ss clock)"

lemma drain_all_follows:
  assumes "open_and_calm fh" "distinct ss" "set ss \<subseteq> {..<NUM_SHARDS}"
    "\<forall>s \<in> set ss. follows fh s (contents (shard_queue fh s) @ rest s) (AB s) \<and>
       (\<forall>m \<in> set (contents (shard_queue fh s)). \<forall>k. timely (clock k) m)"
    "\<forall>s \<in> {..<NUM_SHARDS} - set ss. contents (shard_queue fh s) = [] \<and> follows fh s (rest s) (AB s)"
  shows "\<exists>fh'. drain_all ss clock fh = Inr fh' \<and> open_and_calm fh' \<and> fm_dedup (fh_feed_merger fh') = fm_dedup (fh_feed_merger fh) \<and>
    (\<forall>s < NUM_SHARDS. contents (shard_queue fh' s) = [] \<and> follows fh' s (rest s) (AB s))"
  using assms
proof (induction ss arbitrary: fh)
  case (Cons s ss)
  have s: "s < NUM_SHARDS" "s \<notin> set ss" using Cons.prems(2,3) by auto
  obtain fh1 where fh1: "drain s clock fh = Inr fh1" "open_and_calm fh1" "shard_frame s fh fh1"
    "contents (shard_queue fh1 s) = []" "follows fh1 s (rest s) (AB s)"
    using drain_follows[OF Cons.prems(1) s(1), of "rest s" "AB s" clock] Cons.prems(4) by auto
  have ok1: "system_ok fh1" using fh1(2) by (simp add: open_and_calm_def)
  have other: "shard_queue fh1 t = shard_queue fh t" "follows fh t msgs B \<Longrightarrow> follows fh1 t msgs B"
    if "t < NUM_SHARDS" "t \<noteq> s" for t msgs B
    using fh1(3) shard_frame_follows[OF fh1(3) ok1 that] that by (simp_all add: shard_frame_def)
  have "\<forall>t \<in> set ss. follows fh1 t (contents (shard_queue fh1 t) @ rest t) (AB t) \<and>
       (\<forall>m \<in> set (contents (shard_queue fh1 t)). \<forall>k. timely (clock k) m)"
  proof
    fix t assume t: "t \<in> set ss"
    then have "t < NUM_SHARDS" "t \<noteq> s" using Cons.prems(3) s(2) by auto
    then show "follows fh1 t (contents (shard_queue fh1 t) @ rest t) (AB t) \<and> (\<forall>m \<in> set (contents (shard_queue fh1 t)). \<forall>k. timely (clock k) m)"
      using other Cons.prems(4) t by simp
  qed
  moreover have "\<forall>t \<in> {..<NUM_SHARDS} - set ss. contents (shard_queue fh1 t) = [] \<and> follows fh1 t (rest t) (AB t)"
  proof
    fix t assume "t \<in> {..<NUM_SHARDS} - set ss"
    then show "contents (shard_queue fh1 t) = [] \<and> follows fh1 t (rest t) (AB t)"
      using fh1(4,5) other[of t] Cons.prems(5) by (cases "t = s") auto
  qed
  moreover have "fm_dedup (fh_feed_merger fh1) = fm_dedup (fh_feed_merger fh)" using fh1(3) by (simp add: shard_frame_def)
  ultimately show ?case using Cons.IH[OF fh1(2)] Cons.prems(2,3) fh1(1) by auto
qed auto

section \<open>One packet after the other\<close>

text \<open>One iteration of each thread; \<open>t\<close> are the clock reads.\<close>

definition handle_packet :: "u8 list \<Rightarrow> (nat \<Rightarrow> Timestamp) \<Rightarrow> FeedHandler \<Rightarrow> FeedHandler outcome" where
  "handle_packet pkt t fh =
    andthen (receive_step (Datagram pkt None) (t 0) fh) (\<lambda>fh1.
    andthen (merge_step (t 1) (t 2) fh1) (\<lambda>fh2.
    andthen (parse_step (t 3) (\<lambda>i. t (i + 4)) fh2) (drain_all [0..<NUM_SHARDS] (\<lambda>i. t (i + 4)))))"

fun handle_packets :: "u8 list list \<Rightarrow> (nat \<Rightarrow> nat \<Rightarrow> Timestamp) \<Rightarrow> nat \<Rightarrow> FeedHandler \<Rightarrow> FeedHandler outcome" where
  "handle_packets [] t n fh = Inr fh"
| "handle_packets (pkt # pkts) t n fh = andthen (handle_packet pkt (t n) fh) (handle_packets pkts t (n + 1))"

text \<open>The feed: sequence numbers with the order messages of the packets.\<close>

type_synonym feed = "(u64 \<times> (WireHead \<times> OrderMsg) list) list"

definition feed_packet :: "u8 list \<Rightarrow> u64 \<times> (WireHead \<times> OrderMsg) list \<Rightarrow> u8 list" where
  "feed_packet session p = enc_packet session (fst p) (map (\<lambda>(h, m). enc_order h m) (snd p))"

definition feed_messages :: "nat \<Rightarrow> feed \<Rightarrow> ItchMsg list" where
  "feed_messages s ps = concat (map (\<lambda>p. shard_messages s 0 (snd p)) ps)"

text \<open>The packets are well formed and their numbers go up from what the merger has seen.\<close>

definition fresh_feed :: "u8 list \<Rightarrow> feed \<Rightarrow> DedupWindow \<Rightarrow> bool" where
  "fresh_feed session ps w \<longleftrightarrow> length session = 10 \<and> sorted_wrt (<) (map (\<lambda>p. unat (fst p)) ps) \<and>
     (\<forall>p \<in> set ps. wire_orders (snd p) \<and> length (feed_packet session p) \<le> MAX_UDP_PAYLOAD \<and> fst p \<noteq> 0 \<and>
        unat (fst p) + 64 < 2 ^ 64 \<and> unat (dw_base w) \<le> unat (fst p) \<and> (\<forall>n \<in> seen w. n < unat (fst p)))"

lemma fresh_feed_next:
  assumes "fresh_feed session (p # ps) w" "window_after (fst p) w w'"
  shows "fresh_feed session ps w'"
proof -
  have "unat (dw_base w') \<le> unat (fst q) \<and> (\<forall>n \<in> seen w'. n < unat (fst q))" if "q \<in> set ps" for q
  proof -
    have "unat (fst p) < unat (fst q)" "\<forall>n \<in> seen w. n < unat (fst q)" using assms(1) that by (auto simp: fresh_feed_def)
    then show ?thesis using assms(2) by (auto simp: window_after_def)
  qed
  then show ?thesis using assms(1) by (auto simp: fresh_feed_def)
qed

lemma fresh_feed_packet: "fresh_feed session (p # ps) (fm_dedup (fh_feed_merger fh)) \<Longrightarrow>
    new_packet fh session (fst p) (snd p) (feed_packet session p)"
  by (auto simp: fresh_feed_def new_packet_def feed_packet_def)

lemma handle_packet_follows:
  assumes "idle fh" "is_open (sc_mgr (pt_ctx (fh_parser fh)))" "fresh_feed session (p # ps) (fm_dedup (fh_feed_merger fh))"
    "\<forall>s < NUM_SHARDS. follows fh s (feed_messages s (p # ps)) (AB s)"
  shows "\<exists>fh'. handle_packet (feed_packet session p) t fh = Inr fh' \<and> idle fh' \<and> is_open (sc_mgr (pt_ctx (fh_parser fh'))) \<and>
    fresh_feed session ps (fm_dedup (fh_feed_merger fh')) \<and> (\<forall>s < NUM_SHARDS. follows fh' s (feed_messages s ps) (AB s))"
proof -
  obtain fh1 fh2 fh3 where r: "receive_step (Datagram (feed_packet session p) None) (t 0) fh = Inr fh1"
    "merge_step (t 1) (t 2) fh1 = Inr fh2" "parse_step (t 3) (\<lambda>i. t (i + 4)) fh2 = Inr fh3" "system_ok fh3"
    "fh_workers fh3 = fh_workers fh" "\<And>sh. sh < NUM_SHARDS \<Longrightarrow> contents (shard_queue fh3 sh) = shard_messages sh 0 (snd p)"
    "sc_mgr (pt_ctx (fh_parser fh3)) = sc_mgr (pt_ctx (fh_parser fh))" "calm fh3"
    "contents (fm_merged_queue (fh_feed_merger fh3)) = []"
    "window_after (fst p) (fm_dedup (fh_feed_merger fh)) (fm_dedup (fh_feed_merger fh3))"
    by (rule packet_to_shards[OF assms(1) fresh_feed_packet[OF assms(3)], of None "t 0" "t 1" "t 2" "t 3" "\<lambda>i. t (i + 4)"]) blast
  have oc: "open_and_calm fh3" using r assms(2) by (simp add: open_and_calm_def)
  have f: "\<forall>s \<in> set [0..<NUM_SHARDS]. follows fh3 s (contents (shard_queue fh3 s) @ feed_messages s ps) (AB s) \<and>
      (\<forall>m \<in> set (contents (shard_queue fh3 s)). \<forall>k. timely (t (k + 4)) m)"
    using assms(4) r(5,6) shard_messages_timely by (auto simp: follows_def feed_messages_def)
  have all: "set [0..<NUM_SHARDS] \<subseteq> {..<NUM_SHARDS}"
    and none: "\<forall>s \<in> {..<NUM_SHARDS} - set [0..<NUM_SHARDS]. contents (shard_queue fh3 s) = [] \<and> follows fh3 s (feed_messages s ps) (AB s)"
    by auto
  obtain fh' where "drain_all [0..<NUM_SHARDS] (\<lambda>i. t (i + 4)) fh3 = Inr fh'" "open_and_calm fh'"
    "fm_dedup (fh_feed_merger fh') = fm_dedup (fh_feed_merger fh3)"
    "\<forall>s < NUM_SHARDS. contents (shard_queue fh' s) = [] \<and> follows fh' s (feed_messages s ps) (AB s)"
    using drain_all_follows[OF oc distinct_upt all f none] by blast
  then show ?thesis
    using r(1-3) fresh_feed_next[OF assms(3) r(10)] by (auto simp: handle_packet_def idle_calm open_and_calm_def)
qed

lemma handle_packets_follow:
  assumes "idle fh" "is_open (sc_mgr (pt_ctx (fh_parser fh)))" "fresh_feed session ps (fm_dedup (fh_feed_merger fh))"
    "\<forall>s < NUM_SHARDS. follows fh s (feed_messages s ps) (AB s)"
  shows "\<exists>fh'. handle_packets (map (feed_packet session) ps) t n fh = Inr fh' \<and> idle fh' \<and>
    (\<forall>s < NUM_SHARDS. shard_ok (fh_workers fh' ! s) \<and> shard_view (fh_workers fh' ! s) = AB s)"
  using assms
proof (induction ps arbitrary: fh n)
  case Nil
  then show ?case by (auto simp: follows_def feed_messages_def Let_def)
next
  case (Cons p ps)
  obtain fh1 where fh1: "handle_packet (feed_packet session p) (t n) fh = Inr fh1" "idle fh1"
    "is_open (sc_mgr (pt_ctx (fh_parser fh1)))" "fresh_feed session ps (fm_dedup (fh_feed_merger fh1))"
    "\<forall>s < NUM_SHARDS. follows fh1 s (feed_messages s ps) (AB s)"
    using handle_packet_follows[OF Cons.prems, of "t n"] by blast
  then show ?case using Cons.IH[OF fh1(2-5)] by auto
qed

section \<open>A small feed\<close>

text \<open>The packet with the order of locate code 1, then one that cancels a part of it and adds an ask for code 2.\<close>

definition small_feed :: feed where
  "small_feed = [(1, small_orders), (2,
     [(\<lparr>wh_locate = 1, wh_tracking = 0, wh_timestamp = 10\<rparr>, OCancel 7 4),
      (\<lparr>wh_locate = 2, wh_tracking = 0, wh_timestamp = 11\<rparr>, OAdd 8 0x53 5 (replicate 8 0x41) 300)])]"

lemma small_feed_fresh: "fresh_feed (replicate 10 0x31) small_feed (fm_dedup (fh_feed_merger small_system))"
proof -
  have "seen DedupWindow_new = {}" "dw_base DedupWindow_new = 0" using window_ok_new(2) by (simp_all add: DedupWindow_new_def)
  moreover have "take_bit 48 (9 :: u64) = 9" "take_bit 48 (10 :: u64) = 10" "take_bit 48 (11 :: u64) = 11" by simp_all
  ultimately show ?thesis unfolding small_system_packet(4)
    by (simp add: fresh_feed_def small_feed_def wire_orders_def small_orders_def feed_packet_def enc_packet_def frame_def MAX_UDP_PAYLOAD_def)
qed

lemma small_feed_messages:
  defines "m1 \<equiv> dec_order 0 \<lparr>wh_locate = 1, wh_tracking = 0, wh_timestamp = 9\<rparr> (OAdd 7 0x42 10 (replicate 8 0x41) 100)"
    and "m2 \<equiv> dec_order 0 \<lparr>wh_locate = 1, wh_tracking = 0, wh_timestamp = 10\<rparr> (OCancel 7 4)"
    and "m3 \<equiv> dec_order 0 \<lparr>wh_locate = 2, wh_tracking = 0, wh_timestamp = 11\<rparr> (OAdd 8 0x53 5 (replicate 8 0x41) 300)"
  shows "feed_messages s small_feed = (if s = 1 then [m1, m2] else if s = 2 then [m3] else [])"
    "feed_ok 2 True (feed_messages s small_feed) empty_books"
    "fold (spec_dispatch True) (feed_messages 1 small_feed) empty_books = two_books [(100, [(7, 6)])] [] [] []"
    "fold (spec_dispatch True) (feed_messages 2 small_feed) empty_books = two_books [] [(300, [(8, 5)])] [] []"
proof -
  show ms: "feed_messages s small_feed = (if s = 1 then [m1, m2] else if s = 2 then [m3] else [])" for s
    by (simp add: feed_messages_def small_feed_def shard_messages_def small_orders_def shard_for_locate_def NUM_SHARDS_def m1_def m2_def m3_def)
  have e: "empty_books = two_books [] [] [] []" by (simp add: two_books_def empty_books_def fun_eq_iff)
  note run = m1_def m2_def m3_def head_msg_def side_of_char_def slab_index_def NUM_SHARDS_def
  note ops = book_msg_def book_add_def book_reduce_def book_amend_def book_find_def side_orders_def has_room_def spec_amend_def
    MAX_PRICE_LEVELS_def
  have d: "spec_dispatch True m1 (two_books [] [] [] []) = two_books [(100, [(7, 10)])] [] [] []"
    "spec_dispatch True m2 (two_books [(100, [(7, 10)])] [] [] []) = two_books [(100, [(7, 6)])] [] [] []"
    "spec_dispatch True m3 (two_books [] [] [] []) = two_books [] [(300, [(8, 5)])] [] []"
    by (rule two_books_dispatch; (rule book_eq)?; simp add: run ops)+
  show "fold (spec_dispatch True) (feed_messages 1 small_feed) empty_books = two_books [(100, [(7, 6)])] [] [] []"
    "fold (spec_dispatch True) (feed_messages 2 small_feed) empty_books = two_books [] [(300, [(8, 5)])] [] []"
    by (simp_all add: ms e d)
  have b: "two_books V1 V2 V3 V4 0 = (\<lambda>b. if b then V1 else V2)" for V1 V2 V3 V4 by (simp add: two_books_def)
  have i: "slab_index (im_locate m1) = 0" "slab_index (im_locate m2) = 0" "slab_index (im_locate m3) = 0" by (simp_all add: run)
  have "feed_ok 2 True [m1, m2] (two_books [] [] [] [])" "feed_ok 2 True [m3] (two_books [] [] [] [])"
    by (simp_all only: feed_ok.simps d i b shard_refs_two)
      (simp_all add: run ops book_msg_ok_def subject_ref_def book_steady_def steady_def book_refs_def)
  then show "feed_ok 2 True (feed_messages s small_feed) empty_books" by (simp add: ms e)
qed

end
