(* ===== verification/Replay_Tools.thy ===== *)
theory Replay_Tools
  imports Parser_Thread Host_Text
begin

text \<open>
  The offline tools: \<^verbatim>\<open>tools/itch_inspect.cpp\<close> prints the messages of a capture file,
  \<^verbatim>\<open>tools/pcap_replay.cpp\<close> counts them. The capture library is not part of the repository: a file
  is the list of frames that \<^verbatim>\<open>pcap_next_ex\<close> delivers, each with its captured length and the memory
  at \<^verbatim>\<open>raw\<close>. The replay tool sleeps between frames, which changes nothing but the clock it reads.
\<close>

section \<open>Frames\<close>

record Frame =
  fr_caplen :: u32
  fr_raw :: mem

definition UDP_PAYLOAD_OFFSET :: u32 where "UDP_PAYLOAD_OFFSET = 42"

text \<open>The length of the payload is kept in 16 bits.\<close>

definition udp_len :: "Frame \<Rightarrow> u16" where
  "udp_len f = ucast (fr_caplen f - UDP_PAYLOAD_OFFSET)"

definition frame_mold :: "Frame \<Rightarrow> ParseResult" where
  "frame_mold f = mold_parse (fr_raw f) (unat UDP_PAYLOAD_OFFSET) (unat (udp_len f))"

section \<open>itch\_inspect\<close>

definition side_char :: "Side \<Rightarrow> u8" where
  "side_char s = (case s of Buy \<Rightarrow> 0x42 | Sell \<Rightarrow> 0x53 | SideChar c \<Rightarrow> c)"

definition ref_text :: "u64 \<Rightarrow> u8 list" where
  "ref_text r = pad_right 12 (decimal (unat r))"

definition qty_text :: "u32 \<Rightarrow> u8 list" where
  "qty_text q = pad_right 8 (decimal (unat q))"

definition print_body :: "ItchMsg \<Rightarrow> u8 list" where
  "print_body m =
    (case im_type m of
       AddOrder \<Rightarrow> let a = im_add_order m in bytes_of ''ref='' @ ref_text (ao_ref a) @ bytes_of '' side='' @ [side_char (ao_side a)] @
         bytes_of '' shares='' @ qty_text (ao_shares a) @ bytes_of '' price='' @ fixed4 (ao_price a) @
         bytes_of ''  stock='' @ str8 (ao_stock a)
     | AddOrderMPID \<Rightarrow> let a = im_add_order m in bytes_of ''ref='' @ ref_text (ao_ref a) @ bytes_of '' side='' @ [side_char (ao_side a)] @
         bytes_of '' shares='' @ qty_text (ao_shares a) @ bytes_of '' price='' @ fixed4 (ao_price a) @
         bytes_of ''  stock='' @ str8 (ao_stock a)
     | OrderExecuted \<Rightarrow> let e = im_order_executed m in bytes_of ''ref='' @ ref_text (oe_ref e) @
         bytes_of '' exec='' @ qty_text (oe_executed_shares e) @ bytes_of ''  match='' @ decimal (unat (oe_match_number e))
     | OrderExecutedPrice \<Rightarrow> let e = im_order_executed_price m in bytes_of ''ref='' @ ref_text (op_ref e) @
         bytes_of '' exec='' @ qty_text (op_executed_shares e) @ bytes_of ''  match='' @ decimal (unat (op_match_number e)) @
         bytes_of ''  px='' @ fixed4 (op_price e)
     | OrderCancel \<Rightarrow> let c = im_order_cancel m in bytes_of ''ref='' @ ref_text (oc_ref c) @
         bytes_of '' cancelled='' @ qty_text (oc_cancelled_shares c)
     | OrderDelete \<Rightarrow> bytes_of ''ref='' @ ref_text (im_order_delete_ref m)
     | OrderReplace \<Rightarrow> let r = im_order_replace m in bytes_of ''orig='' @ ref_text (or_orig_ref r) @
         bytes_of ''  new='' @ ref_text (or_new_ref r) @ bytes_of ''  px='' @ fixed4 (or_new_price r) @
         bytes_of ''  qty='' @ decimal (unat (or_new_shares r))
     | StockDirectory \<Rightarrow> let d = im_stock_directory m in bytes_of ''stock='' @ str8 (sd_stock d) @
         bytes_of ''  category='' @ [sd_market_category d] @ bytes_of ''  lot='' @ decimal (unat (sd_round_lot_size d))
     | Trade \<Rightarrow> let t = im_trade m in bytes_of ''ref='' @ ref_text (tr_ref t) @ bytes_of ''  side='' @ [side_char (tr_side t)] @
         bytes_of ''  qty='' @ qty_text (tr_shares t) @ bytes_of ''  px='' @ fixed4 (tr_price t) @
         bytes_of ''  stock='' @ str8 (tr_stock t) @ bytes_of ''  match='' @ decimal (unat (tr_match_number t))
     | SystemEvent \<Rightarrow> bytes_of ''event='' @ [im_system_event_code m]
     | _ \<Rightarrow> [])"

definition print_msg :: "ItchMsg \<Rightarrow> u8 list" where
  "print_msg m = bytes_of ''['' @ decimal (unat (im_timestamp m)) @ bytes_of '' ns] locate='' @
     pad_right 5 (decimal (unat (im_locate m))) @ bytes_of '' type='' @ [type_char (im_type m)] @ bytes_of ''  '' @
     print_body m @ [0x0A]"

record InspectArgs =
  ia_max_packets :: int
  ia_filter_locate :: LocateCode

text \<open>The options after the file name; an option without a value is ignored.\<close>

fun inspect_args :: "u8 list list \<Rightarrow> InspectArgs \<Rightarrow> InspectArgs" where
  "inspect_args (o' # v # rest) a =
    (if o' = bytes_of ''--max'' then inspect_args rest (a\<lparr>ia_max_packets := atoi v\<rparr>)
     else if o' = bytes_of ''--locate'' then inspect_args rest (a\<lparr>ia_filter_locate := word_of_int (atoi v)\<rparr>)
     else inspect_args (v # rest) a)"
| "inspect_args _ a = a"

definition inspect_defaults :: InspectArgs where
  "inspect_defaults = \<lparr>ia_max_packets = 2147483647, ia_filter_locate = 0\<rparr>"

definition frame_messages :: "Frame \<Rightarrow> ItchMsg list" where
  "frame_messages f =
    (if fr_caplen f \<le> UDP_PAYLOAD_OFFSET then []
     else if \<not> pr_valid (frame_mold f) \<or> is_heartbeat (pr_header (frame_mold f)) then []
     else itch_parse (fr_raw f) 0 (frame_mold f) MAX_MSGS_PER_PACKET)"

definition shown :: "LocateCode \<Rightarrow> ItchMsg \<Rightarrow> bool" where
  "shown filter_locate m \<longleftrightarrow> \<not> (filter_locate \<noteq> 0 \<and> im_locate m \<noteq> filter_locate)"

text \<open>The loop over the messages of a packet, and the loop over the packets: the text printed and the two counts.\<close>

fun inspect_messages :: "LocateCode \<Rightarrow> ItchMsg list \<Rightarrow> u8 list \<times> u64 \<Rightarrow> u8 list \<times> u64" where
  "inspect_messages loc [] r = r"
| "inspect_messages loc (m # ms) (text, msg_count) =
    inspect_messages loc ms (if shown loc m then (text @ print_msg m, msg_count + 1) else (text, msg_count))"

fun inspect_loop :: "InspectArgs \<Rightarrow> Frame list \<Rightarrow> int \<Rightarrow> u8 list \<times> u64 \<Rightarrow> int \<times> u8 list \<times> u64" where
  "inspect_loop a [] pkt_count r = (pkt_count, r)"
| "inspect_loop a (f # fs) pkt_count r =
    (if pkt_count < ia_max_packets a
     then inspect_loop a fs (pkt_count + 1) (inspect_messages (ia_filter_locate a) (frame_messages f) r)
     else (pkt_count, r))"

text \<open>The program: its exit code and what it prints on the standard output. The frames are \<^term>\<open>None\<close> when the file cannot be opened.\<close>

definition inspect_main :: "u8 list list \<Rightarrow> Frame list option \<Rightarrow> int \<times> u8 list" where
  "inspect_main argv file =
    (if length argv < 2 then (1, [])
     else case file of None \<Rightarrow> (1, [])
     | Some frames \<Rightarrow>
         let (pkts, text, msgs) = inspect_loop (inspect_args (drop 2 argv) inspect_defaults) frames 0
               (bytes_of ''Reading '' @ (argv ! 1) @ [0x0A], 0)
         in (0, text @ [0x0A] @ bytes_of ''Processed '' @ decimal (nat pkts) @ bytes_of '' packets, '' @
              decimal (unat msgs) @ bytes_of '' messages'' @ [0x0A]))"

section \<open>pcap\_replay\<close>

record ReplayStats =
  rs_packets :: u64
  rs_messages :: u64
  rs_gaps :: u64
  rs_heartbeats :: u64
  rs_add_orders :: u64
  rs_executions :: u64
  rs_cancels :: u64
  rs_deletes :: u64
  rs_replaces :: u64

definition ReplayStats_init :: ReplayStats where
  "ReplayStats_init = \<lparr>rs_packets = 0, rs_messages = 0, rs_gaps = 0, rs_heartbeats = 0, rs_add_orders = 0,
     rs_executions = 0, rs_cancels = 0, rs_deletes = 0, rs_replaces = 0\<rparr>"

definition count_type :: "ItchMsg \<Rightarrow> ReplayStats \<Rightarrow> ReplayStats" where
  "count_type m s =
    (case im_type m of
       AddOrder \<Rightarrow> s\<lparr>rs_add_orders := rs_add_orders s + 1\<rparr>
     | AddOrderMPID \<Rightarrow> s\<lparr>rs_add_orders := rs_add_orders s + 1\<rparr>
     | OrderExecuted \<Rightarrow> s\<lparr>rs_executions := rs_executions s + 1\<rparr>
     | OrderExecutedPrice \<Rightarrow> s\<lparr>rs_executions := rs_executions s + 1\<rparr>
     | OrderCancel \<Rightarrow> s\<lparr>rs_cancels := rs_cancels s + 1\<rparr>
     | OrderDelete \<Rightarrow> s\<lparr>rs_deletes := rs_deletes s + 1\<rparr>
     | OrderReplace \<Rightarrow> s\<lparr>rs_replaces := rs_replaces s + 1\<rparr>
     | _ \<Rightarrow> s)"

definition replay_frame :: "Timestamp \<Rightarrow> Frame \<Rightarrow> SequenceTracker \<times> ReplayStats \<Rightarrow> SequenceTracker \<times> ReplayStats" where
  "replay_frame now f st =
    (if fr_caplen f \<le> UDP_PAYLOAD_OFFSET then st
     else let mold = frame_mold f; (tr, s) = st in
       if \<not> pr_valid mold then st
       else if is_heartbeat (pr_header mold) then (tr, s\<lparr>rs_heartbeats := rs_heartbeats s + 1\<rparr>)
       else let s1 = s\<lparr>rs_packets := rs_packets s + 1\<rparr>;
                (ok, tr') = try_advance now tr (mh_sequence (pr_header mold));
                s2 = (if \<not> ok \<and> rs_gaps s1 < st_gap_count tr' then s1\<lparr>rs_gaps := rs_gaps s1 + 1\<rparr> else s1);
                msgs = itch_parse (fr_raw f) 0 mold MAX_MSGS_PER_PACKET
            in (tr', fold count_type msgs (s2\<lparr>rs_messages := rs_messages s2 + of_nat (length msgs)\<rparr>)))"

definition replay :: "(Timestamp \<times> Frame) list \<Rightarrow> SequenceTracker \<times> ReplayStats" where
  "replay frames = fold (\<lambda>(now, f). replay_frame now f) frames (SequenceTracker_new 0, ReplayStats_init)"

text \<open>
  The text of the statistics. The floating point numbers are arguments: \<open>rate n t\<close> is what \<^verbatim>\<open>%.0f\<close> prints
  of \<open>n\<close> items in \<open>t\<close> nanoseconds, \<open>secs t\<close> what \<^verbatim>\<open>%6.1f\<close> prints of \<open>t\<close> nanoseconds in seconds, and
  \<open>zero\<close> tells whether \<^verbatim>\<open>atof\<close> returns 0.
\<close>

definition print_stats :: "(u64 \<Rightarrow> u64 \<Rightarrow> u8 list) \<Rightarrow> ReplayStats \<Rightarrow> u64 \<Rightarrow> u8 list" where
  "print_stats rate s elapsed =
    (let num = (\<lambda>x. decimal (unat x)) in
     [0x0A] @ bytes_of ''===== Replay Statistics ====='' @ [0x0A] @
     bytes_of ''  Packets:       '' @ num (rs_packets s) @ bytes_of ''  ('' @ rate (rs_packets s) elapsed @ bytes_of '' pkt/s)'' @ [0x0A] @
     bytes_of ''  Messages:      '' @ num (rs_messages s) @ bytes_of ''  ('' @ rate (rs_messages s) elapsed @ bytes_of '' msg/s)'' @ [0x0A] @
     bytes_of ''  Heartbeats:    '' @ num (rs_heartbeats s) @ [0x0A] @
     bytes_of ''  Sequence gaps: '' @ num (rs_gaps s) @ [0x0A] @
     bytes_of ''  Add orders:    '' @ num (rs_add_orders s) @ [0x0A] @
     bytes_of ''  Executions:    '' @ num (rs_executions s) @ [0x0A] @
     bytes_of ''  Cancels:       '' @ num (rs_cancels s) @ [0x0A] @
     bytes_of ''  Deletes:       '' @ num (rs_deletes s) @ [0x0A] @
     bytes_of ''  Replaces:      '' @ num (rs_replaces s) @ [0x0A] @
     bytes_of ''============================='' @ [0x0A])"

fun replay_args :: "(u8 list \<Rightarrow> bool) \<Rightarrow> u8 list list \<Rightarrow> bool \<times> int \<Rightarrow> bool \<times> int" where
  "replay_args zero (o' # v # rest) a =
    (if o' = bytes_of ''--speed'' then replay_args zero rest (zero v, snd a)
     else if o' = bytes_of ''--stats-interval'' then replay_args zero rest (fst a, atoi v)
     else replay_args zero (v # rest) a)"
| "replay_args zero _ a = a"

text \<open>The periodic line, with the time of the last one; frames the loop skips do not get that far.\<close>

definition periodic_stats ::
  "(u64 \<Rightarrow> u8 list) \<Rightarrow> int \<Rightarrow> Timestamp \<Rightarrow> Timestamp \<Rightarrow> ReplayStats \<Rightarrow> Timestamp \<times> u8 list \<Rightarrow> Timestamp \<times> u8 list" where
  "periodic_stats secs interval wall_start now s r =
    (if 0 < interval \<and> word_of_int interval * 1000000000 < now - fst r
     then (now, snd r @ bytes_of ''['' @ secs (now - wall_start) @ bytes_of ''s] pkts='' @ pad_right 10 (decimal (unat (rs_packets s))) @
       bytes_of '' msgs='' @ pad_right 12 (decimal (unat (rs_messages s))) @ bytes_of '' gaps='' @ decimal (unat (rs_gaps s)) @ [0x0A])
     else r)"

definition skipped :: "Frame \<Rightarrow> bool" where
  "skipped f \<longleftrightarrow> fr_caplen f \<le> UDP_PAYLOAD_OFFSET \<or> \<not> pr_valid (frame_mold f) \<or> is_heartbeat (pr_header (frame_mold f))"

text \<open>A frame comes with the two clock readings of its round: the tracker's and that of the periodic print.\<close>

fun replay_loop ::
  "(u64 \<Rightarrow> u8 list) \<Rightarrow> int \<Rightarrow> Timestamp \<Rightarrow> (Timestamp \<times> Timestamp \<times> Frame) list \<Rightarrow> SequenceTracker \<times> ReplayStats \<Rightarrow>
     Timestamp \<times> u8 list \<Rightarrow> (SequenceTracker \<times> ReplayStats) \<times> u8 list" where
  "replay_loop secs interval wall_start [] st r = (st, snd r)"
| "replay_loop secs interval wall_start ((now, after, f) # fs) st r =
    (let st' = replay_frame now f st in
     replay_loop secs interval wall_start fs st'
       (if skipped f then r else periodic_stats secs interval wall_start after (snd st') r))"

definition replay_main ::
  "(u8 list \<Rightarrow> bool) \<Rightarrow> (u64 \<Rightarrow> u8 list) \<Rightarrow> (u64 \<Rightarrow> u64 \<Rightarrow> u8 list) \<Rightarrow> Timestamp \<Rightarrow> Timestamp \<Rightarrow> u8 list list \<Rightarrow>
     (Timestamp \<times> Timestamp \<times> Frame) list option \<Rightarrow> int \<times> u8 list" where
  "replay_main zero secs rate wall_start wall_end argv file =
    (if length argv < 2 then (1, [])
     else case file of None \<Rightarrow> (1, [])
     | Some frames \<Rightarrow>
         let (max_speed, interval) = replay_args zero (drop 2 argv) (True, 10);
             (st, text) = replay_loop secs interval wall_start frames (SequenceTracker_new 0, ReplayStats_init)
               (wall_start, bytes_of ''Replaying '' @ (argv ! 1) @ bytes_of '' at '' @
                  (if max_speed then bytes_of ''MAX'' else bytes_of ''1x'') @ bytes_of '' speed'' @ [0x0A])
         in (0, text @ print_stats rate (snd st) (wall_end - wall_start)))"

section \<open>What is printed\<close>

lemma inspect_messages_eq:
  "inspect_messages loc ms (out, n) =
    (out @ concat (map print_msg (filter (shown loc) ms)), n + of_nat (length (filter (shown loc) ms)))"
  by (induction ms arbitrary: out n) (simp_all add: algebra_simps)

lemma inspect_loop_eq:
  assumes "k = nat (ia_max_packets a - pkt)"
  shows "inspect_loop a fs pkt (out, n) =
    (let ms = filter (shown (ia_filter_locate a)) (concat (map frame_messages (take k fs)))
     in (pkt + int (min k (length fs)), out @ concat (map print_msg ms), n + of_nat (length ms)))"
  using assms
proof (induction fs arbitrary: pkt out n k)
  case (Cons f fs)
  show ?case
  proof (cases "pkt < ia_max_packets a")
    case True
    then obtain j where j: "k = Suc j" "j = nat (ia_max_packets a - (pkt + 1))" using Cons.prems by (cases k) auto
    then show ?thesis using True Cons.IH[OF j(2)] by (simp add: inspect_messages_eq Let_def)
  next
    case False
    then show ?thesis using Cons.prems by simp
  qed
qed simp

text \<open>The payload of a frame as the encoder produced it.\<close>

lemma frame_messages_orders:
  assumes "length session = 10" "length ms \<le> 128"
    "\<forall>(h, m) \<in> set ms. wf_order m \<and> take_bit 48 (wh_timestamp h) = wh_timestamp h"
    "pkt = enc_packet session seq (map (\<lambda>(h, m). enc_order h m) ms)"
    "holds_at (fr_raw f) 42 pkt" "unat (fr_caplen f) = 42 + length pkt" "length pkt < 65536"
  shows "frame_messages f = map (\<lambda>(h, m). dec_order 0 h m) ms"
proof -
  have n: "length ms < 65535" "int (length ms) \<le> MAX_MSGS_PER_PACKET"
    using assms(2) by (simp_all add: MAX_MSGS_PER_PACKET_def)
  have pk: "20 \<le> length pkt" using assms(1,4) by (simp add: enc_packet_def)
  have len: "unat (fr_caplen f - UDP_PAYLOAD_OFFSET) = length pkt"
    using assms(6) by (subst unat_sub) (simp_all add: UDP_PAYLOAD_OFFSET_def word_le_nat_alt)
  then have u: "unat (udp_len f) = length pkt"
    using assms(7) by (simp add: udp_len_def unsigned_ucast_eq take_bit_nat_eq_self_iff)
  have c: "\<not> fr_caplen f \<le> UDP_PAYLOAD_OFFSET" using assms(6) pk by (auto simp: word_le_nat_alt UDP_PAYLOAD_OFFSET_def)
  note mp = mold_parse_enc[of session "map (\<lambda>(h, m). enc_order h m) ms" "fr_raw f" 42 seq]
  have hb: "(of_nat (length ms) :: u16) \<noteq> MOLDUDP64_HEARTBEAT"
    using unat_of_nat_small[where 'a = 16, of "length ms"] n(1) by (auto simp: MOLDUDP64_HEARTBEAT_def)
  have "pr_valid (frame_mold f)" "\<not> is_heartbeat (pr_header (frame_mold f))"
    using mp assms(1,4,5) n(1) u hb by (simp_all add: frame_mold_def UDP_PAYLOAD_OFFSET_def is_heartbeat_def)
  moreover have "itch_parse (fr_raw f) 0 (frame_mold f) MAX_MSGS_PER_PACKET = map (\<lambda>(h, m). dec_order 0 h m) ms"
    unfolding frame_mold_def u using parse_orders[OF assms(1) n _ assms(3,4,5)]
    by (simp add: UDP_PAYLOAD_OFFSET_def MAX_MSGS_PER_PACKET_def)
  ultimately show ?thesis using c by (simp add: frame_messages_def)
qed

section \<open>Lines determine their fields\<close>

lemma not_digits [simp]: "\<not> is_digit 0x20" "\<not> is_digit 0x2E" "\<not> is_digit 0x0A"
  by (simp_all add: is_digit_def)

lemma padded_inject:
  assumes "pad_right n (decimal a) @ r = pad_right n (decimal b) @ s"
    "r \<noteq> [] \<and> \<not> is_digit (hd r)" "s \<noteq> [] \<and> \<not> is_digit (hd s)"
  shows "a = b \<and> r = s"
proof -
  have h: "\<not> is_digit (hd (replicate k 0x20 @ t))" if "t \<noteq> [] \<and> \<not> is_digit (hd t)" for k t
    using that by (cases k) simp_all
  have "a = b \<and> replicate (n - length (decimal a)) 0x20 @ r = replicate (n - length (decimal b)) 0x20 @ s"
    by (rule decimal_append_inject) (use assms h in \<open>simp_all add: pad_right_def\<close>)
  then show ?thesis by auto
qed

lemma four_digits:
  fixes a :: nat
  assumes "a < 10000"
  shows "a = 1000 * (a div 1000 mod 10) + 100 * (a div 100 mod 10) + 10 * (a div 10 mod 10) + a mod 10"
proof -
  have "a div 1000 mod 10 = a div 1000" using assms by (intro mod_less) (simp add: less_mult_imp_div_less)
  moreover have "a div 100 = 10 * (a div 1000) + a div 100 mod 10" "a div 10 = 10 * (a div 100) + a div 10 mod 10"
    using div_mult2_eq[of a 100 10] div_mult2_eq[of a 10 10] by simp_all
  moreover have "a = 10 * (a div 10) + a mod 10" by simp
  ultimately show ?thesis by linarith
qed

lemma digits4_inject:
  assumes "digits4 a = digits4 b" "a < 10000" "b < 10000"
  shows "a = b"
proof -
  have "x mod 10 = y mod 10" if "(of_nat (48 + x mod 10) :: u8) = of_nat (48 + y mod 10)" for x y :: nat
    using arg_cong[OF that, of unat] digit_of_nat(1)[of "x mod 10"] digit_of_nat(1)[of "y mod 10"] by simp
  then have "a div 1000 mod 10 = b div 1000 mod 10" "a div 100 mod 10 = b div 100 mod 10" "a div 10 mod 10 = b div 10 mod 10"
    "a mod 10 = b mod 10"
    using assms(1) by (simp_all add: digits4_def del: of_nat_add)
  then show ?thesis using four_digits[OF assms(2)] four_digits[OF assms(3)] by simp
qed

lemma dropWhile_pad_left:
  assumes "c \<noteq> 0x20"
  shows "dropWhile (\<lambda>c. c = 0x20) (pad_left n (c # cs) @ r) = c # cs @ r"
proof -
  have "dropWhile (\<lambda>c. c = 0x20) (replicate k 0x20 @ t) = dropWhile (\<lambda>c. c = 0x20) t" for k and t :: "u8 list"
    by (induction k) simp_all
  then show ?thesis using assms by (simp add: pad_left_def)
qed

lemma fixed4_inject:
  assumes "fixed4 p @ r = fixed4 q @ s" "0 \<le> p" "0 \<le> q"
  shows "p = q \<and> r = s"
proof -
  have dw: "dropWhile (\<lambda>c. c = 0x20) (fixed4 x @ t) = decimal (nat x div 10000) @ 0x2E # digits4 (nat x mod 10000) @ t" for x t
  proof -
    obtain c cs where c: "decimal (nat x div 10000) = c # cs" by (cases "decimal (nat x div 10000)") simp_all
    then have "c \<noteq> 0x20" using decimal_digits[of c "nat x div 10000"] by auto
    then show ?thesis by (simp add: fixed4_def c dropWhile_pad_left)
  qed
  have "nat p div 10000 = nat q div 10000 \<and>
      0x2E # digits4 (nat p mod 10000) @ r = 0x2E # digits4 (nat q mod 10000) @ s"
    by (rule decimal_append_inject) (use arg_cong[OF assms(1), of "dropWhile (\<lambda>c. c = 0x20)"] dw in simp_all)
  moreover from this have "digits4 (nat p mod 10000) = digits4 (nat q mod 10000) \<and> r = s"
    by (simp add: digits4_def)
  moreover from this have "nat p mod 10000 = nat q mod 10000" using digits4_inject by simp
  ultimately show ?thesis using assms(2,3) by (metis div_mult_mod_eq eq_nat_nat_iff)
qed

text \<open>The order messages and the fields of them that a line shows.\<close>

definition order_type :: "MessageType \<Rightarrow> bool" where
  "order_type t \<longleftrightarrow> t \<in> {AddOrder, AddOrderMPID, OrderExecuted, OrderExecutedPrice, OrderCancel, OrderDelete, OrderReplace}"

definition order_fields :: "ItchMsg \<Rightarrow> u64 list \<times> u32 list \<times> u8 list \<times> Price list" where
  "order_fields m =
    (case im_type m of
       OrderExecuted \<Rightarrow> let e = im_order_executed m in ([oe_ref e, oe_match_number e], [oe_executed_shares e], [], [])
     | OrderExecutedPrice \<Rightarrow> let e = im_order_executed_price m in ([op_ref e, op_match_number e], [op_executed_shares e], [], [op_price e])
     | OrderCancel \<Rightarrow> let c = im_order_cancel m in ([oc_ref c], [oc_cancelled_shares c], [], [])
     | OrderDelete \<Rightarrow> ([im_order_delete_ref m], [], [], [])
     | OrderReplace \<Rightarrow> let r = im_order_replace m in ([or_orig_ref r, or_new_ref r], [or_new_shares r], [], [or_new_price r])
     | _ \<Rightarrow> let a = im_add_order m in ([ao_ref a], [ao_shares a], side_char (ao_side a) # str8 (ao_stock a), [ao_price a]))"

definition prices_ok :: "ItchMsg \<Rightarrow> bool" where
  "prices_ok m \<longleftrightarrow> (\<forall>p \<in> set (snd (snd (snd (order_fields m)))). 0 \<le> p)"

lemma bytes_of_simps [simp]: "bytes_of (c # cs) = of_char c # bytes_of cs" "bytes_of [] = []"
  by (simp_all add: bytes_of_def)

lemma decimal_eq [simp]: "decimal a = decimal b \<longleftrightarrow> a = b"
  using decimal_value by metis

lemma unat_eq: "unat (x :: 'a::len word) = unat y \<longleftrightarrow> x = y"
  by (simp add: word_unat_eq_iff)

lemma decimal_inject:
  "decimal (unat (x :: 'a::len word)) @ 0x20 # r = decimal (unat y) @ 0x20 # s \<Longrightarrow> x = y \<and> r = s"
  using decimal_append_inject[of "unat x" "0x20 # r" "unat y" "0x20 # s"] by (simp add: unat_eq)

lemma ref_text_inject:
  "ref_text x @ 0x20 # r = ref_text y @ 0x20 # s \<Longrightarrow> x = y \<and> r = s" "ref_text x = ref_text y \<Longrightarrow> x = y"
  using padded_inject[of 12 "unat x" "0x20 # r" "unat y" "0x20 # s"] padded_inject[of 12 "unat x" "[0x20]" "unat y" "[0x20]"]
  by (auto simp: ref_text_def unat_eq)

lemma qty_text_inject:
  "qty_text x @ 0x20 # r = qty_text y @ 0x20 # s \<Longrightarrow> x = y \<and> r = s" "qty_text x = qty_text y \<Longrightarrow> x = y"
  using padded_inject[of 8 "unat x" "0x20 # r" "unat y" "0x20 # s"] padded_inject[of 8 "unat x" "[0x20]" "unat y" "[0x20]"]
  by (auto simp: qty_text_def unat_eq)

lemma fixed4_inject_end: "fixed4 p = fixed4 q \<Longrightarrow> 0 \<le> p \<Longrightarrow> 0 \<le> q \<Longrightarrow> p = q"
  using fixed4_inject[of p "[]" q "[]"] by simp

lemma type_char_inject: "order_type t \<Longrightarrow> order_type t' \<Longrightarrow> type_char t = type_char t' \<Longrightarrow> t = t'"
  by (auto simp: order_type_def type_char_def)

lemma print_body_inject:
  assumes "im_type m = im_type m'" "order_type (im_type m)" "prices_ok m" "prices_ok m'"
    "print_body m @ [0x0A] = print_body m' @ [0x0A]"
  shows "order_fields m = order_fields m'"
proof -
  consider "im_type m = AddOrder \<or> im_type m = AddOrderMPID" | "im_type m = OrderExecuted" | "im_type m = OrderExecutedPrice"
    | "im_type m = OrderCancel" | "im_type m = OrderDelete" | "im_type m = OrderReplace"
    using assms(2) by (auto simp: order_type_def)
  then show ?thesis
    using assms(1,3-5)
    by cases (auto simp: print_body_def order_fields_def prices_ok_def Let_def unat_eq
        dest!: ref_text_inject qty_text_inject fixed4_inject fixed4_inject_end decimal_inject)
qed

section \<open>Counts\<close>

definition replay_ok :: "nat \<Rightarrow> SequenceTracker \<times> ReplayStats \<Rightarrow> bool" where
  "replay_ok n st \<longleftrightarrow> rs_gaps (snd st) = st_gap_count (fst st) \<and> unat (st_gap_count (fst st)) \<le> n"

definition type_counts :: "ReplayStats \<Rightarrow> u64 list" where
  "type_counts s = [rs_add_orders s, rs_executions s, rs_cancels s, rs_deletes s, rs_replaces s]"

definition type_groups :: "MessageType set list" where
  "type_groups = [{AddOrder, AddOrderMPID}, {OrderExecuted, OrderExecutedPrice}, {OrderCancel}, {OrderDelete}, {OrderReplace}]"

definition tally :: "ItchMsg list \<Rightarrow> u64 list" where
  "tally ms = map (\<lambda>T. of_nat (length (filter (\<lambda>m. im_type m \<in> T) ms))) type_groups"

lemma fold_count_type:
  "type_counts (fold count_type ms s) = map2 (+) (type_counts s) (tally ms) \<and> rs_gaps (fold count_type ms s) = rs_gaps s \<and>
   rs_packets (fold count_type ms s) = rs_packets s \<and> rs_messages (fold count_type ms s) = rs_messages s \<and>
   rs_heartbeats (fold count_type ms s) = rs_heartbeats s"
proof (induction ms arbitrary: s)
  case Nil
  then show ?case by (simp add: type_counts_def tally_def type_groups_def)
next
  case (Cons m ms)
  have one: "type_counts (count_type m s) = map2 (+) (type_counts s) (tally [m]) \<and> rs_gaps (count_type m s) = rs_gaps s \<and>
     rs_packets (count_type m s) = rs_packets s \<and> rs_messages (count_type m s) = rs_messages s \<and>
     rs_heartbeats (count_type m s) = rs_heartbeats s"
    by (cases "im_type m") (simp_all add: count_type_def type_counts_def tally_def type_groups_def)
  then show ?case using Cons.IH[of "count_type m s"]
    by (simp add: type_counts_def tally_def type_groups_def add.assoc)
qed

lemma try_advance_gaps:
  assumes "try_advance now tr seq = (ok, tr')"
  shows "st_gap_count tr' = st_gap_count tr \<or> \<not> ok \<and> st_gap_count tr' = st_gap_count tr + 1"
  using assms by (auto simp: try_advance_def Let_def split: if_splits)

lemma replay_frame_step:
  assumes "replay_ok n st" "n < 2 ^ 64 - 1" "replay_frame now f st = st'"
  shows "replay_ok (Suc n) st' \<and>
    rs_messages (snd st') = rs_messages (snd st) + of_nat (length (frame_messages f)) \<and>
    type_counts (snd st') = map2 (+) (type_counts (snd st)) (tally (frame_messages f))"
proof -
  obtain tr s where st: "st = (tr, s)" by fastforce
  have idle: "map2 (+) (type_counts u) (tally []) = type_counts u" for u
    by (simp add: type_counts_def tally_def type_groups_def)
  show ?thesis
  proof (cases "fr_caplen f \<le> UDP_PAYLOAD_OFFSET \<or> \<not> pr_valid (frame_mold f) \<or> is_heartbeat (pr_header (frame_mold f))")
    case True
    then have "frame_messages f = []" by (auto simp: frame_messages_def)
    moreover have "st' = st \<or> st' = (tr, s\<lparr>rs_heartbeats := rs_heartbeats s + 1\<rparr>)"
      using True assms(3) by (auto simp: replay_frame_def st Let_def split: if_splits)
    ultimately show ?thesis
      using assms(1) idle by (auto simp: replay_ok_def st) (simp_all add: type_counts_def tally_def type_groups_def)
  next
    case False
    then have ms: "itch_parse (fr_raw f) 0 (frame_mold f) MAX_MSGS_PER_PACKET = frame_messages f"
      by (simp add: frame_messages_def)
    obtain ok tr' where ta: "try_advance now tr (mh_sequence (pr_header (frame_mold f))) = (ok, tr')" by fastforce
    define s2 where "s2 = (if \<not> ok \<and> rs_gaps s < st_gap_count tr' then s\<lparr>rs_packets := rs_packets s + 1, rs_gaps := rs_gaps s + 1\<rparr>
      else s\<lparr>rs_packets := rs_packets s + 1\<rparr>)"
    have st': "st' = (tr', fold count_type (frame_messages f) (s2\<lparr>rs_messages := rs_messages s2 + of_nat (length (frame_messages f))\<rparr>))"
      using False assms(3) ta ms by (auto simp: replay_frame_def st s2_def Let_def)
    have g: "rs_gaps s = st_gap_count tr" "unat (st_gap_count tr) \<le> n" using assms(1) by (simp_all add: replay_ok_def st)
    have inc: "unat (st_gap_count tr + 1) = Suc (unat (st_gap_count tr))"
      using g(2) assms(2) by (intro unat_Suc_below) (simp add: word_less_nat_alt unsigned_minus_1_eq_mask mask_eq_exp_minus_1)
    then have "st_gap_count tr < st_gap_count tr + 1" by (simp add: word_less_nat_alt)
    then have "rs_gaps s2 = st_gap_count tr'" "unat (st_gap_count tr') \<le> Suc n"
      using try_advance_gaps[OF ta] g inc by (auto simp: s2_def)
    moreover have "rs_messages s2 = rs_messages s" "type_counts s2 = type_counts s"
      by (simp_all add: s2_def type_counts_def)
    ultimately show ?thesis
      using fold_count_type[of "frame_messages f" "s2\<lparr>rs_messages := rs_messages s2 + of_nat (length (frame_messages f))\<rparr>"]
      by (simp add: st' st replay_ok_def type_counts_def)
  qed
qed

lemma replay_fold:
  assumes "replay_ok n st" "n + length fs < 2 ^ 64"
  shows "let st' = fold (\<lambda>(now, f). replay_frame now f) fs st; ms = concat (map (\<lambda>(now, f). frame_messages f) fs) in
    rs_gaps (snd st') = st_gap_count (fst st') \<and> rs_messages (snd st') = rs_messages (snd st) + of_nat (length ms) \<and>
    type_counts (snd st') = map2 (+) (type_counts (snd st)) (tally ms)"
  using assms
proof (induction fs arbitrary: n st)
  case Nil
  then show ?case by (simp add: replay_ok_def type_counts_def tally_def type_groups_def)
next
  case (Cons x fs)
  obtain now f where x: "x = (now, f)" by fastforce
  have step: "replay_ok (Suc n) (replay_frame now f st)"
    "rs_messages (snd (replay_frame now f st)) = rs_messages (snd st) + of_nat (length (frame_messages f))"
    "type_counts (snd (replay_frame now f st)) = map2 (+) (type_counts (snd st)) (tally (frame_messages f))"
    using replay_frame_step[OF Cons.prems(1) _ refl, of now f] Cons.prems(2) by simp_all
  have "map2 (+) (map2 (+) (type_counts u) (tally a)) (tally b) = map2 (+) (type_counts u) (tally (a @ b))" for u a b
    by (simp add: type_counts_def tally_def type_groups_def add.assoc)
  then show ?case using Cons.IH[OF step(1)] Cons.prems(2) step by (simp add: x Let_def add.assoc)
qed

section \<open>Properties\<close>

text \<open>
  Property C34. The inspection tool prints the messages of the first packets of the file, as many as
  \<^verbatim>\<open>--max\<close> allows, in their order and, when a locate code is given, those of this code only: for
  frames that carry encoded order messages these are exactly the messages that were encoded. The
  totals it prints at the end are the numbers of these packets and messages.
\<close>

theorem inspect_prints_encoded_messages:
  assumes "2 \<le> length argv" "length fs = length pks"
    "\<forall>(f, session, seq, ms) \<in> set (zip fs pks). length session = 10 \<and> length ms \<le> 128 \<and>
      (\<forall>(h, m) \<in> set ms. wf_order m \<and> take_bit 48 (wh_timestamp h) = wh_timestamp h) \<and>
      holds_at (fr_raw f) 42 (enc_packet session seq (map (\<lambda>(h, m). enc_order h m) ms)) \<and>
      unat (fr_caplen f) = 42 + length (enc_packet session seq (map (\<lambda>(h, m). enc_order h m) ms)) \<and>
      length (enc_packet session seq (map (\<lambda>(h, m). enc_order h m) ms)) < 65536"
    "a = inspect_args (drop 2 argv) inspect_defaults" "k = nat (ia_max_packets a)"
    "shown_msgs = filter (shown (ia_filter_locate a))
       (concat (map (\<lambda>(session, seq, ms). map (\<lambda>(h, m). dec_order 0 h m) ms) (take k pks)))"
    "length shown_msgs < 2 ^ 64"
  shows "inspect_main argv (Some fs) =
    (0, bytes_of ''Reading '' @ argv ! 1 @ [0x0A] @ concat (map print_msg shown_msgs) @ [0x0A] @
        bytes_of ''Processed '' @ decimal (min k (length fs)) @ bytes_of '' packets, '' @
        decimal (length shown_msgs) @ bytes_of '' messages'' @ [0x0A])"
proof -
  have "frame_messages (fs ! i) = (case pks ! i of (session, seq, ms) \<Rightarrow> map (\<lambda>(h, m). dec_order 0 h m) ms)"
    if i: "i < length fs" for i
  proof -
    obtain session seq ms where p: "pks ! i = (session, seq, ms)" by (metis surj_pair)
    have "(fs ! i, pks ! i) \<in> set (zip fs pks)" using i assms(2) by (force simp: set_zip)
    with assms(3) p show ?thesis using frame_messages_orders[of session ms _ seq "fs ! i"] by fastforce
  qed
  then have "map frame_messages fs = map (\<lambda>(session, seq, ms). map (\<lambda>(h, m). dec_order 0 h m) ms) pks"
    using assms(2) by (intro nth_equalityI) simp_all
  then have fm: "map frame_messages (take k fs) = map (\<lambda>(session, seq, ms). map (\<lambda>(h, m). dec_order 0 h m) ms) (take k pks)"
    by (metis take_map)
  have "unat (of_nat (length shown_msgs) :: u64) = length shown_msgs"
    using assms(7) by (intro unat_of_nat_small) simp
  then show ?thesis
    using assms(1,6) inspect_loop_eq[of k a 0 fs] fm assms(4,5)
    by (simp add: inspect_main_def Let_def)
qed

definition del_frame :: Frame where
  "del_frame = \<lparr>fr_caplen = 83, fr_raw = (\<lambda>i. if i < 42 then 0 else mem_of small_packet (i - 42))\<rparr>"

theorem inspect_prints_encoded_messages_witness:
  "inspect_main [[], bytes_of ''f'', bytes_of ''--max'', bytes_of ''1''] (Some [del_frame, del_frame]) =
    (0, bytes_of ''Reading f'' @ [0x0A] @ print_msg (dec_order 0 \<lparr>wh_locate = 3, wh_tracking = 0, wh_timestamp = 9\<rparr> (ODelete 7)) @
      [0x0A] @ bytes_of ''Processed 1 packets, 1 messages'' @ [0x0A])"
proof -
  let ?pk = "(replicate 10 0x31, 1, [(\<lparr>wh_locate = 3, wh_tracking = 0, wh_timestamp = 9\<rparr>, ODelete 7)]) :: u8 list \<times> u64 \<times> (WireHead \<times> OrderMsg) list"
  have "length small_packet = 41" by (simp add: small_packet_def enc_packet_def)
  moreover have "holds_at (fr_raw del_frame) 42 small_packet" by (simp add: holds_at_def del_frame_def mem_of_def)
  moreover have "atoi (bytes_of ''1'') = 1" using atoi_decimal[of "[]" 1] by (simp add: decimal.simps)
  moreover have "decimal 1 = [0x31]" by (simp add: decimal.simps)
  ultimately show ?thesis
    using inspect_prints_encoded_messages[of "[[], bytes_of ''f'', bytes_of ''--max'', bytes_of ''1'']" "[del_frame, del_frame]"
        "[?pk, ?pk]", OF _ _ _ refl refl refl]
    by (simp add: small_packet_def[symmetric] inspect_defaults_def shown_def) (simp add: del_frame_def small_packet_def)
qed

text \<open>
  No two order messages that differ in what they say are printed alike: from a line of
  the inspection tool the time stamp, locate code, type and all fields of the order message can be
  read back, whatever the widths of the numbers.
\<close>

theorem printed_line_determines_message:
  assumes "order_type (im_type m)" "order_type (im_type m')" "prices_ok m" "prices_ok m'" "print_msg m = print_msg m'"
  shows "im_type m = im_type m' \<and> im_timestamp m = im_timestamp m' \<and> im_locate m = im_locate m' \<and>
    order_fields m = order_fields m'"
proof -
  let ?rest = "\<lambda>m. 0x6E # 0x73 # 0x5D # 0x20 # bytes_of ''locate='' @ pad_right 5 (decimal (unat (im_locate m))) @
    0x20 # bytes_of ''type='' @ type_char (im_type m) # bytes_of ''  '' @ print_body m @ [0x0A]"
  have "decimal (unat (im_timestamp m)) @ 0x20 # ?rest m = decimal (unat (im_timestamp m')) @ 0x20 # ?rest m'"
    using assms(5) by (simp add: print_msg_def)
  from decimal_inject[OF this] have ts: "im_timestamp m = im_timestamp m'" and rest: "?rest m = ?rest m'" by blast+
  let ?t = "\<lambda>m. 0x20 # bytes_of ''type='' @ type_char (im_type m) # bytes_of ''  '' @ print_body m"
  have "pad_right 5 (decimal (unat (im_locate m))) @ ?t m = pad_right 5 (decimal (unat (im_locate m'))) @ ?t m'"
    using rest by simp
  from padded_inject[OF this]
  have "im_locate m = im_locate m'" "type_char (im_type m) = type_char (im_type m')" "print_body m @ [0x0A] = print_body m' @ [0x0A]"
    by (simp_all add: unat_eq)
  then show ?thesis using ts type_char_inject[OF assms(1,2)] print_body_inject[OF _ assms(1,3,4)] by simp
qed

theorem printed_line_determines_message_witness:
  "print_msg (ItchMsg_init\<lparr>im_type := OrderDelete, im_order_delete_ref := 12\<rparr>) \<noteq>
   print_msg (ItchMsg_init\<lparr>im_type := OrderDelete, im_order_delete_ref := 120\<rparr>)"
  using printed_line_determines_message[of "ItchMsg_init\<lparr>im_type := OrderDelete, im_order_delete_ref := 12\<rparr>"
      "ItchMsg_init\<lparr>im_type := OrderDelete, im_order_delete_ref := 120\<rparr>"]
  by (auto simp: order_type_def prices_ok_def order_fields_def)

text \<open>
  The statistics of the replay tool are right: the gaps it reports are those the
  sequence tracker counted, the messages are those of the parsed packets, and each per-type counter
  is the number of messages of its types.
\<close>

theorem replay_statistics:
  assumes "length frames < 2 ^ 64" "replay frames = (tr, s)" "ms = concat (map (\<lambda>(now, f). frame_messages f) frames)"
  shows "rs_gaps s = st_gap_count tr \<and> rs_messages s = of_nat (length ms) \<and> type_counts s = tally ms"
proof -
  have "replay_ok 0 (SequenceTracker_new 0, ReplayStats_init)"
    by (simp add: replay_ok_def SequenceTracker_new_def ReplayStats_init_def)
  from replay_fold[OF this, of frames] show ?thesis
    using assms by (simp add: replay_def Let_def ReplayStats_init_def type_counts_def tally_def type_groups_def)
qed

theorem replay_statistics_witness:
  "rs_messages (snd (replay [(0, del_frame)])) = of_nat (length (frame_messages del_frame))"
  using replay_statistics[of "[(0, del_frame)]" "fst (replay [(0, del_frame)])" "snd (replay [(0, del_frame)])"] by simp

text \<open>
  What the replay tool prints ends with the statistics of all frames, whatever the clock returns; with
  a statistics interval of 0 or less nothing else follows the first line.
\<close>

lemma replay_loop_stats: "fst (replay_loop secs interval w fs st r) = fold (\<lambda>(now, f). replay_frame now f) (map (\<lambda>(n, _, f). (n, f)) fs) st"
  by (induction secs interval w fs st r rule: replay_loop.induct) (auto simp: Let_def)

lemma replay_loop_quiet: "interval \<le> 0 \<Longrightarrow> snd (replay_loop secs interval w fs st r) = snd r"
  by (induction secs interval w fs st r rule: replay_loop.induct) (auto simp: Let_def periodic_stats_def)

theorem replay_prints_statistics:
  fixes frames
  defines "stats \<equiv> snd (replay (map (\<lambda>(n, _, f). (n, f)) frames))"
  assumes "2 \<le> length argv"
  shows "\<exists>text. replay_main zero secs rate w w' argv (Some frames) = (0, text @ print_stats rate stats (w' - w))"
    "snd (replay_args zero (drop 2 argv) (True, 10)) \<le> 0 \<Longrightarrow> \<exists>speed.
       replay_main zero secs rate w w' argv (Some frames) =
         (0, bytes_of ''Replaying '' @ (argv ! 1) @ bytes_of '' at '' @ speed @ bytes_of '' speed'' @ [0x0A] @ print_stats rate stats (w' - w))"
proof -
  obtain a i where a: "replay_args zero (drop 2 argv) (True, 10) = (a, i)" by fastforce
  let ?r = "(w, bytes_of ''Replaying '' @ (argv ! 1) @ bytes_of '' at '' @
    (if a then bytes_of ''MAX'' else bytes_of ''1x'') @ bytes_of '' speed'' @ [0x0A])"
  obtain st out where l: "replay_loop secs i w frames (SequenceTracker_new 0, ReplayStats_init) ?r = (st, out)" by fastforce
  have st: "snd st = stats"
    using replay_loop_stats[of secs i w frames "(SequenceTracker_new 0, ReplayStats_init)" ?r] l by (simp add: stats_def replay_def)
  have m: "replay_main zero secs rate w w' argv (Some frames) = (0, out @ print_stats rate stats (w' - w))"
    using assms(2) a l st by (simp add: replay_main_def)
  then show "\<exists>text. replay_main zero secs rate w w' argv (Some frames) = (0, text @ print_stats rate stats (w' - w))" by blast
  assume "snd (replay_args zero (drop 2 argv) (True, 10)) \<le> 0"
  then have "out = snd ?r" using replay_loop_quiet[of i secs w frames _ ?r] a l by (metis snd_conv)
  then show "\<exists>speed. replay_main zero secs rate w w' argv (Some frames) =
      (0, bytes_of ''Replaying '' @ (argv ! 1) @ bytes_of '' at '' @ speed @ bytes_of '' speed'' @ [0x0A] @ print_stats rate stats (w' - w))"
    using m by (intro exI[of _ "if a then bytes_of ''MAX'' else bytes_of ''1x''"]) simp
qed

end
