(* ===== verification/Host_Clock.thy ===== *)
theory Host_Clock
  imports Itch_Prelude
begin

text \<open>
  The clocks of \<^verbatim>\<open>include/common/timestamp.hpp\<close>. What the hardware and the kernel answer is an
  argument: the registers of \<^verbatim>\<open>cpuid\<close>, the counter read by \<^verbatim>\<open>rdtsc\<close>, and the successive results of
  \<^verbatim>\<open>clock_gettime\<close>. The fields of a \<^verbatim>\<open>timespec\<close> are \<^typ>\<open>int\<close>: the code subtracts them as
  \<^verbatim>\<open>long long\<close>, and no difference of clock readings leaves that range. A division by zero traps,
  which is \<^term>\<open>None\<close>.
\<close>

section \<open>Calibration\<close>

record Timespec =
  tv_sec :: int
  tv_nsec :: int

record TscCalibration =
  tc_numer :: u64
  tc_denom :: u64

text \<open>Time from \<open>t0\<close> to \<open>t1\<close> in nanoseconds: as \<^verbatim>\<open>long long\<close>, and as the code computes it in
  \<^verbatim>\<open>uint64_t\<close>.\<close>

definition nanos_between :: "Timespec \<Rightarrow> Timespec \<Rightarrow> int" where
  "nanos_between t0 t1 = (tv_sec t1 - tv_sec t0) * 1000000000 + (tv_nsec t1 - tv_nsec t0)"

definition elapsed_ns :: "Timespec \<Rightarrow> Timespec \<Rightarrow> u64" where
  "elapsed_ns t0 t1 = word_of_int (tv_sec t1 - tv_sec t0) * 1000000000 + word_of_int (tv_nsec t1 - tv_nsec t0)"

text \<open>The loop that waits for ten milliseconds; \<open>clock i\<close> is the reading of iteration \<open>i\<close>.\<close>

partial_function (option) wait_window :: "(nat \<Rightarrow> Timespec) \<Rightarrow> Timespec \<Rightarrow> nat \<Rightarrow> Timespec option" where
  "wait_window clock t0 i =
    (if nanos_between t0 (clock i) < 10000000 then wait_window clock t0 (i + 1) else Some (clock i))"

declare wait_window.simps [code]

record CpuId =
  cpu_eax :: u32
  cpu_ebx :: u32
  cpu_ecx :: u32

definition calibrate_tsc :: "CpuId \<Rightarrow> Timespec \<Rightarrow> (nat \<Rightarrow> Timespec) \<Rightarrow> u64 \<Rightarrow> u64 \<Rightarrow> TscCalibration option" where
  "calibrate_tsc cpu t0 clock tsc0 tsc1 =
    (if cpu_eax cpu \<noteq> 0 \<and> cpu_ebx cpu \<noteq> 0 \<and> cpu_ecx cpu \<noteq> 0
     then Some \<lparr>tc_numer = ucast (cpu_eax cpu) * 1000000000, tc_denom = ucast (cpu_ecx cpu) * ucast (cpu_ebx cpu)\<rparr>
     else map_option (\<lambda>t1. \<lparr>tc_numer = elapsed_ns t0 t1, tc_denom = tsc1 - tsc0\<rparr>) (wait_window clock t0 0))"

section \<open>Reading the clock\<close>

text \<open>On x86-64 the product is formed in 128 bits.\<close>

definition now_ns :: "TscCalibration \<Rightarrow> u64 \<Rightarrow> u64 option" where
  "now_ns c tsc =
    (if tc_denom c = 0 then None
     else Some (ucast (((ucast tsc :: 128 word) * ucast (tc_numer c)) div ucast (tc_denom c))))"

text \<open>On Apple hardware the product is formed in 64 bits.\<close>

definition now_ns_mach :: "u32 \<Rightarrow> u32 \<Rightarrow> u64 \<Rightarrow> u64 option" where
  "now_ns_mach numer denom t = (if denom = 0 then None else Some ((t * ucast numer) div ucast denom))"

text \<open>Elsewhere, and for \<^verbatim>\<open>steady_ns\<close>, the nanoseconds of a clock reading.\<close>

definition timespec_ns :: "Timespec \<Rightarrow> u64" where
  "timespec_ns t = word_of_int (tv_sec t) * 1000000000 + word_of_int (tv_nsec t)"

section \<open>Lemmas\<close>

lemma unat_ucast_up:
  "LENGTH('a::len) \<le> LENGTH('b::len) \<Longrightarrow> unat (ucast (w :: 'a word) :: 'b word) = unat w"
  using less_le_trans[OF unat_bound[of w] power_increasing[of "LENGTH('a)" "LENGTH('b)" 2]]
  by (simp add: unsigned_ucast_eq take_bit_nat_eq_self_iff)

lemma elapsed_ns_exact:
  assumes "0 \<le> nanos_between t0 t1" "nanos_between t0 t1 < 2 ^ 64"
  shows "uint (elapsed_ns t0 t1) = nanos_between t0 t1"
proof -
  have "elapsed_ns t0 t1 = word_of_int (nanos_between t0 t1)"
    by (simp add: elapsed_ns_def nanos_between_def word_of_int_eq_iff)
  then show ?thesis using assms by (simp add: uint_word_of_int)
qed

lemma wait_window_returns:
  assumes "nanos_between t0 (clock n) \<ge> 10000000" "i \<le> n"
  shows "\<exists>j. i \<le> j \<and> j \<le> n \<and> wait_window clock t0 i = Some (clock j) \<and> nanos_between t0 (clock j) \<ge> 10000000"
  using assms(2)
proof (induction "n - i" arbitrary: i)
  case 0
  then show ?case using assms(1) by (auto simp: wait_window.simps[of clock t0 i] intro!: exI[of _ n])
next
  case (Suc k)
  show ?case
  proof (cases "nanos_between t0 (clock i) < 10000000")
    case True
    then obtain j where "i + 1 \<le> j" "j \<le> n" "wait_window clock t0 (i + 1) = Some (clock j)"
      "nanos_between t0 (clock j) \<ge> 10000000"
      using Suc.hyps(1)[of "i + 1"] Suc.hyps(2) by fastforce
    then show ?thesis using True by (intro exI[of _ j]) (simp add: wait_window.simps[of clock t0 i])
  next
    case False
    then show ?thesis using Suc.prems by (intro exI[of _ i]) (simp add: wait_window.simps[of clock t0 i])
  qed
qed

lemma unat_now_ns:
  assumes "tc_denom c \<noteq> 0"
  shows "\<exists>r. now_ns c tsc = Some r \<and>
    unat r = (unat tsc * unat (tc_numer c)) div unat (tc_denom c) mod 2 ^ 64"
proof -
  have "unat tsc * unat (tc_numer c) < 2 ^ 64 * 2 ^ 64"
    using unat_bound[of tsc] unat_bound[of "tc_numer c"] by (intro mult_strict_mono) simp_all
  then have "unat ((ucast tsc :: 128 word) * ucast (tc_numer c)) = unat tsc * unat (tc_numer c)"
    by (simp add: unat_word_ariths unat_ucast_up)
  then have "unat (((ucast tsc :: 128 word) * ucast (tc_numer c)) div ucast (tc_denom c)) =
      (unat tsc * unat (tc_numer c)) div unat (tc_denom c)"
    by (simp add: unat_div unat_ucast_up)
  then show ?thesis using assms by (simp add: now_ns_def unsigned_ucast_eq take_bit_nat_def)
qed

text \<open>The two ways to a calibration: the frequency from \<^verbatim>\<open>cpuid\<close>, or the measured window.\<close>

lemma calibrate_cpuid:
  assumes "cpu_eax cpu \<noteq> 0" "cpu_ebx cpu \<noteq> 0" "cpu_ecx cpu \<noteq> 0"
  shows "\<exists>c. calibrate_tsc cpu t0 clock tsc0 tsc1 = Some c \<and>
    unat (tc_numer c) = unat (cpu_eax cpu) * 1000000000 \<and>
    unat (tc_denom c) = unat (cpu_ecx cpu) * unat (cpu_ebx cpu) \<and> 0 < unat (tc_denom c)"
proof -
  have b: "unat (cpu_ecx cpu) * unat (cpu_ebx cpu) < 2 ^ 32 * 2 ^ 32"
    using unat_bound[of "cpu_ecx cpu"] unat_bound[of "cpu_ebx cpu"] by (intro mult_strict_mono) simp_all
  have "unat (ucast (cpu_eax cpu) * 1000000000 :: u64) = unat (cpu_eax cpu) * 1000000000"
    using unat_bound[of "cpu_eax cpu"] by (simp add: unat_word_ariths unat_ucast_up)
  moreover have "unat (ucast (cpu_ecx cpu) * ucast (cpu_ebx cpu) :: u64) = unat (cpu_ecx cpu) * unat (cpu_ebx cpu)"
    using b by (simp add: unat_word_ariths unat_ucast_up)
  moreover have "0 < unat (cpu_ecx cpu) * unat (cpu_ebx cpu)" using assms by (simp add: unat_gt_0)
  ultimately show ?thesis using assms(1-3) by (simp add: calibrate_tsc_def del: unat_gt_0)
qed

lemma calibrate_window:
  assumes "cpu_eax cpu = 0 \<or> cpu_ebx cpu = 0 \<or> cpu_ecx cpu = 0"
    "10000000 \<le> nanos_between t0 (clock n)" "\<forall>i. nanos_between t0 (clock i) < 2 ^ 64"
  shows "\<exists>c j. calibrate_tsc cpu t0 clock tsc0 tsc1 = Some c \<and> j \<le> n \<and>
    int (unat (tc_numer c)) = nanos_between t0 (clock j) \<and> 10000000 \<le> nanos_between t0 (clock j) \<and>
    tc_denom c = tsc1 - tsc0"
proof -
  obtain j where "j \<le> n" "wait_window clock t0 0 = Some (clock j)" "10000000 \<le> nanos_between t0 (clock j)"
    using wait_window_returns[where clock = clock and i = 0, OF assms(2)] by auto
  then show ?thesis
    using assms(1) elapsed_ns_exact[of t0 "clock j"] assms(3) by (auto simp: calibrate_tsc_def)
qed

section \<open>Properties\<close>

text \<open>
  Property C37. A calibration from the frequency the processor reports turns counter values into
  nanoseconds exactly up to rounding down: at frequency \<open>ecx * ebx / eax\<close> the clock reads the whole
  nanoseconds that have passed since the counter was zero, no product overflows, and until the
  result itself leaves 64 bits (584 years) a later counter value never gives an earlier time.
\<close>

theorem tsc_clock_exact_and_monotone:
  assumes "cpu_eax cpu \<noteq> 0" "cpu_ebx cpu \<noteq> 0" "cpu_ecx cpu \<noteq> 0" "calibrate_tsc cpu t0 clock tsc0 tsc1 = Some c"
    "unat tsc' * (unat (cpu_eax cpu) * 1000000000) < 2 ^ 64 * (unat (cpu_ecx cpu) * unat (cpu_ebx cpu))" "tsc \<le> tsc'"
  shows "\<exists>r r'. now_ns c tsc = Some r \<and> now_ns c tsc' = Some r' \<and> r \<le> r' \<and>
    unat r * (unat (cpu_ecx cpu) * unat (cpu_ebx cpu)) \<le> unat tsc * (unat (cpu_eax cpu) * 1000000000) \<and>
    unat tsc * (unat (cpu_eax cpu) * 1000000000) < Suc (unat r) * (unat (cpu_ecx cpu) * unat (cpu_ebx cpu))"
proof -
  let ?n = "unat (cpu_eax cpu) * 1000000000" and ?d = "unat (cpu_ecx cpu) * unat (cpu_ebx cpu)"
  have c: "unat (tc_numer c) = ?n" "unat (tc_denom c) = ?d" "0 < ?d"
    using calibrate_cpuid[OF assms(1-3), of t0 clock tsc0 tsc1] assms(4) by auto
  then have d: "tc_denom c \<noteq> 0" by auto
  have le: "unat tsc * ?n \<le> unat tsc' * ?n" using assms(6) by (simp add: word_le_nat_alt)
  have small: "unat tsc' * ?n div ?d < 2 ^ 64" "unat tsc * ?n div ?d < 2 ^ 64"
    by (rule less_mult_imp_div_less[OF assms(5)], rule less_mult_imp_div_less[OF le_less_trans[OF le assms(5)]])
  obtain r r' where r: "now_ns c tsc = Some r" "unat r = unat tsc * ?n div ?d"
    "now_ns c tsc' = Some r'" "unat r' = unat tsc' * ?n div ?d"
    using unat_now_ns[OF d, of tsc] unat_now_ns[OF d, of tsc'] small unfolding c by auto
  moreover have "r \<le> r'" using r(2,4) div_le_mono[OF le, of ?d] by (simp add: word_le_nat_alt)
  moreover have "unat tsc * ?n div ?d * ?d \<le> unat tsc * ?n" by (rule div_times_less_eq_dividend)
  moreover have "unat tsc * ?n < Suc (unat tsc * ?n div ?d) * ?d"
    using dividend_less_div_times[OF c(3), of "unat tsc * ?n"] by simp
  ultimately show ?thesis by auto
qed

text \<open>A processor with a 24 MHz crystal and a counter of 3 GHz.\<close>

definition skylake :: CpuId where
  "skylake = \<lparr>cpu_eax = 2, cpu_ebx = 250, cpu_ecx = 24000000\<rparr>"

theorem tsc_clock_exact_and_monotone_witness:
  "\<exists>c r. calibrate_tsc skylake \<lparr>tv_sec = 0, tv_nsec = 0\<rparr> (\<lambda>_. \<lparr>tv_sec = 0, tv_nsec = 0\<rparr>) 0 0 = Some c \<and>
     now_ns c 3000000000 = Some r \<and> unat r = 1000000000"
proof -
  let ?z = "\<lparr>tv_sec = 0, tv_nsec = 0\<rparr>"
  have nz: "cpu_eax skylake \<noteq> 0" "cpu_ebx skylake \<noteq> 0" "cpu_ecx skylake \<noteq> 0" by (simp_all add: skylake_def)
  obtain c where c: "calibrate_tsc skylake ?z (\<lambda>_. ?z) 0 0 = Some c"
    using calibrate_cpuid[OF nz] by blast
  from tsc_clock_exact_and_monotone[OF nz c, of 3000000000 3000000000]
  obtain r where "now_ns c 3000000000 = Some r"
    "unat r * 6000000000 \<le> 6000000000000000000" "6000000000000000000 < Suc (unat r) * 6000000000"
    by (auto simp: skylake_def)
  then show ?thesis using c by (intro exI[of _ c] exI[of _ r]) simp
qed

text \<open>
  Without a frequency from the processor the calibration ends as soon as the
  monotonic clock has moved by ten milliseconds, whatever the readings before, and measures the
  elapsed time exactly across a change of second; then the clock advances by just this time while
  the counter advances by the ticks of the window, unless the counter stood still, in which case
  every reading of the clock divides by zero.
\<close>

theorem tsc_window_calibration:
  assumes "cpu_eax cpu = 0 \<or> cpu_ebx cpu = 0 \<or> cpu_ecx cpu = 0"
    "10000000 \<le> nanos_between t0 (clock n)" "\<forall>i. nanos_between t0 (clock i) < 2 ^ 64"
  shows "\<exists>c j. calibrate_tsc cpu t0 clock tsc0 tsc1 = Some c \<and> j \<le> n \<and> 10000000 \<le> nanos_between t0 (clock j) \<and>
    (if tsc0 = tsc1 then \<forall>tsc. now_ns c tsc = None
     else \<exists>r. now_ns c (tsc1 - tsc0) = Some r \<and> int (unat r) = nanos_between t0 (clock j))"
proof -
  obtain c j where c: "calibrate_tsc cpu t0 clock tsc0 tsc1 = Some c" "j \<le> n"
    "int (unat (tc_numer c)) = nanos_between t0 (clock j)" "10000000 \<le> nanos_between t0 (clock j)"
    "tc_denom c = tsc1 - tsc0"
    using calibrate_window[OF assms] by blast
  show ?thesis
  proof (cases "tsc0 = tsc1")
    case True
    then show ?thesis using c by (intro exI[of _ c] exI[of _ j]) (simp add: now_ns_def)
  next
    case False
    then have d: "tc_denom c \<noteq> 0" using c(5) by simp
    then obtain r where "now_ns c (tsc1 - tsc0) = Some r" "unat r = unat (tc_numer c)"
      using unat_now_ns[OF d, of "tsc1 - tsc0"] c(5) unat_bound[of "tc_numer c"] by (auto simp: unat_gt_0)
    then have "\<exists>r. now_ns c (tsc1 - tsc0) = Some r \<and> int (unat r) = nanos_between t0 (clock j)" using c(3) by metis
    then show ?thesis using c False by metis
  qed
qed

theorem tsc_window_calibration_witness:
  "\<exists>c r. calibrate_tsc \<lparr>cpu_eax = 0, cpu_ebx = 0, cpu_ecx = 0\<rparr> \<lparr>tv_sec = 4, tv_nsec = 995000000\<rparr>
       (\<lambda>i. \<lparr>tv_sec = 5, tv_nsec = 2500000 * int (min i 2)\<rparr>) 100 30000100 = Some c \<and>
     now_ns c 30000000 = Some r \<and> unat r = 10000000"
proof -
  let ?t0 = "\<lparr>tv_sec = 4, tv_nsec = 995000000\<rparr>" and ?clock = "\<lambda>i. \<lparr>tv_sec = 5, tv_nsec = 2500000 * int (min i 2)\<rparr>"
  have up: "nanos_between ?t0 (?clock i) \<le> 10000000" for i by (simp add: nanos_between_def)
  then have "\<forall>i. nanos_between ?t0 (?clock i) < 2 ^ 64" by (intro allI le_less_trans[OF up]) simp
  from tsc_window_calibration[OF _ _ this, of "\<lparr>cpu_eax = 0, cpu_ebx = 0, cpu_ecx = 0\<rparr>" 2 100 30000100]
  obtain c r where "calibrate_tsc \<lparr>cpu_eax = 0, cpu_ebx = 0, cpu_ecx = 0\<rparr> ?t0 ?clock 100 30000100 = Some c"
    "now_ns c 30000000 = Some r" "int (unat r) = 10000000"
    by (auto simp: nanos_between_def)
  then show ?thesis by (intro exI[of _ c] exI[of _ r]) linarith
qed

end
