(* ===== verification/Socket_Setup.thy ===== *)
theory Socket_Setup
  imports Packet_Ring
begin

text \<open>
  Opening and closing of the receive sockets: \<^verbatim>\<open>src/network/socket_receiver.cpp\<close> and the parts of
  \<^verbatim>\<open>src/workers/receiver_thread.cpp\<close> that use it (the receive call itself is in \<open>Packet_Ring\<close>).

  The table of open descriptors of the process is explicit; the results of the system calls and
  of the address conversions \<^verbatim>\<open>inet_pton\<close> and \<^verbatim>\<open>inet_addr\<close> are arguments. Options that only produce
  a warning when they cannot be set (address reuse, buffer size, hardware time stamps) are left out.
\<close>

section \<open>Sockets\<close>

record Socket =
  so_addr :: u32
  so_port :: u16
  so_groups :: "(u32 \<times> u32) list"
  so_nonblock :: bool

type_synonym fd_table = "int \<Rightarrow> Socket option"

record SocketCalls =
  sk_socket :: int
  sk_bind :: bool
  sk_join :: bool
  sk_pton :: "u8 list \<Rightarrow> u32 option"
  sk_inet_addr :: "u8 list \<Rightarrow> u32"

text \<open>The only member of a \<^verbatim>\<open>SocketReceiver\<close> is its descriptor. \<^verbatim>\<open>sockaddr_in sa{}\<close> starts as zeros,
  which an address that cannot be converted leaves as they are.\<close>

definition pton_or_zero :: "SocketCalls \<Rightarrow> u8 list \<Rightarrow> u32" where
  "pton_or_zero k addr = (case sk_pton k addr of None \<Rightarrow> 0 | Some a \<Rightarrow> a)"

definition socket_open :: "SocketCalls \<Rightarrow> u8 list \<Rightarrow> u16 \<Rightarrow> fd_table \<Rightarrow> bool \<times> int \<times> fd_table" where
  "socket_open k addr port fds =
    (let fd = sk_socket k in
     if fd < 0 then (False, fd, fds)
     else let opened = fds(fd \<mapsto> \<lparr>so_addr = 0, so_port = 0, so_groups = [], so_nonblock = False\<rparr>) in
       if \<not> sk_bind k then (False, -1, opened(fd := None))
       else let bound = opened(fd := map_option (\<lambda>s. s\<lparr>so_addr := pton_or_zero k addr, so_port := port\<rparr>) (opened fd))
            in (True, fd, bound(fd := map_option (\<lambda>s. s\<lparr>so_nonblock := True\<rparr>) (bound fd))))"

definition join_multicast :: "SocketCalls \<Rightarrow> u8 list \<Rightarrow> u8 list \<Rightarrow> int \<Rightarrow> fd_table \<Rightarrow> bool \<times> fd_table" where
  "join_multicast k grp iface fd fds =
    (if fd < 0 then (False, fds)
     else if \<not> sk_join k then (False, fds)
     else (True, fds(fd := map_option (\<lambda>s. s\<lparr>so_groups := (pton_or_zero k grp, sk_inet_addr k iface) # so_groups s\<rparr>)
                               (fds fd))))"

definition socket_close :: "int \<Rightarrow> fd_table \<Rightarrow> int \<times> fd_table" where
  "socket_close fd fds = (if 0 \<le> fd then (-1, fds(fd := None)) else (fd, fds))"

section \<open>The receiver thread's socket\<close>

definition receiver_open ::
  "SocketCalls \<Rightarrow> u8 list \<Rightarrow> u16 \<Rightarrow> u8 list \<Rightarrow> u8 list \<Rightarrow> fd_table \<Rightarrow> bool \<times> int \<times> fd_table" where
  "receiver_open k addr port mcast_group mcast_iface fds =
    (case socket_open k addr port fds of
       (False, fd, fds1) \<Rightarrow> (False, fd, fds1)
     | (True, fd, fds1) \<Rightarrow>
         if mcast_group \<noteq> [] then
           case join_multicast k mcast_group mcast_iface fd fds1 of
             (False, fds2) \<Rightarrow> (False, fd, fds2)
           | (True, fds2) \<Rightarrow> (True, fd, fds2)
         else (True, fd, fds1))"

text \<open>The end of \<^verbatim>\<open>stop\<close>, after the thread has been joined.\<close>

definition receiver_stop_socket :: "int \<times> fd_table \<Rightarrow> int \<times> fd_table" where
  "receiver_stop_socket s = socket_close (fst s) (snd s)"

section \<open>Properties\<close>

text \<open>
  Property C36. Opening a receiver succeeds exactly when the socket, the bind and, if a group is
  given, the membership succeed; then one new descriptor is open, bound to the address and port,
  member of the group and not blocking. In every case, success or any failure, stopping the
  receiver leaves the descriptors of the process as they were before. An address that cannot be
  converted is no failure: the socket is then bound to every interface (address 0).
\<close>

theorem receiver_socket_lifecycle:
  assumes "0 \<le> sk_socket k \<Longrightarrow> fds (sk_socket k) = None"
  shows "\<exists>ok fd fds'. receiver_open k addr port grp iface fds = (ok, fd, fds') \<and>
    (ok \<longleftrightarrow> 0 \<le> sk_socket k \<and> sk_bind k \<and> (grp \<noteq> [] \<longrightarrow> sk_join k)) \<and>
    (ok \<longrightarrow> fd = sk_socket k \<and> fds' = fds(fd \<mapsto>
       \<lparr>so_addr = (case sk_pton k addr of Some a \<Rightarrow> a | None \<Rightarrow> 0), so_port = port,
        so_groups = (if grp = [] then [] else [(pton_or_zero k grp, sk_inet_addr k iface)]), so_nonblock = True\<rparr>)) \<and>
    snd (receiver_stop_socket (fd, fds')) = fds \<and> fst (receiver_stop_socket (fd, fds')) < 0"
proof -
  let ?k = "sk_socket k"
  have none: "fds(?k := None) = fds" if "0 \<le> ?k" using assms[OF that] by auto
  consider "?k < 0" | "0 \<le> ?k" "\<not> sk_bind k" | "0 \<le> ?k" "sk_bind k" "grp \<noteq> []" "\<not> sk_join k"
    | "0 \<le> ?k" "sk_bind k" "grp \<noteq> [] \<longrightarrow> sk_join k" by linarith
  then show ?thesis
    by cases (auto simp: receiver_open_def socket_open_def join_multicast_def receiver_stop_socket_def
        socket_close_def pton_or_zero_def none Let_def split: option.splits)
qed

definition join_fails :: SocketCalls where
  "join_fails = \<lparr>sk_socket = 5, sk_bind = True, sk_join = False, sk_pton = (\<lambda>_. None), sk_inet_addr = (\<lambda>_. 0xFFFFFFFF)\<rparr>"

theorem receiver_socket_lifecycle_witness:
  "\<exists>fd fds'. receiver_open join_fails [] 26477 [0x32] [] Map.empty = (False, fd, fds') \<and>
     snd (receiver_stop_socket (fd, fds')) = Map.empty"
  using receiver_socket_lifecycle[of join_fails Map.empty "[]" 26477 "[0x32]" "[]"]
  by (auto simp: join_fails_def)

end
