(* ===== verification/Spec2Isabelle.thy ===== *)
theory Spec2Isabelle
  imports Packet_Stream Message_Union Metrics_Report Host_Clock Socket_Setup
begin

text \<open>
  A verification library for the ITCH 5.0 feed handler, a C++ program that receives NASDAQ
  market data over MoldUDP64 and keeps order books.

  \<^bold>\<open>The program.\<close> Receiver threads put datagrams into packet rings, one for each of the A and B
  feeds (\<^verbatim>\<open>workers/receiver_thread\<close>, \<^verbatim>\<open>network/packet_ring\<close>). The feed merger drops duplicates
  and forwards slots to the parser thread (\<^verbatim>\<open>workers/feed_merger\<close>). The parser thread decodes
  packets (\<^verbatim>\<open>protocol\<close>), follows the sequence numbers, informs the session manager
  (\<^verbatim>\<open>session\<close>) and routes each message to the queue of one of eight shards (\<^verbatim>\<open>routing\<close>). A shard
  worker owns the books of its symbols (\<^verbatim>\<open>workers/shard_worker\<close>, \<^verbatim>\<open>orderbook\<close>) and publishes
  the best bid and offer. The recovery thread requests missing packets and feeds them back
  (\<^verbatim>\<open>workers/recovery_thread\<close>, \<^verbatim>\<open>recovery\<close>); the last sequence number and end-of-day books are
  kept in files. The feed handler (\<^verbatim>\<open>app\<close>) builds all of this from a configuration.

  \<^bold>\<open>The model.\<close> A struct is a record, an enumeration a datatype, an operation a function that
  returns the changed state. Integers keep their width as words; prices and pool indices, which
  the code never lets wrap, are \<open>int\<close> and \<open>nat\<close>. An operation that can run forever or access an
  array outside its bounds returns \<open>fault + 'a\<close>: a loop that ends only under an invariant (the
  probing of the hash table, the advance of the de-duplication window) is a partial function
  with \<open>Diverges\<close> for no result, and the properties show that it ends. No fuel is used. Clock
  reads, system calls, allocations and the TOML library are arguments. Atomics that only one
  thread writes are plain fields; where two threads share data through a protocol of their own
  (the queue, the sequence lock) the accesses are interleaved one by one in a step relation,
  in a sequentially consistent memory. An object that several threads share otherwise appears in
  the record of each; \<open>Feed_Pipeline\<close> puts the threads together, one loop iteration a step, and hands
  what a thread wrote to the others.

  \<^bold>\<open>The theories.\<close>
  \<^item> \<open>Itch_Prelude\<close>: types and constants of \<^verbatim>\<open>common\<close>, faults, shared lemmas, the locale
    \<open>transition_system\<close>. \<open>Host_Bytes\<close>: integers as bytes in files. \<open>Host_Text\<close>: what \<^verbatim>\<open>printf\<close> and
    \<^verbatim>\<open>atoi\<close> do. \<open>Feed_Stats\<close>: the counters.
  \<^item> \<open>Order_Pool\<close>, \<open>Order_Map\<close>: the slab allocator and the Robin Hood hash table, with the
    interfaces \<open>slot_allocator\<close> and \<open>order_index\<close> as locales that they implement. The map refines
    a finite map, every probe ends, find is exact, and insertion followed by erasure is the
    identity.
  \<^item> \<open>Level2_Book\<close>: level arrays, order queues and all handlers. \<open>Book_Queues\<close> and
    \<open>Book_Refinement\<close>: the doubly linked queues represent lists, and every handler refines an
    abstract operation on two sorted lists of queues. \<open>Book_Properties\<close>: the book as a step
    relation; sortedness and best prices in every reachable state; the refinements; dropped
    orders and unknown references; the stale level index. \<open>Book_Frame\<close>: level indices stay right
    while levels change only at the end of an array, and the other books on the same pool and map
    keep their orders. \<open>Book_Steps\<close>: the handlers as operations of an abstract book whose orders are
    found by reference.
  \<^item> \<open>Itch_Messages\<close>, \<open>Itch_Parser\<close>: the wire layout and the parser. Encoded packets of all seven
    types of order messages are parsed back; the output is bounded; a short message is read past its end.
  \<^item> \<open>Sequence_Tracking\<close>: tracker and gap detector; every number is accepted or reported missing.
  \<^item> \<open>Spsc_Queue\<close>: the queue as whole operations (locale \<open>bounded_fifo\<close>) and interleaved. \<open>Seq_Lock\<close>:
    no torn read. \<open>Packet_Ring\<close>, \<open>Feed_Merger\<close>: rings, receiver, de-duplication, failover.
  \<^item> \<open>Shard_Routing\<close>, \<open>Session_Manager\<close>, \<open>Latency_Histogram\<close>, \<open>Shard_Worker\<close>: delivery, session
    changes, published quotes, buckets, dispatch to the books. A percentile is the bucket of the sample
    at that rank of the sorted sample. \<open>Shard_Books\<close>: a shard implements a family of abstract books,
    over any sequence of messages it has room for.
  \<^item> \<open>Persistent_Sequence\<close>, \<open>Parser_Thread\<close>: the durable record and its crash safety; the parser
    loop from slot to queues. \<open>Retransmit_Client\<close>, \<open>Recovery_Thread\<close>: login, requests, recovery.
    \<open>Book_Snapshot\<close>: snapshot files, their round trip when all bytes are written, and what a full
    disk leaves.
  \<^item> \<open>Feed_Handler\<close>: configuration and construction; the start state satisfies every invariant.
  \<^item> \<open>System_Memory\<close>: affinity, scheduling, and every block of memory from its allocation to the
    destructor, whatever allocation fails. \<open>Socket_Setup\<close>: open, join and close. \<open>Host_Clock\<close>: the
    calibrated time stamp counter is exact and monotone below a stated bound.
  \<^item> \<open>Thread_Lifecycle\<close>: start and stop of the workers and the signal handler, as a step relation;
    a requested stop comes to an end (by a measure that every step decreases), with all workers
    joined exactly if none of them hangs in a round of its loop, and the signals for which it does
    not end.
  \<^item> \<open>Metrics_Report\<close>: the report of the metrics thread. \<open>Replay_Tools\<close>: \<^verbatim>\<open>itch_inspect\<close> and \<^verbatim>\<open>pcap_replay\<close>;
    what is printed determines the message. \<open>Message_Union\<close>: the model keeps the members of the
    union in \<^verbatim>\<open>ItchMsg\<close> apart, where the program has them on the same bytes; no reader depends on
    what a member other than that of the tag holds.
  \<^item> \<open>Feed_Pipeline\<close>: all threads on the objects they share (receivers, merger, parser, shard workers,
    recovery, sequence writer, metrics), and \<^verbatim>\<open>main\<close>. \<open>Pipeline_Flow\<close>: one packet from
    the wire to the books. \<open>Packet_Stream\<close>: one packet after the other, through all threads.
  \<^item> This theory: a packet on the wire and the queues of the shards; the invariant of the running
    system; a packet on the wire, the orders in the books and the published quotes; a
    whole feed and the books of all shards; a parser that falls behind.

  \<^bold>\<open>What fails.\<close> The refinements of deletion, reduction and replacement assume that the level
  index stored in the order names its level. The code keeps it so only while no level is made or
  removed before another one, which the refinement of a shard therefore asks of the messages
  (\<open>book_steady\<close>); \<open>stale_level_idx_removes_wrong_level\<close> runs a counterexample. Other statements of
  this kind: \<open>over_execution_wraps\<close>,
  \<open>parse_reads_past_packet\<close>, \<open>dedup_diverges\<close>, \<open>empty_packet_hides_data\<close>,
  \<open>multi_message_packets_raise_gap\<close>, \<open>receiver_full_overwrites_oldest\<close>, \<open>slow_parser_loses_packet\<close>,
  \<open>trading_action_hits_other_symbol\<close>, \<open>recovered_packet_reopens_gap\<close>, \<open>gap_withdrawn_unrecovered\<close>,
  \<open>depth_truncates\<close>, \<open>record_out_of_bounds\<close>, \<open>stop_loses_newest\<close>, \<open>big_book_not_saved\<close>, \<open>unwritten_snapshot_reported_saved\<close>,
  \<open>heap_ring_not_released\<close>, \<open>numa_lookup_diverges\<close>, \<open>signal_on_worker_never_finishes\<close>,
  \<open>early_signal_is_lost\<close>, \<open>writer_not_joined\<close>, \<open>reporter_reads_other_words\<close>.

  \<^bold>\<open>Conditions.\<close> The theorems on the flow from the wire to the books (one packet, a whole feed) are for
  the A feed alone, in an open session, with nothing under way when a packet comes; a shard must be able
  to follow the messages (\<open>feed_ok\<close>: consistent references, levels made and removed at the end of their
  array, room in pool and map), and a message with a receive time is handled within \<open>2^23\<close> ns
  (\<open>timely\<close>), because a longer latency has no bucket and recording it is a fault. As in the code, an
  order added to an unused book puts the book into use; \<^verbatim>\<open>ARCHITECTURE.md\<close> says otherwise.

  \<^bold>\<open>Not modelled.\<close> Logging, socket options whose failure is only logged, the sleeping of the
  replay tool, floating point (rates and the rank of a percentile are arguments), tests and
  benchmarks. Weak memory orders are not modelled, nor is what a power failure leaves of
  unsynchronised files. The threads of \<open>Feed_Pipeline\<close> interleave by whole loop iterations; inside an
  iteration only the queue and the sequence lock are interleaved, in their own theories.
\<close>

section \<open>From a packet to the queues of the shards\<close>

text \<open>
  From the wire to the shards: when a slot holds the packet of a list of order
  messages, encoded as the exchange does, processing it appends to the queue of every shard the
  messages of the shard's locate codes, each with all its fields and in the order of the packet,
  and to no other queue; whatever the sequence number of the packet.
\<close>

theorem order_packet_reaches_shards:
  assumes "length session = 10" "length ms \<le> 128"
    "\<forall>(h, m) \<in> set ms. wf_order m \<and> take_bit 48 (wh_timestamp h) = wh_timestamp h"
    "pkt = enc_packet session seq (map (\<lambda>(h, m). enc_order h m) ms)" "prefix pkt (ps_data s)"
    "unat (ps_length s) = length pkt" "context_ok (pt_ctx pt)"
    "length (lh_buckets (pt_parse_lat pt)) = TOTAL_BUCKETS" "latencies_ok clock (ps_recv_ts s)"
    "\<forall>sh < NUM_SHARDS. length (shard_items (sc_router (pt_ctx pt)) sh) + length ms \<le>
       spsc_cap (sr_queues (sc_router (pt_ctx pt)) ! sh)"
  shows "\<exists>pt'. process_slot now clock s pt = Inr pt' \<and> (\<forall>sh < NUM_SHARDS.
    shard_items (sc_router (pt_ctx pt')) sh = shard_items (sc_router (pt_ctx pt)) sh @
      map (\<lambda>(h, m). dec_order (ps_recv_ts s) h m) (filter (\<lambda>(h, m). shard_for_locate (wh_locate h) = sh) ms))"
proof -
  have n: "length ms < 65535" "int (length ms) \<le> MAX_MSGS_PER_PACKET"
    using assms(2) by (simp_all add: MAX_MSGS_PER_PACKET_def)
  note sp = slot_packet[OF assms(1) n assms(3-6)]
  have le: "length (filter P ms) \<le> length ms" for P by (rule length_filter_le)
  show ?thesis
    using process_slot_stream[OF assms(7,8) sp(2,3) assms(9), of now] assms(10) le
    unfolding sp(1) shard_stream_orders length_map by (meson add_left_mono order_trans)
qed

theorem order_packet_reaches_shards_witness:
  "\<exists>pt'. process_slot 0 (\<lambda>_. 0) small_slot small_parser = Inr pt' \<and>
     shard_items (sc_router (pt_ctx pt')) 3 =
       [dec_order 0 \<lparr>wh_locate = 3, wh_tracking = 0, wh_timestamp = 9\<rparr> (ODelete 7)] \<and>
     shard_items (sc_router (pt_ctx pt')) 2 = []"
proof -
  let ?ms = "[(\<lparr>wh_locate = 3, wh_tracking = 0, wh_timestamp = 9\<rparr>, ODelete 7)]"
  have r: "sc_router (pt_ctx small_parser) = ShardRouter_new FeedStats_init 0" "ps_recv_ts small_slot = 0"
    "context_ok (pt_ctx small_parser)" "length (lh_buckets (pt_parse_lat small_parser)) = TOTAL_BUCKETS"
    "latencies_ok (\<lambda>_. 0) 0"
    using fresh_context_ok[of 0] by (simp_all add: small_parser_def fresh_context_def small_slot_def
        PacketSlot_init_def histogram_init_def latencies_ok_def)
  have room: "\<forall>sh < NUM_SHARDS. length (shard_items (sc_router (pt_ctx small_parser)) sh) + length ?ms \<le>
       spsc_cap (sr_queues (sc_router (pt_ctx small_parser)) ! sh)"
    using router_ok_new(2,3)[where t = 0] by (auto simp: r(1) shard_room_def Suc_le_eq)
  have len: "length small_packet = 41" by (simp add: small_packet_def enc_packet_def)
  have "\<exists>pt'. process_slot 0 (\<lambda>_. 0) small_slot small_parser = Inr pt' \<and> (\<forall>sh < NUM_SHARDS.
    shard_items (sc_router (pt_ctx pt')) sh = shard_items (sc_router (pt_ctx small_parser)) sh @
      map (\<lambda>(h, m). dec_order (ps_recv_ts small_slot) h m) (filter (\<lambda>(h, m). shard_for_locate (wh_locate h) = sh) ?ms))"
    by (rule order_packet_reaches_shards[of "replicate 10 0x31" ?ms small_packet 1])
      (use r room len in \<open>simp_all add: small_packet_def small_slot_def\<close>)
  then show ?thesis
    using router_ok_new(2)[where t = 0] by (auto simp: r NUM_SHARDS_def shard_for_locate_def)
qed

section \<open>The running system\<close>

text \<open>
  Property C13. The program keeps the invariants of all its parts together, in every interleaving
  of its threads: in every state that can be reached from a successful start, by any sequence of
  loop iterations that end without a fault of the receivers, the merger, the parser, the shard workers, the recovery thread,
  the writer of the durable record and the metrics thread, with any datagrams and any results of
  the system calls, the copies of the shared objects agree, both halves of the packet ring hold
  exactly the packets that wait, the merged queue and the deduplication window are consistent, the
  session context with its shard queues and the queue of the durable record are well formed, the
  state file is as it was at the start or holds one whole record, and each of the eight workers has
  its own number and only well formed books, each under its own locate code.
\<close>

theorem running_system_invariant:
  assumes "main_start files k argv = Running fh" "system_step\<^sup>*\<^sup>* fh fh'"
  shows "coherent fh' \<and> live_inv (fh_receiver fh') \<and> recovery_inv (rt_ring (fh_receiver fh')) \<and>
    spsc_wf (fm_merged_queue (fh_feed_merger fh')) \<and> window_ok (fm_dedup (fh_feed_merger fh')) \<and>
    context_ok (pt_ctx (fh_parser fh')) \<and> persist_ok (pt_persist_seq (fh_parser fh')) \<and>
    (state_file fh' = state_file fh \<or>
      (\<exists>seq session. length session = 10 \<and> state_file fh' = Some (PersistRecord_bytes seq session))) \<and>
    length (fh_workers fh') = NUM_SHARDS \<and>
    (\<forall>s < NUM_SHARDS. worker_ok (fh_workers fh' ! s) \<and> sw_shard_id (fh_workers fh' ! s) = s)"
proof -
  have start: "starts fh" using assms(1) by (auto simp: starts_def)
  have "state_file fh' = state_file fh \<or>
      (\<exists>seq session. length session = 10 \<and> state_file fh' = Some (PersistRecord_bytes seq session))"
    by (rule system_run_file[OF assms(2) system.start_inv[OF start]])
  moreover have "system_ok fh'" by (rule system.reachable_inv[OF start assms(2)])
  ultimately show ?thesis
    by (auto simp: system_ok_def merger_ok_def merged_ok_def parser_ok_def workers_ok_def coherent_def Let_def)
qed

theorem running_system_invariant_witness:
  "\<exists>fh fh'. main_start (\<lambda>_. Some good_table) good_init [] = Running fh \<and>
     receive_step (Datagram [1, 2, 3] None) 5 fh = Inr fh' \<and>
     coherent (persist_step \<lparr>sv_open = True, sv_written = 24, sv_rename = True\<rparr> fh') \<and> persist_ok (pt_persist_seq (fh_parser (persist_step \<lparr>sv_open = True, sv_written = 24, sv_rename = True\<rparr> fh'))) \<and>
     worker_ok (fh_workers (persist_step \<lparr>sv_open = True, sv_written = 24, sv_rename = True\<rparr> fh') ! 7)"
proof -
  obtain fh where fh: "main_start (\<lambda>_. Some good_table) good_init [] = Running fh"
    "fh_receiver fh = ReceiverThread_new (ZeroCopyRing_new True)" using good_start by blast
  have "live_at (rt_ring (fh_receiver fh)) 0 0" "rt_write_slot (fh_receiver fh) = of_nat 0"
    using new_ring_inv(1) by (simp_all add: fh(2) ReceiverThread_new_def)
  from receiver_step_room[OF this, of "[1, 2, 3]" None 5]
  obtain rt where "receiver_step (Datagram [1, 2, 3] None) 5 (fh_receiver fh) = Inr rt" by (auto simp: PACKET_RING_DEPTH_def)
  then obtain fh' where step: "receive_step (Datagram [1, 2, 3] None) 5 fh = Inr fh'" by (simp add: receive_step_def)
  have "system_step\<^sup>*\<^sup>* fh (persist_step \<lparr>sv_open = True, sv_written = 24, sv_rename = True\<rparr> fh')"
    by (rule rtranclp.rtrancl_into_rtrancl[OF r_into_rtranclp[of system_step, OF system_step.receive[OF step]] system_step.persist[OF refl]])
  from running_system_invariant[OF fh(1) this] show ?thesis using fh(1) step by (auto simp: NUM_SHARDS_def)
qed

section \<open>From a packet to the books and the published quotes\<close>

text \<open>
  Property C12. From the wire to the readers. A packet of at most 128 order messages, with a sequence
  number the merger has not seen, not behind its window and below \<open>2^64 - 64\<close>, arrives on the A feed
  of a system with nothing under way, with the B feed off, without receive times in the slots (the
  receiver writes none) and in an open session. One iteration each of the receiver, the merger and the parser, and one of
  a shard worker for every message of the packet that belongs to the shard, run without a fault and
  empty the queue of the shard, provided the shard can follow the messages: they use references
  consistently, make and remove price levels at the end of the array only, and the pool and the map
  have room. The books of the shard then hold exactly the orders that the messages of the packet,
  applied in order, give; and of every symbol of theirs whose book is in use (also one put into use
  by an added order, without a directory message), a reader of the published quotes gets the best
  bid and offer among these orders, with the time of the last message of the symbol.
\<close>

theorem order_packet_updates_books:
  fixes ms sh fh
  defines "msgs \<equiv> shard_messages sh 0 ms" and "w \<equiv> fh_workers fh ! sh"
  assumes "idle fh" "is_open (sc_mgr (pt_ctx (fh_parser fh)))" "new_packet fh session seq ms pkt" "sh < NUM_SHARDS"
    "shard_ok w" "feed_ok (shard_capacity w) True msgs (shard_view w)"
    and "AB = fold (spec_dispatch True) msgs (shard_view w)"
  shows "\<exists>fh1 fh2 fh3 fh4. receive_step (Datagram pkt hw) t0 fh = Inr fh1 \<and> merge_step t1 t2 fh1 = Inr fh2 \<and>
    parse_step t3 pclock fh2 = Inr fh3 \<and> shard_steps sh clock 0 (length msgs) fh3 = Inr fh4 \<and>
    contents (shard_queue fh4 sh) = [] \<and> shard_ok (fh_workers fh4 ! sh) \<and> shard_view (fh_workers fh4 ! sh) = AB \<and>
    (\<forall>L \<in> im_locate ` set msgs. sw_book_active (fh_workers fh4 ! sh) ! slab_index L \<longrightarrow>
       bbo_read L (sc_bbo (pt_ctx (fh_parser fh4))) = Inr ((spec_bbo L (AB (slab_index L)))\<lparr>bb_ts := last_time L msgs\<rparr>))"
proof -
  let ?mgr = "sc_mgr (pt_ctx (fh_parser fh))"
  obtain w' where w': "dispatch_all ?mgr clock 0 msgs w = Inr w'" "shard_ok w'" "shard_view w' = AB"
    using dispatch_all_refines[OF assms(7), of ?mgr msgs clock 0] assms(4,8,9) shard_messages_timely by (auto simp: msgs_def)
  have "get_bbo (sw_books w' ! slab_index L)\<lparr>bb_locate := L, bb_ts := t\<rparr> = (spec_bbo L (AB (slab_index L)))\<lparr>bb_ts := t\<rparr>" for L t
    using shard_bbo[OF w'(2) slab_index_bound] w'(3) by (simp add: spec_bbo_def)
  then show ?thesis
    using order_packet_updates_quotes[OF assms(3-6) w'(1)[unfolded w_def msgs_def], of hw t0 t1 t2 t3 pclock] w'(2,3)
    unfolding msgs_def by fastforce
qed

theorem order_packet_updates_books_witness:
  "\<exists>pkt fh1 fh2 fh3 fh4. receive_step (Datagram pkt None) 0 small_system = Inr fh1 \<and> merge_step 0 0 fh1 = Inr fh2 \<and>
     parse_step 0 (\<lambda>_. 0) fh2 = Inr fh3 \<and> shard_steps 1 (\<lambda>_. 0) 0 1 fh3 = Inr fh4 \<and>
     shard_view (fh_workers fh4 ! 1) 0 True = [(100, [(7, 10)])]"
proof -
  obtain pkt where pkt: "new_packet small_system (replicate 10 0x31) 1 small_orders pkt" using small_system_packet(3) by blast
  have ms: "length (shard_messages 1 0 small_orders) = 1"
    by (simp add: shard_messages_def small_orders_def shard_for_locate_def NUM_SHARDS_def)
  have "1 < NUM_SHARDS" by (simp add: NUM_SHARDS_def)
  from order_packet_updates_books[OF small_system_packet(1,2) pkt this small_shard(1,2) small_shard(3)[symmetric],
      of None 0 0 0 0 "\<lambda>_. 0" "\<lambda>_. 0", unfolded ms]
  obtain fh1 fh2 fh3 fh4 where "receive_step (Datagram pkt None) 0 small_system = Inr fh1" "merge_step 0 0 fh1 = Inr fh2"
    "parse_step 0 (\<lambda>_. 0) fh2 = Inr fh3" "shard_steps 1 (\<lambda>_. 0) 0 1 fh3 = Inr fh4"
    "shard_view (fh_workers fh4 ! 1) = two_books [(100, [(7, 10)])] [] [] []" by blast
  moreover have "two_books [(100, [(7, 10)])] [] [] [] 0 True = [(100, [(7, 10)])]" by (simp add: two_books_def)
  ultimately show ?thesis by metis
qed

section \<open>From the feed to the books\<close>

text \<open>
  Property C2. The feed builds the books. Packets of at most 128 order messages arrive one after the
  other on the A feed, with sequence numbers that go up from what the merger has seen and stay below
  \<open>2^64 - 64\<close>, at a system with nothing under way, with the B feed off, without receive times in the
  slots (the receiver writes none) and in an open session; each is handled by the receiver, the
  merger, the parser and all shard workers before the next one comes. If every shard can follow its
  part of the messages (references used consistently, price levels that are made and removed at
  the end of their array only, room for the orders), the system runs without a fault, has nothing
  under way at the end, and every book of every shard holds exactly the orders that the messages of
  the whole feed give, in price and time priority, with the best bid and offer among them. A symbol
  needs no directory message for this: the first order added to an unused book puts it into use.
\<close>

theorem feed_builds_books:
  fixes fh ps
  defines "w0 \<equiv> \<lambda>s. fh_workers fh ! s" and "AB \<equiv> \<lambda>s. fold (spec_dispatch True) (feed_messages s ps) (shard_view (fh_workers fh ! s))"
  assumes "idle fh" "is_open (sc_mgr (pt_ctx (fh_parser fh)))" "fresh_feed session ps (fm_dedup (fh_feed_merger fh))"
    "\<forall>s < NUM_SHARDS. shard_ok (w0 s) \<and> feed_ok (shard_capacity (w0 s)) True (feed_messages s ps) (shard_view (w0 s))"
  shows "\<exists>fh'. handle_packets (map (feed_packet session) ps) t 0 fh = Inr fh' \<and> idle fh' \<and>
    (\<forall>s < NUM_SHARDS. \<forall>i < BOOKS_PER_SHARD.
       (\<forall>side. side_view (book_state (fh_workers fh' ! s) i) side = AB s i (side = Buy)) \<and>
       get_bbo (sw_books (fh_workers fh' ! s) ! i) = spec_bbo (of_nat (i * NUM_SHARDS + s)) (AB s i))"
proof -
  have "\<forall>s < NUM_SHARDS. follows fh s (feed_messages s ps) (AB s)" using assms(6) by (simp add: follows_def w0_def AB_def Let_def)
  from handle_packets_follow[OF assms(3-5) this] obtain fh' where fh': "handle_packets (map (feed_packet session) ps) t 0 fh = Inr fh'"
    "idle fh'" "\<And>s. s < NUM_SHARDS \<Longrightarrow> shard_ok (fh_workers fh' ! s) \<and> shard_view (fh_workers fh' ! s) = AB s" by blast
  have "sw_shard_id (fh_workers fh' ! s) = s" if "s < NUM_SHARDS" for s
    using fh'(2) that by (auto simp: idle_def system_ok_def workers_ok_def)
  then show ?thesis using fh' shard_bbo shard_view_side by metis
qed

theorem feed_builds_books_witness:
  "\<exists>fh'. handle_packets (map (feed_packet (replicate 10 0x31)) small_feed) (\<lambda>_ _. 0) 0 small_system = Inr fh' \<and> idle fh' \<and>
    side_view (book_state (fh_workers fh' ! 1) 0) Buy = [(100, [(7, 6)])] \<and>
    side_view (book_state (fh_workers fh' ! 2) 0) Sell = [(300, [(8, 5)])]"
proof -
  have ok: "\<forall>s < NUM_SHARDS. shard_ok (fh_workers small_system ! s) \<and>
      feed_ok (shard_capacity (fh_workers small_system ! s)) True (feed_messages s small_feed) (shard_view (fh_workers small_system ! s))"
    using small_workers small_feed_messages(2) by simp
  from feed_builds_books[OF small_system_packet(1,2) small_feed_fresh ok, of "\<lambda>_ _. 0"]
  obtain fh' where fh': "handle_packets (map (feed_packet (replicate 10 0x31)) small_feed) (\<lambda>_ _. 0) 0 small_system = Inr fh'" "idle fh'"
    "\<And>s i side. s < NUM_SHARDS \<Longrightarrow> i < BOOKS_PER_SHARD \<Longrightarrow> side_view (book_state (fh_workers fh' ! s) i) side =
       fold (spec_dispatch True) (feed_messages s small_feed) (shard_view (fh_workers small_system ! s)) i (side = Buy)" by blast
  have n: "1 < NUM_SHARDS" "2 < NUM_SHARDS" by (simp_all add: NUM_SHARDS_def)
  have v: "two_books A B C D 0 True = A" "two_books A B C D 0 False = B" for A B C D by (simp_all add: two_books_def)
  have "side_view (book_state (fh_workers fh' ! 1) 0) Buy = [(100, [(7, 6)])]" "side_view (book_state (fh_workers fh' ! 2) 0) Sell = [(300, [(8, 5)])]"
    using fh'(3)[OF n(1) books_pos, of Buy] fh'(3)[OF n(2) books_pos, of Sell] small_workers(2)[OF n(1)] small_workers(2)[OF n(2)]
    by (simp_all only: small_feed_messages(3,4) v Side.distinct simp_thms)
  then show ?thesis using fh'(1,2) by blast
qed

section \<open>A parser that falls behind\<close>

text \<open>
  Property C38. The merger gives a slot back to the receiver when it forwards the slot's index, not
  when the parser has read it. A new packet that waits for the parser in the merged queue
  is overwritten by the 65536th datagram after it, although every datagram found room in the ring
  and nothing is counted as dropped: what the parser finds in the packet's slot is the
  later datagram, and the packet is lost.
\<close>

theorem slow_parser_loses_packet:
  assumes "idle fh" "new_packet fh session seq ms pkt" "length bs = PACKET_RING_DEPTH" "\<forall>b \<in> set bs. datagram b"
  shows "\<exists>fh1 fh2 fh3 mslot s. receive_step (Datagram pkt hw) t0 fh = Inr fh1 \<and> merge_step t1 t2 fh1 = Inr fh2 \<and>
    receive_all bs fh2 = Inr fh3 \<and> contents (pt_merged_queue (fh_parser fh3)) = [mslot] \<and>
    fs_packets_dropped (rt_stats (fh_receiver fh3)) = fs_packets_dropped (rt_stats (fh_receiver fh)) \<and>
    resolve mslot (fh_parser fh3) = Inr s \<and> slot_holds (last bs) s"
proof (rule packet_to_merged[OF assms(1,2), of hw t0 t1 t2])
  fix fh1 fh2 :: FeedHandler and W
  let ?m = "\<lparr>ms_slot_idx = of_nat W :: u16, ms_source = Primary\<rparr>"
  assume r: "receive_step (Datagram pkt hw) t0 fh = Inr fh1" "merge_step t1 t2 fh1 = Inr fh2" and ok2: "system_ok fh2"
    and pt: "contents (pt_merged_queue (fh_parser fh2)) = [?m]" "live_at (pt_primary_ring (fh_parser fh2)) (Suc W) (Suc W)"
    and w: "rt_write_slot (fh_receiver fh2) = of_nat (Suc W)"
    "fs_packets_dropped (rt_stats (fh_receiver fh2)) = fs_packets_dropped (rt_stats (fh_receiver fh))"
  have "live_at (rt_ring (fh_receiver fh2)) (Suc W) (Suc W)" using pt(2) ok2 by (simp add: system_ok_def coherent_def Let_def)
  from receive_all_ring[OF this w(1), of bs] assms(3,4)
  obtain fh3 where f: "receive_all bs fh2 = Inr fh3" "pt_merged_queue (fh_parser fh3) = pt_merged_queue (fh_parser fh2)"
    "fs_packets_dropped (rt_stats (fh_receiver fh3)) = fs_packets_dropped (rt_stats (fh_receiver fh2))"
    "length (zr_buffer (pt_primary_ring (fh_parser fh3))) = PACKET_RING_DEPTH"
    "slot_holds (last bs) (zr_buffer (pt_primary_ring (fh_parser fh3)) ! (W mod PACKET_RING_DEPTH))"
    by (auto simp: PACKET_RING_DEPTH_def)
  have "resolve ?m (fh_parser fh3) = Inr (zr_buffer (pt_primary_ring (fh_parser fh3)) ! (W mod PACKET_RING_DEPTH))"
    using f(4) by (simp add: resolve_def slot_def elem_at_def slot_index_of_nat PACKET_RING_DEPTH_def)
  then show ?thesis using r f pt(1) w(2) by auto
qed

theorem slow_parser_loses_packet_witness:
  "\<exists>pkt fh1 fh2 fh3 mslot s. receive_step (Datagram pkt None) 0 small_system = Inr fh1 \<and> merge_step 0 0 fh1 = Inr fh2 \<and>
    receive_all (replicate PACKET_RING_DEPTH [0x58]) fh2 = Inr fh3 \<and> contents (pt_merged_queue (fh_parser fh3)) = [mslot] \<and>
    resolve mslot (fh_parser fh3) = Inr s \<and> slot_holds [0x58] s"
proof -
  obtain pkt where pkt: "new_packet small_system (replicate 10 0x31) 1 small_orders pkt" using small_system_packet(3) by blast
  have "\<forall>b \<in> set (replicate PACKET_RING_DEPTH [0x58]). datagram b" by (auto simp: datagram_def MAX_UDP_PAYLOAD_def)
  moreover have "last (replicate PACKET_RING_DEPTH [0x58 :: u8]) = [0x58]" by (simp add: PACKET_RING_DEPTH_def)
  ultimately show ?thesis
    using slow_parser_loses_packet[OF small_system_packet(1) pkt, of "replicate PACKET_RING_DEPTH [0x58]" None 0 0 0] by fastforce
qed

end
